(* ===== verification/Resource.thy ===== *)
theory Resource
  imports Prelude
begin

text \<open>
  The neutral resource every pack stores (\<open>internal/core/resource\<close>): its
  tenant, its attributes, the runtime bookkeeping no client sees, and the chain
  of states it still has to pass through. An attribute is a Go value of the
  shapes a handler writes; a number keeps its Go type, because
  \<open>reflect.DeepEqual\<close> tells an \<open>int\<close> from a \<open>float64\<close>. A finite float is a
  rational, so HOL equality on attributes is \<open>reflect.DeepEqual\<close> on them. Time
  is a number of nanoseconds. A nil map of attributes and an empty one read the
  same and are one value here; a nil \<open>Runtime\<close> is \<open>None\<close>.
\<close>

record tenant =
  provider :: string
  project :: string
  zone :: string

datatype gonum = Float64 | Float32 | GoInt | GoInt64 | GoUint32 | GoUint64

datatype attr =
    ANil
  | ABool bool
  | AString string
  | ANumber gonum rat
  | AList "attr list"
  | AMap "string \<Rightarrow> attr option"

record resource =
  rid :: string
  kind :: string
  tenant :: tenant
  rstate :: string
  created :: int
  updated :: int
  attrs :: "string \<rightharpoonup> attr"
  runtime :: "(string \<rightharpoonup> string) option"
  pending :: "string list"
  pendingOnlySignal :: bool

text \<open>\<open>New\<close>: both clocks from one moment, no attribute yet.\<close>

definition new_resource :: "string \<Rightarrow> string \<Rightarrow> tenant \<Rightarrow> string \<Rightarrow> int \<Rightarrow> resource" where
  "new_resource i k t st now =
     \<lparr>rid = i, kind = k, tenant = t, rstate = st, created = now, updated = now,
      attrs = Map.empty, runtime = None, pending = [], pendingOnlySignal = False\<rparr>"

text \<open>
  \<open>Clone\<close>: the maps and the chain are copied key by key, the rest is carried
  over. As values the copy and the original are equal; what the copy is for is
  that a caller who changes it does not change the stored one.
\<close>

definition clone :: "resource \<Rightarrow> resource" where
  "clone r =
     r\<lparr>attrs := (\<lambda>k. attrs r k),
       runtime := (case runtime r of None \<Rightarrow> None | Some m \<Rightarrow> Some (\<lambda>k. m k)),
       pending := map (\<lambda>p. p) (pending r),
       pendingOnlySignal := pendingOnlySignal r\<rparr>"

lemma clone_id [simp]: "clone r = r"
  by (simp add: clone_def split: option.split)

lemma map_clone [simp]: "map clone rs = rs"
  by (simp add: map_idI)

text \<open>\<open>Matches\<close>: an empty field of the filter matches anything.\<close>

definition matches :: "resource \<Rightarrow> tenant \<Rightarrow> bool" where
  "matches r t =
     (if provider t \<noteq> [] \<and> provider t \<noteq> provider (tenant r) then False
      else if project t \<noteq> [] \<and> project t \<noteq> project (tenant r) then False
      else if zone t \<noteq> [] \<and> zone t \<noteq> zone (tenant r) then False
      else True)"

text \<open>Reading the runtime map, a nil one included (\<open>res.Runtime[key]\<close>, empty when absent).\<close>

definition rt :: "resource \<Rightarrow> string \<rightharpoonup> string" where
  "rt r = option_or Map.empty (runtime r)"

definition rt_get :: "resource \<Rightarrow> string \<Rightarrow> string" where
  "rt_get r k = option_or [] (rt r k)"

text \<open>
  Writing it: every writer makes the map first when it is nil; deleting from a
  nil map does nothing.
\<close>

definition rt_set :: "resource \<Rightarrow> string \<Rightarrow> string \<Rightarrow> resource" where
  "rt_set r k v = r\<lparr>runtime := Some ((rt r)(k \<mapsto> v))\<rparr>"

definition rt_del :: "resource \<Rightarrow> string \<Rightarrow> resource" where
  "rt_del r k = r\<lparr>runtime := map_option (\<lambda>m. m(k := None)) (runtime r)\<rparr>"

lemma rt_get_rt_set [simp]: "rt_get (rt_set r k v) j = (if j = k then v else rt_get r j)"
  by (simp add: rt_get_def rt_set_def rt_def)

lemma rt_get_rt_del [simp]: "rt_get (rt_del r k) j = (if j = k then [] else rt_get r j)"
  by (cases "runtime r") (simp_all add: rt_get_def rt_del_def rt_def)

lemma rt_set_fields [simp]:
  "rid (rt_set r k v) = rid r" "rstate (rt_set r k v) = rstate r" "attrs (rt_set r k v) = attrs r"
  "tenant (rt_set r k v) = tenant r" "pending (rt_set r k v) = pending r"
  "kind (rt_set r k v) = kind r"
  by (simp_all add: rt_set_def)

lemma rt_del_fields [simp]:
  "rid (rt_del r k) = rid r" "rstate (rt_del r k) = rstate r" "attrs (rt_del r k) = attrs r"
  "tenant (rt_del r k) = tenant r" "pending (rt_del r k) = pending r"
  "kind (rt_del r k) = kind r"
  by (simp_all add: rt_del_def)

end
