(* ===== verification/Store.thy ===== *)
theory Store
  imports Resource
begin

text \<open>
  The in-memory store (\<open>internal/core/store/store.go\<close>). Its map is an
  association list with distinct keys, whose order is the order in which a Go
  \<open>range\<close> happens to visit the map; the properties say which answers do not
  depend on it. A method that takes the write lock is one step from store to
  store, a method that calls the observer appends to \<open>trail\<close> when one is
  registered.
\<close>

section \<open>State\<close>

datatype action = EventCreated | EventRead | EventUpdated | EventDeleted | EventListed

record event =
  ev_action :: action
  ev_provider :: string
  ev_kind :: string
  ev_id :: string

record store =
  items :: "(string \<times> resource) list"
  observed :: bool
  trail :: "event list"
  eventual :: bool
  onlySignal :: int

definition new_store :: store where
  "new_store = \<lparr>items = [], observed = False, trail = [], eventual = False, onlySignal = 0\<rparr>"

definition key :: "string \<Rightarrow> string \<Rightarrow> string \<Rightarrow> string" where
  "key p k i = p @ ''|'' @ k @ ''|'' @ i"

definition key_of :: "resource \<Rightarrow> string" where
  "key_of r = key (provider (tenant r)) (kind r) (rid r)"

section \<open>Pending chains\<close>

definition walkable :: "resource option \<Rightarrow> bool" where
  "walkable r = (case r of None \<Rightarrow> False | Some x \<Rightarrow> pendingOnlySignal x \<and> pending x \<noteq> [])"

definition countOnlySignal :: "store \<Rightarrow> resource option \<Rightarrow> resource option \<Rightarrow> store" where
  "countOnlySignal s before after =
     (let n = (if walkable before then onlySignal s - 1 else onlySignal s);
          m = (if walkable after then n + 1 else n)
      in s\<lparr>onlySignal := m\<rparr>)"

definition set_eventual :: "store \<Rightarrow> bool \<Rightarrow> store" where
  "set_eventual s on = s\<lparr>eventual := on\<rparr>"

definition advancing :: "store \<Rightarrow> bool" where
  "advancing s = (eventual s \<or> onlySignal s > 0)"

text \<open>One observation of a stored resource: the mode, the resource, and what the tally loses.\<close>

definition advance :: "bool \<Rightarrow> resource \<Rightarrow> resource \<times> int" where
  "advance ev r =
     (case pending r of
        [] \<Rightarrow> (r, 0)
      | p # ps \<Rightarrow>
          (if \<not> ev \<and> \<not> pendingOnlySignal r then (r, 0)
           else
             (let r' = r\<lparr>rstate := p, pending := ps\<rparr> in
              if ps = [] \<and> pendingOnlySignal r' then (r'\<lparr>pendingOnlySignal := False\<rparr>, 1)
              else (r', 0))))"

section \<open>Observation\<close>

definition observe :: "store \<Rightarrow> store" where
  "observe s = s\<lparr>observed := True\<rparr>"

definition notify :: "store \<Rightarrow> action \<Rightarrow> string \<Rightarrow> string \<Rightarrow> string \<Rightarrow> store" where
  "notify s a p k i =
     (if observed s
      then s\<lparr>trail := trail s @ [\<lparr>ev_action = a, ev_provider = p, ev_kind = k, ev_id = i\<rparr>]\<rparr>
      else s)"

section \<open>Operations\<close>

definition put :: "store \<Rightarrow> resource \<Rightarrow> store" where
  "put s r =
     (let k = key (provider (tenant r)) (kind r) (rid r);
          before = map_of (items s) k;
          stored = clone r;
          s1 = s\<lparr>items := AList.update k stored (items s)\<rparr>;
          s2 = countOnlySignal s1 before (Some stored);
          a = (if before \<noteq> None then EventUpdated else EventCreated)
      in notify s2 a (provider (tenant r)) (kind r) (rid r))"

definition get :: "store \<Rightarrow> string \<Rightarrow> string \<Rightarrow> string \<Rightarrow> store \<times> resource option" where
  "get s p k i =
     (if advancing s then
        (case map_of (items s) (key p k i) of
           None \<Rightarrow> (s, None)
         | Some r \<Rightarrow>
             (let (r', d) = advance (eventual s) r;
                  s' = s\<lparr>items := AList.update (key p k i) r' (items s), onlySignal := onlySignal s - d\<rparr>
              in (notify s' EventRead p k i, Some (clone r'))))
      else
        (case map_of (items s) (key p k i) of
           None \<Rightarrow> (s, None)
         | Some r \<Rightarrow> (notify s EventRead p k i, Some (clone r))))"

definition peek :: "store \<Rightarrow> string \<Rightarrow> string \<Rightarrow> string \<Rightarrow> store \<times> resource option" where
  "peek s p k i =
     (case map_of (items s) (key p k i) of
        None \<Rightarrow> (s, None)
      | Some r \<Rightarrow> (notify s EventRead p k i, Some (clone r)))"

datatype 'e store_error = ErrNotFound | ChangeFailed 'e

definition update_res ::
  "store \<Rightarrow> string \<Rightarrow> string \<Rightarrow> string \<Rightarrow> (resource \<Rightarrow> 'e + resource) \<Rightarrow> store \<times> 'e store_error option"
where
  "update_res s p k i change =
     (case map_of (items s) (key p k i) of
        None \<Rightarrow> (s, Some ErrNotFound)
      | Some r \<Rightarrow>
          (case change (clone r) of
             Inl e \<Rightarrow> (s, Some (ChangeFailed e))
           | Inr draft \<Rightarrow>
               (let s1 = s\<lparr>items := AList.update (key p k i) draft (items s)\<rparr>;
                    s2 = countOnlySignal s1 (Some r) (Some draft)
                in (notify s2 EventUpdated p k i, None))))"

text \<open>\<open>mergeMap\<close> and \<open>mergeRuntime\<close>: the loop over the result, then the loop over the base.\<close>

definition mergeMap :: "('k \<rightharpoonup> 'v) \<Rightarrow> ('k \<rightharpoonup> 'v) \<Rightarrow> ('k \<rightharpoonup> 'v) \<Rightarrow> ('k \<rightharpoonup> 'v)" where
  "mergeMap stored base res =
     (let written = (\<lambda>k. case res k of
            None \<Rightarrow> stored k
          | Some v \<Rightarrow> (if base k = None \<or> base k \<noteq> Some v then Some v else stored k))
      in (\<lambda>k. if base k \<noteq> None \<and> res k = None then None else written k))"

definition mergeRuntime ::
  "(string \<rightharpoonup> string) option \<Rightarrow> (string \<rightharpoonup> string) \<Rightarrow> (string \<rightharpoonup> string) \<Rightarrow> (string \<rightharpoonup> string) option"
where
  "mergeRuntime stored base res =
     (let stored' = (if stored = None \<and> res \<noteq> Map.empty then Some Map.empty else stored)
      in map_option (\<lambda>m. mergeMap m base res) stored')"

definition commit_change :: "resource \<Rightarrow> resource \<Rightarrow> int \<Rightarrow> resource \<Rightarrow> resource" where
  "commit_change base res now stored =
     (let s1 = (if rstate base \<noteq> rstate res then stored\<lparr>rstate := rstate res\<rparr> else stored);
          s2 = s1\<lparr>attrs := mergeMap (attrs s1) (attrs base) (attrs res)\<rparr>;
          s3 = s2\<lparr>runtime := mergeRuntime (runtime s2) (rt base) (rt res)\<rparr>;
          s4 = (if pending base \<noteq> pending res
                then s3\<lparr>pending := pending res, pendingOnlySignal := pendingOnlySignal res\<rparr>
                else s3)
      in s4\<lparr>updated := now\<rparr>)"

definition commit :: "store \<Rightarrow> resource \<Rightarrow> resource \<Rightarrow> int \<Rightarrow> store \<times> bool" where
  "commit s base res now =
     (let (s', e) = update_res s (provider (tenant res)) (kind res) (rid res)
            (\<lambda>stored. Inr (commit_change base res now stored) :: unit + resource)
      in (s', e = None))"

definition delete :: "store \<Rightarrow> string \<Rightarrow> string \<Rightarrow> string \<Rightarrow> store \<times> bool" where
  "delete s p k i =
     (let before = map_of (items s) (key p k i);
          s1 = s\<lparr>items := AList.delete (key p k i) (items s)\<rparr>;
          s2 = countOnlySignal s1 before None
      in (if before \<noteq> None then notify s2 EventDeleted p k i else s2, before \<noteq> None))"

section \<open>Listing\<close>

text \<open>
  The order both branches of \<open>List\<close> and \<open>All\<close> apply: creation time, then
  identifier. Go's \<open>sort.Slice\<close> leaves open how two resources that agree on both
  are ordered; the model keeps the order of the map's iteration there, and the
  properties on the order ask for no such pair.
\<close>

definition age :: "resource \<Rightarrow> int \<times> string" where
  "age r = (created r, rid r)"

definition sortByCreation :: "resource list \<Rightarrow> resource list" where
  "sortByCreation out = sort_key age out"

text \<open>The locked loop of \<open>List\<close>: every match is advanced where it is stored, then copied.\<close>

fun list_advancing ::
  "bool \<Rightarrow> string \<Rightarrow> tenant \<Rightarrow> (string \<times> resource) list \<Rightarrow> (string \<times> resource) list \<times> resource list \<times> int"
where
  "list_advancing ev k t [] = ([], [], 0)"
| "list_advancing ev k t ((n, r) # xs) =
     (let (ys, out, d) = list_advancing ev k t xs in
      if kind r = k \<and> matches r t then
        (let (r', d') = advance ev r in ((n, r') # ys, clone r' # out, d' + d))
      else ((n, r) # ys, out, d))"

definition list_res :: "store \<Rightarrow> string \<Rightarrow> tenant \<Rightarrow> store \<times> resource list" where
  "list_res s k t =
     (if advancing s then
        (let (ys, out, d) = list_advancing (eventual s) k t (items s);
             s' = s\<lparr>items := ys, onlySignal := onlySignal s - d\<rparr>
         in (notify s' EventListed (provider t) k [], sortByCreation out))
      else
        (let out = map clone (filter (\<lambda>r. kind r = k \<and> matches r t) (map snd (items s)))
         in (notify s EventListed (provider t) k [], sortByCreation out)))"

definition all_res :: "store \<Rightarrow> resource list" where
  "all_res s = sortByCreation (map (\<lambda>(k, r). clone r) (items s))"

definition len_store :: "store \<Rightarrow> nat" where
  "len_store s = length (items s)"

section \<open>Snapshots\<close>

text \<open>
  The envelope a snapshot is written in, and what \<open>json.Decoder\<close> makes of the
  bytes \<open>Restore\<close> reads: no envelope (not JSON, or a field nobody declares), a
  bare array, or an envelope whose resources may hold null. The JSON text itself
  is the library's and is not modelled.
\<close>

record snapshot_file =
  sf_format :: string
  sf_version :: int
  sf_resources :: "resource option list"

datatype decoded = NotAnEnvelope string | BareArray | Envelope snapshot_file

datatype restore_error = LegacyArray | Undecodable string | WrongFormat string | WrongVersion int

definition snapshotFormat :: string where
  "snapshotFormat = ''feint-snapshot''"

definition snapshotVersion :: int where
  "snapshotVersion = 1"

definition snapshot :: "store \<Rightarrow> snapshot_file" where
  "snapshot s =
     (let keys = sort (map fst (items s));
          rs = map (\<lambda>k. map_of (items s) k) keys
      in \<lparr>sf_format = snapshotFormat, sf_version = snapshotVersion, sf_resources = rs\<rparr>)"

fun restore_all :: "store \<Rightarrow> resource option list \<Rightarrow> store" where
  "restore_all s [] = s"
| "restore_all s (None # rs) = restore_all s rs"
| "restore_all s (Some r # rs) =
     (let k = key (provider (tenant r)) (kind r) (rid r);
          s1 = countOnlySignal s (map_of (items s) k) (Some r)
      in restore_all (s1\<lparr>items := AList.update k r (items s1)\<rparr>) rs)"

definition restore :: "store \<Rightarrow> decoded \<Rightarrow> store \<times> restore_error option" where
  "restore s d =
     (case d of
        BareArray \<Rightarrow> (s, Some LegacyArray)
      | NotAnEnvelope e \<Rightarrow> (s, Some (Undecodable e))
      | Envelope f \<Rightarrow>
          (if sf_format f \<noteq> snapshotFormat then (s, Some (WrongFormat (sf_format f)))
           else if sf_version f \<noteq> snapshotVersion then (s, Some (WrongVersion (sf_version f)))
           else (restore_all (s\<lparr>items := []\<rparr>) (sf_resources f), None)))"

section \<open>Basic facts\<close>

abbreviation cell :: "store \<Rightarrow> string \<times> string \<times> string \<Rightarrow> resource option" where
  "cell s a \<equiv> (case a of (p, k, i) \<Rightarrow> map_of (items s) (key p k i))"

lemma notify_fields [simp]:
  "items (notify s a p k i) = items s" "onlySignal (notify s a p k i) = onlySignal s"
  "eventual (notify s a p k i) = eventual s" "observed (notify s a p k i) = observed s"
  by (simp_all add: notify_def)

lemma countOnlySignal_fields [simp]:
  "items (countOnlySignal s a b) = items s" "eventual (countOnlySignal s a b) = eventual s"
  "observed (countOnlySignal s a b) = observed s" "trail (countOnlySignal s a b) = trail s"
  by (simp_all add: countOnlySignal_def Let_def)

lemma map_of_update_cell [simp]:
  "map_of (AList.update k v xs) j = (if j = k then Some v else map_of xs j)"
  by (simp add: update_conv)

lemma map_of_delete_cell [simp]:
  "map_of (AList.delete k xs) j = (if j = k then None else map_of xs j)"
  by (simp add: delete_conv)

text \<open>
  The key is injective as long as the provider and the kind hold no bar, which
  is what a pack's names look like; an identifier may hold any byte.
\<close>

lemma append_bar_inject:
  "c \<notin> set x \<Longrightarrow> c \<notin> set y \<Longrightarrow> x @ c # u = y @ c # v \<Longrightarrow> x = y \<and> u = v"
proof (induction x arbitrary: y)
  case Nil
  then show ?case by (cases y) auto
next
  case (Cons d x)
  then show ?case by (cases y) auto
qed

lemma key_inject:
  assumes "CHR ''|'' \<notin> set p" "CHR ''|'' \<notin> set k" "CHR ''|'' \<notin> set q" "CHR ''|'' \<notin> set l"
    and "key p k i = key q l j"
  shows "p = q \<and> k = l \<and> i = j"
  using assms append_bar_inject [of "CHR ''|''" p q "k @ CHR ''|'' # i" "l @ CHR ''|'' # j"]
    append_bar_inject [of "CHR ''|''" k l i j]
  by (simp add: key_def)

end
