(* ===== verification/Encoding.thy ===== *)
theory Encoding
  imports Prelude
begin

unbundle bit_operations_syntax

text \<open>
  The three encodings of Go's standard library the program uses on bytes:
  \<open>encoding/base64\<close> (the standard alphabet, padded), \<open>encoding/hex\<close> and
  \<open>crypto/md5\<close>. A byte is an 8-bit character.
\<close>

section \<open>Base64\<close>

definition b64_alphabet :: string where
  "b64_alphabet = ''ABCDEFGHIJKLMNOPQRSTUVWXYZabcdefghijklmnopqrstuvwxyz0123456789+/''"

definition b64_char :: "nat \<Rightarrow> char" where
  "b64_char n = b64_alphabet ! (n mod 64)"

definition b64_val :: "char \<Rightarrow> nat option" where
  "b64_val c = (case find (\<lambda>n. b64_alphabet ! n = c) [0..<64] of None \<Rightarrow> None | Some n \<Rightarrow> Some n)"

definition byte :: "nat \<Rightarrow> char" where
  "byte n = char_of n"

abbreviation ord :: "char \<Rightarrow> nat" where
  "ord c \<equiv> of_char c"

fun b64_encode :: "string \<Rightarrow> string" where
  "b64_encode [] = []"
| "b64_encode [a] =
     (let n = ord a * 65536 in [b64_char (n div 262144), b64_char (n div 4096), CHR ''='', CHR ''=''])"
| "b64_encode [a, b] =
     (let n = ord a * 65536 + ord b * 256
      in [b64_char (n div 262144), b64_char (n div 4096), b64_char (n div 64), CHR ''=''])"
| "b64_encode (a # b # c # s) =
     (let n = ord a * 65536 + ord b * 256 + ord c
      in b64_char (n div 262144) # b64_char (n div 4096) # b64_char (n div 64) # b64_char n # b64_encode s)"

text \<open>
  \<open>StdEncoding.DecodeString\<close> on a string without line breaks, which is all the
  program hands it: quantums of four, padding only in the last one, and the bits
  a padded quantum has too many are ignored.
\<close>

fun b64_decode :: "string \<Rightarrow> string option" where
  "b64_decode [] = Some []"
| "b64_decode (a # b # c # d # s) =
     (case (b64_val a, b64_val b, b64_val c, b64_val d) of
        (Some u, Some v, Some w, Some x) \<Rightarrow>
          (let n = u * 262144 + v * 4096 + w * 64 + x
           in map_option (\<lambda>t. byte (n div 65536) # byte (n div 256) # byte n # t) (b64_decode s))
      | (Some u, Some v, Some w, None) \<Rightarrow>
          (if d = CHR ''='' \<and> s = [] then
             (let n = u * 262144 + v * 4096 + w * 64 in Some [byte (n div 65536), byte (n div 256)])
           else None)
      | (Some u, Some v, None, None) \<Rightarrow>
          (if c = CHR ''='' \<and> d = CHR ''='' \<and> s = [] then
             (let n = u * 262144 + v * 4096 in Some [byte (n div 65536)])
           else None)
      | _ \<Rightarrow> None)"
| "b64_decode _ = None"

section \<open>Hex\<close>

definition hex_byte :: "char \<Rightarrow> string" where
  "hex_byte c = [digit_char (ord c div 16), digit_char (ord c mod 16)]"

definition hex_encode :: "string \<Rightarrow> string" where
  "hex_encode s = concat (map hex_byte s)"

section \<open>MD5\<close>

definition md5_k :: "32 word list" where
  "md5_k = [
      0xd76aa478, 0xe8c7b756, 0x242070db, 0xc1bdceee, 0xf57c0faf, 0x4787c62a, 0xa8304613, 0xfd469501,
      0x698098d8, 0x8b44f7af, 0xffff5bb1, 0x895cd7be, 0x6b901122, 0xfd987193, 0xa679438e, 0x49b40821,
      0xf61e2562, 0xc040b340, 0x265e5a51, 0xe9b6c7aa, 0xd62f105d, 0x2441453, 0xd8a1e681, 0xe7d3fbc8,
      0x21e1cde6, 0xc33707d6, 0xf4d50d87, 0x455a14ed, 0xa9e3e905, 0xfcefa3f8, 0x676f02d9, 0x8d2a4c8a,
      0xfffa3942, 0x8771f681, 0x6d9d6122, 0xfde5380c, 0xa4beea44, 0x4bdecfa9, 0xf6bb4b60, 0xbebfbc70,
      0x289b7ec6, 0xeaa127fa, 0xd4ef3085, 0x4881d05, 0xd9d4d039, 0xe6db99e5, 0x1fa27cf8, 0xc4ac5665,
      0xf4292244, 0x432aff97, 0xab9423a7, 0xfc93a039, 0x655b59c3, 0x8f0ccc92, 0xffeff47d, 0x85845dd1,
      0x6fa87e4f, 0xfe2ce6e0, 0xa3014314, 0x4e0811a1, 0xf7537e82, 0xbd3af235, 0x2ad7d2bb, 0xeb86d391]"

definition md5_s :: "nat list" where
  "md5_s = concat (replicate 4 [7, 12, 17, 22]) @ concat (replicate 4 [5, 9, 14, 20]) @
     concat (replicate 4 [4, 11, 16, 23]) @ concat (replicate 4 [6, 10, 15, 21])"

type_synonym md5_state = "32 word \<times> 32 word \<times> 32 word \<times> 32 word"

fun md5_round :: "32 word list \<Rightarrow> md5_state \<Rightarrow> nat \<Rightarrow> md5_state" where
  "md5_round m (a, b, c, d) i =
     (let (f, g) =
        (if i < 16 then ((b AND c) OR (NOT b AND d), i)
         else if i < 32 then ((d AND b) OR (NOT d AND c), (5 * i + 1) mod 16)
         else if i < 48 then (b XOR c XOR d, (3 * i + 5) mod 16)
         else (c XOR (b OR NOT d), (7 * i) mod 16))
      in (d, b + word_rotl (md5_s ! i) (f + a + md5_k ! i + m ! g), b, c))"

fun md5_block :: "md5_state \<Rightarrow> 32 word list \<Rightarrow> md5_state" where
  "md5_block (a, b, c, d) m =
     (let (a', b', c', d') = foldl (md5_round m) (a, b, c, d) [0..<64]
      in (a + a', b + b', c + c', d + d'))"

fun le_words :: "string \<Rightarrow> 32 word list" where
  "le_words (a # b # c # d # s) =
     of_nat (ord a + 256 * ord b + 65536 * ord c + 16777216 * ord d) # le_words s"
| "le_words _ = []"

fun word_chunks :: "32 word list \<Rightarrow> 32 word list list" where
  "word_chunks [] = []"
| "word_chunks (w # ws) = take 16 (w # ws) # word_chunks (drop 15 ws)"

definition le_bytes :: "nat \<Rightarrow> nat \<Rightarrow> string" where
  "le_bytes k n = map (\<lambda>i. byte (n div 256 ^ i)) [0..<k]"

definition md5_padded :: "string \<Rightarrow> string" where
  "md5_padded s =
     (let l = length s in
      s @ CHR 0x80 # replicate ((119 - l mod 64) mod 64) CHR 0x00 @ le_bytes 8 (8 * l))"

definition md5_sum :: "string \<Rightarrow> string" where
  "md5_sum s =
     (let (a, b, c, d) = foldl md5_block (0x67452301, 0xefcdab89, 0x98badcfe, 0x10325476)
        (word_chunks (le_words (md5_padded s)))
      in concat (map (\<lambda>w. le_bytes 4 (unat w)) [a, b, c, d]))"

section \<open>Facts\<close>

lemma length_md5_sum [simp]: "length (md5_sum s) = 16"
  by (simp add: md5_sum_def le_bytes_def split: prod.split)

lemma b64_alphabet_nth: "n < 64 \<Longrightarrow> b64_val (b64_alphabet ! n) = Some n"
proof -
  have "list_all (\<lambda>n. b64_val (b64_alphabet ! n) = Some n) [0..<64]"
    by code_simp
  then show "n < 64 \<Longrightarrow> b64_val (b64_alphabet ! n) = Some n" by (simp add: list_all_iff)
qed

lemma b64_val_char [simp]: "b64_val (b64_char n) = Some (n mod 64)"
  by (simp add: b64_char_def b64_alphabet_nth)

lemma b64_pad [simp]: "b64_val CHR ''='' = None"
  by code_simp

lemma b64_char_alphabet: "b64_char n \<in> set b64_alphabet"
  unfolding b64_char_def by (rule nth_mem) (simp add: b64_alphabet_def)

lemma byte_of_char [simp]: "byte (ord c) = c"
  by (simp add: byte_def)

lemma byte_mod: "n mod 256 = of_char c \<Longrightarrow> byte n = c"
  unfolding byte_def by (metis char_of_mod_256 char_of_char)

lemma sextets:
  assumes "n < (16777216 :: nat)"
  shows "n div 262144 mod 64 * 262144 + n div 4096 mod 64 * 4096 + n div 64 mod 64 * 64 + n mod 64 = n"
proof -
  have "n mod 4096 = 64 * (n div 64 mod 64) + n mod 64" using mod_mult2_eq [of n 64 64] by simp
  moreover have "n mod 262144 = 4096 * (n div 4096 mod 64) + n mod 4096" using mod_mult2_eq [of n 4096 64] by simp
  moreover have "n div 262144 mod 64 = n div 262144" using assms by simp
  moreover have "n = 262144 * (n div 262144) + n mod 262144" by simp
  ultimately show ?thesis by linarith
qed

lemma octets:
  fixes a b c :: char
  defines "n \<equiv> (ord a * 65536 + ord b * 256 + ord c :: nat)"
  shows "n < 16777216" "byte (n div 65536) = a" "byte (n div 256) = b" "byte n = c"
proof -
  have lt: "ord a < (256 :: nat)" "ord b < (256 :: nat)" "ord c < (256 :: nat)" by simp_all
  then show "n < 16777216" unfolding n_def by linarith
  have bc: "ord c + ord b * 256 < (65536 :: nat)" using lt by linarith
  have "n div 65536 = ord a" unfolding n_def by (rule div_nat_eqI) (use lt bc in \<open>simp_all add: algebra_simps\<close>)
  then show "byte (n div 65536) = a" by simp
  have "n div 256 = ord a * 256 + ord b" unfolding n_def by (rule div_nat_eqI) (use lt bc in \<open>simp_all add: algebra_simps\<close>)
  then show "byte (n div 256) = b" by (intro byte_mod) simp
  have "n = ord c + (ord a * 256 + ord b) * 256" by (simp add: n_def)
  then have "n mod 256 = ord c" by (simp only: mod_mult_self1) simp
  then show "byte n = c" by (rule byte_mod)
qed

lemma sextets_padded:
  assumes "n < (16777216 :: nat)"
  shows "64 dvd n \<Longrightarrow> n div 262144 mod 64 * 262144 + n div 4096 mod 64 * 4096 + n div 64 mod 64 * 64 = n"
    and "4096 dvd n \<Longrightarrow> n div 262144 mod 64 * 262144 + n div 4096 mod 64 * 4096 = n"
proof -
  show "n div 262144 mod 64 * 262144 + n div 4096 mod 64 * 4096 + n div 64 mod 64 * 64 = n" if "64 dvd n"
    using sextets [OF assms] dvd_imp_mod_0 [OF that] by linarith
  assume d: "4096 dvd n"
  then have "64 dvd n div 64" "64 dvd n" by (auto simp: dvd_def)
  then have "n div 64 mod 64 = 0" "n mod 64 = 0" by (simp_all add: mod_eq_0_iff_dvd)
  then show "n div 262144 mod 64 * 262144 + n div 4096 mod 64 * 4096 = n"
    using sextets [OF assms] by linarith
qed

lemma b64_decode_quantum:
  "b64_decode (b64_char p # b64_char q # b64_char r # b64_char t # s) =
     (let n = p mod 64 * 262144 + q mod 64 * 4096 + r mod 64 * 64 + t mod 64
      in map_option (\<lambda>t. byte (n div 65536) # byte (n div 256) # byte n # t) (b64_decode s))"
  "b64_decode [b64_char p, b64_char q, b64_char r, CHR ''=''] =
     (let n = p mod 64 * 262144 + q mod 64 * 4096 + r mod 64 * 64
      in Some [byte (n div 65536), byte (n div 256)])"
  "b64_decode [b64_char p, b64_char q, CHR ''='', CHR ''=''] =
     (let n = p mod 64 * 262144 + q mod 64 * 4096 in Some [byte (n div 65536)])"
  by (simp_all add: Let_def)

lemma b64_roundtrip: "b64_decode (b64_encode s) = Some s"
proof (induction s rule: b64_encode.induct)
  case (2 a)
  let ?n = "ord a * 65536 :: nat"
  have lt: "?n < 16777216" and a: "byte (?n div 65536) = a"
    using octets(1,2) [of a "CHR 0x00" "CHR 0x00"] by simp_all
  have "4096 dvd ?n" by simp
  from sextets_padded(2) [OF lt this] a show ?case
    unfolding b64_encode.simps Let_def b64_decode_quantum by (simp only:)
next
  case (3 a b)
  let ?n = "ord a * 65536 + ord b * 256 :: nat"
  have lt: "?n < 16777216" and ab: "byte (?n div 65536) = a" "byte (?n div 256) = b"
    using octets(1-3) [of a b "CHR 0x00"] by simp_all
  have "64 dvd ?n" by simp
  from sextets_padded(1) [OF lt this] ab show ?case
    unfolding b64_encode.simps Let_def b64_decode_quantum by (simp only:)
next
  case (4 a b c s)
  let ?n = "ord a * 65536 + ord b * 256 + ord c :: nat"
  from sextets [OF octets(1) [of a b c]] octets(2-4) [of a b c] 4 show ?case
    unfolding b64_encode.simps Let_def b64_decode_quantum by (simp only: option.map)
qed simp

lemma b64_encode_chars: "set (b64_encode s) \<subseteq> insert CHR ''='' (set b64_alphabet)"
  by (induction s rule: b64_encode.induct) (auto simp: Let_def b64_char_alphabet)

lemma b64_encode_Nil [simp]: "b64_encode s = [] \<longleftrightarrow> s = []"
  by (cases s rule: b64_encode.cases) (simp_all add: Let_def)

lemma length_hex_encode [simp]: "length (hex_encode s) = 2 * length s"
  by (induction s) (simp_all add: hex_encode_def hex_byte_def)

end
