(* ===== verification/Json.thy ===== *)
theory Json
  imports Encoding
begin

text \<open>
  Two encodings of Go's standard library on bytes: UTF-8 (\<open>unicode/utf8\<close>) read one code
  point at a time, and the text \<open>encoding/json\<close> gives a decoded document. A number keeps
  the text it was read from (\<open>UseNumber\<close>), and an object is an association list with
  distinct keys.
\<close>

section \<open>Hexadecimal digits\<close>

definition unhex :: "char \<Rightarrow> nat option" where
  "unhex c =
     (if is_digit c then Some (ord c - 48)
      else if CHR ''a'' \<le> c \<and> c \<le> CHR ''f'' then Some (ord c - 87)
      else if CHR ''A'' \<le> c \<and> c \<le> CHR ''F'' then Some (ord c - 55)
      else None)"

lemma unhex_digit [simp]: "unhex (digit_char d) = Some (d mod 16)"
proof -
  have "list_all (\<lambda>d. unhex (digit_char d) = Some d) [0..<16]" by code_simp
  then have "unhex (digit_char (d mod 16)) = Some (d mod 16)" by (simp add: list_all_iff)
  then show ?thesis by (simp add: digit_char_def)
qed

section \<open>UTF-8\<close>

definition rune_error :: nat where
  "rune_error = 0xFFFD"

definition continues :: "nat \<Rightarrow> nat \<Rightarrow> nat \<Rightarrow> bool" where
  "continues lo hi b \<longleftrightarrow> lo \<le> b \<and> b \<le> hi"

text \<open>
  \<open>utf8.DecodeRuneInString\<close>: the code point a string starts with and its length; a byte
  that starts none is \<open>rune_error\<close> of length one, and the empty string has length zero.
\<close>

definition second_range :: "nat \<Rightarrow> nat \<times> nat" where
  "second_range a =
     (if a = 0xE0 then (0xA0, 0xBF) else if a = 0xED then (0x80, 0x9F)
      else if a = 0xF0 then (0x90, 0xBF) else if a = 0xF4 then (0x80, 0x8F) else (0x80, 0xBF))"

text \<open>Six more bits from a continuation byte.\<close>

definition six :: "nat \<Rightarrow> nat \<Rightarrow> nat" where
  "six x b = x * 64 + (b - 0x80)"

definition decode_rune :: "string \<Rightarrow> nat \<times> nat" where
  "decode_rune s =
     (case map ord (take 4 s) of
        [] \<Rightarrow> (rune_error, 0)
      | a # r \<Rightarrow>
          (let (lo, hi) = second_range a in
           if a < 0x80 then (a, 1)
           else if 0xC2 \<le> a \<and> a \<le> 0xDF then
             (case r of b # _ \<Rightarrow> if continues lo hi b then (six (a - 0xC0) b, 2) else (rune_error, 1) | [] \<Rightarrow> (rune_error, 1))
           else if 0xE0 \<le> a \<and> a \<le> 0xEF then
             (case r of
                b # c # _ \<Rightarrow>
                  if continues lo hi b \<and> continues 0x80 0xBF c
                  then (six (six (a - 0xE0) b) c, 3) else (rune_error, 1)
              | _ \<Rightarrow> (rune_error, 1))
           else if 0xF0 \<le> a \<and> a \<le> 0xF4 then
             (case r of
                b # c # d # _ \<Rightarrow>
                  if continues lo hi b \<and> continues 0x80 0xBF c \<and> continues 0x80 0xBF d
                  then (six (six (six (a - 0xF0) b) c) d, 4) else (rune_error, 1)
              | _ \<Rightarrow> (rune_error, 1))
           else (rune_error, 1)))"

lemma decode_rune_size: "s \<noteq> [] \<Longrightarrow> 1 \<le> snd (decode_rune s) \<and> snd (decode_rune s) \<le> length s"
  by (cases s rule: list.exhaust; cases "tl s"; cases "tl (tl s)"; cases "tl (tl (tl s))")
    (auto simp: decode_rune_def Let_def split: prod.splits)

lemma decode_rune_ascii: "ord c < 0x80 \<Longrightarrow> decode_rune (c # s) = (ord c, 1)"
  by (simp add: decode_rune_def split: prod.split)

text \<open>The code points of a string with the bytes each is written with.\<close>

function runes :: "string \<Rightarrow> (nat \<times> string) list" where
  "runes s = (if s = [] then [] else (let (r, n) = decode_rune s in (r, take n s) # runes (drop n s)))"
  by pat_completeness auto
termination
proof (relation "measure length")
  fix s :: string and x r n
  assume "s \<noteq> []" "x = decode_rune s" "(r, n) = x"
  then show "(drop n s, s) \<in> measure length" using decode_rune_size [of s] by (auto simp: prod_eq_iff)
qed simp

declare runes.simps [simp del]

lemma runes_simps [simp]:
  "runes [] = []"
  "ord c < 0x80 \<Longrightarrow> runes (c # s) = (ord c, [c]) # runes s"
  by (simp_all add: runes.simps [of "[]"] runes.simps [of "c # s"] decode_rune_ascii)

lemma runes_concat: "concat (map snd (runes s)) = s"
proof (induction s rule: runes.induct)
  case (1 s)
  show ?case
  proof (cases "s = []")
    case False
    obtain r n where d: "decode_rune s = (r, n)" by fastforce
    have "concat (map snd (runes (drop n s))) = drop n s" using 1 [OF False d [symmetric] refl] by simp
    then show ?thesis using False d by (subst runes.simps) simp
  qed simp
qed

lemma runes_ascii: "\<forall>c\<in>set s. ord c < 0x80 \<Longrightarrow> runes s = map (\<lambda>c. (ord c, [c])) s"
  by (induction s) auto

text \<open>\<open>utf8.ValidString\<close>: no byte stands alone without being one.\<close>

definition valid_utf8 :: "string \<Rightarrow> bool" where
  "valid_utf8 s = list_all (\<lambda>(r, p). \<not> (r = rune_error \<and> length p = 1)) (runes s)"

section \<open>JSON\<close>

datatype json = JNull | JBool bool | JNumber string | JString string | JArray "json list" | JObject "(string \<times> json) list"

text \<open>How \<open>json.Marshal\<close> writes one code point inside a string.\<close>

definition json_rune :: "nat \<times> string \<Rightarrow> string" where
  "json_rune x =
     (case x of (r, p) \<Rightarrow>
        if r = rune_error \<and> length p = 1 then [CHR 0x5C] @ ''ufffd''
        else if r = 0x5C \<or> r = 0x22 then CHR 0x5C # p
        else if r = 8 then [CHR 0x5C, CHR ''b''] else if r = 12 then [CHR 0x5C, CHR ''f'']
        else if r = 10 then [CHR 0x5C, CHR ''n''] else if r = 13 then [CHR 0x5C, CHR ''r'']
        else if r = 9 then [CHR 0x5C, CHR ''t'']
        else if r < 0x20 \<or> r = 0x3C \<or> r = 0x3E \<or> r = 0x26
          then [CHR 0x5C] @ ''u00'' @ [digit_char (r div 16), digit_char (r mod 16)]
        else if r = 0x2028 \<or> r = 0x2029 then [CHR 0x5C] @ ''u202'' @ [digit_char (r mod 16)]
        else p)"

definition json_quote :: "string \<Rightarrow> string" where
  "json_quote s = [CHR 0x22] @ concat (map json_rune (runes s)) @ [CHR 0x22]"

text \<open>\<open>json.Marshal\<close> of a decoded document: no space, the keys of an object sorted.\<close>

fun json_text :: "json \<Rightarrow> string" where
  "json_text JNull = ''null''"
| "json_text (JBool b) = (if b then ''true'' else ''false'')"
| "json_text (JNumber t) = t"
| "json_text (JString s) = json_quote s"
| "json_text (JArray xs) = ''['' @ str_join '','' (map json_text xs) @ '']''"
| "json_text (JObject kvs) =
     CHR 0x7B # str_join '','' (map (\<lambda>(k, t). json_quote k @ '':'' @ t) (sort_key fst (map (\<lambda>(k, v). (k, json_text v)) kvs))) @ [CHR 0x7D]"

end
