(* ===== verification/StoreSpec.thy ===== *)
theory StoreSpec
  imports Store Json
begin

text \<open>
  What the store promises. First the invariant that lets \<open>Get\<close> and \<open>List\<close>
  choose their lock without scanning the store, and that every method keeps it;
  then the reads (a chain is walked one state per read, in order), the writes
  that race (a locale of addressed cells, which \<open>Update\<close> provides), the order of
  lists, and snapshots.
\<close>

section \<open>The tally of chains that move in every mode\<close>

definition walk_count :: "(string \<times> resource) list \<Rightarrow> int" where
  "walk_count xs = (\<Sum>x\<leftarrow>xs. of_bool (walkable (Some (snd x))))"

definition walk1 :: "resource option \<Rightarrow> int" where
  "walk1 r = of_bool (walkable r)"

definition keyed :: "(string \<times> resource) list \<Rightarrow> bool" where
  "keyed xs = (distinct (map fst xs) \<and> (\<forall>(k, r)\<in>set xs. k = key_of r))"

definition store_wf :: "store \<Rightarrow> bool" where
  "store_wf s = (keyed (items s) \<and> onlySignal s = walk_count (items s))"

lemma walk_count_Nil [simp]: "walk_count [] = 0"
  by (simp add: walk_count_def)

lemma walk_count_Cons [simp]: "walk_count ((k, r) # xs) = walk1 (Some r) + walk_count xs"
  by (simp add: walk_count_def walk1_def)

lemma walk1_None [simp]: "walk1 None = 0"
  by (simp add: walk1_def walkable_def)

lemma walk1_nonneg: "0 \<le> walk1 r"
  by (simp add: walk1_def)

lemma walk_count_nonneg: "0 \<le> walk_count xs"
  by (induction xs) (auto simp: walk1_nonneg)

lemma walk1_le_walk_count: "map_of xs k = Some r \<Longrightarrow> walk1 (Some r) \<le> walk_count xs"
proof (induction xs)
  case (Cons x xs)
  then show ?case
    using walk1_nonneg [of "Some (snd x)"] by (cases x) (auto split: if_splits intro: add_increasing add_increasing2 walk_count_nonneg)
qed simp

lemma countOnlySignal_walk [simp]:
  "onlySignal (countOnlySignal s a b) = onlySignal s - walk1 a + walk1 b"
  by (simp add: countOnlySignal_def walk1_def Let_def)

lemma walk_count_update:
  "distinct (map fst xs) \<Longrightarrow>
     walk_count (AList.update k v xs) = walk_count xs - walk1 (map_of xs k) + walk1 (Some v)"
  by (induction xs) auto

lemma delete_absent: "k \<notin> fst ` set xs \<Longrightarrow> AList.delete k xs = xs"
  by (simp add: AList.delete_eq) (induction xs, auto)

lemma delete_Cons_cell: "AList.delete k ((j, r) # xs) =
    (if j = k then AList.delete k xs else (j, r) # AList.delete k xs)"
  by (simp add: AList.delete_eq)

lemma walk_count_delete:
  "distinct (map fst xs) \<Longrightarrow> walk_count (AList.delete k xs) = walk_count xs - walk1 (map_of xs k)"
proof (induction xs)
  case (Cons x xs)
  then show ?case by (cases x) (auto simp: delete_Cons_cell delete_absent)
qed simp

lemma keyed_iff:
  "keyed xs \<longleftrightarrow> distinct (map fst xs) \<and> (\<forall>k r. map_of xs k = Some r \<longrightarrow> k = key_of r)"
  by (auto simp: keyed_def dest: map_of_SomeD map_of_is_SomeI)

lemma keyed_key: "keyed xs \<Longrightarrow> map_of xs k = Some r \<Longrightarrow> k = key_of r"
  by (simp add: keyed_iff)

lemma keyed_update: "keyed xs \<Longrightarrow> k = key_of v \<Longrightarrow> keyed (AList.update k v xs)"
  by (auto simp: keyed_iff distinct_update)

lemma keyed_delete: "keyed xs \<Longrightarrow> keyed (AList.delete k xs)"
  by (auto simp: keyed_iff distinct_delete)

lemma keyed_distinct: "keyed xs \<Longrightarrow> distinct (map fst xs)"
  by (simp add: keyed_iff)

text \<open>One observation keeps the identity, and gives up exactly the chain it finished.\<close>

lemma advance_key_of: "key_of (fst (advance ev r)) = key_of r"
  by (simp add: advance_def key_of_def Let_def split: list.split)

lemma advance_walk: "walk1 (Some (fst (advance ev r))) = walk1 (Some r) - snd (advance ev r)"
  by (auto simp: advance_def walk1_def walkable_def Let_def split: list.split)

lemma advance_age: "age (fst (advance ev r)) = age r"
  by (simp add: advance_def age_def Let_def split: list.split)

lemma advance_idle: "\<not> ev \<Longrightarrow> \<not> walkable (Some r) \<Longrightarrow> advance ev r = (r, 0)"
  by (auto simp: advance_def walkable_def split: list.split)

text \<open>
  Every method keeps the identities, and how much the counter exceeds the number of
  chains: none of them looks at the counter but to choose its lock.
\<close>

definition tallied :: "int \<Rightarrow> store \<Rightarrow> bool" where
  "tallied d s \<longleftrightarrow> keyed (items s) \<and> onlySignal s = walk_count (items s) + d"

lemma wf_tallied: "store_wf s \<longleftrightarrow> tallied 0 s"
  by (simp add: store_wf_def tallied_def)

lemmas tallied_simps = tallied_def keyed_update keyed_delete keyed_distinct walk_count_update walk_count_delete

lemma tallied_put: "tallied d s \<Longrightarrow> tallied d (put s r)"
  by (auto simp: put_def tallied_simps Let_def key_of_def)

lemma tallied_get:
  assumes "tallied d s"
  shows "tallied d (fst (get s p k i))"
proof (cases "map_of (items s) (key p k i)")
  case (Some r)
  have key: "key p k i = key_of r" using assms Some by (auto simp: tallied_def dest: keyed_key)
  show ?thesis
    using assms Some key advance_key_of [of "eventual s" r] advance_walk [of "eventual s" r]
    by (auto simp: get_def tallied_simps Let_def split: prod.split)
qed (use assms in \<open>simp add: get_def\<close>)

lemma tallied_peek: "tallied d s \<Longrightarrow> tallied d (fst (peek s p k i))"
  by (simp add: peek_def tallied_def split: option.split)

lemma tallied_update:
  assumes "tallied d s" and same: "\<And>r r'. change r = Inr r' \<Longrightarrow> key_of r' = key_of r"
  shows "tallied d (fst (update_res s p k i change))"
proof (cases "map_of (items s) (key p k i)")
  case (Some r)
  have key: "key p k i = key_of r" using assms Some by (auto simp: tallied_def dest: keyed_key)
  show ?thesis
    using assms(1) Some key same [of r]
    by (auto simp: update_res_def tallied_simps Let_def split: sum.split)
qed (use assms in \<open>simp add: update_res_def\<close>)

lemma commit_change_key_of: "key_of (commit_change b r n s) = key_of s"
  by (simp add: commit_change_def key_of_def Let_def)

lemma fst_commit:
  "fst (commit s b r n) = fst (update_res s (provider (tenant r)) (kind r) (rid r)
     (\<lambda>st. Inr (commit_change b r n st) :: unit + resource))"
  by (simp add: commit_def split: prod.split)

lemma tallied_commit: "tallied d s \<Longrightarrow> tallied d (fst (commit s b r n))"
  by (auto simp: fst_commit commit_change_key_of intro: tallied_update)

lemma tallied_delete: "tallied d s \<Longrightarrow> tallied d (fst (delete s p k i))"
  by (auto simp: delete_def tallied_simps Let_def)

lemma list_advancing_keys: "map fst (fst (list_advancing ev k t xs)) = map fst xs"
  by (induction xs) (auto simp: Let_def split: prod.split)

lemma list_advancing_keyed: "keyed xs \<Longrightarrow> keyed (fst (list_advancing ev k t xs))"
proof -
  have "\<forall>(k, r)\<in>set xs. k = key_of r \<Longrightarrow> \<forall>(k, r)\<in>set (fst (list_advancing ev k t xs)). k = key_of r"
  proof (induction xs)
    case (Cons x xs)
    then show ?case
      using advance_key_of [of ev "snd x"] by (cases x) (auto simp: Let_def split: prod.splits)
  qed simp
  then show "keyed xs \<Longrightarrow> keyed (fst (list_advancing ev k t xs))"
    by (simp add: keyed_def list_advancing_keys)
qed

lemma list_advancing_walk:
  "walk_count (fst (list_advancing ev k t xs)) = walk_count xs - snd (snd (list_advancing ev k t xs))"
proof (induction xs)
  case (Cons x xs)
  then show ?case
    using advance_walk [of ev "snd x"] by (cases x) (auto simp: Let_def split: prod.splits)
qed simp

lemma tallied_list:
  assumes "tallied d s"
  shows "tallied d (fst (list_res s k t))"
  using assms list_advancing_keyed [of "items s" "eventual s" k t]
    list_advancing_walk [of "eventual s" k t "items s"]
  by (auto simp: list_res_def tallied_def Let_def split: prod.split)

lemma tallied_eventual: "tallied d s \<Longrightarrow> tallied d (set_eventual s b)"
  by (simp add: set_eventual_def tallied_def)

lemma tallied_observe: "tallied d s \<Longrightarrow> tallied d (observe s)"
  by (simp add: observe_def tallied_def)


lemmas wf_put = tallied_put [where d = 0, folded wf_tallied]
lemmas wf_get = tallied_get [where d = 0, folded wf_tallied]
lemmas wf_peek = tallied_peek [where d = 0, folded wf_tallied]
lemmas wf_update = tallied_update [where d = 0, folded wf_tallied]
lemmas wf_commit = tallied_commit [where d = 0, folded wf_tallied]
lemmas wf_delete = tallied_delete [where d = 0, folded wf_tallied]
lemmas wf_list = tallied_list [where d = 0, folded wf_tallied]
lemmas wf_eventual = tallied_eventual [where d = 0, folded wf_tallied]
lemmas wf_observe = tallied_observe [where d = 0, folded wf_tallied]

lemma wf_new: "store_wf new_store"
  by (simp add: new_store_def store_wf_def keyed_def)

text \<open>
  Every method of the store that writes or reads it, as one step. Requests interleave
  freely; a method holds the lock for its whole step, so a history is a list. The change
  an \<open>Update\<close> applies is any function that may fail; the code's own never touch what a
  resource is addressed by.
\<close>

datatype store_op =
    OpPut resource
  | OpGet string string string
  | OpPeek string string string
  | OpUpdate string string string "resource \<Rightarrow> string + resource"
  | OpCommit resource resource int
  | OpDelete string string string
  | OpList string tenant
  | OpRestore decoded
  | OpEventual bool
  | OpObserve

fun store_step :: "store \<Rightarrow> store_op \<Rightarrow> store" where
  "store_step s (OpPut r) = put s r"
| "store_step s (OpGet p k i) = fst (get s p k i)"
| "store_step s (OpPeek p k i) = fst (peek s p k i)"
| "store_step s (OpUpdate p k i change) = fst (update_res s p k i change)"
| "store_step s (OpCommit b r n) = fst (commit s b r n)"
| "store_step s (OpDelete p k i) = fst (delete s p k i)"
| "store_step s (OpList k t) = fst (list_res s k t)"
| "store_step s (OpRestore d) = fst (restore s d)"
| "store_step s (OpEventual b) = set_eventual s b"
| "store_step s OpObserve = observe s"

definition store_run :: "store \<Rightarrow> store_op list \<Rightarrow> store" where
  "store_run s ops = foldl store_step s ops"

definition keeps_identity :: "store_op \<Rightarrow> bool" where
  "keeps_identity oper =
     (case oper of OpUpdate p k i change \<Rightarrow> (\<forall>r r'. change r = Inr r' \<longrightarrow> key_of r' = key_of r) | _ \<Rightarrow> True)"

text \<open>The chains that move in every mode which the restores of a history threw away.\<close>

fun thrown_away :: "store \<Rightarrow> store_op list \<Rightarrow> int" where
  "thrown_away s [] = 0"
| "thrown_away s (oper # ops) =
     (case oper of
        OpRestore d \<Rightarrow> (if snd (restore s d) = None then walk_count (items s) else 0)
      | _ \<Rightarrow> 0) + thrown_away (store_step s oper) ops"

lemma thrown_away_nonneg: "0 \<le> thrown_away s ops"
proof (induction s ops rule: thrown_away.induct)
  case (2 s oper ops)
  have "0 \<le> walk_count (items s)" by (rule walk_count_nonneg)
  with 2 show ?case by (cases oper) (simp_all del: thrown_away.simps add: thrown_away.simps(2))
qed simp

lemma walk_count_pos: "0 < walk_count xs \<longleftrightarrow> (\<exists>(k, r)\<in>set xs. walkable (Some r))"
proof (induction xs)
  case (Cons x xs)
  then show ?case
    using walk_count_nonneg [of xs] by (cases x) (auto simp: walk1_def)
qed simp

text \<open>A restore counts what it puts from where the counter was.\<close>

lemma restore_all_keyed: "keyed (items s) \<Longrightarrow> keyed (items (restore_all s rs))"
  by (induction s rs rule: restore_all.induct) (auto simp: Let_def keyed_update key_of_def)

lemma restore_all_tally:
  "keyed (items s) \<Longrightarrow>
     onlySignal (restore_all s rs) - walk_count (items (restore_all s rs)) =
       onlySignal s - walk_count (items s)"
  by (induction s rs rule: restore_all.induct)
    (auto simp: Let_def keyed_update key_of_def walk_count_update keyed_distinct)

lemma tallied_restore:
  assumes "tallied d s"
  shows "tallied (d + (if snd (restore s t) = None then walk_count (items s) else 0)) (fst (restore s t))"
proof -
  have "keyed (items (restore_all (s\<lparr>items := []\<rparr>) rs))" for rs by (rule restore_all_keyed) (simp add: keyed_def)
  moreover have "onlySignal (restore_all (s\<lparr>items := []\<rparr>) rs) = walk_count (items (restore_all (s\<lparr>items := []\<rparr>) rs)) + onlySignal s" for rs
    using restore_all_tally [of "s\<lparr>items := []\<rparr>" rs] by (simp add: keyed_def)
  ultimately show ?thesis using assms by (auto simp: restore_def tallied_def split: decoded.split)
qed

lemma tally_step:
  assumes "tallied d s" "keeps_identity oper"
  shows "tallied (d + (case oper of OpRestore t \<Rightarrow> (if snd (restore s t) = None then walk_count (items s) else 0) | _ \<Rightarrow> 0))
     (store_step s oper)"
  using assms tallied_restore [OF assms(1)]
  by (cases oper)
    (simp_all add: keeps_identity_def tallied_put tallied_get tallied_peek tallied_update tallied_commit tallied_delete
      tallied_list tallied_eventual tallied_observe)

lemma tally_run:
  "tallied d s \<Longrightarrow> list_all keeps_identity ops \<Longrightarrow> tallied (d + thrown_away s ops) (store_run s ops)"
proof (induction ops arbitrary: s d)
  case (Cons oper ops)
  let ?t = "case oper of OpRestore t \<Rightarrow> (if snd (restore s t) = None then walk_count (items s) else 0) | _ \<Rightarrow> 0"
  have "tallied (d + ?t) (store_step s oper)" using tally_step Cons.prems by simp
  from Cons.IH [OF this] Cons.prems(2) show ?case by (simp add: store_run_def add.assoc)
qed (simp add: store_run_def)

text \<open>
  C7. After any history of writes, reads, updates, merges, deletes, lists and restores
  the store is keyed by the identity of what it holds, and its counter is the number of
  stored chains that must move whatever the mode, plus the number of those that restores
  threw away: without such a restore what \<open>advancing\<close> reads is exact, and with one it
  stays true although no chain is left.
\<close>

theorem store_history_keeps_tally:
  assumes "list_all keeps_identity ops"
  shows "keyed (items (store_run new_store ops)) \<and>
   onlySignal (store_run new_store ops) = walk_count (items (store_run new_store ops)) + thrown_away new_store ops \<and>
   (advancing (store_run new_store ops) \<longleftrightarrow>
      eventual (store_run new_store ops) \<or> 0 < thrown_away new_store ops \<or>
      (\<exists>(k, r)\<in>set (items (store_run new_store ops)). pendingOnlySignal r \<and> pending r \<noteq> []))"
proof -
  have tally: "tallied (0 + thrown_away new_store ops) (store_run new_store ops)"
    by (rule tally_run) (simp_all add: assms tallied_def new_store_def keyed_def)
  then show ?thesis
    using thrown_away_nonneg [of new_store ops] walk_count_nonneg [of "items (store_run new_store ops)"]
      walk_count_pos [of "items (store_run new_store ops)"]
    by (auto simp: tallied_def advancing_def walkable_def)
qed

section \<open>Reads\<close>

text \<open>\<open>Get\<close> and \<open>List\<close> as they would be if they always took the write lock.\<close>

definition get_locked :: "store \<Rightarrow> string \<Rightarrow> string \<Rightarrow> string \<Rightarrow> store \<times> resource option" where
  "get_locked s p k i =
     (case map_of (items s) (key p k i) of
        None \<Rightarrow> (s, None)
      | Some r \<Rightarrow>
          (let (r', d) = advance (eventual s) r;
               s' = s\<lparr>items := AList.update (key p k i) r' (items s), onlySignal := onlySignal s - d\<rparr>
           in (notify s' EventRead p k i, Some r')))"

definition list_locked :: "store \<Rightarrow> string \<Rightarrow> tenant \<Rightarrow> store \<times> resource list" where
  "list_locked s k t =
     (let (ys, out, d) = list_advancing (eventual s) k t (items s);
          s' = s\<lparr>items := ys, onlySignal := onlySignal s - d\<rparr>
      in (notify s' EventListed (provider t) k [], sortByCreation out))"

lemma walkable_counted: "map_of xs k = Some r \<Longrightarrow> walkable (Some r) \<Longrightarrow> 0 < walk_count xs"
  using walk1_le_walk_count [of xs k r] by (simp add: walk1_def)

lemma list_advancing_idle:
  "\<not> ev \<Longrightarrow> walk_count xs \<le> 0 \<Longrightarrow>
     list_advancing ev k t xs = (xs, filter (\<lambda>r. kind r = k \<and> matches r t) (map snd xs), 0)"
proof (induction xs)
  case (Cons x xs)
  obtain n r where x: "x = (n, r)" by (cases x)
  have "\<not> walkable (Some r)" "walk_count xs \<le> 0"
    using Cons.prems(2) walk_count_nonneg [of xs]
    by (cases "walkable (Some r)"; simp add: x walk1_def)+
  then show ?case using Cons by (simp add: x advance_idle)
qed simp

lemma read_lock_get:
  assumes "store_wf s"
  shows "get s p k i = get_locked s p k i"
proof (cases "advancing s \<or> map_of (items s) (key p k i) = None")
  case True
  then show ?thesis by (auto simp: get_def get_locked_def split: option.split prod.split)
next
  case False
  then obtain r where r: "map_of (items s) (key p k i) = Some r" by auto
  then have "advance (eventual s) r = (r, 0)"
    using False assms walkable_counted [OF r]
    by (intro advance_idle) (auto simp: advancing_def store_wf_def)
  then show ?thesis using False r by (simp add: get_def get_locked_def update_triv)
qed

lemma read_lock_list:
  assumes "store_wf s"
  shows "list_res s l t = list_locked s l t"
proof (cases "advancing s")
  case True
  then show ?thesis by (simp add: list_res_def list_locked_def split: prod.split)
next
  case False
  then have idle: "\<not> eventual s" "walk_count (items s) \<le> 0" "onlySignal s - 0 = onlySignal s"
    using assms by (auto simp: advancing_def store_wf_def)
  then show ?thesis
    using False by (simp add: list_res_def list_locked_def list_advancing_idle)
qed

text \<open>
  The shared lock is only ever taken when it makes no difference: on a store
  whose tally is exact, \<open>Get\<close> and \<open>List\<close> answer, and leave behind, what they would
  have under the write lock.
\<close>

theorem read_lock_is_unobservable:
  assumes "store_wf s"
  shows "get s p k i = get_locked s p k i \<and> list_res s l t = list_locked s l t"
  using assms by (simp add: read_lock_get read_lock_list)

text \<open>The states a client sees that asks the same question \<open>n\<close> times.\<close>

fun read_states :: "nat \<Rightarrow> store \<Rightarrow> string \<Rightarrow> string \<Rightarrow> string \<Rightarrow> string option list" where
  "read_states 0 s p k i = []"
| "read_states (Suc n) s p k i =
     (let (s', r) = get s p k i in map_option rstate r # read_states n s' p k i)"

definition settled :: "resource \<Rightarrow> string" where
  "settled r = last (rstate r # pending r)"

lemma get_cell:
  assumes "store_wf s" "map_of (items s) (key p k i) = Some r"
  shows "map_of (items (fst (get s p k i))) (key p k i) = Some (fst (advance (eventual s) r))"
    and "snd (get s p k i) = Some (fst (advance (eventual s) r))"
    and "eventual (fst (get s p k i)) = eventual s"
  using assms
  by (simp_all add: read_lock_get get_locked_def split: prod.split)

lemma advance_moves:
  "pending r = q # qs \<Longrightarrow> ev \<or> pendingOnlySignal r \<Longrightarrow>
     rstate (fst (advance ev r)) = q \<and> pending (fst (advance ev r)) = qs \<and>
     (qs \<noteq> [] \<longrightarrow> pendingOnlySignal (fst (advance ev r)) = pendingOnlySignal r)"
  by (auto simp: advance_def Let_def)

lemma advance_done: "pending r = [] \<Longrightarrow> advance ev r = (r, 0)"
  by (simp add: advance_def)

lemma advance_can_move:
  assumes "ev \<or> pendingOnlySignal r \<or> pending r = []"
  shows "ev \<or> pendingOnlySignal (fst (advance ev r)) \<or> pending (fst (advance ev r)) = []"
proof (cases "pending r")
  case (Cons q qs)
  then show ?thesis using assms advance_moves [of r q qs ev] by (cases "qs = []") auto
qed (simp add: advance_done)

lemma take_pad: "m \<ge> n \<Longrightarrow> take n (xs @ replicate m x) = take n (xs @ replicate n x)"
  by (cases "n = 0") (auto simp: min_def)

lemma told_step:
  assumes "ev \<or> pendingOnlySignal r \<or> pending r = []"
  shows "take (Suc n) (pending r @ replicate (Suc n) (settled r)) =
    rstate (fst (advance ev r)) #
      take n (pending (fst (advance ev r)) @ replicate n (settled (fst (advance ev r))))"
proof (cases "pending r")
  case (Cons q qs)
  then have adv: "rstate (fst (advance ev r)) = q" "pending (fst (advance ev r)) = qs"
    using assms advance_moves by auto
  show ?thesis
    using take_pad [of n "Suc n" qs] unfolding settled_def adv Cons
    by (simp only: append_Cons take_Suc_Cons last.simps list.simps if_False)
qed (simp add: advance_done settled_def)

lemma read_states_chain:
  assumes "store_wf s" "map_of (items s) (key p k i) = Some r" "eventual s \<or> pendingOnlySignal r \<or> pending r = []"
  shows "read_states n s p k i = map Some (take n (pending r @ replicate n (settled r)))"
  using assms
proof (induction n arbitrary: s r)
  case (Suc n)
  let ?s = "fst (get s p k i)" and ?r = "fst (advance (eventual s) r)"
  have moves: "eventual ?s \<or> pendingOnlySignal ?r \<or> pending ?r = []"
    using advance_can_move [OF Suc.prems(3)] by (simp only: get_cell(3) [OF Suc.prems(1,2)])
  have step: "read_states (Suc n) s p k i = Some (rstate ?r) # read_states n ?s p k i"
    using get_cell(2) [OF Suc.prems(1,2)] by (simp add: split_beta)
  show ?case
    unfolding step told_step [OF Suc.prems(3)] list.map
    by (simp only: Suc.IH [OF wf_get [OF Suc.prems(1)] get_cell(1) [OF Suc.prems(1,2)] moves])
qed simp

text \<open>
  A chain is told to the client whole and in order: as long as the chain moves
  (eventual consistency, or a chain that is its action's only signal), the
  answers of \<open>n\<close> reads are its states one by one, then the state it settles in for
  ever; and \<open>Peek\<close> consumes none of it.
\<close>

theorem reads_walk_the_chain:
  assumes "store_wf s" "map_of (items s) (key p k i) = Some r"
    and "eventual s \<or> pendingOnlySignal r"
  shows "read_states n s p k i = map Some (take n (pending r @ replicate n (settled r))) \<and>
    items (fst (peek s p k i)) = items s \<and>
    map_option rstate (snd (peek s p k i)) = Some (rstate r)"
  using read_states_chain [of s p k i r n] assms by (auto simp: peek_def)

section \<open>Writes that race\<close>

text \<open>
  The contract of \<open>Update\<close>: a change applied to an address reaches the cell of
  that name when there is one, and no other cell. Every lifecycle action of every
  pack writes through it, so what holds of any interleaving of such writers is
  proved here once.
\<close>

locale addressed_cells =
  fixes look :: "'s \<Rightarrow> 'a \<Rightarrow> 'r option"
    and change :: "'s \<Rightarrow> 'a \<Rightarrow> ('r \<Rightarrow> 'r) \<Rightarrow> 's"
    and name :: "'a \<Rightarrow> 'n"
  assumes hit: "name b = name a \<Longrightarrow> look (change s b f) a = map_option f (look s a)"
    and frame: "name b \<noteq> name a \<Longrightarrow> look (change s b f) a = look s a"
begin

lemma look_change: "look (change s b f) a = map_option (if name b = name a then f else id) (look s a)"
  by (simp add: hit frame option.map_id)

lemma writers:
  "look (fold (\<lambda>(b, f) s. change s b f) ws s) a =
     map_option (fold (\<lambda>(b, f). if name b = name a then f else id) ws) (look s a)"
  by (induction ws arbitrary: s)
    (auto simp: look_change option.map_comp comp_def option.map_id option.map_ident)

lemma gone: "look s a = None \<Longrightarrow> look (fold (\<lambda>(b, f) s. change s b f) ws s) a = None"
  by (simp add: writers)

lemma bystander:
  "\<forall>(b, f)\<in>set ws. name b \<noteq> name a \<Longrightarrow> look (fold (\<lambda>(b, f) s. change s b f) ws s) a = look s a"
  by (induction ws arbitrary: s) (auto simp: frame)

lemma swap:
  "(\<And>r. f (g r) = g (f r)) \<Longrightarrow>
     look (change (change s a f) a g) b = look (change (change s a g) a f) b"
  by (cases "look s b") (auto simp: look_change)

end

abbreviation rewrite_cell ::
  "store \<Rightarrow> string \<times> string \<times> string \<Rightarrow> (resource \<Rightarrow> resource) \<Rightarrow> store"
where
  "rewrite_cell s a f \<equiv>
     (case a of (p, k, i) \<Rightarrow> fst (update_res s p k i (\<lambda>r. Inr (f r) :: unit + resource)))"

interpretation cells: addressed_cells cell rewrite_cell "\<lambda>(p, k, i). key p k i"
  by unfold_locales (auto simp: update_res_def Let_def split: option.split prod.split)

abbreviation addr_of :: "resource \<Rightarrow> string \<times> string \<times> string" where
  "addr_of r \<equiv> (provider (tenant r), kind r, rid r)"

definition run_commits :: "store \<Rightarrow> (resource \<times> resource \<times> int) list \<Rightarrow> store" where
  "run_commits s ws = fold (\<lambda>(b, r, n) s. fst (commit s b r n)) ws s"

lemma run_commits_cells:
  "run_commits s ws =
     fold (\<lambda>(a, f) s. rewrite_cell s a f) (map (\<lambda>(b, r, n). (addr_of r, commit_change b r n)) ws) s"
  unfolding run_commits_def by (induction ws arbitrary: s) (auto simp: fst_commit)

lemma mergeMap_cell: "mergeMap st b r k = (if b k = r k then st k else r k)"
  by (auto simp: mergeMap_def Let_def split: option.split)

lemma mergeRuntime_cell: "option_or Map.empty (mergeRuntime st b r) k = (if b k = r k then option_or Map.empty st k else r k)"
  by (cases st) (auto simp: mergeRuntime_def mergeMap_cell Let_def)

lemma commit_change_attr:
  "attrs (commit_change b r n st) k = (if attrs b k = attrs r k then attrs st k else attrs r k)"
  by (simp add: commit_change_def mergeMap_cell Let_def)

lemma commit_change_rt: "rt (commit_change b r n st) k = (if rt b k = rt r k then rt st k else rt r k)"
  using mergeRuntime_cell [of "runtime st" "rt b" "rt r" k]
  by (simp add: commit_change_def rt_def Let_def)

lemma commit_change_state:
  "rstate (commit_change b r n st) = (if rstate b = rstate r then rstate st else rstate r)"
  by (simp add: commit_change_def Let_def)

lemma commit_change_pending:
  "pending (commit_change b r n st) = (if pending b = pending r then pending st else pending r)"
  by (simp add: commit_change_def Let_def)

text \<open>A field of a resource that a commit writes exactly when its caller changed it.\<close>

definition merged_field :: "(resource \<Rightarrow> 'v) \<Rightarrow> bool" where
  "merged_field f = (\<forall>b r n st. f (commit_change b r n st) = (if f b = f r then f st else f r))"

lemma merged_fields:
  "merged_field rstate" "merged_field pending"
  "merged_field (\<lambda>r. attrs r k)" "merged_field (\<lambda>r. rt r k)"
  by (simp_all add: merged_field_def commit_change_attr commit_change_rt commit_change_state
      commit_change_pending)

lemma fold_untouched:
  assumes "merged_field f" "\<forall>(b, r, n)\<in>set ws. f b = f r"
  shows "f (fold (\<lambda>(b, r, n). commit_change b r n) ws st) = f st"
  using assms by (induction ws arbitrary: st) (auto simp: merged_field_def)

lemma run_commits_cell:
  assumes "\<forall>(b, r, n)\<in>set ws. addr_of r = a"
  shows "cell (run_commits s ws) a = map_option (fold (\<lambda>(b, r, n). commit_change b r n) ws) (cell s a)"
proof -
  have "fold (\<lambda>(b, f). if (case b of (p, k, i) \<Rightarrow> key p k i) = (case a of (p, k, i) \<Rightarrow> key p k i) then f else id)
          (map (\<lambda>(b, r, n). (addr_of r, commit_change b r n)) ws)
        = fold (\<lambda>(b, r, n). commit_change b r n) ws"
    using assms by (induction ws) auto
  then show ?thesis unfolding run_commits_cells cells.writers by simp
qed

text \<open>
  C1. No update is lost: of any number of lifecycle actions that each read the
  resource whenever they liked and merge their result back in any order, the one
  that changed a field no later one changed finds its value there at the end.
  For an attribute, a runtime key, the state and the pending chain.
\<close>

theorem commits_lose_no_update:
  assumes stored: "cell s a = Some st"
    and addressed: "\<forall>(b, r, n)\<in>set (ws @ (base, res, now) # ws'). addr_of r = a"
  shows "\<exists>final. cell (run_commits s (ws @ (base, res, now) # ws')) a = Some final \<and>
    (\<forall>k. attrs base k \<noteq> attrs res k \<and> (\<forall>(b, r, n)\<in>set ws'. attrs b k = attrs r k)
         \<longrightarrow> attrs final k = attrs res k) \<and>
    (\<forall>k. rt base k \<noteq> rt res k \<and> (\<forall>(b, r, n)\<in>set ws'. rt b k = rt r k)
         \<longrightarrow> rt final k = rt res k) \<and>
    (rstate base \<noteq> rstate res \<and> (\<forall>(b, r, n)\<in>set ws'. rstate b = rstate r)
         \<longrightarrow> rstate final = rstate res) \<and>
    (pending base \<noteq> pending res \<and> (\<forall>(b, r, n)\<in>set ws'. pending b = pending r)
         \<longrightarrow> pending final = pending res)"
proof -
  let ?mid = "commit_change base res now (fold (\<lambda>(b, r, n). commit_change b r n) ws st)"
  let ?final = "fold (\<lambda>(b, r, n). commit_change b r n) ws' ?mid"
  have "cell (run_commits s (ws @ (base, res, now) # ws')) a = Some ?final"
    using run_commits_cell [OF addressed] stored by simp
  then show ?thesis
    using fold_untouched [OF merged_fields(1)] fold_untouched [OF merged_fields(2)]
      fold_untouched [OF merged_fields(3)] fold_untouched [OF merged_fields(4)]
    by (simp add: commit_change_attr commit_change_rt commit_change_state commit_change_pending)
qed

text \<open>
  A deleted resource stays deleted: whatever copies the actions in flight bring
  back, merging them leaves its cell empty, each merge says so, and a resource at
  another key never notices.
\<close>

theorem commits_never_resurrect:
  assumes "cell s (addr_of res) = None"
  shows "cell (run_commits s ws) (addr_of res) = None \<and>
    commit (run_commits s ws) base res now = (run_commits s ws, False) \<and>
    (\<forall>p k i. key p k i \<noteq> key_of res \<longrightarrow>
       cell (fst (commit s' base res now)) (p, k, i) = cell s' (p, k, i))"
proof -
  have gone: "cell (run_commits s ws) (addr_of res) = None"
    using assms unfolding run_commits_cells by (rule cells.gone)
  then show ?thesis
    using cells.frame [of "addr_of res" _ s' "commit_change base res now"]
    by (auto simp: commit_def update_res_def key_of_def Let_def split: option.splits)
qed

section \<open>The order of a list\<close>

lemma list_advancing_out:
  "fst (snd (list_advancing ev k t xs)) =
     map (\<lambda>r. fst (advance ev r)) (filter (\<lambda>r. kind r = k \<and> matches r t) (map snd xs))"
  by (induction xs) (auto simp: Let_def split: prod.splits)

lemma list_out:
  "store_wf s \<Longrightarrow> snd (list_res s k t) =
     sort_key age (map (\<lambda>r. fst (advance (eventual s) r))
       (filter (\<lambda>r. kind r = k \<and> matches r t) (map snd (items s))))"
  using list_advancing_out [of "eventual s" k t "items s"]
  by (auto simp: read_lock_list list_locked_def sortByCreation_def Let_def split: prod.split)

text \<open>
  \<open>List\<close> answers every stored resource of the kind that matches the tenant,
  each once and after one step of its chain, oldest first; and when no two of
  them share both creation time and identifier, the answer does not depend on the
  order in which Go happened to range over the map.
\<close>

theorem list_is_stable:
  assumes wf: "store_wf s"
    and matching: "out = map (\<lambda>r. fst (advance (eventual s) r))
      (filter (\<lambda>r. kind r = k \<and> matches r t) (map snd (items s)))"
    and other: "mset xs = mset (items s)"
    and ages: "inj_on age (set out)"
  shows "mset (snd (list_res s k t)) = mset out \<and>
    sorted (map age (snd (list_res s k t))) \<and>
    snd (list_res (s\<lparr>items := xs\<rparr>) k t) = snd (list_res s k t)"
proof -
  have "mset (filter P (map snd xs)) = mset (filter P (map snd (items s)))" for P
    using other by (simp add: mset_filter)
  then have perm: "mset (map f (filter P (map snd xs))) = mset (map f (filter P (map snd (items s))))" for P f
    by (simp only: mset_map)
  have "walk_count xs = walk_count (items s)"
    using arg_cong [OF other, of "\<lambda>m. \<Sum>\<^sub># (image_mset (\<lambda>x. of_bool (walkable (Some (snd x)))) m)"]
    by (simp add: walk_count_def sum_mset_sum_list flip: mset_map)
  moreover have "mset (map fst xs) = mset (map fst (items s))"
    using other by (simp only: mset_map)
  then have "keyed xs"
    using wf mset_eq_setD [OF other] mset_eq_imp_distinct_iff
    by (metis keyed_def store_wf_def)
  ultimately have wf': "store_wf (s\<lparr>items := xs\<rparr>)" using wf by (simp add: store_wf_def)
  have "sort_key age (map f (filter P (map snd xs))) = sort_key age out"
    if "out = map f (filter P (map snd (items s)))" for f P
    by (rule sort_key_perm) (use perm that ages in simp_all)
  then show ?thesis
    by (simp add: list_out [OF wf] list_out [OF wf'] matching)
qed

section \<open>Snapshots\<close>

lemma restore_all_cells:
  "\<forall>k\<in>set ks. \<exists>r. map_of xs k = Some r \<and> key_of r = k \<and> key_of (reread r) = key_of r \<Longrightarrow>
     map_of (items (restore_all s (map (\<lambda>k. map_option reread (map_of xs k)) ks))) j =
       (if j \<in> set ks then map_option reread (map_of xs j) else map_of (items s) j)"
proof (induction ks arbitrary: s)
  case (Cons k ks)
  obtain r where r: "map_of xs k = Some r" "key_of r = k" "key_of (reread r) = key_of r" using Cons.prems by auto
  then have "key (provider (tenant (reread r))) (kind (reread r)) (rid (reread r)) = k" by (simp add: key_of_def)
  then show ?case using Cons r by (auto simp: Let_def)
qed simp

text \<open>
  \<open>encoding/json\<close> gives back a string of valid UTF-8 as it was, and replaces what is not
  valid. So a resource whose own strings are valid comes back as it was but for its
  attributes, where a number comes back as a \<open>float64\<close> and a string inside may change.
\<close>

definition valid_strings :: "resource \<Rightarrow> bool" where
  "valid_strings r \<longleftrightarrow>
     list_all valid_utf8 ([rid r, kind r, rstate r, provider (tenant r), project (tenant r), zone (tenant r)] @ pending r) \<and>
     (case runtime r of None \<Rightarrow> True | Some m \<Rightarrow> \<forall>k v. m k = Some v \<longrightarrow> valid_utf8 k \<and> valid_utf8 v)"

text \<open>
  The envelope as \<open>json\<close> gives it back: the resources one by one, each as the
  encoder and decoder leave it (a number attribute comes back as a \<open>float64\<close>).
\<close>

definition reread_file :: "(resource \<Rightarrow> resource) \<Rightarrow> snapshot_file \<Rightarrow> snapshot_file" where
  "reread_file reread f = f\<lparr>sf_resources := map (map_option reread) (sf_resources f)\<rparr>"

text \<open>
  C28. What \<open>Snapshot\<close> wrote restores, into any store, to the resources it was taken from
  and no others, under the same keys, each as it was but for what the JSON text does to
  its attributes; it asks that the strings of the resources be valid UTF-8. A document
  that is not an envelope of this format and version is refused and leaves the store as
  it was.
\<close>

theorem snapshot_restores_or_refuses:
  assumes "store_wf s" and valid: "\<forall>(k, r)\<in>set (items s). valid_strings r"
    and json: "\<And>r. valid_strings r \<Longrightarrow> \<exists>ats. reread r = r\<lparr>attrs := ats\<rparr>"
  shows "snd (restore t (Envelope (reread_file reread (snapshot s)))) = None \<and>
    (\<forall>k. rel_option (\<lambda>r q. q = r\<lparr>attrs := attrs (reread r)\<rparr>) (map_of (items s) k)
       (map_of (items (fst (restore t (Envelope (reread_file reread (snapshot s)))))) k)) \<and>
    keyed (items (fst (restore t (Envelope (reread_file reread (snapshot s)))))) \<and>
    (snd (restore t d) \<noteq> None \<longrightarrow> fst (restore t d) = t) \<and>
    (snd (restore t d) = None \<longleftrightarrow>
       (\<exists>f. d = Envelope f \<and> sf_format f = ''feint-snapshot'' \<and> sf_version f = 1))"
proof -
  have keyed: "keyed (items s)" using assms by (simp add: store_wf_def)
  let ?ks = "sort (map fst (items s))"
  have reread_back: "reread r = r\<lparr>attrs := attrs (reread r)\<rparr>" if "map_of (items s) k = Some r" for k r
  proof -
    have "valid_strings r" using valid map_of_SomeD [OF that] by auto
    then obtain ats where "reread r = r\<lparr>attrs := ats\<rparr>" using json by blast
    then show ?thesis by simp
  qed
  have same: "key_of (reread r) = key_of r" if "map_of (items s) k = Some r" for k r
    using arg_cong [OF reread_back [OF that], of key_of] by (simp add: key_of_def)
  have known: "\<forall>k\<in>set ?ks. \<exists>r. map_of (items s) k = Some r \<and> key_of r = k \<and> key_of (reread r) = key_of r"
    using keyed same by (force simp: keyed_def intro: map_of_is_SomeI)
  have absent: "map_of (items s) j = None" if "j \<notin> set ?ks" for j
    using that by (simp add: map_of_eq_None_iff)
  have cells: "map_of (items (restore_all (t\<lparr>items := []\<rparr>)
          (map (\<lambda>k. map_option reread (map_of (items s) k)) ?ks))) j =
      map_option reread (map_of (items s) j)" for j
    using absent by (simp add: restore_all_cells [OF known])
  have "rel_option (\<lambda>r q. q = r\<lparr>attrs := attrs (reread r)\<rparr>) (map_of (items s) j) (map_option reread (map_of (items s) j))" for j
    using reread_back [of j] by (cases "map_of (items s) j") auto
  then show ?thesis
    using restore_all_keyed [of "t\<lparr>items := []\<rparr>"] cells
    by (auto simp: restore_def snapshot_def reread_file_def snapshotFormat_def snapshotVersion_def
        keyed_def comp_def split: decoded.splits)
qed

text \<open>
  The one method that does not keep the tally: \<open>Restore\<close> replaces the content
  but counts from where the old content left the counter. After a restore the
  counter is too high by exactly what it was before, so it is exact if and only
  if no stored chain was its action's only signal; otherwise \<open>advancing\<close> stays
  true on a store that holds no chain at all.
\<close>

theorem restore_counts_from_old_tally:
  assumes "restore s (Envelope f) = (s', None)"
  shows "onlySignal s' = onlySignal s + walk_count (items s') \<and>
    (store_wf s' \<longleftrightarrow> onlySignal s = 0) \<and>
    (0 < onlySignal s \<longrightarrow> advancing s')"
proof -
  have s': "s' = restore_all (s\<lparr>items := []\<rparr>) (sf_resources f)"
    using assms by (auto simp: restore_def split: if_splits)
  have "keyed (items s')" unfolding s' by (rule restore_all_keyed) (simp add: keyed_def)
  moreover have "onlySignal s' = onlySignal s + walk_count (items s')"
    using restore_all_tally [of "s\<lparr>items := []\<rparr>" "sf_resources f"] by (simp add: s' keyed_def)
  ultimately show ?thesis
    using walk_count_nonneg [of "items s'"] by (auto simp: store_wf_def advancing_def)
qed

section \<open>Witnesses\<close>

definition machine0 :: resource where
  "machine0 = new_resource ''i-1'' ''servers'' \<lparr>provider = ''p'', project = [], zone = []\<rparr> ''running'' 5"

definition rebooting0 :: resource where
  "rebooting0 = machine0\<lparr>pending := [''stopping'', ''running''], pendingOnlySignal := True\<rparr>"

definition store0 :: store where
  "store0 = put new_store rebooting0"

definition tagged0 :: resource where
  "tagged0 = rebooting0\<lparr>attrs := [''tags'' \<mapsto> AString ''x'']\<rparr>"

definition stopped0 :: resource where
  "stopped0 = rebooting0\<lparr>rstate := ''stopped'', runtime := Some [''ip'' \<mapsto> ''10.0.0.4'']\<rparr>"

lemmas store0_defs = store0_def rebooting0_def machine0_def tagged0_def stopped0_def new_resource_def

lemma store0_items: "items store0 = [(''p|servers|i-1'', rebooting0)]" "onlySignal store0 = 1"
  by (simp_all add: store0_defs put_def new_store_def key_def walk1_def walkable_def Let_def)

lemma store0_wf: "store_wf store0"
  unfolding store0_def by (intro wf_put wf_new)

lemma read_lock_witness:
  "get store0 ''p'' ''servers'' ''i-1'' = get_locked store0 ''p'' ''servers'' ''i-1'' \<and>
   list_res store0 ''servers'' (tenant machine0) = list_locked store0 ''servers'' (tenant machine0)"
  by (rule read_lock_is_unobservable [OF store0_wf])

lemma reads_witness:
  "read_states 4 store0 ''p'' ''servers'' ''i-1'' =
     [Some ''stopping'', Some ''running'', Some ''running'', Some ''running'']"
proof -
  have "map_of (items store0) (key ''p'' ''servers'' ''i-1'') = Some rebooting0"
    by (simp add: store0_items key_def)
  from reads_walk_the_chain [OF store0_wf this, of 4] show ?thesis
    by (simp add: store0_defs settled_def numeral_eq_Suc)
qed

lemma commits_witness:
  "\<exists>final. cell (run_commits store0 [(rebooting0, tagged0, 7), (rebooting0, stopped0, 8)])
       (''p'', ''servers'', ''i-1'') = Some final \<and> attrs final ''tags'' = Some (AString ''x'')"
proof -
  have "\<forall>(b, r, n)\<in>set ([] @ (rebooting0, tagged0, 7) # [(rebooting0, stopped0, 8)]).
      addr_of r = (''p'', ''servers'', ''i-1'')"
    by (simp add: tagged0_def stopped0_def rebooting0_def machine0_def new_resource_def)
  moreover have "cell store0 (''p'', ''servers'', ''i-1'') = Some rebooting0"
    by (simp add: store0_items key_def)
  moreover have "attrs rebooting0 ''tags'' = None" "attrs tagged0 ''tags'' = Some (AString ''x'')"
    "attrs stopped0 ''tags'' = None"
    by (simp_all add: tagged0_def stopped0_def rebooting0_def machine0_def new_resource_def)
  ultimately show ?thesis
    using commits_lose_no_update [of store0 "(''p'', ''servers'', ''i-1'')" rebooting0 "[]" rebooting0
        tagged0 7 "[(rebooting0, stopped0, 8)]"]
    by auto
qed

lemma resurrect_witness:
  "cell (run_commits new_store [(rebooting0, tagged0, 7)]) (''p'', ''servers'', ''i-1'') = None"
  using commits_never_resurrect [of new_store machine0 "[(rebooting0, tagged0, 7)]"]
  by (simp add: new_store_def store0_defs)

lemma list_witness:
  "sorted (map age (snd (list_res store0 ''servers'' (tenant machine0))))"
  using list_is_stable [OF store0_wf refl refl, of "''servers''" "tenant machine0"]
  by (simp add: store0_items)

lemma snapshot_witness:
  "map_of (items (fst (restore new_store (Envelope (reread_file (\<lambda>r. r\<lparr>attrs := Map.empty\<rparr>) (snapshot store0))))))
     (key ''p'' ''servers'' ''i-1'') = Some rebooting0"
proof -
  have v: "\<forall>(k, r)\<in>set (items store0). valid_strings r"
  proof -
    have "valid_utf8 s" if "\<forall>c\<in>set s. ord c < 0x80" for s
      using that by (fastforce simp: valid_utf8_def runes_ascii list_all_iff rune_error_def)
    then show ?thesis by (auto simp: store0_items valid_strings_def rebooting0_def machine0_def new_resource_def)
  qed
  have j: "\<exists>ats. (\<lambda>r. r\<lparr>attrs := Map.empty\<rparr>) r = r\<lparr>attrs := ats\<rparr>" for r :: resource by blast
  have "map_of (items store0) (key ''p'' ''servers'' ''i-1'') = Some rebooting0" "attrs rebooting0 = Map.empty"
    by (simp_all add: store0_items key_def rebooting0_def machine0_def new_resource_def)
  then show ?thesis
    using snapshot_restores_or_refuses [OF store0_wf v j, of new_store, THEN conjunct2, THEN conjunct1, THEN spec,
        of "key ''p'' ''servers'' ''i-1''"]
    by (auto simp: option_rel_Some1)
qed

text \<open>A restore over a store with a chain that moves leaves an empty store that says it has one.\<close>

lemma tally_witness:
  "advancing (store_run new_store [OpPut rebooting0, OpRestore (Envelope \<lparr>sf_format = ''feint-snapshot'', sf_version = 1, sf_resources = []\<rparr>)]) \<and>
   \<not> advancing (store_run new_store [OpPut rebooting0, OpDelete ''p'' ''servers'' ''i-1''])"
proof -
  let ?f = "Envelope \<lparr>sf_format = ''feint-snapshot'', sf_version = 1, sf_resources = []\<rparr>"
  let ?ops = "[OpPut rebooting0, OpRestore ?f]" and ?del = "[OpPut rebooting0, OpDelete ''p'' ''servers'' ''i-1'']"
  have ids: "list_all keeps_identity ?ops" "list_all keeps_identity ?del" by (simp_all add: keeps_identity_def)
  have "put new_store rebooting0 = store0" by (simp add: store0_def)
  then have "thrown_away new_store ?ops = 1" "thrown_away new_store ?del = 0"
    by (simp_all add: restore_def snapshotFormat_def snapshotVersion_def store0_items walk1_def walkable_def rebooting0_def)
  moreover have "items (store_run new_store ?del) = []" "\<not> eventual (store_run new_store ?del)"
    by (simp_all add: store_run_def delete_def store0_items key_def countOnlySignal_def Let_def notify_def flip: store0_def)
      (simp_all add: store0_def put_def new_store_def countOnlySignal_def Let_def notify_def)
  ultimately show ?thesis
    using store_history_keeps_tally [OF ids(1)] store_history_keeps_tally [OF ids(2)] by simp
qed

lemma restore_witness:
  "advancing (fst (restore store0 (Envelope \<lparr>sf_format = ''feint-snapshot'', sf_version = 1, sf_resources = []\<rparr>)))
   \<and> items (fst (restore store0 (Envelope \<lparr>sf_format = ''feint-snapshot'', sf_version = 1, sf_resources = []\<rparr>))) = []"
proof -
  let ?f = "\<lparr>sf_format = ''feint-snapshot'', sf_version = 1, sf_resources = []\<rparr> :: snapshot_file"
  have "restore store0 (Envelope ?f) = (store0\<lparr>items := []\<rparr>, None)"
    by (simp add: restore_def snapshotFormat_def snapshotVersion_def)
  with restore_counts_from_old_tally [OF this] show ?thesis by (simp add: store0_items)
qed

end
