(* ===== verification/Netip.thy ===== *)
theory Netip
  imports Prelude
begin

unbundle bit_operations_syntax

text \<open>
  Addresses and prefixes, as Go's \<open>net/netip\<close> has them: the values the program
  parses, prints, masks and compares. An address is the zero \<open>netip.Addr\<close>, an
  IPv4 word, or an IPv6 word with its zone; a prefix is an address and a number
  of bits, negative when the prefix is not valid. Everything is executable, and
  the lemmas say what the operations mean on sets of addresses.
\<close>

datatype addr = NoAddr | V4 "32 word" | V6 "128 word" string

definition addr_valid :: "addr \<Rightarrow> bool" where
  "addr_valid a = (a \<noteq> NoAddr)"

fun is4 :: "addr \<Rightarrow> bool" where
  "is4 (V4 w) = True"
| "is4 _ = False"

fun is4in6 :: "addr \<Rightarrow> bool" where
  "is4in6 (V6 w z) = (drop_bit 32 w = 0xffff)"
| "is4in6 _ = False"

fun bit_len :: "addr \<Rightarrow> int" where
  "bit_len NoAddr = 0"
| "bit_len (V4 w) = 32"
| "bit_len (V6 w z) = 128"

fun has_zone :: "addr \<Rightarrow> bool" where
  "has_zone (V6 w z) = (z \<noteq> [])"
| "has_zone _ = False"

fun without_zone :: "addr \<Rightarrow> addr" where
  "without_zone (V6 w z) = V6 w []"
| "without_zone a = a"

section \<open>Reading an address\<close>

definition dec_val :: "string \<Rightarrow> nat" where
  "dec_val s = foldl (\<lambda>n c. n * 10 + digit_val c) 0 s"

definition parse_octet :: "string \<Rightarrow> nat option" where
  "parse_octet s =
     (if s = [] \<or> \<not> list_all is_digit s \<or> (length s > 1 \<and> hd s = CHR ''0'') then None
      else if dec_val s > 255 then None
      else Some (dec_val s))"

definition word_of_octets :: "nat \<Rightarrow> nat \<Rightarrow> nat \<Rightarrow> nat \<Rightarrow> 32 word" where
  "word_of_octets a b c d = of_nat (((a * 256 + b) * 256 + c) * 256 + d)"

definition parse_v4 :: "string \<Rightarrow> (nat \<times> nat \<times> nat \<times> nat) option" where
  "parse_v4 s = (case map parse_octet (split_on CHR ''.'' s) of
      [Some a, Some b, Some c, Some d] \<Rightarrow> Some (a, b, c, d)
    | _ \<Rightarrow> None)"

definition hex_val :: "char \<Rightarrow> nat option" where
  "hex_val c =
     (if is_digit c then Some (digit_val c)
      else if CHR ''a'' \<le> c \<and> c \<le> CHR ''f'' then Some (of_char c - 87)
      else if CHR ''A'' \<le> c \<and> c \<le> CHR ''F'' then Some (of_char c - 55)
      else None)"

definition hex_number :: "string \<Rightarrow> nat" where
  "hex_number s = foldl (\<lambda>n c. n * 16 + option_or 0 (hex_val c)) 0 s"

definition hex_run :: "string \<Rightarrow> string" where
  "hex_run s = takeWhile (\<lambda>c. hex_val c \<noteq> None) s"

definition hex_rest :: "string \<Rightarrow> string" where
  "hex_rest s = dropWhile (\<lambda>c. hex_val c \<noteq> None) s"

lemma length_hex_rest: "length (hex_rest s) \<le> length s"
  by (simp add: hex_rest_def length_dropWhile_le)

lemma hex_rest_less: "tl (hex_rest s) \<noteq> [] \<Longrightarrow> length (hex_rest s) - Suc 0 < length s"
  using length_hex_rest [of s] by (cases "hex_rest s") auto

lemma hex_rest_less2: "tl (hex_rest s) \<noteq> [] \<Longrightarrow> length (hex_rest s) - Suc (Suc 0) < length s"
  using length_hex_rest [of s] by (cases "hex_rest s") auto

text \<open>
  The loop of \<open>parseIPv6\<close>: the groups read so far and where the ellipsis stood.
  The result is the groups, the ellipsis and nothing left to read, or None.
\<close>

function v6_loop :: "nat list \<Rightarrow> nat option \<Rightarrow> string \<Rightarrow> (nat list \<times> nat option) option" where
  "v6_loop gs ell s =
     (if length gs \<ge> 8 then (if s = [] then Some (gs, ell) else None)
      else
        (let h = hex_run s; s' = hex_rest s in
         if h = [] \<or> length h > 4 then None
         else if s' \<noteq> [] \<and> hd s' = CHR ''.'' then
           (if ell = None \<and> length gs \<noteq> 6 then None
            else if length gs + 2 > 8 then None
            else (case parse_v4 s of
                None \<Rightarrow> None
              | Some (a, b, c, d) \<Rightarrow> Some (gs @ [a * 256 + b, c * 256 + d], ell)))
         else
           (let gs' = gs @ [hex_number h] in
            if s' = [] then Some (gs', ell)
            else if hd s' \<noteq> CHR '':'' \<or> tl s' = [] then None
            else if hd (tl s') = CHR '':'' then
              (if ell \<noteq> None then None
               else if tl (tl s') = [] then Some (gs', Some (length gs'))
               else v6_loop gs' (Some (length gs')) (tl (tl s')))
            else v6_loop gs' ell (tl s'))))"
  by pat_completeness auto
termination
  by (relation "measure (\<lambda>(gs, ell, s). length s)") (auto intro: hex_rest_less hex_rest_less2)

declare v6_loop.simps [simp del]

definition word_of_groups :: "nat list \<Rightarrow> 128 word" where
  "word_of_groups gs = of_nat (foldl (\<lambda>n g. n * 65536 + g) 0 gs)"

definition expand_groups :: "nat list \<Rightarrow> nat option \<Rightarrow> nat list option" where
  "expand_groups gs ell =
     (if length gs < 8 then
        (case ell of None \<Rightarrow> None
         | Some e \<Rightarrow> Some (take e gs @ replicate (8 - length gs) 0 @ drop e gs))
      else if ell \<noteq> None then None else Some gs)"

definition parse_v6 :: "string \<Rightarrow> addr option" where
  "parse_v6 s0 =
     (let (s, zone, found) = cut_on CHR ''%'' s0 in
      if found \<and> zone = [] then None
      else
        (let lead = has_prefix s ''::''; s' = (if lead then drop 2 s else s) in
         if lead \<and> s' = [] then Some (V6 0 zone)
         else
           (case v6_loop [] (if lead then Some 0 else None) s' of
              None \<Rightarrow> None
            | Some (gs, ell) \<Rightarrow>
                map_option (\<lambda>fs. V6 (word_of_groups fs) zone) (expand_groups gs ell))))"

text \<open>\<open>netip.ParseAddr\<close>: the first byte of the three that decides.\<close>

definition parse_addr :: "string \<Rightarrow> addr option" where
  "parse_addr s =
     (case find (\<lambda>c. c \<in> {CHR ''.'', CHR '':'', CHR ''%''}) s of
        None \<Rightarrow> None
      | Some c \<Rightarrow>
          (if c = CHR ''.'' then
             map_option (\<lambda>(a, b, c, d). V4 (word_of_octets a b c d)) (parse_v4 s)
           else if c = CHR '':'' then parse_v6 s
           else None))"

section \<open>Printing an address\<close>

definition octet :: "32 word \<Rightarrow> nat \<Rightarrow> nat" where
  "octet w i = unat w div 256 ^ (3 - i) mod 256"

definition v4_string :: "32 word \<Rightarrow> string" where
  "v4_string w = str_join ''.'' (map (\<lambda>i. nat_digits (octet w i)) [0, 1, 2, 3])"

definition group :: "128 word \<Rightarrow> nat \<Rightarrow> nat" where
  "group w i = unat w div 65536 ^ (7 - i) mod 65536"

fun hex_digits :: "nat \<Rightarrow> string" where
  "hex_digits n = (if n < 16 then [digit_char n] else hex_digits (n div 16) @ [digit_char (n mod 16)])"

declare hex_digits.simps [simp del]

text \<open>The first longest run of at least two zero groups, as start and end.\<close>

definition zero_run :: "nat list \<Rightarrow> nat \<times> nat" where
  "zero_run gs = foldl (\<lambda>(zs, ze) i.
       let j = i + length (takeWhile (\<lambda>g. g = 0) (drop i gs)) in
       if j - i \<ge> 2 \<and> j - i > ze - zs then (i, j) else (zs, ze)) (255, 255) [0 ..< length gs]"

definition v6_string :: "128 word \<Rightarrow> string" where
  "v6_string w =
     (let gs = map (group w) [0, 1, 2, 3, 4, 5, 6, 7]; (zs, ze) = zero_run gs; h = map hex_digits gs in
      if zs = 255 then str_join '':'' h
      else str_join '':'' (take zs h) @ ''::'' @ str_join '':'' (drop ze h))"

fun addr_string :: "addr \<Rightarrow> string" where
  "addr_string NoAddr = ''invalid IP''"
| "addr_string (V4 w) = v4_string w"
| "addr_string (V6 w z) =
     (if is4in6 (V6 w z) then ''::ffff:'' @ v4_string (ucast w) else v6_string w)
     @ (if z = [] then [] else CHR ''%'' # z)"

section \<open>Prefixes\<close>

datatype prefix = Prefix (paddr: addr) (pbits: int)

definition zero_prefix :: prefix where
  "zero_prefix = Prefix NoAddr (- 1)"

definition prefix_valid :: "prefix \<Rightarrow> bool" where
  "prefix_valid p = (0 \<le> pbits p)"

text \<open>\<open>netip.PrefixFrom\<close>.\<close>

definition prefix_from :: "addr \<Rightarrow> int \<Rightarrow> prefix" where
  "prefix_from a b = Prefix (without_zone a) (if a \<noteq> NoAddr \<and> 0 \<le> b \<and> b \<le> bit_len a then b else - 1)"

text \<open>What every prefix built by the package satisfies.\<close>

fun wf_prefix :: "prefix \<Rightarrow> bool" where
  "wf_prefix (Prefix a b) = (- 1 \<le> b \<and> \<not> has_zone a \<and> (0 \<le> b \<longrightarrow> a \<noteq> NoAddr \<and> b \<le> bit_len a))"

lemma wf_prefix_from [simp]: "wf_prefix (prefix_from a b)"
  by (cases a) (auto simp: prefix_from_def)

lemma wf_zero_prefix [simp]: "wf_prefix zero_prefix"
  by (simp add: zero_prefix_def)

text \<open>\<open>Addr.Prefix\<close> with the bits in range, and \<open>Prefix.Masked\<close>.\<close>

fun mask_addr :: "addr \<Rightarrow> int \<Rightarrow> addr" where
  "mask_addr NoAddr b = NoAddr"
| "mask_addr (V4 w) b = V4 (w AND NOT (mask (32 - nat b)))"
| "mask_addr (V6 w z) b = V6 (w AND NOT (mask (128 - nat b))) []"

fun masked :: "prefix \<Rightarrow> prefix" where
  "masked (Prefix a b) = (if 0 \<le> b then Prefix (mask_addr a b) b else zero_prefix)"

text \<open>\<open>Prefix.Contains\<close>.\<close>

fun same_block :: "addr \<Rightarrow> addr \<Rightarrow> int \<Rightarrow> bool" where
  "same_block (V4 v) (V4 w) b = (drop_bit (32 - nat b) (v XOR w) = 0)"
| "same_block (V6 v y) (V6 w z) b = ((v XOR w) AND NOT (mask (128 - nat b)) = 0)"
| "same_block _ _ b = False"

definition prefix_contains :: "prefix \<Rightarrow> addr \<Rightarrow> bool" where
  "prefix_contains p a = (prefix_valid p \<and> \<not> has_zone a \<and> same_block (paddr p) a (pbits p))"

text \<open>\<open>Prefix.Overlaps\<close>.\<close>

definition overlaps :: "prefix \<Rightarrow> prefix \<Rightarrow> bool" where
  "overlaps p q =
     (prefix_valid p \<and> prefix_valid q \<and>
      (p = q \<or>
       (is4 (paddr p) = is4 (paddr q) \<and>
        (let m = min (pbits p) (pbits q) in
         m = 0 \<or> mask_addr (paddr p) m = mask_addr (paddr q) m))))"

definition prefix_string :: "prefix \<Rightarrow> string" where
  "prefix_string p = (if prefix_valid p then addr_string (paddr p) @ ''/'' @ itoa (pbits p) else ''invalid Prefix'')"

text \<open>\<open>netip.ParsePrefix\<close>, cutting at the last slash.\<close>

definition parse_prefix :: "string \<Rightarrow> prefix option" where
  "parse_prefix s =
     (let (rbits, ripart, found) = cut_on CHR ''/'' (rev s); bits = rev rbits in
      if \<not> found then None
      else (case parse_addr (rev ripart) of
          None \<Rightarrow> None
        | Some a \<Rightarrow>
            (if has_zone a then None
             else if bits = [] \<or> \<not> list_all is_digit bits \<or> (length bits > 1 \<and> hd bits = CHR ''0'') then None
             else if int (dec_val bits) > bit_len a then None
             else Some (prefix_from a (int (dec_val bits))))))"

text \<open>What the IPv4 witnesses of the components evaluate with.\<close>

named_theorems netip_eval \<open>evaluation of addresses and prefixes on closed IPv4 terms\<close>

declare parse_addr_def [netip_eval] parse_v4_def [netip_eval] parse_octet_def [netip_eval]
  dec_val_def [netip_eval] is_digit_def [netip_eval] digit_val_def [netip_eval]
  word_of_octets_def [netip_eval] v4_string_def [netip_eval] octet_def [netip_eval]
  nat_digits.simps [netip_eval] digit_char_def [netip_eval] prefix_contains_def [netip_eval]
  prefix_valid_def [netip_eval] prefix_from_def [netip_eval] overlaps_def [netip_eval]
  parse_prefix_def [netip_eval] mask_eq_exp_minus_1 [netip_eval]

section \<open>What the operations mean\<close>

lemma parse_v6_NoAddr: "parse_v6 s \<noteq> Some NoAddr"
  by (auto simp: parse_v6_def Let_def split: option.splits prod.splits if_splits)

lemma parse_addr_NoAddr: "parse_addr s \<noteq> Some NoAddr"
  by (auto simp: parse_addr_def Let_def parse_v6_NoAddr split: option.splits prod.splits if_splits)

lemma drop_bit_xor_eq: "drop_bit k (v XOR w) = 0 \<longleftrightarrow> drop_bit k v = drop_bit k (w :: 'a::len word)"
  by (simp add: bit_eq_iff bit_simps)

lemma and_not_mask_eq:
  "v AND NOT (mask k) = w AND NOT (mask k) \<longleftrightarrow> drop_bit k v = drop_bit k (w :: 'a::len word)"
proof
  assume l: "v AND NOT (mask k) = w AND NOT (mask k)"
  have "bit (drop_bit k v) n = bit (drop_bit k w) n" for n
    using arg_cong [OF l, of "\<lambda>x. bit x (k + n)"] by (auto simp: bit_simps dest: bit_imp_le_length)
  then show "drop_bit k v = drop_bit k w" by (simp add: bit_eq_iff)
next
  assume r: "drop_bit k v = drop_bit k w"
  have "bit (v AND NOT (mask k)) n = bit (w AND NOT (mask k)) n" for n
    using arg_cong [OF r, of "\<lambda>x. bit x (n - k)"] by (auto simp: bit_simps)
  then show "v AND NOT (mask k) = w AND NOT (mask k)" by (simp add: bit_eq_iff)
qed

lemma xor_and_not_mask_eq:
  "(v XOR w) AND NOT (mask k) = 0 \<longleftrightarrow> drop_bit k v = drop_bit k (w :: 'a::len word)"
  using and_not_mask_eq [of "v XOR w" k 0] drop_bit_xor_eq [of k v w] by simp

lemma drop_bit_and_not_mask [simp]: "drop_bit k (v AND NOT (mask k)) = drop_bit k (v :: 'a::len word)"
  by (auto simp: bit_eq_iff bit_simps dest: bit_imp_le_length)

lemma drop_bit_coarser:
  "drop_bit k v = drop_bit k (w :: 'a::len word) \<Longrightarrow> k \<le> l \<Longrightarrow> drop_bit l v = drop_bit l w"
  by (metis drop_bit_drop_bit le_add_diff_inverse2)

text \<open>An address is in a prefix exactly when masking both to its length gives the same block.\<close>

lemma same_block_mask:
  "a \<noteq> NoAddr \<Longrightarrow> \<not> has_zone a \<Longrightarrow> \<not> has_zone b \<Longrightarrow>
   same_block a b n \<longleftrightarrow> mask_addr a n = mask_addr b n"
  by (cases a; cases b)
    (simp_all only: same_block.simps mask_addr.simps addr.inject drop_bit_xor_eq and_not_mask_eq
      xor_and_not_mask_eq has_zone.simps, simp_all)

lemma has_zone_mask_addr [simp]: "\<not> has_zone (mask_addr a n)"
  by (cases a) auto

lemma mask_addr_NoAddr [simp]: "mask_addr a n = NoAddr \<longleftrightarrow> a = NoAddr"
  by (cases a) auto

lemma mask_addr_idem [simp]: "mask_addr (mask_addr a n) n = mask_addr a n"
  by (cases a) (auto simp: and_not_mask_eq)

lemma bit_len_mask_addr [simp]: "bit_len (mask_addr a n) = bit_len a"
  by (cases a) auto

lemma is4_mask_addr [simp]: "is4 (mask_addr a n) = is4 a"
  by (cases a) auto

lemma mask_addr_coarser:
  "mask_addr a n = mask_addr b n \<Longrightarrow> m \<le> n \<Longrightarrow> mask_addr a m = mask_addr b m"
  by (cases a; cases b) (auto simp: and_not_mask_eq intro: drop_bit_coarser)

lemma mask_addr_mask_addr: "m \<le> n \<Longrightarrow> mask_addr (mask_addr a n) m = mask_addr a m"
  by (rule mask_addr_coarser [of _ n]) simp_all

lemma mask_addr_zero: "is4 a = is4 b \<Longrightarrow> a \<noteq> NoAddr \<Longrightarrow> b \<noteq> NoAddr \<Longrightarrow> mask_addr a 0 = mask_addr b 0"
  by (cases a; cases b) (auto simp: and_not_mask_eq bit_eq_iff bit_simps dest: bit_imp_le_length)

lemma contains_iff:
  "wf_prefix p \<Longrightarrow> prefix_contains p a \<longleftrightarrow>
     prefix_valid p \<and> \<not> has_zone a \<and> mask_addr (paddr p) (pbits p) = mask_addr a (pbits p)"
  by (cases p) (auto simp: prefix_contains_def prefix_valid_def same_block_mask)

lemma contains_NoAddr [simp]: "wf_prefix p \<Longrightarrow> \<not> prefix_contains p NoAddr"
  by (cases p) (auto simp: contains_iff prefix_valid_def)

lemma contains_own: "wf_prefix p \<Longrightarrow> prefix_valid p \<Longrightarrow> prefix_contains p (paddr p)"
  by (cases p) (auto simp: contains_iff prefix_valid_def)

lemma wf_masked [simp]: "wf_prefix p \<Longrightarrow> wf_prefix (masked p)"
  by (cases p) auto

lemma masked_idem [simp]: "masked (masked p) = masked p"
  by (cases p) (auto simp: zero_prefix_def)

lemma contains_masked [simp]: "wf_prefix p \<Longrightarrow> prefix_contains (masked p) a = prefix_contains p a"
proof -
  assume wf: "wf_prefix p"
  show ?thesis
  proof (cases "prefix_valid p")
    case True
    with wf show ?thesis
      by (cases p) (simp add: contains_iff prefix_valid_def)
  next
    case False
    with wf show ?thesis
      by (cases p) (simp add: contains_iff prefix_valid_def zero_prefix_def)
  qed
qed

lemma is4_mask_eq: "mask_addr a n = mask_addr b n \<Longrightarrow> is4 a = is4 b"
  by (metis is4_mask_addr)

text \<open>Two prefixes overlap exactly when some address is in both.\<close>

lemma overlaps_iff:
  assumes "wf_prefix p" "wf_prefix q"
  shows "overlaps p q \<longleftrightarrow> (\<exists>a. prefix_contains p a \<and> prefix_contains q a)"
proof
  assume o: "overlaps p q"
  let ?m = "min (pbits p) (pbits q)"
  from o have v: "prefix_valid p" "prefix_valid q" by (auto simp: overlaps_def)
  with assms have na: "paddr p \<noteq> NoAddr" "paddr q \<noteq> NoAddr" and nz: "\<not> has_zone (paddr p)" "\<not> has_zone (paddr q)"
    by (cases p; cases q; auto simp: prefix_valid_def)+
  have eq: "mask_addr (paddr p) ?m = mask_addr (paddr q) ?m"
    using o mask_addr_zero [OF _ na] by (auto simp: overlaps_def Let_def)
  show "\<exists>a. prefix_contains p a \<and> prefix_contains q a"
  proof (cases "pbits p \<le> pbits q")
    case True
    with eq v nz assms have "prefix_contains p (paddr q)" by (simp add: contains_iff min_def)
    with contains_own [OF assms(2) v(2)] show ?thesis by blast
  next
    case False
    with eq v nz assms have "prefix_contains q (paddr p)" by (simp add: contains_iff min_def)
    with contains_own [OF assms(1) v(1)] show ?thesis by blast
  qed
next
  assume "\<exists>a. prefix_contains p a \<and> prefix_contains q a"
  then obtain a where a: "prefix_valid p" "prefix_valid q"
    "mask_addr (paddr p) (pbits p) = mask_addr a (pbits p)"
    "mask_addr (paddr q) (pbits q) = mask_addr a (pbits q)"
    using assms by (auto simp: contains_iff)
  have "mask_addr (paddr p) (min (pbits p) (pbits q)) = mask_addr (paddr q) (min (pbits p) (pbits q))"
    using mask_addr_coarser [OF a(3), of "min (pbits p) (pbits q)"]
      mask_addr_coarser [OF a(4), of "min (pbits p) (pbits q)"] by simp
  with a is4_mask_eq [OF a(3)] is4_mask_eq [OF a(4)] show "overlaps p q"
    by (simp add: overlaps_def Let_def)
qed

section \<open>What an IPv4 address prints as is read back\<close>

lemma dec_val_snoc: "dec_val (s @ [c]) = dec_val s * 10 + digit_val c"
  by (simp add: dec_val_def)

lemma dec_val_nat_digits [simp]: "dec_val (nat_digits n) = n"
proof (induction n rule: nat_digits.induct)
  case (1 n)
  show ?case
  proof (cases "n < 10")
    case True
    then show ?thesis by (subst nat_digits.simps) (simp add: dec_val_def)
  next
    case False
    then show ?thesis using 1 by (subst nat_digits.simps) (simp add: dec_val_snoc)
  qed
qed

lemma hd_nat_digits: "0 < n \<Longrightarrow> hd (nat_digits n) \<noteq> CHR ''0''"
proof (induction n rule: nat_digits.induct)
  case (1 n)
  show ?case
  proof (cases "n < 10")
    case True
    have "digit_char n \<noteq> CHR ''0''"
      using True 1(2) digit_val_digit_char [of n] by (auto simp: digit_val_def)
    then show ?thesis using True by (subst nat_digits.simps) simp
  next
    case False
    then show ?thesis using 1 by (subst nat_digits.simps) simp
  qed
qed

lemma parse_octet_nat_digits: "n < 256 \<Longrightarrow> parse_octet (nat_digits n) = Some n"
proof -
  assume n: "n < 256"
  have d: "list_all is_digit (nat_digits n)" using nat_digits_all_digits [of n] by (simp add: list_all_iff)
  have "\<not> (length (nat_digits n) > 1 \<and> hd (nat_digits n) = CHR ''0'')"
    using hd_nat_digits [of n] by (cases "n = 0") (simp_all add: nat_digits.simps [of 0])
  then show ?thesis using n d unfolding parse_octet_def by auto
qed

lemma split_v4_string: "split_on CHR ''.'' (v4_string w) = map (\<lambda>i. nat_digits (octet w i)) [0, 1, 2, 3]"
  unfolding v4_string_def by (rule split_on_join) (simp_all add: nat_digits_free)

lemma octet_less: "octet w i < 256"
  by (simp add: octet_def)

lemma word_of_octets_octet: "word_of_octets (octet w 0) (octet w 1) (octet w 2) (octet w 3) = w"
proof -
  let ?u = "unat w"
  have b: "?u < 2 ^ 32" using unsigned_less [of w] by simp
  have q: "?u div 65536 = ?u div 256 div 256" "?u div 16777216 = ?u div 256 div 256 div 256"
    by (simp_all add: div_mult2_eq [symmetric])
  have "?u div 256 div 256 div 256 < 256" using b by (simp add: div_mult2_eq [symmetric] less_mult_imp_div_less)
  then have "((?u div 16777216 mod 256 * 256 + ?u div 65536 mod 256) * 256 + ?u div 256 mod 256) * 256 + ?u mod 256 = ?u"
    unfolding q by (simp add: div_mult_mod_eq)
  moreover have "octet w 0 = ?u div 16777216 mod 256" "octet w 1 = ?u div 65536 mod 256"
    "octet w 2 = ?u div 256 mod 256" "octet w 3 = ?u mod 256"
    by (simp_all add: octet_def)
  ultimately have "word_of_octets (octet w 0) (octet w 1) (octet w 2) (octet w 3) = of_nat ?u"
    by (simp only: word_of_octets_def)
  then show ?thesis by simp
qed

lemma find_append: "\<forall>x\<in>set xs. \<not> P x \<Longrightarrow> find P (xs @ y # ys) = (if P y then Some y else find P ys)"
  by (induction xs) auto

lemma parse_v4_string: "parse_addr (v4_string w) = Some (V4 w)"
proof -
  have v: "parse_v4 (v4_string w) = Some (octet w 0, octet w 1, octet w 2, octet w 3)"
    by (simp add: parse_v4_def split_v4_string parse_octet_nat_digits octet_less)
  have chars: "\<forall>c\<in>set (nat_digits n). \<not> (c \<in> {CHR ''.'', CHR '':'', CHR ''%''})" for n
    using nat_digits_free by auto
  have "find (\<lambda>c. c \<in> {CHR ''.'', CHR '':'', CHR ''%''}) (nat_digits n @ CHR ''.'' # ys) = Some CHR ''.''" for n ys
    using find_append [OF chars [of n]] by simp
  then have "find (\<lambda>c. c \<in> {CHR ''.'', CHR '':'', CHR ''%''}) (v4_string w) = Some CHR ''.''"
    by (simp add: v4_string_def)
  then show ?thesis unfolding parse_addr_def by (simp add: v word_of_octets_octet [simplified])
qed

end
