(* ===== verification/Network.thy ===== *)
theory Network
  imports Netip
begin

text \<open>
  Blocks and their arithmetic (\<open>internal/core/network/network.go\<close>), and what the
  checks mean on the sets of addresses the blocks hold.
\<close>

datatype cidr_error = ParseFailed string | ErrHostBits string prefix

definition parse_cidr :: "string \<Rightarrow> cidr_error + prefix" where
  "parse_cidr s =
     (case parse_prefix s of
        None \<Rightarrow> Inl (ParseFailed s)
      | Some p \<Rightarrow> (if masked p \<noteq> p then Inl (ErrHostBits s (masked p)) else Inr p))"

text \<open>\<open>CheckMask\<close> answers the bits and the window it refused, or nothing.\<close>

definition check_mask :: "prefix \<Rightarrow> int \<Rightarrow> int \<Rightarrow> (int \<times> int \<times> int) option" where
  "check_mask p minBits maxBits =
     (if pbits p < minBits \<or> pbits p > maxBits then Some (pbits p, minBits, maxBits) else None)"

definition net_contains :: "prefix \<Rightarrow> prefix \<Rightarrow> bool" where
  "net_contains outer inner =
     (if \<not> prefix_valid outer \<or> \<not> prefix_valid inner then False
      else if is4 (paddr outer) \<noteq> is4 (paddr inner) then False
      else pbits inner \<ge> pbits outer \<and> prefix_contains outer (paddr inner))"

fun first_overlap :: "prefix \<Rightarrow> prefix list \<Rightarrow> prefix \<times> bool" where
  "first_overlap p [] = (zero_prefix, False)"
| "first_overlap p (q # qs) = (if overlaps p q then (q, True) else first_overlap p qs)"

section \<open>What they mean\<close>

lemma flip_inside_not_outside:
  fixes v :: "'a::len word"
  assumes "k < l" "l \<le> LENGTH('a)"
  shows "\<exists>u. drop_bit l u = drop_bit l v \<and> drop_bit k u \<noteq> drop_bit k v"
proof (intro exI conjI)
  show "drop_bit l (v XOR push_bit k 1) = drop_bit l v"
    using assms by (intro bit_word_eqI) (simp add: bit_simps)
  have "bit (drop_bit k (v XOR push_bit k 1)) 0 \<noteq> bit (drop_bit k v) 0"
    using assms by (simp add: bit_simps)
  then show "drop_bit k (v XOR push_bit k 1) \<noteq> drop_bit k v" by metis
qed

text \<open>A block shorter than another holds an address the other does not.\<close>

lemma shorter_escapes:
  assumes wf: "wf_prefix inner" "prefix_valid inner" and short: "pbits inner < n" "n \<le> bit_len (paddr inner)"
  shows "\<exists>a. prefix_contains inner a \<and> mask_addr a n \<noteq> mask_addr (paddr inner) n"
proof -
  obtain x b where p: "inner = Prefix x b" by (cases inner)
  show ?thesis
  proof (cases x)
    case (V4 w)
    then have "32 - nat n < 32 - nat b" "32 - nat b \<le> LENGTH(32)"
      using short wf p by (auto simp: prefix_valid_def)
    from flip_inside_not_outside [OF this, of w]
    obtain u where u: "drop_bit (32 - nat b) u = drop_bit (32 - nat b) w"
      "drop_bit (32 - nat n) u \<noteq> drop_bit (32 - nat n) w" by blast
    then have "prefix_contains inner (V4 u)" "mask_addr (V4 u) n \<noteq> mask_addr (paddr inner) n"
      using wf by (simp_all only: contains_iff p V4 and_not_mask_eq mask_addr.simps prefix.sel
          addr.inject has_zone.simps simp_thms)
    then show ?thesis by blast
  next
    case (V6 w z)
    then have "128 - nat n < 128 - nat b" "128 - nat b \<le> LENGTH(128)"
      using short wf p by (auto simp: prefix_valid_def)
    from flip_inside_not_outside [OF this, of w]
    obtain u where u: "drop_bit (128 - nat b) u = drop_bit (128 - nat b) w"
      "drop_bit (128 - nat n) u \<noteq> drop_bit (128 - nat n) w" by blast
    then have "prefix_contains inner (V6 u [])" "mask_addr (V6 u []) n \<noteq> mask_addr (paddr inner) n"
      using wf by (simp_all only: contains_iff p V6 and_not_mask_eq mask_addr.simps prefix.sel
          addr.inject has_zone.simps simp_thms)
    then show ?thesis by blast
  qed (use wf p in \<open>auto simp: prefix_valid_def\<close>)
qed

lemma wf_parse_prefix: "parse_prefix s = Some p \<Longrightarrow> wf_prefix p"
  by (auto simp: parse_prefix_def Let_def split: prod.splits if_splits option.splits)

lemma valid_bits: "wf_prefix p \<Longrightarrow> prefix_valid p \<Longrightarrow> 0 \<le> pbits p \<and> pbits p \<le> bit_len (paddr p)"
  by (cases p) (auto simp: prefix_valid_def)

text \<open>
  A subnet fits its network, as \<open>Contains\<close> decides it, exactly when both blocks
  are valid and every address of the subnet is an address of the network.
\<close>

theorem net_contains_iff_subset:
  assumes wf: "wf_prefix outer" "wf_prefix inner"
  shows "net_contains outer inner \<longleftrightarrow>
    prefix_valid outer \<and> prefix_valid inner \<and> {a. prefix_contains inner a} \<subseteq> {a. prefix_contains outer a}"
proof (cases "prefix_valid outer \<and> prefix_valid inner")
  case True
  note own = contains_own [OF wf(2) conjunct2 [OF True]]
  show ?thesis
  proof
    assume c: "net_contains outer inner"
    then have bits: "pbits outer \<le> pbits inner" and co: "prefix_contains outer (paddr inner)"
      by (auto simp: net_contains_def split: if_splits)
    have "prefix_contains outer a" if "prefix_contains inner a" for a
      using that co wf bits mask_addr_coarser [of "paddr inner" "pbits inner" a "pbits outer"]
      by (simp add: contains_iff)
    with True show "prefix_valid outer \<and> prefix_valid inner \<and> {a. prefix_contains inner a} \<subseteq> {a. prefix_contains outer a}"
      by blast
  next
    assume "prefix_valid outer \<and> prefix_valid inner \<and> {a. prefix_contains inner a} \<subseteq> {a. prefix_contains outer a}"
    then have sub: "prefix_contains inner a \<Longrightarrow> prefix_contains outer a" for a by blast
    have co: "prefix_contains outer (paddr inner)" by (rule sub [OF own])
    have blk: "mask_addr (paddr outer) (pbits outer) = mask_addr (paddr inner) (pbits outer)"
      using co wf by (simp add: contains_iff)
    have fam: "is4 (paddr outer) = is4 (paddr inner)" "bit_len (paddr outer) = bit_len (paddr inner)"
      using is4_mask_eq [OF blk] arg_cong [OF blk, of bit_len] by simp_all
    have "pbits outer \<le> pbits inner"
    proof (rule ccontr)
      assume "\<not> pbits outer \<le> pbits inner"
      then obtain a where "prefix_contains inner a" "mask_addr a (pbits outer) \<noteq> mask_addr (paddr inner) (pbits outer)"
        using shorter_escapes [OF wf(2), of "pbits outer"] True fam valid_bits [OF wf(1)] by auto
      with sub [of a] co wf(1) show False by (simp add: contains_iff)
    qed
    with co fam True show "net_contains outer inner" by (simp add: net_contains_def)
  qed
qed (auto simp: net_contains_def)

lemma first_overlap_hit: "first_overlap p qs = (q, True) \<Longrightarrow> q \<in> set qs \<and> overlaps p q"
  by (induction qs) (auto split: if_splits)

lemma first_overlap_None: "\<not> snd (first_overlap p qs) \<longleftrightarrow> (\<forall>q\<in>set qs. \<not> overlaps p q)"
  by (induction qs) auto

text \<open>
  A new block is refused because of a sibling it shares an address with, and
  accepted exactly when it shares none with any.
\<close>

theorem first_overlap_shares_address:
  assumes "wf_prefix p" "\<forall>q\<in>set qs. wf_prefix q"
  shows "(\<not> snd (first_overlap p qs) \<longleftrightarrow>
      (\<forall>q\<in>set qs. \<not> (\<exists>a. prefix_contains p a \<and> prefix_contains q a))) \<and>
    (first_overlap p qs = (q, True) \<longrightarrow>
      q \<in> set qs \<and> (\<exists>a. prefix_contains p a \<and> prefix_contains q a))"
proof -
  have "\<not> snd (first_overlap p qs) \<longleftrightarrow>
      (\<forall>q\<in>set qs. \<not> (\<exists>a. prefix_contains p a \<and> prefix_contains q a))"
    unfolding first_overlap_None using assms by (simp add: overlaps_iff)
  moreover have "q \<in> set qs \<and> (\<exists>a. prefix_contains p a \<and> prefix_contains q a)"
    if "first_overlap p qs = (q, True)"
    using first_overlap_hit [OF that] assms overlaps_iff [of p q] by blast
  ultimately show ?thesis by blast
qed

lemma masked_eq_of_contains:
  assumes wf: "wf_prefix p" "wf_prefix q" and v: "prefix_valid p" "prefix_valid q"
    and m: "masked p = p" "masked q = q" and eq: "\<And>a. prefix_contains p a = prefix_contains q a"
  shows "p = q"
proof -
  have cq: "prefix_contains q (paddr p)" and cp: "prefix_contains p (paddr q)"
    using contains_own [OF wf(1) v(1)] contains_own [OF wf(2) v(2)] eq by auto
  have len: "bit_len (paddr p) = bit_len (paddr q)"
    using cq wf by (auto simp: contains_iff dest: arg_cong [where f = bit_len])
  have same: "pbits p = pbits q"
  proof (rule ccontr)
    assume "pbits p \<noteq> pbits q"
    then consider "pbits p < pbits q" | "pbits q < pbits p" by linarith
    then show False
    proof cases
      case 1
      then obtain a where "prefix_contains p a" "mask_addr a (pbits q) \<noteq> mask_addr (paddr p) (pbits q)"
        using shorter_escapes [OF wf(1) v(1), of "pbits q"] valid_bits [OF wf(2) v(2)] len by auto
      then show False using eq [of a] cq wf by (simp add: contains_iff)
    next
      case 2
      then obtain a where "prefix_contains q a" "mask_addr a (pbits p) \<noteq> mask_addr (paddr q) (pbits p)"
        using shorter_escapes [OF wf(2) v(2), of "pbits p"] valid_bits [OF wf(1) v(1)] len by auto
      then show False using eq [of a] cp wf by (simp add: contains_iff)
    qed
  qed
  have "mask_addr (paddr p) (pbits p) = mask_addr (paddr q) (pbits q)"
    using cq wf by (simp add: contains_iff same)
  with m v same show "p = q"
    by (cases p; cases q) (auto simp: prefix_valid_def split: if_splits)
qed

lemma masked_valid: "wf_prefix p \<Longrightarrow> prefix_valid (masked p) = prefix_valid p"
  by (cases p) (auto simp: prefix_valid_def zero_prefix_def)

lemma parse_prefix_valid: "parse_prefix s = Some p \<Longrightarrow> prefix_valid p"
  by (auto simp: parse_addr_NoAddr parse_prefix_def prefix_from_def prefix_valid_def Let_def addr_valid_def
      split: prod.splits if_splits option.splits)

text \<open>
  A block a client sends is taken only in its canonical form: two blocks
  \<open>ParseCIDR\<close> accepted are the same prefix exactly when they hold the same
  addresses, so comparing prefixes compares blocks; and a refusal for host bits
  suggests the canonical prefix of the very block that was sent.
\<close>

theorem parse_cidr_canonical:
  assumes "parse_cidr s = Inr p" "parse_cidr t = Inr q"
  shows "prefix_valid p \<and> masked p = p \<and> (p = q \<longleftrightarrow> (\<forall>a. prefix_contains p a = prefix_contains q a)) \<and>
    (parse_cidr u = Inl (ErrHostBits u r) \<longrightarrow>
       (\<exists>sent. parse_prefix u = Some sent \<and> masked r = r \<and> prefix_valid r \<and>
          (\<forall>a. prefix_contains r a = prefix_contains sent a)))"
proof -
  have pq: "wf_prefix p" "wf_prefix q" "prefix_valid p" "prefix_valid q" "masked p = p" "masked q = q"
    using assms by (auto simp: parse_cidr_def wf_parse_prefix parse_prefix_valid split: option.splits if_splits)
  moreover have "\<exists>sent. parse_prefix u = Some sent \<and> masked r = r \<and> prefix_valid r \<and>
          (\<forall>a. prefix_contains r a = prefix_contains sent a)"
    if "parse_cidr u = Inl (ErrHostBits u r)"
    using that by (auto simp: parse_cidr_def wf_parse_prefix parse_prefix_valid masked_valid
        split: option.splits if_splits)
  ultimately show ?thesis using masked_eq_of_contains [of p q] by metis
qed

section \<open>Witnesses\<close>

lemma net_contains_witness:
  "net_contains (Prefix (V4 0x0A000000) 16) (Prefix (V4 0x0A000500) 24) \<and>
   {a. prefix_contains (Prefix (V4 0x0A000500) 24) a} \<subseteq> {a. prefix_contains (Prefix (V4 0x0A000000) 16) a}"
proof -
  have wf: "wf_prefix (Prefix (V4 0x0A000000) 16)" "wf_prefix (Prefix (V4 0x0A000500) 24)" by simp_all
  have "net_contains (Prefix (V4 0x0A000000) 16) (Prefix (V4 0x0A000500) 24)"
    by (simp add: net_contains_def netip_eval)
  with net_contains_iff_subset [OF wf] show ?thesis by simp
qed

lemma first_overlap_witness:
  "\<exists>a. prefix_contains (Prefix (V4 0x0A000000) 16) a \<and> prefix_contains (Prefix (V4 0x0A000500) 24) a"
proof -
  have wf: "wf_prefix (Prefix (V4 0x0A000000) 16)" "\<forall>q\<in>set [Prefix (V4 0x0B000000) 8, Prefix (V4 0x0A000500) 24]. wf_prefix q"
    by simp_all
  have "first_overlap (Prefix (V4 0x0A000000) 16) [Prefix (V4 0x0B000000) 8, Prefix (V4 0x0A000500) 24]
      = (Prefix (V4 0x0A000500) 24, True)"
    by (simp add: netip_eval)
  with first_overlap_shares_address [OF wf] show ?thesis by blast
qed

lemma parse_cidr_witness:
  "parse_cidr ''10.0.0.0/24'' = Inr (Prefix (V4 0x0A000000) 24) \<and> prefix_valid (Prefix (V4 0x0A000000) 24)"
proof -
  have "parse_cidr ''10.0.0.0/24'' = Inr (Prefix (V4 0x0A000000) 24)"
    by (simp add: parse_cidr_def netip_eval)
  with parse_cidr_canonical [OF this this] show ?thesis by blast
qed

end
