(* ===== verification/Ipam.thy ===== *)
theory Ipam
  imports Network
begin

text \<open>
  The address allocator (\<open>internal/core/network/ipam.go\<close>). Addresses and cursor
  are 32-bit words as in the code, so that \<open>a.cursor-a.first+i\<close> wraps where the
  code's does; the map of used addresses, whose values are only ever true, is a
  set. Every method holds the mutex throughout and is one step.
\<close>

datatype ipam_error =
    InvalidPrefix
  | ErrNotIPv4
  | NegativeReserve int
  | ErrExhausted prefix
  | ErrOutOfRange addr prefix
  | ErrInUse addr

record allocator =
  aprefix :: prefix
  afirst :: "32 word"
  alast :: "32 word"
  acursor :: "32 word"
  aused :: "32 word set"

text \<open>Only ever reached after \<open>Is4\<close>; \<open>As4\<close> of another address is not.\<close>

fun to_uint32 :: "addr \<Rightarrow> 32 word" where
  "to_uint32 (V4 w) = w"
| "to_uint32 (V6 w z) = ucast w"
| "to_uint32 NoAddr = 0"

definition to_addr :: "32 word \<Rightarrow> addr" where
  "to_addr v = V4 v"

definition new_allocator :: "prefix \<Rightarrow> int \<Rightarrow> ipam_error + allocator" where
  "new_allocator p reserved =
     (if \<not> prefix_valid p then Inl InvalidPrefix
      else if \<not> is4 (paddr p) then Inl ErrNotIPv4
      else if reserved < 0 then Inl (NegativeReserve reserved)
      else
        (let q = masked p;
             base = uint (to_uint32 (paddr q));
             size = (2 :: int) ^ nat (32 - pbits q);
             low = max reserved 1;
             a = \<lparr>aprefix = q, afirst = 0, alast = 0, acursor = 0, aused = {}\<rparr>
         in if size < low + 2 then Inr (a\<lparr>afirst := 1, alast := 0\<rparr>)
            else
              (let f = word_of_int (base + low); l = word_of_int (base + size - 2)
               in Inr (a\<lparr>afirst := f, alast := l, acursor := f\<rparr>))))"

definition capacity :: "allocator \<Rightarrow> int" where
  "capacity a = (if afirst a > alast a then 0 else uint (alast a - afirst a) + 1)"

definition available :: "allocator \<Rightarrow> int" where
  "available a = capacity a - int (card (aused a))"

text \<open>The candidate of one turn of the scan, and the scan: \<open>n\<close> turns are left.\<close>

definition candidate :: "allocator \<Rightarrow> 32 word \<Rightarrow> 32 word \<Rightarrow> 32 word" where
  "candidate a wide i = afirst a + (acursor a - afirst a + i) mod wide"

fun scan :: "allocator \<Rightarrow> 32 word \<Rightarrow> 32 word \<Rightarrow> nat \<Rightarrow> 32 word option" where
  "scan a wide i 0 = None"
| "scan a wide i (Suc n) =
     (if candidate a wide i \<in> aused a then scan a wide (i + 1) n
      else Some (candidate a wide i))"

definition allocate :: "allocator \<Rightarrow> allocator \<times> (ipam_error + addr)" where
  "allocate a =
     (if afirst a > alast a then (a, Inl (ErrExhausted (aprefix a)))
      else
        (let wide = alast a - afirst a + 1 in
         case scan a wide 0 (unat wide) of
           None \<Rightarrow> (a, Inl (ErrExhausted (aprefix a)))
         | Some c \<Rightarrow>
             (a\<lparr>aused := insert c (aused a), acursor := afirst a + (c - afirst a + 1) mod wide\<rparr>,
              Inr (to_addr c))))"

definition usable :: "allocator \<Rightarrow> addr \<Rightarrow> ipam_error + 32 word" where
  "usable a x =
     (if \<not> is4 x then Inl ErrNotIPv4
      else
        (let v = to_uint32 x in
         if afirst a > alast a \<or> v < afirst a \<or> v > alast a then Inl (ErrOutOfRange x (aprefix a))
         else Inr v))"

definition reserve :: "allocator \<Rightarrow> addr \<Rightarrow> allocator \<times> ipam_error option" where
  "reserve a x =
     (case usable a x of
        Inl e \<Rightarrow> (a, Some e)
      | Inr v \<Rightarrow>
          (if v \<in> aused a then (a, Some (ErrInUse x))
           else (a\<lparr>aused := insert v (aused a)\<rparr>, None)))"

definition release :: "allocator \<Rightarrow> addr \<Rightarrow> allocator" where
  "release a x =
     (case usable a x of
        Inl e \<Rightarrow> a
      | Inr v \<Rightarrow> a\<lparr>aused := aused a - {v}\<rparr>)"

definition allocated :: "allocator \<Rightarrow> addr \<Rightarrow> bool" where
  "allocated a x = (case usable a x of Inl e \<Rightarrow> False | Inr v \<Rightarrow> v \<in> aused a)"

lemma scan_numeral:
  "scan a wide i (numeral n) =
     (if candidate a wide i \<in> aused a then scan a wide (i + 1) (pred_numeral n)
      else Some (candidate a wide i))"
  by (simp add: numeral_eq_Suc)

section \<open>The shape every allocator keeps\<close>

text \<open>
  \<open>pool_ok\<close> is the invariant; \<open>narrow\<close> is what every block but \<open>0.0.0.0/0\<close>
  satisfies: the span is at most half of the 32-bit range, so the sum in the scan
  does not wrap.
\<close>

definition pool_ok :: "allocator \<Rightarrow> bool" where
  "pool_ok a =
     (if afirst a > alast a then aused a = {}
      else aused a \<subseteq> {afirst a..alast a} \<and> acursor a \<in> {afirst a..alast a})"

definition narrow :: "allocator \<Rightarrow> bool" where
  "narrow a = (afirst a > alast a \<or> uint (alast a) - uint (afirst a) < 2 ^ 31)"

lemma scan_Some_iff:
  "scan a wide i n = Some c \<longleftrightarrow>
     (\<exists>m<n. c = candidate a wide (i + of_nat m) \<and> c \<notin> aused a \<and>
        (\<forall>j<m. candidate a wide (i + of_nat j) \<in> aused a))"
proof (induction n arbitrary: i)
  case (Suc n)
  show ?case
  proof (cases "candidate a wide i \<in> aused a")
    case True
    then show ?thesis
      by (auto simp: Suc.IH Ex_less_Suc2 All_less_Suc2 algebra_simps)
  next
    case False
    then show ?thesis by (auto simp: Ex_less_Suc2 All_less_Suc2)
  qed
qed simp

lemma scan_None_iff:
  "scan a wide i n = None \<longleftrightarrow> (\<forall>m<n. candidate a wide (i + of_nat m) \<in> aused a)"
  by (induction n arbitrary: i) (auto simp: All_less_Suc2 algebra_simps)

text \<open>Where the sum does not wrap, the candidates are the usable addresses, each once.\<close>

lemma unat_wide:
  assumes "afirst a \<le> alast a" "narrow a"
  shows "unat (alast a - afirst a + 1) = unat (alast a) - unat (afirst a) + 1"
    and "unat (alast a - afirst a + 1) \<le> 2 ^ 31"
proof -
  have "int (unat (alast a) - unat (afirst a)) < int (2 ^ 31)"
    using assms leD [OF assms(1)] by (auto simp: narrow_def word_le_nat_alt of_nat_diff)
  then have l: "unat (alast a) - unat (afirst a) < 2 ^ 31" by (simp only: of_nat_less_iff)
  have sub: "unat (alast a - afirst a) = unat (alast a) - unat (afirst a)"
    using assms(1) by (rule unat_sub)
  have "unat (alast a - afirst a + 1) = unat (alast a - afirst a) + unat (1 :: 32 word)"
    by (rule unat_add_lem [THEN iffD1]) (use l in \<open>simp add: sub\<close>)
  then show eq: "unat (alast a - afirst a + 1) = unat (alast a) - unat (afirst a) + 1"
    by (simp add: sub)
  show "unat (alast a - afirst a + 1) \<le> 2 ^ 31" using l by (simp only: eq)
qed

lemma unat_candidate:
  assumes "afirst a \<le> alast a" "narrow a" "acursor a \<in> {afirst a..alast a}"
    and "wide = alast a - afirst a + 1" "m < unat wide"
  shows "unat (candidate a wide (of_nat m)) =
    unat (afirst a) + (unat (acursor a) - unat (afirst a) + m) mod unat wide"
proof -
  let ?d = "unat (acursor a) - unat (afirst a)"
  note w = unat_wide [OF assms(1,2), folded assms(4)]
  have c: "unat (acursor a - afirst a) = ?d" using assms(3) by (simp add: unat_sub)
  have d: "?d < unat wide" using assms(3) by (simp add: w(1) word_le_nat_alt) linarith
  have m: "unat (of_nat m :: 32 word) = m"
    using assms(5) w(2) by (simp add: unat_of_nat)
  have "unat (acursor a - afirst a + of_nat m) = ?d + m"
    using d assms(5) w(2) by (subst unat_add_lem [THEN iffD1]) (simp_all add: c m)
  then have off: "unat ((acursor a - afirst a + of_nat m) mod wide) = (?d + m) mod unat wide"
    by (simp add: unat_mod)
  have "(?d + m) mod unat wide < unat wide" using assms(5) by simp
  moreover have "unat (afirst a) \<le> unat (alast a)" using assms(1) by (simp add: word_le_nat_alt)
  ultimately have "unat (afirst a) + (?d + m) mod unat wide \<le> unat (alast a)"
    using w(1) by linarith
  then have "unat (afirst a) + (?d + m) mod unat wide < 2 ^ LENGTH(32)"
    using unsigned_less [of "alast a", where 'a = nat] by linarith
  then show ?thesis
    unfolding candidate_def by (subst unat_add_lem [THEN iffD1]) (simp_all add: off)
qed

lemma mod_onto:
  assumes "d < n" "x < (n :: nat)"
  shows "\<exists>m<n. (d + m) mod n = x"
proof (cases "d \<le> x")
  case True
  then show ?thesis using assms by (intro exI [of _ "x - d"]) auto
next
  case False
  then have "d + (n + x - d) = x + n" using assms by simp
  then have "(d + (n + x - d)) mod n = x" using assms by (simp only: mod_add_self2 mod_less)
  then show ?thesis using False assms by (intro exI [of _ "n + x - d"]) auto
qed

lemma candidates_range:
  assumes "afirst a \<le> alast a" "narrow a" "acursor a \<in> {afirst a..alast a}"
    and "wide = alast a - afirst a + 1"
  shows "(\<lambda>m. candidate a wide (of_nat m)) ` {..<unat wide} = {afirst a..alast a}" (is "?C = ?R")
proof -
  let ?n = "unat wide" and ?f = "unat (afirst a)" and ?d = "unat (acursor a) - unat (afirst a)"
  note w = unat_wide [OF assms(1,2), folded assms(4)]
  note uc = unat_candidate [OF assms]
  have fl: "?f \<le> unat (alast a)" and fc: "?f \<le> unat (acursor a)" "unat (acursor a) \<le> unat (alast a)"
    using assms(1,3) by (simp_all add: word_le_nat_alt)
  have "?C \<subseteq> ?R"
  proof (clarsimp simp: word_le_nat_alt uc)
    fix m assume "m < ?n"
    then have "(?d + m) mod ?n < ?n" by simp
    then show "?f + (?d + m) mod ?n \<le> unat (alast a)" using w(1) fl by linarith
  qed
  moreover have "?R \<subseteq> ?C"
  proof
    fix v assume "v \<in> ?R"
    then have v: "?f \<le> unat v" "unat v \<le> unat (alast a)" by (simp_all add: word_le_nat_alt)
    have "?d < ?n" "unat v - ?f < ?n" using v fc w(1) by linarith+
    from mod_onto [OF this] obtain m where m: "m < ?n" "(?d + m) mod ?n = unat v - ?f" by blast
    have "unat (candidate a wide (of_nat m)) = unat v" using uc [OF m(1)] m(2) v by simp
    then have "candidate a wide (of_nat m) = v" by (rule unsigned_word_eqI)
    then show "v \<in> ?C" using m(1) by blast
  qed
  ultimately show ?thesis by blast
qed

text \<open>What a scan of a narrow pool finds.\<close>

lemma scan_None_full:
  assumes "afirst a \<le> alast a" "narrow a" "acursor a \<in> {afirst a..alast a}"
    and "wide = alast a - afirst a + 1"
  shows "scan a wide 0 (unat wide) = None \<longleftrightarrow> {afirst a..alast a} \<subseteq> aused a"
  unfolding candidates_range [OF assms, symmetric] scan_None_iff by auto

lemma scan_Some_fresh:
  assumes "afirst a \<le> alast a" "narrow a" "acursor a \<in> {afirst a..alast a}"
    and "wide = alast a - afirst a + 1" "scan a wide 0 (unat wide) = Some c"
  shows "c \<in> {afirst a..alast a}" "c \<notin> aused a"
  using assms(5) unfolding candidates_range [OF assms(1-4), symmetric] scan_Some_iff by auto

lemma card_range:
  assumes "afirst a \<le> alast a"
  shows "int (card {afirst a..alast a}) = capacity a" "finite {afirst a..alast a}"
proof -
  have "unat ` {afirst a..alast a} = {unat (afirst a)..unat (alast a)}"
  proof
    show "{unat (afirst a)..unat (alast a)} \<subseteq> unat ` {afirst a..alast a}"
    proof
      fix n assume n: "n \<in> {unat (afirst a)..unat (alast a)}"
      then have "n < 2 ^ LENGTH(32)" using unsigned_less [of "alast a", where 'a = nat] by simp
      then have "unat (of_nat n :: 32 word) = n" by (simp add: unat_of_nat)
      with n show "n \<in> unat ` {afirst a..alast a}"
        by (intro image_eqI [of _ _ "of_nat n"]) (simp_all add: word_le_nat_alt)
    qed
  qed (auto simp: word_le_nat_alt)
  moreover have "inj_on (unat :: 32 word \<Rightarrow> nat) {afirst a..alast a}"
    by (intro inj_onI unsigned_word_eqI)
  ultimately have "card {afirst a..alast a} = card {unat (afirst a)..unat (alast a)}"
    by (metis card_image)
  also have "\<dots> = unat (alast a) - unat (afirst a) + 1"
    using assms by (simp add: word_le_nat_alt)
  also have "int \<dots> = uint (alast a - afirst a) + 1"
    using assms unat_sub [OF assms] by (simp add: uint_nat)
  finally show "int (card {afirst a..alast a}) = capacity a"
    using assms by (simp add: capacity_def leD)
qed simp

section \<open>The invariant\<close>

lemma pool_ok_card:
  assumes "pool_ok a"
  shows "int (card (aused a)) \<le> capacity a" "finite (aused a)"
proof -
  have "int (card (aused a)) \<le> capacity a \<and> finite (aused a)"
  proof (cases "afirst a > alast a")
    case True
    then show ?thesis using assms by (simp add: pool_ok_def capacity_def)
  next
    case False
    then have le: "afirst a \<le> alast a" and sub: "aused a \<subseteq> {afirst a..alast a}"
      using assms by (auto simp: pool_ok_def)
    show ?thesis
      using card_mono [OF card_range(2) [OF le] sub] card_range [OF le] finite_subset [OF sub] by simp
  qed
  then show "int (card (aused a)) \<le> capacity a" "finite (aused a)" by auto
qed

lemma cursor_next:
  assumes "afirst a \<le> alast a" "narrow a"
  shows "afirst a + x mod (alast a - afirst a + 1) \<in> {afirst a..alast a}"
proof -
  let ?w = "alast a - afirst a + 1"
  note w = unat_wide [OF assms]
  have fl: "unat (afirst a) \<le> unat (alast a)" using assms(1) by (simp add: word_le_nat_alt)
  have "unat (x mod ?w) < unat ?w" using w(1) by (simp add: unat_mod)
  then have le: "unat (afirst a) + unat (x mod ?w) \<le> unat (alast a)" using w(1) fl by linarith
  then have "unat (afirst a) + unat (x mod ?w) < 2 ^ LENGTH(32)"
    using unsigned_less [of "alast a", where 'a = nat] by linarith
  then have "unat (afirst a + x mod ?w) = unat (afirst a) + unat (x mod ?w)"
    by (rule unat_add_lem [THEN iffD1])
  with le show ?thesis by (simp add: word_le_nat_alt)
qed

lemma usable_iff:
  "usable a x = Inr v \<longleftrightarrow> x = V4 v \<and> afirst a \<le> v \<and> v \<le> alast a"
  by (cases x) (auto simp: usable_def Let_def)

text \<open>The two ways \<open>Allocate\<close> ends.\<close>

lemma allocate_cases:
  assumes "pool_ok a" "narrow a"
  obtains (given) c cur where "c \<in> {afirst a..alast a}" "c \<notin> aused a" "cur \<in> {afirst a..alast a}"
      "allocate a = (a\<lparr>aused := insert c (aused a), acursor := cur\<rparr>, Inr (V4 c))"
    | (full) "aused a = {afirst a..alast a}" "allocate a = (a, Inl (ErrExhausted (aprefix a)))"
proof (cases "afirst a > alast a")
  case True
  then have "aused a = {afirst a..alast a}" "allocate a = (a, Inl (ErrExhausted (aprefix a)))"
    using assms(1) by (simp_all add: allocate_def pool_ok_def)
  then show ?thesis by (rule full)
next
  case False
  then have le: "afirst a \<le> alast a" and cur: "acursor a \<in> {afirst a..alast a}"
    and sub: "aused a \<subseteq> {afirst a..alast a}" using assms(1) by (auto simp: pool_ok_def)
  let ?w = "alast a - afirst a + 1"
  show ?thesis
  proof (cases "scan a ?w 0 (unat ?w)")
    case None
    then have "allocate a = (a, Inl (ErrExhausted (aprefix a)))"
      using False by (simp add: allocate_def)
    moreover have "aused a = {afirst a..alast a}"
      using None scan_None_full [OF le assms(2) cur refl] sub by blast
    ultimately show ?thesis using full by blast
  next
    case (Some c)
    let ?cur = "afirst a + (c - afirst a + 1) mod ?w"
    have "allocate a = (a\<lparr>aused := insert c (aused a), acursor := ?cur\<rparr>, Inr (V4 c))"
      using False Some by (simp add: allocate_def to_addr_def)
    then show ?thesis
      using given scan_Some_fresh [OF le assms(2) cur refl Some] cursor_next [OF le assms(2)] by blast
  qed
qed

lemma allocate_ok: "pool_ok a \<Longrightarrow> narrow a \<Longrightarrow> pool_ok (fst (allocate a))"
  by (rule allocate_cases [of a]) (auto simp: pool_ok_def split: if_splits)

lemma reserve_ok: "pool_ok a \<Longrightarrow> pool_ok (fst (reserve a x))"
  by (auto simp: reserve_def pool_ok_def usable_iff split: sum.split if_splits)

lemma release_ok: "pool_ok a \<Longrightarrow> pool_ok (release a x)"
  by (auto simp: release_def pool_ok_def split: sum.split if_splits)

lemma same_block_range:
  "afirst (fst (allocate a)) = afirst a" "alast (fst (allocate a)) = alast a"
  "aprefix (fst (allocate a)) = aprefix a"
  "afirst (fst (reserve a x)) = afirst a" "alast (fst (reserve a x)) = alast a"
  "aprefix (fst (reserve a x)) = aprefix a"
  "afirst (release a x) = afirst a" "alast (release a x) = alast a" "aprefix (release a x) = aprefix a"
  by (simp_all add: allocate_def reserve_def release_def Let_def split: option.split sum.split)

lemma same_range_shape:
  "capacity (fst (allocate a)) = capacity a" "capacity (fst (reserve a x)) = capacity a"
  "capacity (release a x) = capacity a" "narrow (fst (allocate a)) = narrow a"
  "narrow (fst (reserve a x)) = narrow a" "narrow (release a x) = narrow a"
  by (simp_all add: capacity_def narrow_def same_block_range)

section \<open>The contract the packs rely on\<close>

text \<open>
  A pool of things handed out one at a time: what a pack assumes of an allocator
  whatever it allocates. \<open>room\<close> is what is still free.
\<close>

fun take_many :: "('s \<Rightarrow> 's \<times> ('e + 'x)) \<Rightarrow> nat \<Rightarrow> 's \<Rightarrow> 's \<times> 'x list" where
  "take_many take_one 0 s = (s, [])"
| "take_many take_one (Suc n) s =
     (case take_one s of
        (s', Inl e) \<Rightarrow> (s', [])
      | (s', Inr x) \<Rightarrow> (let (t, xs) = take_many take_one n s' in (t, x # xs)))"

locale address_pool =
  fixes ok :: "'s \<Rightarrow> bool"
    and held :: "'s \<Rightarrow> 'x \<Rightarrow> bool"
    and take_one :: "'s \<Rightarrow> 's \<times> ('e + 'x)"
    and give :: "'s \<Rightarrow> 'x \<Rightarrow> 's"
    and room :: "'s \<Rightarrow> int"
  assumes take_given: "ok s \<Longrightarrow> take_one s = (s', Inr x) \<Longrightarrow>
      ok s' \<and> \<not> held s x \<and> (\<forall>y. held s' y \<longleftrightarrow> y = x \<or> held s y) \<and> room s' = room s - 1"
    and take_refused: "ok s \<Longrightarrow> take_one s = (s', Inl e) \<Longrightarrow> s' = s \<and> room s = 0"
    and give_back: "ok s \<Longrightarrow>
      ok (give s x) \<and> (\<forall>y. held (give s x) y \<longleftrightarrow> held s y \<and> y \<noteq> x) \<and>
      room (give s x) = room s + of_bool (held s x)"
    and room_nonneg: "ok s \<Longrightarrow> 0 \<le> room s"
begin

lemma many:
  "ok s \<Longrightarrow> take_many take_one n s = (t, xs) \<Longrightarrow>
     ok t \<and> distinct xs \<and> (\<forall>x\<in>set xs. \<not> held s x) \<and> (\<forall>y. held t y \<longleftrightarrow> y \<in> set xs \<or> held s y) \<and>
     length xs = min n (nat (room s)) \<and> room t = room s - int (length xs)"
proof (induction n arbitrary: s t xs)
  case (Suc n)
  show ?case
  proof (cases "take_one s")
    case (Pair s' r)
    show ?thesis
    proof (cases r)
      case (Inl e)
      then show ?thesis using Suc.prems Pair take_refused by fastforce
    next
      case (Inr x)
      from take_given [OF Suc.prems(1)] Pair Inr
      have step: "ok s'" "\<not> held s x" "\<And>y. held s' y \<longleftrightarrow> y = x \<or> held s y" "room s' = room s - 1" by auto
      obtain ys where ys: "take_many take_one n s' = (t, ys)" "xs = x # ys"
        using Suc.prems(2) Pair Inr by (auto split: prod.splits)
      have pos: "0 < room s" using room_nonneg [OF step(1)] step(4) by simp
      have len: "length ys = min n (nat (room s'))" "room t = room s' - int (length ys)"
        using Suc.IH [OF step(1) ys(1)] by auto
      have "length xs = min (Suc n) (nat (room s))" "room t = room s - int (length xs)"
        using len pos by (auto simp: step(4) ys(2) min_def)
      then show ?thesis using Suc.IH [OF step(1) ys(1)] step ys(2) by auto
    qed
  qed
qed simp

text \<open>What is given back can be taken again: there is room for it.\<close>

lemma given_back_is_free:
  assumes "ok s" "held s x"
  shows "\<exists>t y. take_one (give s x) = (t, Inr y) \<and> \<not> held (give s x) y"
proof (cases "take_one (give s x)")
  case (Pair t r)
  have ok: "ok (give s x)" and room: "0 < room (give s x)"
    using give_back [OF assms(1), of x] room_nonneg [OF assms(1)] assms(2) by auto
  show ?thesis
  proof (cases r)
    case (Inl e)
    then show ?thesis using take_refused [OF ok] Pair room by fastforce
  next
    case (Inr y)
    then show ?thesis using take_given [OF ok] Pair by fastforce
  qed
qed

end

lemma allocated_iff: "pool_ok a \<Longrightarrow> allocated a x \<longleftrightarrow> (\<exists>v. x = V4 v \<and> v \<in> aused a)"
proof -
  assume ok: "pool_ok a"
  have "v \<in> aused a \<Longrightarrow> afirst a \<le> v \<and> v \<le> alast a" for v
    using ok by (auto simp: pool_ok_def split: if_splits)
  then show ?thesis
    unfolding allocated_def using usable_iff [of a x]
    by (cases "usable a x") (auto, metis Inl_Inr_False)
qed

lemma release_used:
  assumes "pool_ok a"
  shows "aused (release a (V4 v)) = aused a - {v}"
proof (cases "usable a (V4 v)")
  case (Inl e)
  then have "v \<notin> aused a"
    using assms usable_iff [of a "V4 v" v] by (auto simp: pool_ok_def split: if_splits)
  then show ?thesis using Inl by (simp add: release_def)
next
  case (Inr u)
  then have "u = v" using usable_iff [of a "V4 v" u] by simp
  then show ?thesis using Inr by (simp add: release_def)
qed

lemma release_other: "\<not> is4 x \<Longrightarrow> release a x = a"
  by (simp add: release_def usable_def)

interpretation pool: address_pool "\<lambda>a. pool_ok a \<and> narrow a" allocated allocate release available
proof
  fix s s' :: allocator and x
  assume ok: "pool_ok s \<and> narrow s" and t: "allocate s = (s', Inr x)"
  show "(pool_ok s' \<and> narrow s') \<and> \<not> allocated s x \<and>
      (\<forall>y. allocated s' y = (y = x \<or> allocated s y)) \<and> available s' = available s - 1"
  proof (rule allocate_cases [of s])
    fix c cur
    assume c: "c \<in> {afirst s..alast s}" "c \<notin> aused s"
      and r: "allocate s = (s\<lparr>aused := insert c (aused s), acursor := cur\<rparr>, Inr (V4 c))"
    have ok': "pool_ok s'" "narrow s'"
      using allocate_ok [of s] same_range_shape(4) [of s] ok by (simp_all add: t)
    have "available s' = available s - 1"
      using r t c(2) pool_ok_card [of s] ok by (auto simp: available_def capacity_def)
    then show ?thesis using r t c(2) ok ok' by (auto simp: allocated_iff)
  qed (use ok t in auto)
next
  fix s s' :: allocator and e
  assume ok: "pool_ok s \<and> narrow s" and t: "allocate s = (s', Inl e)"
  show "s' = s \<and> available s = 0"
  proof (rule allocate_cases [of s])
    assume f: "aused s = {afirst s..alast s}" and r: "allocate s = (s, Inl (ErrExhausted (aprefix s)))"
    have "available s = 0"
    proof (cases "afirst s > alast s")
      case False
      then show ?thesis using card_range [of s] by (simp add: available_def f)
    qed (simp add: available_def capacity_def f)
    then show ?thesis using r t by simp
  qed (use ok t in auto)
next
  fix s :: allocator and x
  assume ok: "pool_ok s \<and> narrow s"
  have ok': "pool_ok (release s x)" "narrow (release s x)"
    using release_ok [of s x] ok by (simp_all add: same_range_shape)
  have "(\<forall>y. allocated (release s x) y = (allocated s y \<and> y \<noteq> x)) \<and>
       available (release s x) = available s + of_bool (allocated s x)"
  proof (cases x)
    case (V4 v)
    have "int (card (aused s - {v})) = int (card (aused s)) - of_bool (v \<in> aused s)"
      using pool_ok_card(2) [of s] card_Suc_Diff1 [of "aused s" v] ok by (cases "v \<in> aused s") auto
    then show ?thesis
      using ok ok' by (auto simp: allocated_iff V4 release_used available_def same_range_shape)
  qed (use ok in \<open>auto simp: release_other allocated_iff\<close>)
  with ok' show "(pool_ok (release s x) \<and> narrow (release s x)) \<and>
       (\<forall>y. allocated (release s x) y = (allocated s y \<and> y \<noteq> x)) \<and>
       available (release s x) = available s + of_bool (allocated s x)" by simp
next
  fix s :: allocator
  assume "pool_ok s \<and> narrow s"
  then show "0 \<le> available s" using pool_ok_card [of s] by (simp add: available_def)
qed

section \<open>The range a block offers\<close>

lemma and_not_mask_push: "w AND NOT (mask k) = push_bit k (drop_bit k (w :: 'a::len word))"
  by (intro bit_word_eqI) (auto simp: bit_simps)

lemma uint_drop: "uint (drop_bit k (v :: 32 word)) = uint v div 2 ^ k"
  by (simp only: unsigned_drop_bit_eq drop_bit_eq_div [where 'a = int] bintr_uint order_refl)

lemma uint_push: "uint (push_bit k (v :: 32 word)) = (uint v * 2 ^ k) mod 2 ^ 32"
  by (simp only: unsigned_push_bit_eq push_bit_eq_mult [where 'a = int] take_bit_eq_mod) simp

lemma div_block:
  assumes "0 < (n :: int)"
  shows "x div n * n \<le> x" "x < x div n * n + n"
  using assms div_mult_mod_eq [of x n] pos_mod_bound [OF assms, of x] pos_mod_sign [OF assms, of x]
  by linarith+

lemma uint_network_addr:
  "uint (w AND NOT (mask k) :: 32 word) = uint w div 2 ^ k * 2 ^ k"
proof -
  have "uint w div 2 ^ k * 2 ^ k < 2 ^ 32"
    using div_block(1) [of "2 ^ k" "uint w"] unsigned_less [of w, where 'a = int] by simp
  moreover have "0 \<le> uint w div 2 ^ k * 2 ^ k" by (simp add: pos_imp_zdiv_nonneg_iff)
  ultimately show ?thesis by (simp only: and_not_mask_push uint_push uint_drop mod_pos_pos_trivial)
qed

lemma in_block_range:
  fixes v w :: "32 word"
  shows "drop_bit k v = drop_bit k w \<longleftrightarrow>
    uint w div 2 ^ k * 2 ^ k \<le> uint v \<and> uint v < uint w div 2 ^ k * 2 ^ k + 2 ^ k"
proof -
  have "drop_bit k v = drop_bit k w \<longleftrightarrow> uint v div 2 ^ k = uint w div 2 ^ k"
    by (simp only: word_uint_eq_iff uint_drop)
  also have "\<dots> \<longleftrightarrow> uint w div 2 ^ k * 2 ^ k \<le> uint v \<and> uint v < uint w div 2 ^ k * 2 ^ k + 2 ^ k"
  proof
    assume "uint v div 2 ^ k = uint w div 2 ^ k"
    then show "uint w div 2 ^ k * 2 ^ k \<le> uint v \<and> uint v < uint w div 2 ^ k * 2 ^ k + 2 ^ k"
      using div_block [of "2 ^ k" "uint v"] by simp
  next
    assume r: "uint w div 2 ^ k * 2 ^ k \<le> uint v \<and> uint v < uint w div 2 ^ k * 2 ^ k + 2 ^ k"
    show "uint v div 2 ^ k = uint w div 2 ^ k"
      by (rule int_div_pos_eq [of _ _ _ "uint v - uint w div 2 ^ k * 2 ^ k"]) (use r in \<open>simp_all add: mult.commute\<close>)
  qed
  finally show ?thesis .
qed

lemma uint_in_range: "0 \<le> x \<Longrightarrow> x < 2 ^ 32 \<Longrightarrow> uint (word_of_int x :: 32 word) = x"
  by (simp only: uint_word_of_int) simp

text \<open>A block of \<open>2 ^ k\<close> addresses ends inside the 32-bit range.\<close>

lemma block_fits:
  assumes "k \<le> 32"
  shows "uint (w :: 32 word) div 2 ^ k * 2 ^ k + 2 ^ k \<le> 2 ^ 32"
proof -
  have split: "(2 :: int) ^ 32 = 2 ^ (32 - k) * 2 ^ k"
    using assms by (simp flip: power_add)
  have "uint w < 2 ^ (32 - k) * 2 ^ k" using unsigned_less [of w, where 'a = int] by (simp flip: split)
  then have "uint w div 2 ^ k * 2 ^ k < 2 ^ (32 - k) * 2 ^ k"
    using div_block(1) [of "2 ^ k" "uint w"] by (meson le_less_trans zero_less_numeral zero_less_power)
  then have "uint w div 2 ^ k < 2 ^ (32 - k)" by (rule mult_right_less_imp_less) simp
  then have "(uint w div 2 ^ k + 1) * 2 ^ k \<le> 2 ^ (32 - k) * 2 ^ k" by (intro mult_right_mono) auto
  then show ?thesis by (simp only: split) (simp add: algebra_simps)
qed

text \<open>
  The range of a block is its arithmetic: a fresh allocator offers exactly the
  addresses of the block that are neither among its first \<open>reserved\<close> ones (the
  network address always counted) nor its broadcast address, and announces that
  many, none for a block too small to hold any.
\<close>

theorem new_allocator_range:
  assumes wf: "wf_prefix p" and new: "new_allocator p r = Inr a"
  shows "pool_ok a \<and> aprefix a = masked p \<and> (1 \<le> pbits p \<longrightarrow> narrow a) \<and>
    available a = max 0 (2 ^ nat (32 - pbits p) - max r 1 - 1) \<and>
    (usable a (V4 v) = Inr v \<longleftrightarrow>
       prefix_contains p (V4 v) \<and>
       max r 1 \<le> uint v - uint (to_uint32 (paddr (masked p))) \<and>
       uint v - uint (to_uint32 (paddr (masked p))) \<noteq> 2 ^ nat (32 - pbits p) - 1)"
proof -
  obtain w b where p: "p = Prefix (V4 w) b" and r: "0 \<le> r" and b: "0 \<le> b" "b \<le> 32"
    using new wf by (cases p; cases "paddr p") (auto simp: new_allocator_def prefix_valid_def split: if_splits)
  define k where "k = 32 - nat b"
  define base where "base = uint w div 2 ^ k * 2 ^ k"
  have k: "nat (32 - b) = k" "k \<le> 32" using b by (auto simp: k_def)
  have base: "uint (w AND NOT (mask k)) = base" by (simp add: base_def uint_network_addr)
  then have wb: "w AND NOT (mask (32 - nat b)) = word_of_int base"
    by (metis k_def word_of_int_uint)
  have fits: "base + 2 ^ k \<le> 2 ^ 32" "0 \<le> base"
    using block_fits [OF k(2), of w] by (simp_all add: base_def pos_imp_zdiv_nonneg_iff)
  have mem: "prefix_contains p (V4 v) \<longleftrightarrow> base \<le> uint v \<and> uint v < base + 2 ^ k"
    using in_block_range [of k v w] b
    by (simp only: p prefix_contains_def prefix_valid_def same_block.simps drop_bit_xor_eq prefix.sel
        has_zone.simps k_def base_def) auto
  have m: "masked p = Prefix (V4 (w AND NOT (mask k))) b" using b by (simp add: p k_def)
  have net: "uint (to_uint32 (paddr (masked p))) = base" by (simp add: m base)
  have bits: "nat (32 - pbits p) = k" by (simp add: p k)
  show ?thesis
  proof (cases "(2 :: int) ^ k < max r 1 + 2")
    case True
    then have a: "a = \<lparr>aprefix = masked p, afirst = 1, alast = 0, acursor = 0, aused = {}\<rparr>"
      using new b r by (auto simp: new_allocator_def m k p prefix_valid_def Let_def)
    have "pool_ok a" "narrow a" "available a = 0" "aprefix a = masked p" "usable a (V4 v) \<noteq> Inr v"
      by (auto simp: a pool_ok_def narrow_def available_def capacity_def usable_def Let_def)
    moreover have "max 0 (2 ^ k - max r 1 - 1) = (0 :: int)" using True by simp
    moreover have "\<not> (prefix_contains p (V4 v) \<and> max r 1 \<le> uint v - base \<and> uint v - base \<noteq> 2 ^ k - 1)"
      using True mem by linarith
    ultimately show ?thesis unfolding net bits by metis
  next
    case False
    define f where "f = (word_of_int (base + max r 1) :: 32 word)"
    define l where "l = (word_of_int (base + 2 ^ k - 2) :: 32 word)"
    have a: "a = \<lparr>aprefix = masked p, afirst = f, alast = l, acursor = f, aused = {}\<rparr>"
      using new b r False wb by (auto simp: f_def l_def new_allocator_def m k p prefix_valid_def Let_def base)
    have uf: "uint f = base + max r 1" and ul: "uint l = base + 2 ^ k - 2"
      unfolding f_def l_def using False fits by (intro uint_in_range; linarith)+
    have le: "f \<le> l" unfolding word_le_def uf ul using False by linarith
    have cap: "capacity a = 2 ^ k - max r 1 - 1"
      using le by (simp add: capacity_def a uint_sub_if' uf ul leD word_le_def)
    have "narrow a" if "1 \<le> b"
    proof -
      have "(2 :: int) ^ k \<le> 2 ^ 31" using that b by (intro power_increasing) (auto simp: k_def)
      moreover have "1 \<le> max r 1" by simp
      ultimately have "uint l - uint f < 2 ^ 31" unfolding uf ul by linarith
      then show ?thesis by (simp add: narrow_def a)
    qed
    moreover have "usable a (V4 v) = Inr v \<longleftrightarrow> base + max r 1 \<le> uint v \<and> uint v \<le> base + 2 ^ k - 2"
      by (simp add: usable_iff a word_le_def uf ul)
    moreover have "pool_ok a" "aprefix a = masked p" "available a = 2 ^ k - max r 1 - 1" "pbits p = b"
      using le cap by (simp_all add: pool_ok_def available_def a leD p)
    moreover have "max 0 (2 ^ k - max r 1 - 1) = (2 ^ k - max r 1 - 1 :: int)" using False by simp
    moreover have "base + max r 1 \<le> uint v \<and> uint v \<le> base + 2 ^ k - 2 \<longleftrightarrow>
        prefix_contains p (V4 v) \<and> max r 1 \<le> uint v - base \<and> uint v - base \<noteq> 2 ^ k - 1"
      using mem by linarith
    ultimately show ?thesis unfolding net bits by metis
  qed
qed

text \<open>
  C24. From any state of a block other than \<open>0.0.0.0/0\<close>, \<open>n\<close> allocations in a row
  give \<open>n\<close> different addresses, none of them handed out before, until the block is
  used up and not one earlier: they stop at exactly what \<open>Available\<close> announced.
\<close>

theorem allocations_are_fresh_until_full:
  assumes "pool_ok a" "narrow a" "take_many allocate n a = (a', xs)"
  shows "distinct xs \<and> (\<forall>x\<in>set xs. \<not> allocated a x \<and> allocated a' x) \<and>
    (\<forall>x. allocated a x \<longrightarrow> allocated a' x) \<and>
    length xs = min n (nat (available a)) \<and> available a' = available a - int (length xs) \<and>
    pool_ok a' \<and> narrow a'"
  using pool.many [of a n a' xs] assms by blast

text \<open>
  Releasing gives an address back for good: releasing is idempotent and never
  fails, a released address is free again and the next allocation succeeds,
  and \<open>Reserve\<close> then takes that very address, once.
\<close>

theorem release_makes_room:
  assumes "pool_ok a" "narrow a" "allocated a x"
  shows "\<not> allocated (release a x) x \<and> release (release a x) x = release a x \<and>
    available (release a x) = available a + 1 \<and>
    (\<exists>a' y. allocate (release a x) = (a', Inr y)) \<and>
    (\<exists>a'. reserve (release a x) x = (a', None) \<and> aused a' = aused a \<and>
       snd (reserve a' x) = Some (ErrInUse x))"
proof -
  obtain v where x: "x = V4 v" and v: "v \<in> aused a" using assms(1,3) by (auto simp: allocated_iff)
  have u: "usable b (V4 v) = Inr v" if "afirst b = afirst a" "alast b = alast a" for b
    using assms(1) v that by (auto simp: usable_iff pool_ok_def split: if_splits)
  have r: "release b x = b\<lparr>aused := aused b - {v}\<rparr>" if "afirst b = afirst a" "alast b = alast a" for b
    using u [OF that] by (simp add: release_def x)
  have "release (release a x) x = release a x" by (simp add: r)
  moreover have "reserve (release a x) x = (a\<lparr>aused := insert v (aused a - {v})\<rparr>, None)"
    using u by (simp add: reserve_def r) (simp add: x)
  moreover have "snd (reserve (a\<lparr>aused := insert v (aused a - {v})\<rparr>) x) = Some (ErrInUse x)"
    using u by (simp add: reserve_def) (simp add: x)
  ultimately show ?thesis
    using pool.give_back [of a x] pool.given_back_is_free [of a x] assms v
    by (auto simp: insert_absorb)
qed

section \<open>The one block the scan can miss an address of\<close>

text \<open>
  Over \<open>0.0.0.0/0\<close> the span is \<open>2 ^ 32 - 2\<close>, so \<open>a.cursor-a.first+i\<close> passes \<open>2 ^ 32\<close>
  before the scan is over and starts again: two offsets are tried twice and two
  are never tried.
\<close>

definition slash_zero :: allocator where
  "slash_zero = \<lparr>aprefix = Prefix (V4 0) 0, afirst = 1, alast = 0xFFFFFFFE, acursor = 0xFFFFFFFE,
     aused = {1..0xFFFFFFFE} - {0xFFFFFFFC}\<rparr>"

lemma slash_zero_misses:
  assumes "m < (4294967294 :: nat)"
  shows "candidate slash_zero 0xFFFFFFFE (of_nat m) \<noteq> 0xFFFFFFFC"
proof
  assume c: "candidate slash_zero 0xFFFFFFFE (of_nat m) = 0xFFFFFFFC"
  have m: "unat (of_nat m :: 32 word) = m" using assms by (simp add: unat_of_nat)
  have "(0xFFFFFFFD + of_nat m) mod 0xFFFFFFFE = (0xFFFFFFFB :: 32 word)"
    using c by (simp add: candidate_def slash_zero_def algebra_simps)
  then have "unat ((0xFFFFFFFD + of_nat m) mod 0xFFFFFFFE :: 32 word) = 4294967291" by simp
  then have e: "(4294967293 + m) mod 4294967296 mod 4294967294 = 4294967291"
    by (simp add: unat_mod unat_word_ariths(1) m)
  show False
  proof (cases "m < 3")
    case True
    then consider "m = 0" | "m = 1" | "m = 2" by linarith
    then show False using e by cases simp_all
  next
    case False
    then have "(4294967293 + m) mod 4294967296 = m - 3"
      using assms by (simp add: mod_if)
    then show False using e assms False by simp
  qed
qed

text \<open>
  Over \<open>0.0.0.0/0\<close>, and only there, \<open>Allocate\<close> can report a block exhausted that
  \<open>Available\<close> still counts one free address of.
\<close>

theorem slash_zero_reports_exhausted:
  "pool_ok slash_zero \<and> available slash_zero = 1 \<and>
   allocate slash_zero = (slash_zero, Inl (ErrExhausted (Prefix (V4 0) 0)))"
proof -
  have le: "afirst slash_zero \<le> alast slash_zero" by (simp add: slash_zero_def)
  have "aused slash_zero = {afirst slash_zero..alast slash_zero} - {0xFFFFFFFC}"
    by (simp add: slash_zero_def)
  moreover have "(0xFFFFFFFC :: 32 word) \<in> {afirst slash_zero..alast slash_zero}"
    by (simp add: slash_zero_def)
  ultimately have "available slash_zero = 1"
    using card_range [OF le] card_Suc_Diff1 [of "{afirst slash_zero..alast slash_zero}" "0xFFFFFFFC"]
    by (simp add: available_def)
  moreover have "scan slash_zero 0xFFFFFFFE 0 (unat (0xFFFFFFFE :: 32 word)) = None"
  proof (unfold scan_None_iff, intro allI impI)
    fix m assume "m < unat (0xFFFFFFFE :: 32 word)"
    then have m: "m < 4294967294" by simp
    have "candidate slash_zero 0xFFFFFFFE (of_nat m) \<in> {1..0xFFFFFFFE}"
    proof -
      have "(x :: 32 word) mod 0xFFFFFFFE < 0xFFFFFFFE" for x by (simp add: word_mod_less_divisor)
      then have lt: "unat ((x :: 32 word) mod 0xFFFFFFFE) < 4294967294" for x
        by (simp add: word_less_nat_alt)
      have "unat (1 + (x :: 32 word) mod 0xFFFFFFFE) = 1 + unat (x mod 0xFFFFFFFE)" for x
        using lt [of x] by (simp add: unat_word_ariths(1))
      then show ?thesis using lt by (simp add: candidate_def slash_zero_def word_le_nat_alt Suc_le_eq)
    qed
    then show "candidate slash_zero 0xFFFFFFFE (0 + of_nat m) \<in> aused slash_zero"
      using slash_zero_misses [OF m] by (simp add: slash_zero_def)
  qed
  ultimately show ?thesis
    by (auto simp: allocate_def pool_ok_def Let_def) (simp_all add: slash_zero_def)
qed

section \<open>Witnesses\<close>

definition pool0 :: allocator where
  "pool0 = \<lparr>aprefix = Prefix (V4 0x0A000000) 24, afirst = 0x0A000004, alast = 0x0A0000FE,
     acursor = 0x0A0000FE, aused = {0x0A000004, 0x0A0000FE}\<rparr>"

lemma pool0_ok: "pool_ok pool0" "narrow pool0"
  by (simp_all add: pool0_def pool_ok_def narrow_def)

lemma new_allocator_witness:
  "\<exists>a. new_allocator (Prefix (V4 0x0A000000) 20) 4 = Inr a \<and> available a = 4091"
proof -
  obtain a where a: "new_allocator (Prefix (V4 0x0A000000) 20) 4 = Inr a"
    by (auto simp: new_allocator_def prefix_valid_def Let_def)
  have "wf_prefix (Prefix (V4 0x0A000000) 20)" by simp
  from new_allocator_range [OF this a] a show ?thesis by simp
qed

lemma allocations_witness:
  "snd (take_many allocate (Suc (Suc 0)) pool0) = [V4 0x0A000005, V4 0x0A000006] \<and>
   distinct (snd (take_many allocate (Suc (Suc 0)) pool0))"
proof -
  have "distinct (snd (take_many allocate (Suc (Suc 0)) pool0))"
    using allocations_are_fresh_until_full [OF pool0_ok, of "Suc (Suc 0)"] by (cases "take_many allocate (Suc (Suc 0)) pool0") simp
  moreover have "snd (take_many allocate (Suc (Suc 0)) pool0) = [V4 0x0A000005, V4 0x0A000006]"
    by (simp add: allocate_def pool0_def candidate_def to_addr_def scan_numeral)
  ultimately show ?thesis by simp
qed

lemma release_witness:
  "\<not> allocated (release pool0 (V4 0x0A000004)) (V4 0x0A000004)"
proof -
  have "allocated pool0 (V4 0x0A000004)"
    using pool0_ok(1) by (simp add: allocated_iff pool0_def)
  from release_makes_room [OF pool0_ok this] show ?thesis by simp
qed

end
