(* ===== verification/Coalesce.thy ===== *)
theory Coalesce
  imports Prelude "HOL-Library.Sublist"
begin

text \<open>
  The coalescer of full-set passes (\<open>internal/core/serialise/coalesce.go\<close>).
  Between two points where a caller gives up the mutex (the wait on the
  condition, the pass itself, the return) its code is one step, so the system is
  a step relation: a call arrives, the running pass ends, a woken caller gets
  the mutex back. A log of calls, passes and returns is kept beside the state, to
  say what a caller is promised. A pass is opaque and returns; the counters are
  natural numbers, one up per pass.
\<close>

record coalescer =
  co_running :: bool
  co_begun :: nat
  co_done :: nat
  co_waiting :: int

text \<open>
  Where a caller is in \<open>Run\<close>: not in it, parked in \<open>cond.Wait\<close> with its target,
  woken and not yet holding the mutex, or running a pass with its number.
\<close>

datatype caller = Away | Parked nat | Woken nat | InPass nat nat

datatype co_event = EvCall nat | EvBegin nat | EvEnd nat | EvReturn nat

record cosys =
  co :: coalescer
  callers :: "caller list"
  colog :: "co_event list"

definition co_start :: "nat \<Rightarrow> cosys" where
  "co_start n = \<lparr>co = \<lparr>co_running = False, co_begun = 0, co_done = 0, co_waiting = 0\<rparr>,
     callers = replicate n Away, colog = []\<rparr>"

text \<open>\<open>Waiting\<close>: how many callers are parked.\<close>

definition waiting_now :: "cosys \<Rightarrow> int" where
  "waiting_now s = co_waiting (co s)"

text \<open>The loop of \<open>Run\<close> from its test to the next point the mutex is given up.\<close>

definition loop_test :: "nat \<Rightarrow> nat \<Rightarrow> cosys \<Rightarrow> cosys" where
  "loop_test c target s =
     (let k = co s in
      if \<not> co_done k < target then
        s\<lparr>callers := (callers s)[c := Away], colog := colog s @ [EvReturn c]\<rparr>
      else if co_running k then
        s\<lparr>co := k\<lparr>co_waiting := co_waiting k + 1\<rparr>, callers := (callers s)[c := Parked target]\<rparr>
      else
        (let mine = co_begun k + 1 in
         s\<lparr>co := k\<lparr>co_running := True, co_begun := mine\<rparr>,
           callers := (callers s)[c := InPass target mine],
           colog := colog s @ [EvBegin mine]\<rparr>))"

definition run_call :: "nat \<Rightarrow> cosys \<Rightarrow> cosys" where
  "run_call c s = loop_test c (co_begun (co s) + 1) (s\<lparr>colog := colog s @ [EvCall c]\<rparr>)"

text \<open>\<open>Broadcast\<close> moves every parked caller to where it competes for the mutex.\<close>

fun awaken :: "caller \<Rightarrow> caller" where
  "awaken (Parked t) = Woken t"
| "awaken x = x"

definition pass_ends :: "nat \<Rightarrow> nat \<Rightarrow> nat \<Rightarrow> cosys \<Rightarrow> cosys" where
  "pass_ends c target mine s =
     (let k = co s;
          k' = k\<lparr>co_running := False, co_done := (if co_done k < mine then mine else co_done k)\<rparr>
      in loop_test c target
           (s\<lparr>co := k', callers := map awaken (callers s), colog := colog s @ [EvEnd mine]\<rparr>))"

definition wakes :: "nat \<Rightarrow> nat \<Rightarrow> cosys \<Rightarrow> cosys" where
  "wakes c target s =
     loop_test c target (s\<lparr>co := (co s)\<lparr>co_waiting := co_waiting (co s) - 1\<rparr>\<rparr>)"

datatype co_move = Call nat | PassEnds nat | Wake nat

inductive co_step :: "cosys \<Rightarrow> co_move \<Rightarrow> cosys \<Rightarrow> bool" where
  call: "c < length (callers s) \<Longrightarrow> callers s ! c = Away \<Longrightarrow> co_step s (Call c) (run_call c s)"
| ends: "c < length (callers s) \<Longrightarrow> callers s ! c = InPass t m \<Longrightarrow> co_step s (PassEnds c) (pass_ends c t m s)"
| wake: "c < length (callers s) \<Longrightarrow> callers s ! c = Woken t \<Longrightarrow> co_step s (Wake c) (wakes c t s)"

inductive co_reach :: "nat \<Rightarrow> cosys \<Rightarrow> bool" for n where
  start: "co_reach n (co_start n)"
| step: "co_reach n s \<Longrightarrow> co_step s mv s' \<Longrightarrow> co_reach n s'"

code_pred co_step .

inductive_cases co_stepE: "co_step s mv s'"

section \<open>The invariant\<close>

text \<open>The events since the last call of a caller.\<close>

fun since_rev :: "nat \<Rightarrow> co_event list \<Rightarrow> co_event list" where
  "since_rev c es = takeWhile (\<lambda>e. e \<noteq> EvCall c) es"

definition since :: "nat \<Rightarrow> co_event list \<Rightarrow> co_event list" where
  "since c es = rev (since_rev c (rev es))"

lemma since_snoc [simp]: "since c (es @ [e]) = (if e = EvCall c then [] else since c es @ [e])"
  by (simp add: since_def)

fun target_of :: "caller \<Rightarrow> nat option" where
  "target_of Away = None"
| "target_of (Parked t) = Some t"
| "target_of (Woken t) = Some t"
| "target_of (InPass t m) = Some t"

fun in_pass :: "caller \<Rightarrow> bool" where
  "in_pass (InPass t m) = True"
| "in_pass _ = False"

fun is_parked :: "caller \<Rightarrow> bool" where
  "is_parked (Parked t) = True"
| "is_parked _ = False"

fun is_woken :: "caller \<Rightarrow> bool" where
  "is_woken (Woken t) = True"
| "is_woken _ = False"

text \<open>Passes exclude one another and are numbered in order; who waits, waits on a running pass.\<close>

definition passes_ok :: "cosys \<Rightarrow> bool" where
  "passes_ok s =
     (let k = co s in
      co_begun k = co_done k + of_bool (co_running k) \<and>
      length (filter in_pass (callers s)) = of_bool (co_running k) \<and>
      (\<forall>x\<in>set (callers s). case x of
          InPass t m \<Rightarrow> m = co_begun k \<and> t = m
        | Parked t \<Rightarrow> co_running k \<and> t \<le> co_begun k + 1
        | Woken t \<Rightarrow> t \<le> co_begun k + 1
        | Away \<Rightarrow> True) \<and>
      co_waiting k = int (length (filter is_parked (callers s))) + int (length (filter is_woken (callers s))))"

text \<open>What the log says of a caller inside \<open>Run\<close>, and of every return so far.\<close>

definition told1 :: "cosys \<Rightarrow> nat \<Rightarrow> nat \<Rightarrow> bool" where
  "told1 s c t =
     (EvCall c \<in> set (colog s) \<and>
      (\<forall>n. t \<le> n \<and> n \<le> co_begun (co s) \<longrightarrow> EvBegin n \<in> set (since c (colog s))) \<and>
      (\<forall>n. t \<le> n \<and> n \<le> co_done (co s) \<longrightarrow> subseq [EvBegin n, EvEnd n] (since c (colog s))))"

definition told :: "cosys \<Rightarrow> bool" where
  "told s =
     (\<forall>c < length (callers s). \<forall>t. target_of (callers s ! c) = Some t \<longrightarrow> told1 s c t)"

definition returns_covered :: "co_event list \<Rightarrow> bool" where
  "returns_covered es =
     (\<forall>pre c. prefix (pre @ [EvReturn c]) es \<longrightarrow>
        EvCall c \<in> set pre \<and> (\<exists>n. subseq [EvBegin n, EvEnd n] (since c pre)))"

definition co_inv :: "cosys \<Rightarrow> bool" where
  "co_inv s = (passes_ok s \<and> told s \<and> returns_covered (colog s))"

lemma returns_covered_snoc:
  "returns_covered (es @ [e]) \<longleftrightarrow>
     returns_covered es \<and> 
     (\<forall>c. e = EvReturn c \<longrightarrow> EvCall c \<in> set es \<and> (\<exists>n. subseq [EvBegin n, EvEnd n] (since c es)))"
  by (auto simp: returns_covered_def prefix_snoc)

text \<open>A later event only adds to what a caller was told.\<close>

lemma subseq_snoc: "subseq xs ys \<Longrightarrow> subseq xs (ys @ [y])"
  by (metis subseq_order.order_trans subseq_rev_drop_many subseq_append_iff prefix_imp_subseq prefixI)

lemma told1_mono:
  "told1 s c t \<Longrightarrow> colog s' = colog s @ [e] \<Longrightarrow> e \<noteq> EvCall c \<Longrightarrow>
     co_begun (co s') = co_begun (co s) \<Longrightarrow> co_done (co s') = co_done (co s) \<Longrightarrow> told1 s' c t"
  by (simp add: told1_def subseq_snoc)

lemma told1_begin:
  "told1 s c t \<Longrightarrow> colog s' = colog s @ [EvBegin (co_begun (co s) + 1)] \<Longrightarrow>
     co_begun (co s') = co_begun (co s) + 1 \<Longrightarrow> co_done (co s') = co_done (co s) \<Longrightarrow> told1 s' c t"
  by (auto simp: told1_def subseq_snoc le_Suc_eq)

lemma told1_end:
  assumes "told1 s c t" "colog s' = colog s @ [EvEnd (co_begun (co s))]"
    "co_begun (co s') = co_begun (co s)" "co_done (co s') = co_begun (co s)"
    "co_begun (co s) \<le> co_done (co s) + 1"
  shows "told1 s' c t"
proof -
  have "subseq [EvBegin n, EvEnd n] (since c (colog s) @ [EvEnd (co_begun (co s))])"
    if n: "t \<le> n" "n \<le> co_begun (co s)" for n
  proof (cases "n \<le> co_done (co s)")
    case True
    then show ?thesis using assms(1) n by (auto simp: told1_def subseq_snoc)
  next
    case False
    then have e: "n = co_begun (co s)" using assms(5) n by simp
    have "EvBegin n \<in> set (since c (colog s))" using assms(1) n by (simp add: told1_def)
    then have "subseq ([EvBegin n] @ [EvEnd n]) (since c (colog s) @ [EvEnd n])"
      by (intro list_emb_append_mono) (simp_all add: subseq_singleton_left)
    then show ?thesis by (simp add: e)
  qed
  then show ?thesis using assms by (simp add: told1_def)
qed

lemma told_update:
  assumes "c < length (callers s)"
    and "\<And>x t. x \<noteq> c \<Longrightarrow> told1 s x t \<Longrightarrow> told1 s' x t"
    and "told (s\<lparr>callers := (callers s)[c := Away]\<rparr>)" "callers s' = (callers s)[c := y]"
    and "\<And>t. target_of y = Some t \<Longrightarrow> told1 s' c t"
  shows "told s'"
proof -
  have "told1 s' x t" if "x < length (callers s)" "target_of ((callers s)[c := y] ! x) = Some t" for x t
  proof (cases "x = c")
    case False
    then have "target_of ((callers s)[c := Away] ! x) = Some t" using that by simp
    then have "told1 s x t" using assms(3) that(1) by (simp add: told_def told1_def)
    then show ?thesis using assms(2) False by blast
  qed (use that assms(1,5) in simp)
  then show ?thesis by (simp add: told_def assms(4))
qed

lemma loop_test_away: "loop_test c t (s\<lparr>callers := (callers s)[c := x]\<rparr>) = loop_test c t s"
  by (simp add: loop_test_def Let_def)

definition caller_ok :: "coalescer \<Rightarrow> caller \<Rightarrow> bool" where
  "caller_ok k x =
     (case x of
        InPass t m \<Rightarrow> m = co_begun k \<and> t = m
      | Parked t \<Rightarrow> co_running k \<and> t \<le> co_begun k + 1
      | Woken t \<Rightarrow> t \<le> co_begun k + 1
      | Away \<Rightarrow> True)"

lemma passes_ok_alt:
  "passes_ok s \<longleftrightarrow>
     co_begun (co s) = co_done (co s) + of_bool (co_running (co s)) \<and>
     length (filter in_pass (callers s)) = of_bool (co_running (co s)) \<and>
     (\<forall>x\<in>set (callers s). caller_ok (co s) x) \<and>
     co_waiting (co s) = int (length (filter is_parked (callers s))) + int (length (filter is_woken (callers s)))"
  by (simp add: passes_ok_def caller_ok_def Let_def)

lemma caller_ok_update:
  "\<forall>x\<in>set xs. caller_ok k x \<Longrightarrow> caller_ok k y \<Longrightarrow> \<forall>x\<in>set (xs[i := y]). caller_ok k x"
  by (metis insertE set_update_subset_insert subsetD)

lemmas counts = length_filter_update [of _ _ in_pass] length_filter_update [of _ _ is_parked]
  length_filter_update [of _ _ is_woken]

lemma loop_test_passes:
  assumes "c < length (callers s)" "callers s ! c = Away" "passes_ok s" "t \<le> co_begun (co s) + 1"
  shows "passes_ok (loop_test c t s)"
proof -
  note cnt = counts [OF assms(1), of Away] counts [OF assms(1), of "Parked t"]
    counts [OF assms(1), of "InPass t (co_begun (co s) + 1)"]
  have ok: "\<forall>x\<in>set (callers s). caller_ok (co s) x" using assms(3) by (simp add: passes_ok_alt)
  consider (ret) "\<not> co_done (co s) < t" | (park) "co_done (co s) < t" "co_running (co s)"
    | (go) "co_done (co s) < t" "\<not> co_running (co s)" by blast
  then show ?thesis
  proof cases
    case ret
    then show ?thesis
      using assms cnt caller_ok_update [OF ok, of Away c]
      by (simp add: loop_test_def passes_ok_alt Let_def caller_ok_def)
  next
    case park
    let ?k = "(co s)\<lparr>co_waiting := co_waiting (co s) + 1\<rparr>"
    have "\<forall>x\<in>set (callers s). caller_ok ?k x"
      using ok by (auto simp: caller_ok_def split: caller.splits)
    moreover have "caller_ok ?k (Parked t)" using assms(4) park by (simp add: caller_ok_def)
    ultimately have "\<forall>x\<in>set ((callers s)[c := Parked t]). caller_ok ?k x" by (rule caller_ok_update)
    then show ?thesis
      using assms(1-3) cnt park unfolding loop_test_def passes_ok_alt Let_def by simp
  next
    case go
    let ?k = "(co s)\<lparr>co_running := True, co_begun := co_begun (co s) + 1\<rparr>"
    have none: "filter in_pass (callers s) = []" using assms(3) go by (simp add: passes_ok_alt)
    then have "\<forall>x\<in>set (callers s). caller_ok ?k x"
      using ok go by (auto simp: caller_ok_def filter_empty_conv split: caller.splits)
    moreover have "t = co_begun (co s) + 1" using assms(3,4) go by (simp add: passes_ok_alt)
    ultimately have "\<forall>x\<in>set ((callers s)[c := InPass t (co_begun (co s) + 1)]). caller_ok ?k x"
      by (intro caller_ok_update) (simp_all add: caller_ok_def)
    then show ?thesis
      using assms cnt go by (simp add: loop_test_def passes_ok_alt Let_def)
  qed
qed

lemma loop_test_told:
  assumes "c < length (callers s)" "callers s ! c = Away" "told s" "told1 s c t"
  shows "told (loop_test c t s)"
proof -
  have away: "told (s\<lparr>callers := (callers s)[c := Away]\<rparr>)"
    using assms(2,3) by (metis (full_types) cosys.surjective cosys.update_convs(2) list_update_id)
  consider (ret) "\<not> co_done (co s) < t" | (park) "co_done (co s) < t" "co_running (co s)"
    | (go) "co_done (co s) < t" "\<not> co_running (co s)" by blast
  then show ?thesis
  proof cases
    case ret
    then show ?thesis
      by (intro told_update [OF assms(1) _ away, of _ Away])
        (auto simp: loop_test_def Let_def intro: told1_mono)
  next
    case park
    then show ?thesis
      using assms(4) by (intro told_update [OF assms(1) _ away, of _ "Parked t"])
        (auto simp: loop_test_def told1_def Let_def)
  next
    case go
    have "told1 s x u \<Longrightarrow> told1 (loop_test c t s) x u" for x u
      by (rule told1_begin) (use go in \<open>auto simp: loop_test_def Let_def\<close>)
    then show ?thesis
      using assms(4) go by (intro told_update [OF assms(1) _ away, of _ "InPass t (co_begun (co s) + 1)"])
        (auto simp: loop_test_def Let_def)
  qed
qed

lemma loop_test_covered:
  assumes "returns_covered (colog s)" "told1 s c t"
  shows "returns_covered (colog (loop_test c t s))"
proof (cases "co_done (co s) < t")
  case True
  then show ?thesis using assms(1) by (simp add: loop_test_def returns_covered_snoc Let_def)
next
  case False
  then have "subseq [EvBegin t, EvEnd t] (since c (colog s))" "EvCall c \<in> set (colog s)"
    using assms(2) by (simp_all add: told1_def)
  then show ?thesis using False assms(1) by (auto simp: loop_test_def returns_covered_snoc Let_def)
qed

lemma loop_test_inv:
  "c < length (callers s) \<Longrightarrow> callers s ! c = Away \<Longrightarrow> co_inv s \<Longrightarrow> told1 s c t \<Longrightarrow>
     t \<le> co_begun (co s) + 1 \<Longrightarrow> co_inv (loop_test c t s)"
  by (simp add: co_inv_def loop_test_passes loop_test_told loop_test_covered)

lemma call_inv:
  assumes "c < length (callers s)" "callers s ! c = Away" "co_inv s"
  shows "co_inv (run_call c s)"
proof -
  let ?s = "s\<lparr>colog := colog s @ [EvCall c]\<rparr>"
  have "told1 ?s x t" if "told1 s x t" "x \<noteq> c" for x t using that by (auto intro: told1_mono)
  moreover have "x \<noteq> c" if "target_of (callers s ! x) = Some t" for x t using that assms(2) by auto
  ultimately have "told ?s" using assms(3) by (simp add: co_inv_def told_def)
  moreover have "passes_ok ?s" using assms(3) by (simp add: co_inv_def passes_ok_def)
  ultimately have inv: "co_inv ?s" using assms(3) by (simp add: co_inv_def returns_covered_snoc)
  have "co_done (co s) \<le> co_begun (co s)" using assms(3) by (simp add: co_inv_def passes_ok_alt)
  then have "told1 ?s c (co_begun (co s) + 1)" by (simp add: told1_def)
  then show ?thesis
    unfolding run_call_def using assms inv by (intro loop_test_inv) simp_all
qed

lemma wake_inv:
  assumes "c < length (callers s)" "callers s ! c = Woken t" "co_inv s"
  shows "co_inv (wakes c t s)"
proof -
  let ?s = "s\<lparr>co := (co s)\<lparr>co_waiting := co_waiting (co s) - 1\<rparr>, callers := (callers s)[c := Away]\<rparr>"
  have told: "told1 ?s x u" if "told1 s x u" for x u using that by (simp add: told1_def)
  have "told ?s"
    unfolding told_def using assms told by (auto simp: co_inv_def told_def nth_list_update)
  moreover have "passes_ok ?s"
  proof -
    have "\<forall>x\<in>set (callers s). caller_ok ((co s)\<lparr>co_waiting := co_waiting (co s) - 1\<rparr>) x"
      using assms(3) by (auto simp: co_inv_def passes_ok_alt caller_ok_def split: caller.splits)
    moreover have "caller_ok ((co s)\<lparr>co_waiting := co_waiting (co s) - 1\<rparr>) Away" by (simp add: caller_ok_def)
    ultimately have "\<forall>x\<in>set ((callers s)[c := Away]).
        caller_ok ((co s)\<lparr>co_waiting := co_waiting (co s) - 1\<rparr>) x" by (rule caller_ok_update)
    then show ?thesis
      using assms counts [OF assms(1), of Away] unfolding co_inv_def passes_ok_alt by simp
  qed
  ultimately have inv: "co_inv ?s" using assms(3) by (simp add: co_inv_def)
  have "told1 ?s c t" using told assms by (simp add: co_inv_def told_def)
  moreover have "t \<le> co_begun (co s) + 1"
    using assms nth_mem [OF assms(1)] by (auto simp: co_inv_def passes_ok_alt caller_ok_def)
  ultimately have "co_inv (loop_test c t ?s)"
    using assms(1) inv by (intro loop_test_inv) simp_all
  then show ?thesis
    using loop_test_away [of c t "s\<lparr>co := (co s)\<lparr>co_waiting := co_waiting (co s) - 1\<rparr>\<rparr>" Away]
    by (simp add: wakes_def)
qed

lemma awaken_counts:
  "length (filter in_pass (map awaken xs)) = length (filter in_pass xs)"
  "filter is_parked (map awaken xs) = []"
  "length (filter is_woken (map awaken xs)) = length (filter is_parked xs) + length (filter is_woken xs)"
proof -
  have "in_pass (awaken x) = in_pass x" "\<not> is_parked (awaken x)"
    "is_woken (awaken x) = (is_parked x \<or> is_woken x)" for x
    by (cases x; simp)+
  moreover have "\<not> (is_parked x \<and> is_woken x)" for x by (cases x) simp_all
  ultimately show "length (filter in_pass (map awaken xs)) = length (filter in_pass xs)"
    "filter is_parked (map awaken xs) = []"
    "length (filter is_woken (map awaken xs)) = length (filter is_parked xs) + length (filter is_woken xs)"
    by (induction xs) auto
qed

lemma target_awaken [simp]: "target_of (awaken x) = target_of x"
  by (cases x) simp_all

lemma ends_inv:
  assumes "c < length (callers s)" "callers s ! c = InPass t m" "co_inv s"
  shows "co_inv (pass_ends c t m s)"
proof -
  have "InPass t m \<in> set (filter in_pass (callers s))" using assms nth_mem [OF assms(1)] by simp
  then have running: "co_running (co s)"
    using assms(3) by (cases "co_running (co s)") (auto simp: co_inv_def passes_ok_alt filter_empty_conv)
  then have m: "m = co_begun (co s)" "t = m" "co_begun (co s) = co_done (co s) + 1"
    using assms nth_mem [OF assms(1)] by (auto simp: co_inv_def passes_ok_alt caller_ok_def)
  let ?k = "(co s)\<lparr>co_running := False, co_done := m\<rparr>"
  let ?s = "s\<lparr>co := ?k, callers := (map awaken (callers s))[c := Away], colog := colog s @ [EvEnd m]\<rparr>"
  let ?woken = "s\<lparr>co := ?k, callers := map awaken (callers s), colog := colog s @ [EvEnd m]\<rparr>"
  have told: "told1 ?s x u" if "told1 s x u" for x u
    by (rule told1_end [OF that]) (use m in simp_all)
  have "told ?s"
    unfolding told_def using assms told by (auto simp: co_inv_def told_def nth_list_update)
  moreover have "passes_ok ?s"
  proof -
    let ?cs = "(map awaken (callers s))[c := Away]"
    have len: "c < length (map awaken (callers s))" using assms(1) by simp
    have cnt: "length (filter in_pass ?cs) = 0" "length (filter is_parked ?cs) = 0"
      "length (filter is_woken ?cs) = length (filter is_parked (callers s)) + length (filter is_woken (callers s))"
      using counts [OF len, of Away] assms awaken_counts [of "callers s"] running
      by (simp_all add: co_inv_def passes_ok_alt)
    have out: "\<forall>x\<in>set (map awaken (callers s)). \<not> in_pass x \<longrightarrow> caller_ok ?k x"
    proof
      fix x assume "x \<in> set (map awaken (callers s))"
      then obtain y where "y \<in> set (callers s)" "x = awaken y" by auto
      moreover have "caller_ok (co s) y"
        using assms(3) \<open>y \<in> set (callers s)\<close> by (simp add: co_inv_def passes_ok_alt)
      ultimately show "\<not> in_pass x \<longrightarrow> caller_ok ?k x"
        by (cases y rule: caller.exhaust) (simp_all add: caller_ok_def)
    qed
    have mem: "x \<in> set ?cs \<Longrightarrow> x = Away \<or> x \<in> set (map awaken (callers s)) \<and> \<not> in_pass x" for x
      using cnt(1) set_update_subset_insert [of "map awaken (callers s)" c Away]
      by (auto simp: filter_empty_conv)
    have "\<forall>x\<in>set ?cs. caller_ok ?k x"
    proof
      fix x assume "x \<in> set ?cs"
      then consider "x = Away" | "x \<in> set (map awaken (callers s))" "\<not> in_pass x" using mem by metis
      then show "caller_ok ?k x"
      proof cases
        case 2
        show ?thesis by (rule out [THEN bspec, OF 2(1), THEN mp, OF 2(2)])
      qed (simp add: caller_ok_def)
    qed
    moreover have "co_waiting (co s) = int (length (filter is_parked (callers s))) + int (length (filter is_woken (callers s)))"
      using assms(3) by (simp add: co_inv_def passes_ok_alt)
    ultimately show ?thesis
      unfolding passes_ok_alt using cnt by (intro conjI) (simp_all add: m(1) [symmetric])
  qed
  ultimately have inv: "co_inv ?s" using assms(3) by (simp add: co_inv_def returns_covered_snoc)
  have "told1 ?s c t" using told assms by (simp add: co_inv_def told_def)
  then have "co_inv (loop_test c t ?s)"
    using assms(1) inv m by (intro loop_test_inv) simp_all
  moreover have "?s = ?woken\<lparr>callers := (callers ?woken)[c := Away]\<rparr>" by simp
  then have "loop_test c t ?s = loop_test c t ?woken" by (metis loop_test_away)
  ultimately show ?thesis using m by (simp add: pass_ends_def Let_def)
qed

lemma co_step_inv: "co_step s mv s' \<Longrightarrow> co_inv s \<Longrightarrow> co_inv s'"
  by (erule co_step.cases) (auto intro: call_inv wake_inv ends_inv)

lemma co_start_inv: "co_inv (co_start n)"
  by (auto simp: co_inv_def co_start_def passes_ok_alt told_def returns_covered_def caller_ok_def)

lemma co_reach_inv: "co_reach n s \<Longrightarrow> co_inv s"
  by (induction rule: co_reach.induct) (auto intro: co_start_inv co_step_inv)

section \<open>What a caller is promised\<close>

text \<open>
  C29. \<open>Run\<close> returns only once a pass that began after the call has ended: in the
  log of any execution, between the last call of a caller and its return there
  is the beginning of a pass and, later, the end of that same pass.
\<close>

theorem run_returns_after_a_pass_that_saw_it:
  assumes "co_reach n s" "prefix (pre @ [EvReturn c]) (colog s)"
  shows "EvCall c \<in> set pre \<and> (\<exists>k. subseq [EvBegin k, EvEnd k] (since c pre))"
  using co_reach_inv [OF assms(1)] assms(2) by (auto simp: co_inv_def returns_covered_def)

text \<open>
  Passes never overlap, and they are numbered without a gap: at any moment at
  most one caller is inside a pass, exactly when \<open>running\<close> is set, its number is
  \<open>begun\<close>, and every earlier pass has ended.
\<close>

theorem passes_exclude_each_other:
  assumes "co_reach n s" "c < length (callers s)" "callers s ! c = InPass t m"
  shows "co_running (co s) \<and> m = co_begun (co s) \<and> co_done (co s) + 1 = co_begun (co s) \<and>
    (\<forall>d < length (callers s). in_pass (callers s ! d) \<longrightarrow> d = c)"
proof -
  have ok: "passes_ok s" using co_reach_inv [OF assms(1)] by (simp add: co_inv_def)
  have "length (filter in_pass (callers s)) \<le> 1" "InPass t m \<in> set (filter in_pass (callers s))"
    using ok assms nth_mem [OF assms(2)] by (simp_all add: passes_ok_alt)
  then have run: "co_running (co s)"
    using ok by (cases "co_running (co s)") (auto simp: passes_ok_alt filter_empty_conv)
  then have one: "length (filter in_pass (callers s)) = 1" using ok by (simp add: passes_ok_alt)
  have "d = c" if d: "d < length (callers s)" "in_pass (callers s ! d)" for d
  proof (rule ccontr)
    assume "d \<noteq> c"
    then have "(callers s)[c := Away] ! d = callers s ! d" "d < length ((callers s)[c := Away])"
      using d by simp_all
    then have "filter in_pass ((callers s)[c := Away]) \<noteq> []"
      using d(2) by (metis filter_empty_conv nth_mem)
    then show False
      using length_filter_update [OF assms(2), of in_pass Away] one assms(3) by simp
  qed
  moreover have "caller_ok (co s) (InPass t m)"
    using ok nth_mem [OF assms(2)] unfolding assms(3) by (simp add: passes_ok_alt)
  then have "m = co_begun (co s)" by (simp add: caller_ok_def)
  moreover have "co_done (co s) + 1 = co_begun (co s)" using ok run by (simp add: passes_ok_alt)
  ultimately show ?thesis using run by blast
qed

text \<open>Executions in which nobody new calls.\<close>

inductive quiet_run :: "cosys \<Rightarrow> nat \<Rightarrow> cosys \<Rightarrow> bool" where
  done_: "quiet_run s 0 s"
| more: "quiet_run s k s' \<Longrightarrow> co_step s' mv s'' \<Longrightarrow> (\<forall>c. mv \<noteq> Call c) \<Longrightarrow> quiet_run s (Suc k) s''"

definition targets_upto :: "nat \<Rightarrow> cosys \<Rightarrow> bool" where
  "targets_upto b s = ((\<forall>x\<in>set (callers s). \<forall>t. target_of x = Some t \<longrightarrow> t \<le> b) \<and> co_begun (co s) \<le> b)"

definition woken_count :: "cosys \<Rightarrow> nat" where
  "woken_count s = length (filter is_woken (callers s))"

definition co_fuel :: "nat \<Rightarrow> cosys \<Rightarrow> nat" where
  "co_fuel b s = (b - co_done (co s)) * (length (callers s) + 1) + woken_count s"

lemma loop_test_targets:
  assumes "targets_upto b s" "t \<le> b" "passes_ok s"
  shows "targets_upto b (loop_test c t s)"
  using assms
  by (auto simp: targets_upto_def loop_test_def Let_def passes_ok_alt
      dest!: set_update_subset_insert [THEN subsetD])

lemma loop_test_length [simp]: "length (callers (loop_test c t s)) = length (callers s)"
  by (simp add: loop_test_def Let_def)

lemma co_step_length: "co_step s mv s' \<Longrightarrow> length (callers s') = length (callers s)"
  by (erule co_step.cases) (simp_all add: run_call_def pass_ends_def wakes_def Let_def)

lemma loop_test_woken:
  "c < length (callers s) \<Longrightarrow>
     woken_count (loop_test c t s) + of_bool (is_woken (callers s ! c)) = woken_count s"
  using counts(3) [of c "callers s" Away] counts(3) [of c "callers s" "Parked t"]
    counts(3) [of c "callers s" "InPass t (Suc (co_begun (co s)))"]
  by (simp add: woken_count_def loop_test_def Let_def)

lemma loop_test_done [simp]: "co_done (co (loop_test c t s)) = co_done (co s)"
  by (simp add: loop_test_def Let_def)

lemma woken_bound: "woken_count s \<le> length (callers s)"
  by (simp add: woken_count_def)

text \<open>Without a new call every step keeps the bound on targets and uses up fuel.\<close>

lemma quiet_step:
  assumes "co_step s mv s'" "\<forall>c. mv \<noteq> Call c" "co_inv s" "targets_upto b s"
  shows "targets_upto b s' \<and> co_fuel b s' < co_fuel b s"
  using assms(1)
proof (cases rule: co_step.cases)
  case (ends c t m)
  note ok = assms(3) [unfolded co_inv_def passes_ok_alt]
  have mem: "InPass t m \<in> set (callers s)" using ends nth_mem by metis
  have "InPass t m \<in> set (filter in_pass (callers s))" using mem by simp
  then have run: "co_running (co s)" using ok by (cases "co_running (co s)") (auto simp: filter_empty_conv)
  have "caller_ok (co s) (InPass t m)" using ok mem by blast
  then have m: "m = co_begun (co s)" "t = m" "co_done (co s) + 1 = m" using ok run by (simp_all add: caller_ok_def)
  have b: "m \<le> b" "t \<le> b" using assms(4) m by (simp_all add: targets_upto_def)
  let ?s = "s\<lparr>co := (co s)\<lparr>co_running := False, co_done := m\<rparr>, callers := map awaken (callers s),
      colog := colog s @ [EvEnd m]\<rparr>"
  have s': "s' = loop_test c t ?s" using ends m by (simp add: pass_ends_def Let_def)
  have "targets_upto b ?s" using assms(4) by (auto simp: targets_upto_def)
  then have "targets_upto b s'"
    unfolding s' using b m by (auto simp: targets_upto_def loop_test_def Let_def
        dest!: set_update_subset_insert [THEN subsetD])
  moreover have "co_fuel b s' < co_fuel b s"
  proof -
    have "b - co_done (co s) = Suc (b - m)" using m b by simp
    moreover have "woken_count s' \<le> length (callers s)" using woken_bound [of s'] by (simp add: s')
    moreover have "co_done (co s') = m" "length (callers s') = length (callers s)" by (simp_all add: s')
    ultimately show ?thesis by (simp add: co_fuel_def)
  qed
  ultimately show ?thesis by simp
next
  case (wake c t)
  let ?s = "s\<lparr>co := (co s)\<lparr>co_waiting := co_waiting (co s) - 1\<rparr>\<rparr>"
  have s': "s' = loop_test c t ?s" using wake by (simp add: wakes_def)
  have mem: "Woken t \<in> set (callers s)" using wake nth_mem by metis
  have t: "t \<le> b" using mem assms(4) by (force simp: targets_upto_def)
  have "co_begun (co s) = co_done (co s) + of_bool (co_running (co s))"
    using assms(3) by (simp add: co_inv_def passes_ok_alt)
  then have "targets_upto b s'"
    unfolding s' using t assms(4) by (auto simp: targets_upto_def loop_test_def Let_def
        dest!: set_update_subset_insert [THEN subsetD])
  moreover have "woken_count s' + 1 = woken_count s"
    using loop_test_woken [of c ?s t] wake by (simp add: s' woken_count_def)
  ultimately show ?thesis by (simp add: co_fuel_def s')
qed (use assms(2) in simp)

text \<open>Somebody can always move until everybody has returned.\<close>

lemma co_no_deadlock:
  assumes "co_inv s" "c < length (callers s)" "callers s ! c \<noteq> Away"
  shows "\<exists>mv s'. co_step s mv s' \<and> (\<forall>d. mv \<noteq> Call d)"
proof (cases "co_running (co s)")
  case True
  then have "filter in_pass (callers s) \<noteq> []" using assms(1) by (auto simp: co_inv_def passes_ok_alt)
  then obtain d where d: "d < length (callers s)" "in_pass (callers s ! d)"
    by (auto simp: filter_empty_conv in_set_conv_nth)
  then obtain t m where "callers s ! d = InPass t m" by (cases "callers s ! d") auto
  from co_step.ends [OF d(1) this] show ?thesis by blast
next
  case False
  have "caller_ok (co s) (callers s ! c)" using assms by (simp add: co_inv_def passes_ok_alt)
  moreover have "\<not> in_pass (callers s ! c)"
    using assms(1,2) False by (auto simp: co_inv_def passes_ok_alt filter_empty_conv)
  ultimately obtain t where "callers s ! c = Woken t"
    using assms(3) False by (cases "callers s ! c") (auto simp: caller_ok_def)
  from co_step.wake [OF assms(2) this] show ?thesis by blast
qed

lemma targets_reach: "co_inv s \<Longrightarrow> targets_upto (co_begun (co s) + 1) s"
  unfolding targets_upto_def co_inv_def passes_ok_alt
proof (intro conjI ballI allI impI)
  fix x t assume a: "((co_begun (co s) = co_done (co s) + of_bool (co_running (co s)) \<and>
      length (filter in_pass (callers s)) = of_bool (co_running (co s)) \<and>
      (\<forall>x\<in>set (callers s). caller_ok (co s) x) \<and>
      co_waiting (co s) = int (length (filter is_parked (callers s))) +
        int (length (filter is_woken (callers s)))) \<and> told s \<and> returns_covered (colog s))"
    "x \<in> set (callers s)" "target_of x = Some t"
  then have "caller_ok (co s) x" by blast
  then show "t \<le> co_begun (co s) + 1" using a(3) by (cases x) (simp_all add: caller_ok_def)
qed simp

lemma quiet_run_bound:
  "quiet_run s k s' \<Longrightarrow> co_inv s \<Longrightarrow> targets_upto b s \<Longrightarrow>
     co_inv s' \<and> targets_upto b s' \<and> co_fuel b s' + k \<le> co_fuel b s \<and> length (callers s') = length (callers s)"
proof (induction rule: quiet_run.induct)
  case (more s k s' mv s'')
  then have i: "co_inv s'" "targets_upto b s'" "co_fuel b s' + k \<le> co_fuel b s"
    "length (callers s') = length (callers s)" by auto
  from quiet_step [OF more(2,3) i(1,2)] co_step_inv [OF more(2) i(1)] co_step_length [OF more(2)] i(3,4)
  show ?case by linarith
qed simp

text \<open>
  A burst collapses: from any moment on, if nobody new calls, at most one pass
  begins beyond the one in flight, however many callers wait; the execution ends
  within a bounded number of steps; and it only ends when every caller has
  returned.
\<close>

theorem burst_needs_one_more_pass:
  assumes "co_reach n s" "quiet_run s k s'"
  shows "co_begun (co s') \<le> co_begun (co s) + 1 \<and> k \<le> 2 * (n + 1) + n \<and>
    ((\<nexists>mv s''. co_step s' mv s'' \<and> (\<forall>c. mv \<noteq> Call c)) \<longrightarrow> (\<forall>x\<in>set (callers s'). x = Away))"
proof -
  have inv: "co_inv s" by (rule co_reach_inv [OF assms(1)])
  have len: "length (callers s) = n"
    using assms(1) by (induction rule: co_reach.induct) (simp_all add: co_start_def co_step_length)
  note r = quiet_run_bound [OF assms(2) inv targets_reach [OF inv]]
  have "co_begun (co s) + 1 - co_done (co s) \<le> 2"
    using inv by (simp add: co_inv_def passes_ok_alt)
  then have "co_fuel (co_begun (co s) + 1) s \<le> 2 * (n + 1) + n"
    using woken_bound [of s] mult_le_mono1 [of _ 2 "n + 1"] unfolding co_fuel_def len by (meson add_le_mono)
  moreover have "\<forall>x\<in>set (callers s'). x = Away" if "\<nexists>mv s''. co_step s' mv s'' \<and> (\<forall>c. mv \<noteq> Call c)"
    using that co_no_deadlock r by (metis in_set_conv_nth)
  ultimately show ?thesis using r by (auto simp: targets_upto_def)
qed

section \<open>Witnesses\<close>

text \<open>One caller alone; and a second that arrives while the first one's pass is running.\<close>

definition solo :: cosys where
  "solo = pass_ends 0 1 1 (run_call 0 (co_start 1))"

definition duo :: cosys where
  "duo = run_call 1 (run_call 0 (co_start 2))"

lemma solo_log: "colog solo = [EvCall 0, EvBegin 1, EvEnd 1, EvReturn 0]"
  by code_simp

lemma solo_reach: "co_reach 1 solo"
  unfolding solo_def by (intro co_reach.step [OF _ co_step.ends] co_reach.step [OF _ co_step.call] co_reach.start; code_simp)

lemma pair_reach: "co_reach 2 duo"
  unfolding duo_def by (intro co_reach.step [OF _ co_step.call] co_reach.start; code_simp)

lemma run_returns_witness: "\<exists>k. subseq [EvBegin k, EvEnd k] (since 0 [EvCall 0, EvBegin 1, EvEnd 1])"
  using run_returns_after_a_pass_that_saw_it [OF solo_reach, of "[EvCall 0, EvBegin 1, EvEnd 1]" 0]
  by (simp add: solo_log)

lemma passes_exclude_witness: "co_running (co duo) \<and> callers duo = [InPass 1 1, Parked 2]"
proof -
  have p: "callers duo = [InPass 1 1, Parked 2]" by code_simp
  with passes_exclude_each_other [OF pair_reach, of 0 1 1] show ?thesis by simp
qed

lemma burst_witness: "co_begun (co (pass_ends 0 1 1 duo)) \<le> 2"
proof -
  have "quiet_run duo (Suc 0) (pass_ends 0 1 1 duo)"
  proof (rule quiet_run.more [OF quiet_run.done_ co_step.ends])
    show "0 < length (callers duo)" "callers duo ! 0 = InPass 1 1" by code_simp+
  qed simp
  from burst_needs_one_more_pass [OF pair_reach this]
  have "co_begun (co (pass_ends 0 1 1 duo)) \<le> co_begun (co duo) + 1" by blast
  moreover have "co_begun (co duo) = 1" by code_simp
  ultimately show ?thesis by simp
qed

end
