(* ===== verification/Serialise.thy ===== *)
theory Serialise
  imports Prelude
begin

text \<open>
  The keyed mutex (\<open>internal/core/serialise/serialise.go\<close>). The map holds
  pointers to lock objects, and an object dropped from the map may still be in
  the hands of a caller, so the objects live in a heap of their own and the map
  and the callers hold addresses of it. Each critical section of the code is one
  step of the caller that runs it: register in the map, take the lock object,
  unlock it, unregister. The second call of a release runs nothing
  (\<open>sync.Once\<close>), and is a step that changes nothing.
\<close>

record held_lock =
  taken :: bool
  refs :: int

record keyed_mutex =
  lock_heap :: "held_lock list"
  held :: "string \<rightharpoonup> nat"

text \<open>Where a caller is: nowhere, blocked on or about to take its lock object,
  holding it, or having unlocked it but not yet unregistered.\<close>

datatype holder = Out | Queued string nat | Holding string nat | Leaving string nat

record ksys =
  km :: keyed_mutex
  holders :: "holder list"

definition ks_start :: "nat \<Rightarrow> ksys" where
  "ks_start n = \<lparr>km = \<lparr>lock_heap = [], held = Map.empty\<rparr>, holders = replicate n Out\<rparr>"

text \<open>\<open>lock\<close> up to \<open>k.mu.Unlock()\<close>: the object of the domain, made when there is none, one ref up.\<close>

definition register :: "keyed_mutex \<Rightarrow> string \<Rightarrow> keyed_mutex \<times> nat" where
  "register k key =
     (let (k1, l) = (case held k key of
            Some l \<Rightarrow> (k, l)
          | None \<Rightarrow> (k\<lparr>lock_heap := lock_heap k @ [\<lparr>taken = False, refs = 0\<rparr>],
                        held := (held k)(key \<mapsto> length (lock_heap k))\<rparr>, length (lock_heap k)));
          e = lock_heap k1 ! l
      in (k1\<lparr>lock_heap := (lock_heap k1)[l := e\<lparr>refs := refs e + 1\<rparr>]\<rparr>, l))"

definition set_taken :: "keyed_mutex \<Rightarrow> nat \<Rightarrow> bool \<Rightarrow> keyed_mutex" where
  "set_taken k l b = k\<lparr>lock_heap := (lock_heap k)[l := (lock_heap k ! l)\<lparr>taken := b\<rparr>]\<rparr>"

text \<open>The rest of the release: one ref down, and the entry goes with the last.\<close>

definition unregister :: "keyed_mutex \<Rightarrow> string \<Rightarrow> nat \<Rightarrow> keyed_mutex" where
  "unregister k key l =
     (let e = lock_heap k ! l;
          e' = e\<lparr>refs := refs e - 1\<rparr>;
          k1 = k\<lparr>lock_heap := (lock_heap k)[l := e']\<rparr>
      in if refs e' = 0 then k1\<lparr>held := (held k1)(key := None)\<rparr> else k1)"

inductive ks_step :: "ksys \<Rightarrow> ksys \<Rightarrow> bool" where
  ask: "i < length (holders s) \<Longrightarrow> holders s ! i = Out \<Longrightarrow> register (km s) key = (k', l) \<Longrightarrow>
     ks_step s (s\<lparr>km := k', holders := (holders s)[i := Queued key l]\<rparr>)"
| enter: "i < length (holders s) \<Longrightarrow> holders s ! i = Queued key l \<Longrightarrow> \<not> taken (lock_heap (km s) ! l) \<Longrightarrow>
     ks_step s (s\<lparr>km := set_taken (km s) l True, holders := (holders s)[i := Holding key l]\<rparr>)"
| unlock: "i < length (holders s) \<Longrightarrow> holders s ! i = Holding key l \<Longrightarrow>
     ks_step s (s\<lparr>km := set_taken (km s) l False, holders := (holders s)[i := Leaving key l]\<rparr>)"
| leave: "i < length (holders s) \<Longrightarrow> holders s ! i = Leaving key l \<Longrightarrow>
     ks_step s (s\<lparr>km := unregister (km s) key l, holders := (holders s)[i := Out]\<rparr>)"
| again: "ks_step s s"

inductive ks_reach :: "nat \<Rightarrow> ksys \<Rightarrow> bool" for n where
  start: "ks_reach n (ks_start n)"
| step: "ks_reach n s \<Longrightarrow> ks_step s s' \<Longrightarrow> ks_reach n s'"

inductive_cases ks_stepE: "ks_step s s'"

section \<open>The invariant\<close>

fun on_lock :: "nat \<Rightarrow> holder \<Rightarrow> bool" where
  "on_lock l Out = False"
| "on_lock l (Queued k m) = (m = l)"
| "on_lock l (Holding k m) = (m = l)"
| "on_lock l (Leaving k m) = (m = l)"

fun holding_lock :: "nat \<Rightarrow> holder \<Rightarrow> bool" where
  "holding_lock l (Holding k m) = (m = l)"
| "holding_lock l _ = False"

fun place :: "holder \<Rightarrow> (string \<times> nat) option" where
  "place Out = None"
| "place (Queued k l) = Some (k, l)"
| "place (Holding k l) = Some (k, l)"
| "place (Leaving k l) = Some (k, l)"

text \<open>
  Every caller inside is on the object its domain maps to; two domains never share
  an object; a mapped object counts the callers on it, at least one, and is
  taken exactly while one of them holds it.
\<close>

definition places_ok :: "holder list \<Rightarrow> (string \<rightharpoonup> nat) \<Rightarrow> bool" where
  "places_ok hs h = (\<forall>x\<in>set hs. \<forall>key l. place x = Some (key, l) \<longrightarrow> h key = Some l)"

definition unshared :: "(string \<rightharpoonup> nat) \<Rightarrow> bool" where
  "unshared h = (\<forall>key key' l. h key = Some l \<and> h key' = Some l \<longrightarrow> key = key')"

definition lock_ok :: "held_lock list \<Rightarrow> holder list \<Rightarrow> nat \<Rightarrow> bool" where
  "lock_ok hp hs l =
     (l < length hp \<and> refs (hp ! l) = int (length (filter (on_lock l) hs)) \<and>
      0 < length (filter (on_lock l) hs) \<and>
      length (filter (holding_lock l) hs) = of_bool (taken (hp ! l)))"

definition ks_inv :: "ksys \<Rightarrow> bool" where
  "ks_inv s =
     (places_ok (holders s) (held (km s)) \<and> unshared (held (km s)) \<and>
      (\<forall>key l. held (km s) key = Some l \<longrightarrow> lock_ok (lock_heap (km s)) (holders s) l))"

lemma places_ok_update:
  "places_ok hs h \<Longrightarrow> (\<And>key l. place y = Some (key, l) \<Longrightarrow> h key = Some l) \<Longrightarrow> places_ok (hs[i := y]) h"
  unfolding places_ok_def using set_update_subset_insert [of hs i y] by fastforce

lemma places_ok_nth: "places_ok hs h \<Longrightarrow> i < length hs \<Longrightarrow> place (hs ! i) = Some (key, l) \<Longrightarrow> h key = Some l"
  using nth_mem by (fastforce simp: places_ok_def)

lemma on_lock_place: "on_lock l x \<longleftrightarrow> (\<exists>key. place x = Some (key, l))"
  by (cases x) auto

text \<open>A step of one caller on object \<open>l\<close> leaves every other object's account alone.\<close>

lemma lock_ok_other:
  assumes "lock_ok hp hs m" "m \<noteq> l" "i < length hs" "\<not> on_lock m (hs ! i)" "\<not> on_lock m y"
    "length hp \<le> length hp'" "hp' ! m = hp ! m"
  shows "lock_ok hp' (hs[i := y]) m"
proof -
  have "\<not> holding_lock m (hs ! i)" "\<not> holding_lock m y" using assms(4,5) by (cases "hs ! i"; cases y; simp)+
  then show ?thesis
    using assms length_filter_update [OF assms(3), of "on_lock m" y]
      length_filter_update [OF assms(3), of "holding_lock m" y]
    by (simp add: lock_ok_def)
qed

lemma ask_inv:
  assumes inv: "ks_inv s" and i: "i < length (holders s)" "holders s ! i = Out"
    and reg: "register (km s) key = (k', l)"
  shows "ks_inv (s\<lparr>km := k', holders := (holders s)[i := Queued key l]\<rparr>)"
proof -
  let ?hs = "holders s" and ?hp = "lock_heap (km s)" and ?h = "held (km s)"
  let ?hs' = "?hs[i := Queued key l]"
  note upd = length_filter_update [OF i(1), of "on_lock l" "Queued key l"]
    length_filter_update [OF i(1), of "holding_lock l" "Queued key l"]
  have old: "lock_ok ?hp ?hs m" if "?h k = Some m" for k m using inv that by (auto simp: ks_inv_def)
  have pl: "places_ok ?hs ?h" "unshared ?h" using inv by (simp_all add: ks_inv_def)
  show ?thesis
  proof (cases "?h key")
    case (Some m)
    then have m: "m = l" and k': "k' = (km s)\<lparr>lock_heap := ?hp[l := (?hp ! l)\<lparr>refs := refs (?hp ! l) + 1\<rparr>]\<rparr>"
      using reg by (auto simp: register_def Let_def)
    have "lock_ok (?hp[l := (?hp ! l)\<lparr>refs := refs (?hp ! l) + 1\<rparr>]) ?hs' l"
      using old [OF Some] upd i by (simp add: lock_ok_def m)
    moreover have "lock_ok (?hp[l := (?hp ! l)\<lparr>refs := refs (?hp ! l) + 1\<rparr>]) ?hs' n"
      if "?h k = Some n" "n \<noteq> l" for k n
      by (rule lock_ok_other [OF old [OF that(1)] that(2) i(1)]) (use i that in auto)
    moreover have "places_ok ?hs' ?h" using pl(1) Some m by (intro places_ok_update) auto
    ultimately show ?thesis using pl(2) by (auto simp: ks_inv_def k')
  next
    case None
    then have l: "l = length ?hp"
      and k': "k' = (km s)\<lparr>lock_heap := ?hp @ [\<lparr>taken = False, refs = 1\<rparr>], held := ?h(key \<mapsto> l)\<rparr>"
      using reg by (auto simp: register_def Let_def nth_append)
    have below: "n < l" if "?h k = Some n" for k n using old [OF that] by (simp add: lock_ok_def l)
    have none: "filter (on_lock l) ?hs = []" "filter (holding_lock l) ?hs = []"
    proof -
      have "\<not> on_lock l x" if "x \<in> set ?hs" for x
        using pl(1) that below less_irrefl [of l] unfolding on_lock_place places_ok_def by blast
      moreover have "holding_lock l x \<Longrightarrow> on_lock l x" for x by (cases x) auto
      ultimately show "filter (on_lock l) ?hs = []" "filter (holding_lock l) ?hs = []"
        by (auto simp: filter_empty_conv)
    qed
    have "lock_ok (?hp @ [\<lparr>taken = False, refs = 1\<rparr>]) ?hs' l"
      using upd none i by (simp add: lock_ok_def l nth_append)
    moreover have "lock_ok (?hp @ [\<lparr>taken = False, refs = 1\<rparr>]) ?hs' n" if "?h k = Some n" for k n
    proof (rule lock_ok_other [OF old [OF that] _ i(1)])
      show "n \<noteq> l" using below [OF that] by simp
      show "\<not> on_lock n (Queued key l)" using below [OF that] by simp
      show "(?hp @ [\<lparr>taken = False, refs = 1\<rparr>]) ! n = ?hp ! n" using below [OF that] by (simp add: l nth_append)
    qed (use i in auto)
    moreover have "places_ok ?hs' (?h(key \<mapsto> l))"
      using pl(1) None by (intro places_ok_update) (auto simp: places_ok_def)
    moreover have "unshared (?h(key \<mapsto> l))"
      using pl(2) below by (auto simp: unshared_def)
    ultimately show ?thesis by (auto simp: ks_inv_def k')
  qed
qed

text \<open>Taking and unlocking touch one object and keep who is on it.\<close>

lemma taken_inv:
  assumes inv: "ks_inv s" and i: "i < length (holders s)" "place (holders s ! i) = Some (key, l)"
    and y: "place y = Some (key, l)"
    and cnt: "length (filter (holding_lock l) ((holders s)[i := y])) = of_bool b"
  shows "ks_inv (s\<lparr>km := set_taken (km s) l b, holders := (holders s)[i := y]\<rparr>)"
proof -
  let ?hs = "holders s" and ?hp = "lock_heap (km s)" and ?h = "held (km s)"
  have pl: "places_ok ?hs ?h" "unshared ?h" using inv by (simp_all add: ks_inv_def)
  have hk: "?h key = Some l" by (rule places_ok_nth [OF pl(1) i])
  have old: "lock_ok ?hp ?hs m" if "?h k = Some m" for k m using inv that by (auto simp: ks_inv_def)
  have on: "on_lock l (?hs ! i)" "on_lock l y" using i(2) y by (auto simp: on_lock_place)
  have "lock_ok (?hp[l := (?hp ! l)\<lparr>taken := b\<rparr>]) (?hs[i := y]) l"
    using old [OF hk] length_filter_update [OF i(1), of "on_lock l" y] on cnt by (simp add: lock_ok_def)
  moreover have "lock_ok (?hp[l := (?hp ! l)\<lparr>taken := b\<rparr>]) (?hs[i := y]) n" if "?h k = Some n" "n \<noteq> l" for k n
    by (rule lock_ok_other [OF old [OF that(1)] that(2) i(1)])
      (use i y that in \<open>auto simp: on_lock_place\<close>)
  moreover have "places_ok (?hs[i := y]) ?h" using pl(1) y hk by (intro places_ok_update) auto
  ultimately show ?thesis using pl(2) by (auto simp: ks_inv_def set_taken_def)
qed

lemma leave_inv:
  assumes inv: "ks_inv s" and i: "i < length (holders s)" "holders s ! i = Leaving key l"
  shows "ks_inv (s\<lparr>km := unregister (km s) key l, holders := (holders s)[i := Out]\<rparr>)"
proof -
  let ?hs = "holders s" and ?hp = "lock_heap (km s)" and ?h = "held (km s)"
  let ?hp' = "?hp[l := (?hp ! l)\<lparr>refs := refs (?hp ! l) - 1\<rparr>]" and ?hs' = "?hs[i := Out]"
  note upd = length_filter_update [OF i(1), of "on_lock l" Out] length_filter_update [OF i(1), of "holding_lock l" Out]
  have pl: "places_ok ?hs ?h" "unshared ?h" using inv by (simp_all add: ks_inv_def)
  have hk: "?h key = Some l" by (rule places_ok_nth [OF pl(1) i(1)]) (simp add: i)
  have old: "lock_ok ?hp ?hs m" if "?h k = Some m" for k m using inv that by (auto simp: ks_inv_def)
  have pl': "places_ok ?hs' ?h" using pl(1) by (intro places_ok_update) auto
  have others: "lock_ok ?hp' ?hs' n" if "?h k = Some n" "n \<noteq> l" for k n
    by (rule lock_ok_other [OF old [OF that(1)] that(2) i(1)]) (use i that in auto)
  have len: "l < length ?hp" using old [OF hk] by (simp add: lock_ok_def)
  show ?thesis
  proof (cases "refs (?hp ! l) = 1")
    case True
    then have "length (filter (on_lock l) ?hs') = 0" using old [OF hk] upd i by (simp add: lock_ok_def)
    then have none: "x \<in> set ?hs' \<Longrightarrow> \<not> on_lock l x" for x by (auto simp: filter_empty_conv)
    have "places_ok ?hs' (?h(key := None))"
      using pl' none hk by (auto simp: places_ok_def on_lock_place)
    moreover have "unshared (?h(key := None))" using pl(2) by (auto simp: unshared_def)
    moreover have "lock_ok ?hp' ?hs' n" if "(?h(key := None)) k = Some n" for k n
    proof -
      have k: "?h k = Some n" "k \<noteq> key" using that by (auto split: if_splits)
      then have "n \<noteq> l" using pl(2) hk by (auto simp: unshared_def)
      then show ?thesis using others k(1) by blast
    qed
    ultimately show ?thesis using True len by (auto simp: ks_inv_def unregister_def Let_def)
  next
    case False
    then have "lock_ok ?hp' ?hs' l"
      using old [OF hk] upd i by (cases "filter (on_lock l) ?hs'") (auto simp: lock_ok_def)
    then have "lock_ok ?hp' ?hs' n" if "?h k = Some n" for k n using others [OF that] by (cases "n = l") auto
    then show ?thesis using False len pl' pl(2) by (auto simp: ks_inv_def unregister_def Let_def)
  qed
qed

lemma ks_step_inv: "ks_step s s' \<Longrightarrow> ks_inv s \<Longrightarrow> ks_inv s'"
proof (erule ks_step.cases; clarsimp)
  fix i key k' l
  assume "ks_inv s" "i < length (holders s)" "holders s ! i = Out" "register (km s) key = (k', l)"
  then show "ks_inv (s\<lparr>km := k', holders := (holders s)[i := Queued key l]\<rparr>)" by (rule ask_inv)
next
  fix i key l
  assume a: "ks_inv s" "i < length (holders s)" "holders s ! i = Queued key l" "\<not> taken (lock_heap (km s) ! l)"
  have "held (km s) key = Some l"
    using a by (intro places_ok_nth [of "holders s" _ i]) (auto simp: ks_inv_def)
  then have "lock_ok (lock_heap (km s)) (holders s) l" using a(1) by (auto simp: ks_inv_def)
  then show "ks_inv (s\<lparr>km := set_taken (km s) l True, holders := (holders s)[i := Holding key l]\<rparr>)"
    using a length_filter_update [OF a(2), of "holding_lock l" "Holding key l"]
    by (intro taken_inv) (auto simp: lock_ok_def)
next
  fix i key l
  assume a: "ks_inv s" "i < length (holders s)" "holders s ! i = Holding key l"
  have "held (km s) key = Some l"
    using a by (intro places_ok_nth [of "holders s" _ i]) (auto simp: ks_inv_def)
  then have "lock_ok (lock_heap (km s)) (holders s) l" using a(1) by (auto simp: ks_inv_def)
  then have "length (filter (holding_lock l) ((holders s)[i := Leaving key l])) = 0"
    using a length_filter_update [OF a(2), of "holding_lock l" "Leaving key l"]
    by (cases "taken (lock_heap (km s) ! l)") (auto simp: lock_ok_def)
  then show "ks_inv (s\<lparr>km := set_taken (km s) l False, holders := (holders s)[i := Leaving key l]\<rparr>)"
    using a by (intro taken_inv) auto
next
  fix i key l
  assume "ks_inv s" "i < length (holders s)" "holders s ! i = Leaving key l"
  then show "ks_inv (s\<lparr>km := unregister (km s) key l, holders := (holders s)[i := Out]\<rparr>)" by (rule leave_inv)
qed

lemma ks_reach_inv: "ks_reach n s \<Longrightarrow> ks_inv s"
proof (induction rule: ks_reach.induct)
  case start
  show ?case by (auto simp: ks_inv_def ks_start_def places_ok_def unshared_def)
qed (rule ks_step_inv)

section \<open>What the lock promises\<close>

text \<open>
  C30. One holder per domain: of all the callers of any execution at most one at a
  time is between \<open>Lock(domain)\<close> and its release, also across the moments the
  map's entry is dropped and made again.
\<close>

theorem one_holder_per_domain:
  assumes "ks_reach n s" "i < length (holders s)" "j < length (holders s)"
    and "holders s ! i = Holding key l" "holders s ! j = Holding key m"
  shows "i = j"
proof (rule ccontr)
  assume ne: "i \<noteq> j"
  have inv: "ks_inv s" by (rule ks_reach_inv [OF assms(1)])
  have "held (km s) key = Some l" "held (km s) key = Some m"
    using inv assms by (auto simp: ks_inv_def intro: places_ok_nth)
  then have l: "lock_ok (lock_heap (km s)) (holders s) l" "l = m" using inv by (auto simp: ks_inv_def)
  have "filter (holding_lock l) ((holders s)[i := Out]) \<noteq> []"
    using assms(3,5) ne l(2) by (metis filter_empty_conv holding_lock.simps(1) length_list_update nth_list_update_neq nth_mem)
  then have "length (filter (holding_lock l) (holders s)) \<ge> 2"
    using length_filter_update [OF assms(2), of "holding_lock l" Out] assms(4)
    by (cases "filter (holding_lock l) ((holders s)[i := Out])") auto
  then show False
    using l(1) by (cases "taken (lock_heap (km s) ! l)") (simp_all add: lock_ok_def)
qed

text \<open>
  No memory is kept: the map holds an entry for exactly the domains some caller
  waits for, holds, or is still leaving, and nothing once all have gone.
\<close>

theorem entries_are_the_domains_in_use:
  assumes "ks_reach n s"
  shows "dom (held (km s)) = {key. \<exists>x\<in>set (holders s). \<exists>l. place x = Some (key, l)}"
proof -
  have inv: "ks_inv s" by (rule ks_reach_inv [OF assms])
  have "\<exists>x\<in>set (holders s). place x = Some (key, l)" if "held (km s) key = Some l" for key l
  proof -
    have "lock_ok (lock_heap (km s)) (holders s) l" using inv that by (auto simp: ks_inv_def)
    then obtain x k where x: "x \<in> set (holders s)" "place x = Some (k, l)"
      by (auto simp: lock_ok_def filter_empty_conv on_lock_place)
    then have "held (km s) k = Some l" using inv by (auto simp: ks_inv_def places_ok_def)
    then have "k = key" using inv that by (auto simp: ks_inv_def unshared_def)
    with x show ?thesis by blast
  qed
  moreover have "held (km s) key = Some l" if "x \<in> set (holders s)" "place x = Some (key, l)" for x key l
    using inv that by (auto simp: ks_inv_def places_ok_def)
  ultimately show ?thesis by (auto simp: dom_def) metis
qed

lemma step_moves:
  assumes "ks_step s (s\<lparr>km := k, holders := (holders s)[i := y]\<rparr>)" "i < length (holders s)" "holders s ! i \<noteq> y"
  shows "\<exists>s'. ks_step s s' \<and> holders s' \<noteq> holders s"
proof -
  have "(holders s)[i := y] \<noteq> holders s" using assms(2,3) by (metis nth_list_update_eq)
  then have "holders (s\<lparr>km := k, holders := (holders s)[i := y]\<rparr>) \<noteq> holders s" by simp
  with assms(1) show ?thesis by blast
qed

text \<open>
  A domain only ever waits for itself: a caller queued for a domain nobody
  holds can take it at once, whatever is held elsewhere, and a release is always
  possible; so as long as somebody is inside, somebody can move.
\<close>

theorem domains_do_not_wait_on_each_other:
  assumes "ks_reach n s" "i < length (holders s)"
  shows "(holders s ! i = Queued key l \<and> (\<forall>x\<in>set (holders s). \<forall>m. x \<noteq> Holding key m) \<longrightarrow>
      ks_step s (s\<lparr>km := set_taken (km s) l True, holders := (holders s)[i := Holding key l]\<rparr>)) \<and>
    (holders s ! i \<noteq> Out \<longrightarrow> (\<exists>s'. ks_step s s' \<and> holders s' \<noteq> holders s))"
proof -
  have inv: "ks_inv s" by (rule ks_reach_inv [OF assms(1)])
  have free: "\<not> taken (lock_heap (km s) ! l)"
    if "holders s ! i = Queued key l" "\<forall>x\<in>set (holders s). \<forall>m. x \<noteq> Holding key m" for key l
  proof
    assume t: "taken (lock_heap (km s) ! l)"
    have hk: "held (km s) key = Some l"
      using inv that(1) assms(2) by (intro places_ok_nth [of "holders s" _ i]) (auto simp: ks_inv_def)
    then have "lock_ok (lock_heap (km s)) (holders s) l" using inv by (auto simp: ks_inv_def)
    then have "filter (holding_lock l) (holders s) \<noteq> []" using t by (auto simp: lock_ok_def)
    then obtain x k where x: "x \<in> set (holders s)" "x = Holding k l"
      by (auto simp: filter_empty_conv elim: holding_lock.elims)
    then have "held (km s) k = Some l" using inv by (auto simp: ks_inv_def places_ok_def)
    then have "k = key" using inv hk by (auto simp: ks_inv_def unshared_def)
    with x that(2) show False by blast
  qed
  have enter: "ks_step s (s\<lparr>km := set_taken (km s) l True, holders := (holders s)[i := Holding key l]\<rparr>)"
    if "holders s ! i = Queued key l" "\<forall>x\<in>set (holders s). \<forall>m. x \<noteq> Holding key m" for key l
    using ks_step.enter [OF assms(2) that(1) free [OF that]] .
  have change: "\<exists>s'. ks_step s s' \<and> holders s' \<noteq> holders s" if "holders s ! i \<noteq> Out"
  proof (cases "\<exists>j k m. j < length (holders s) \<and> holders s ! j = Holding k m")
    case True
    then obtain j k m where j: "j < length (holders s)" "holders s ! j = Holding k m" by blast
    from step_moves [OF ks_step.unlock [OF this]] j show ?thesis by simp
  next
    case False
    then have nobody: "\<forall>x\<in>set (holders s). \<forall>m. x \<noteq> Holding k m" for k by (metis in_set_conv_nth)
    show ?thesis
    proof (cases "holders s ! i")
      case (Queued k m)
      from step_moves [OF enter [OF this nobody]] Queued assms(2) show ?thesis by simp
    next
      case (Leaving k m)
      from step_moves [OF ks_step.leave [OF assms(2) this]] Leaving assms(2) show ?thesis by simp
    qed (use that False assms(2) in auto)
  qed
  show ?thesis using enter change by blast
qed

section \<open>Witnesses\<close>

text \<open>One caller holds a domain while another is queued for it.\<close>

definition contended :: ksys where
  "contended = \<lparr>km = \<lparr>lock_heap = [\<lparr>taken = True, refs = 2\<rparr>], held = [''p|i'' \<mapsto> 0]\<rparr>,
     holders = [Holding ''p|i'' 0, Queued ''p|i'' 0]\<rparr>"

lemma contended_reach: "ks_reach 2 contended"
proof -
  let ?a = "\<lparr>km = \<lparr>lock_heap = [\<lparr>taken = False, refs = 1\<rparr>], held = [''p|i'' \<mapsto> 0]\<rparr>,
      holders = [Queued ''p|i'' 0, Out]\<rparr>"
  let ?b = "\<lparr>km = \<lparr>lock_heap = [\<lparr>taken = True, refs = 1\<rparr>], held = [''p|i'' \<mapsto> 0]\<rparr>,
      holders = [Holding ''p|i'' 0, Out]\<rparr>"
  have start: "ks_start 2 = \<lparr>km = \<lparr>lock_heap = [], held = Map.empty\<rparr>, holders = [Out, Out]\<rparr>"
    by (simp add: ks_start_def numeral_2_eq_2)
  have "ks_step (ks_start 2) ?a"
    using ks_step.ask [of 0 "ks_start 2" "''p|i''" "km ?a" 0]
    by (simp add: start register_def Let_def)
  then have a: "ks_reach 2 ?a" by (rule ks_reach.step [OF ks_reach.start])
  have "ks_step ?a ?b"
    using ks_step.enter [of 0 ?a "''p|i''" 0] by (simp add: set_taken_def)
  then have b: "ks_reach 2 ?b" by (rule ks_reach.step [OF a])
  have "ks_step ?b contended"
    using ks_step.ask [of 1 ?b "''p|i''" "km contended" 0]
    by (simp add: register_def Let_def contended_def)
  then show ?thesis by (rule ks_reach.step [OF b])
qed

lemma one_holder_witness: "holders contended ! 1 \<noteq> Holding ''p|i'' 0"
  using one_holder_per_domain [OF contended_reach, of 0 1 "''p|i''" 0 0] by (auto simp: contended_def)

lemma entries_witness: "dom (held (km contended)) = {''p|i''}"
  using entries_are_the_domains_in_use [OF contended_reach] by (auto simp: contended_def)

lemma domains_witness: "\<exists>s'. ks_step contended s' \<and> holders s' \<noteq> holders contended"
  using domains_do_not_wait_on_each_other [OF contended_reach, of 0] by (simp add: contended_def)

end
