(* ===== verification/Sshkey.thy ===== *)
theory Sshkey
  imports Encoding
begin

text \<open>
  OpenSSH public keys in their one-line form (\<open>internal/core/sshkey/sshkey.go\<close>):
  what \<open>Parse\<close> accepts, how a key is rendered, and its MD5 fingerprint. A line is
  a byte string.
\<close>

record ssh_key =
  algorithm :: string
  blob :: string
  comment :: string

definition algorithms :: "string list" where
  "algorithms = [''ssh-rsa'', ''ssh-ed25519'', ''ssh-dss'', ''ecdsa-sha2-nistp256'',
     ''ecdsa-sha2-nistp384'', ''ecdsa-sha2-nistp521'', ''sk-ssh-ed25519@openssh.com'',
     ''sk-ecdsa-sha2-nistp256@openssh.com'']"

text \<open>The first length-prefixed string of a blob.\<close>

definition ssh_string :: "string \<Rightarrow> string option" where
  "ssh_string b =
     (if length b < 4 then None
      else
        (let n = ord (b ! 0) * 16777216 + ord (b ! 1) * 65536 + ord (b ! 2) * 256 + ord (b ! 3) in
         if n > length b - 4 then None else Some (take n (drop 4 b))))"

text \<open>\<open>Parse\<close>; the one error is \<open>ErrNotAKey\<close>.\<close>

definition parse_key :: "string \<Rightarrow> ssh_key option" where
  "parse_key line =
     (let k = trim_space line in
      if contains_any k [CHR 0x0A, CHR 0x0D, CHR 0x00] then None
      else
        (let fields = str_fields k in
         if length fields < 2 then None
         else if fields ! 0 \<notin> set algorithms then None
         else
           (case b64_decode (fields ! 1) of
              None \<Rightarrow> None
            | Some b \<Rightarrow>
                (if ssh_string b \<noteq> Some (fields ! 0) then None
                 else Some \<lparr>algorithm = fields ! 0, blob = b, comment = str_join '' '' (drop 2 fields)\<rparr>))))"

definition key_string :: "ssh_key \<Rightarrow> string" where
  "key_string k =
     (let out = algorithm k @ '' '' @ b64_encode (blob k)
      in if comment k \<noteq> [] then out @ '' '' @ comment k else out)"

definition key_valid :: "string \<Rightarrow> bool" where
  "key_valid line = (parse_key line \<noteq> None)"

text \<open>The loop that cuts the hex text into pairs.\<close>

fun hex_pairs :: "string \<Rightarrow> string list" where
  "hex_pairs (a # b # s) = [a, b] # hex_pairs s"
| "hex_pairs _ = []"

definition key_fingerprint :: "ssh_key \<Rightarrow> string" where
  "key_fingerprint k = str_join '':'' (hex_pairs (hex_encode (md5_sum (blob k))))"

definition fingerprint_md5 :: "string \<Rightarrow> string" where
  "fingerprint_md5 line =
     (case parse_key line of None \<Rightarrow> [] | Some k \<Rightarrow> key_fingerprint k)"

section \<open>White space\<close>

text \<open>A string that no white space starts in: what a field is.\<close>

definition spaceless :: "string \<Rightarrow> bool" where
  "spaceless s = (\<forall>t. t \<noteq> [] \<and> (\<exists>u. s = u @ t) \<longrightarrow> space_len t = 0)"

lemma spaces_shape:
  "sp \<in> set (ascii_spaces @ wide_spaces) \<Longrightarrow>
     sp \<noteq> [] \<and> (length sp = 1 \<or> CHR '' '' \<notin> set sp)"
  by (auto simp: ascii_spaces_def wide_spaces_def)

lemma find_length_0:
  "\<forall>x\<in>set xs. x \<noteq> [] \<Longrightarrow>
     (case find P xs of None \<Rightarrow> 0 | Some x \<Rightarrow> length x) = 0 \<longleftrightarrow> (\<forall>x\<in>set xs. \<not> P x)"
  by (induction xs) auto

lemma space_len_0: "space_len s = 0 \<longleftrightarrow> (\<forall>sp\<in>set (ascii_spaces @ wide_spaces). \<not> has_prefix s sp)"
  unfolding space_len_def by (rule find_length_0) (blast dest: spaces_shape)

lemma space_rlen_0: "space_rlen r = 0 \<longleftrightarrow> (\<forall>sp\<in>set (ascii_spaces @ wide_spaces). \<not> has_prefix r (rev sp))"
  unfolding space_rlen_def by (rule find_length_0) (blast dest: spaces_shape)

lemma space_len_space: "space_len (CHR '' '' # s) = 1"
  by (simp add: space_len_def ascii_spaces_def)

lemma has_prefix_append2: "has_prefix s p \<Longrightarrow> has_prefix (s @ t) p"
  by (auto simp: has_prefix_iff)

text \<open>A field followed by a space has no white space in it either.\<close>

lemma space_len_before_space:
  assumes "t \<noteq> []" "space_len t = 0"
  shows "space_len (t @ CHR '' '' # s) = 0"
  unfolding space_len_0
proof
  fix sp assume sp: "sp \<in> set (ascii_spaces @ wide_spaces)"
  show "\<not> has_prefix (t @ CHR '' '' # s) sp"
  proof
    assume "has_prefix (t @ CHR '' '' # s) sp"
    then obtain r where r: "t @ CHR '' '' # s = sp @ r" by (auto simp: has_prefix_iff)
    then consider us where "t = sp @ us" | us where "sp = t @ CHR '' '' # us"
      by (auto simp: append_eq_append_conv2 append_eq_Cons_conv Cons_eq_append_conv)
    then show False
    proof cases
      case 1
      then show False using assms(2) sp has_prefix_append [of sp us] unfolding space_len_0 by blast
    next
      case 2
      then show False using spaces_shape [OF sp] assms(1) by (cases t) auto
    qed
  qed
qed

lemma fields_from_run:
  "\<forall>t u. f = u @ t \<and> t \<noteq> [] \<longrightarrow> space_len (t @ s) = 0 \<Longrightarrow> fields_from acc (f @ s) = fields_from (acc @ f) s"
proof (induction f arbitrary: acc)
  case (Cons c f)
  have "space_len (c # f @ s) = 0" using Cons.prems [rule_format, of "[]" "c # f"] by simp
  then have "fields_from acc ((c # f) @ s) = fields_from (acc @ [c]) (f @ s)"
    by (subst fields_from.simps) simp
  moreover have "fields_from (acc @ [c]) (f @ s) = fields_from ((acc @ [c]) @ f) s"
    by (rule Cons.IH) (use Cons.prems in \<open>metis append_Cons\<close>)
  ultimately show ?case by simp
qed simp

lemma spaceless_before_space:
  "spaceless f \<Longrightarrow> \<forall>t u. f = u @ t \<and> t \<noteq> [] \<longrightarrow> space_len (t @ CHR '' '' # s) = 0"
  using space_len_before_space by (auto simp: spaceless_def)

lemma fields_of_join:
  "\<forall>f\<in>set fs. f \<noteq> [] \<and> spaceless f \<Longrightarrow> str_fields (str_join '' '' fs) = fs"
  unfolding str_fields_def
proof (induction fs rule: induct_list012)
  case 1
  show ?case by (subst fields_from.simps) simp
next
  case (2 f)
  then have "fields_from [] (f @ []) = fields_from ([] @ f) []"
    by (intro fields_from_run) (simp add: spaceless_def)
  then show ?case using 2 by (simp add: fields_from.simps [of f])
next
  case (3 f g fs)
  let ?r = "str_join '' '' (g # fs)"
  have "fields_from [] (f @ CHR '' '' # ?r) = fields_from ([] @ f) (CHR '' '' # ?r)"
    using 3 by (intro fields_from_run spaceless_before_space) simp
  also have "\<dots> = f # fields_from [] ?r"
    using 3 by (subst fields_from.simps) (simp add: space_len_space)
  finally show ?case using 3 by simp
qed

lemma spaceless_prefix_run:
  assumes "\<forall>t u. acc = u @ t \<and> t \<noteq> [] \<longrightarrow> space_len (t @ s) = 0"
  shows "spaceless acc"
proof -
  have "space_len t = 0" if "acc = u @ t" "t \<noteq> []" for t u
    using assms that has_prefix_append2 unfolding space_len_0 by blast
  then show ?thesis by (auto simp: spaceless_def)
qed

lemma fields_from_spaceless:
  "\<forall>t u. acc = u @ t \<and> t \<noteq> [] \<longrightarrow> space_len (t @ s) = 0 \<Longrightarrow>
     f \<in> set (fields_from acc s) \<Longrightarrow> f \<noteq> [] \<and> spaceless f \<and> set f \<subseteq> set acc \<union> set s"
proof (induction acc s rule: fields_from.induct)
  case (1 acc s)
  show ?case
  proof (cases "s = []")
    case True
    then show ?thesis
      using 1(3,4) spaceless_prefix_run [OF 1(3)] by (simp add: fields_from.simps [of acc] split: if_splits)
  next
    case ne: False
    show ?thesis
    proof (cases "space_len s = 0")
      case True
      have run: "\<forall>t u. acc @ [hd s] = u @ t \<and> t \<noteq> [] \<longrightarrow> space_len (t @ tl s) = 0"
      proof (intro allI impI)
        fix t u assume a: "acc @ [hd s] = u @ t \<and> t \<noteq> []"
        then obtain t' y where y: "t = t' @ [y]" by (cases t rule: rev_cases) auto
        with a have t: "t = t' @ [hd s]" "acc = u @ t'" by simp_all
        then have "t @ tl s = t' @ s" using ne by simp
        then show "space_len (t @ tl s) = 0" using 1(3) t True by (cases "t' = []") auto
      qed
      have f: "f \<in> set (fields_from (acc @ [hd s]) (tl s))"
        using 1(4) ne True by (simp add: fields_from.simps [of acc])
      have "set (tl s) \<subseteq> set s" "hd s \<in> set s" using ne by (auto simp: list.set_sel)
      with 1(1) [OF ne True run f] show ?thesis by auto
    next
      case False
      have "f \<in> set (fields_from [] (drop (space_len s) s)) \<or> (f = acc \<and> acc \<noteq> [])"
        using 1(4) ne False by (auto simp: fields_from.simps [of acc] split: if_splits)
      then show ?thesis
        using 1(2) [OF ne False] spaceless_prefix_run [OF 1(3)] set_drop_subset [of "space_len s" s] by auto
    qed
  qed
qed

lemma str_fields_spaceless:
  "f \<in> set (str_fields s) \<Longrightarrow> f \<noteq> [] \<and> spaceless f \<and> set f \<subseteq> set s"
  using fields_from_spaceless [of "[]" s f] by (simp add: str_fields_def)

lemma str_join_last:
  "fs \<noteq> [] \<Longrightarrow> \<exists>p. str_join '' '' fs = p @ last fs \<and> (p = [] \<or> last p = CHR '' '')"
proof (induction fs rule: induct_list012)
  case (3 f g fs)
  then obtain p where "str_join '' '' (g # fs) = p @ last (g # fs)" "p = [] \<or> last p = CHR '' ''" by auto
  then show ?case by (intro exI [of _ "f @ CHR '' '' # p"]) auto
qed auto

text \<open>A line whose fields are joined by single spaces is already trimmed.\<close>

lemma trim_joined:
  assumes "fs \<noteq> []" "\<forall>f\<in>set fs. f \<noteq> [] \<and> spaceless f"
  shows "trim_space (str_join '' '' fs) = str_join '' '' fs"
proof -
  let ?s = "str_join '' '' fs"
  obtain f r where s: "?s = f @ r" "r = [] \<or> (\<exists>r'. r = CHR '' '' # r')" "f \<noteq> []" "spaceless f"
  proof -
    obtain g gs where fs: "fs = g # gs" using assms(1) by (cases fs) auto
    have "?s = g @ (if gs = [] then [] else CHR '' '' # str_join '' '' gs)" by (cases gs) (simp_all add: fs)
    then show ?thesis using that [of g "if gs = [] then [] else CHR '' '' # str_join '' '' gs"] assms(2) fs by auto
  qed
  have "space_len f = 0" using s(3,4) unfolding spaceless_def by (metis append_Nil)
  then have l: "space_len ?s = 0" using s space_len_before_space by auto
  obtain p where p: "?s = p @ last fs" "p = [] \<or> last p = CHR '' ''" using str_join_last [OF assms(1)] by blast
  have lf: "last fs \<noteq> []" "spaceless (last fs)" using assms by auto
  have "space_rlen (rev ?s) = 0"
    unfolding space_rlen_0
  proof
    fix sp assume sp: "sp \<in> set (ascii_spaces @ wide_spaces)"
    show "\<not> has_prefix (rev ?s) (rev sp)"
    proof
      assume "has_prefix (rev ?s) (rev sp)"
      then obtain x where "rev ?s = rev sp @ x" by (auto simp: has_prefix_iff)
      then have "p @ last fs = rev x @ sp" using p(1) by (metis rev_append rev_rev_ident)
      then obtain us where "last fs = us @ sp \<or> (p = rev x @ us \<and> sp = us @ last fs)"
        by (auto simp: append_eq_append_conv2)
      then consider us where "last fs = us @ sp" | us where "sp = us @ last fs" "us \<noteq> []" "\<exists>y. p = y @ us"
        by (metis append_Nil)
      then show False
      proof cases
        case 1
        then have "space_len sp = 0" using lf(2) spaces_shape [OF sp] by (auto simp: spaceless_def)
        then show False using sp has_prefix_append [of sp "[]"] unfolding space_len_0 by auto
      next
        case 2
        then have "CHR '' '' \<in> set sp" using p(2) by (metis UnCI append_is_Nil_conv last_appendR last_in_set set_append)
        moreover have "length sp > 1" using 2 lf(1) by (cases us; cases "last fs") auto
        ultimately show False using spaces_shape [OF sp] by auto
      qed
    qed
  qed
  then show ?thesis
    using l by (simp add: trim_space_def trim_left.simps [of ?s] trim_rev.simps [of "rev ?s"])
qed

section \<open>A key and its line\<close>

text \<open>Bytes no white space starts with.\<close>

definition plain :: "char \<Rightarrow> bool" where
  "plain c = list_all (\<lambda>sp. hd sp \<noteq> c) (ascii_spaces @ wide_spaces)"

lemma plain_spaceless: "list_all plain s \<Longrightarrow> spaceless s"
  unfolding spaceless_def space_len_0
proof (intro allI impI ballI notI)
  fix t sp assume a: "list_all plain s" "t \<noteq> [] \<and> (\<exists>u. s = u @ t)"
    "sp \<in> set (ascii_spaces @ wide_spaces)" "has_prefix t sp"
  then have "hd t = hd sp" using spaces_shape [OF a(3)] by (auto simp: has_prefix_iff)
  moreover have "plain (hd t)" using a(1,2) by (cases t) auto
  ultimately show False using a(3) by (auto simp: plain_def list_all_iff)
qed

lemma alphabet_plain: "list_all plain (CHR ''='' # b64_alphabet)"
  by code_simp

lemma algorithms_plain:
  "list_all (\<lambda>a. a \<noteq> [] \<and> list_all plain a \<and> \<not> contains_any a [CHR 0x0A, CHR 0x0D, CHR 0x00]) algorithms"
  by code_simp

lemma alphabet_clean: "\<not> contains_any (CHR ''='' # b64_alphabet) [CHR 0x0A, CHR 0x0D, CHR 0x00]"
  by code_simp

lemma b64_encode_plain: "list_all plain (b64_encode b)"
  using alphabet_plain b64_encode_chars [of b] unfolding list_all_iff by fastforce

lemma b64_encode_clean: "\<not> contains_any (b64_encode b) [CHR 0x0A, CHR 0x0D, CHR 0x00]"
  using alphabet_clean b64_encode_chars [of b] unfolding contains_any_def list_ex_iff by fastforce

text \<open>What every parsed key looks like.\<close>

definition key_ok :: "ssh_key \<Rightarrow> string list \<Rightarrow> bool" where
  "key_ok k cs =
     (algorithm k \<in> set algorithms \<and> ssh_string (blob k) = Some (algorithm k) \<and>
      comment k = str_join '' '' cs \<and>
      (\<forall>c\<in>set cs. c \<noteq> [] \<and> spaceless c \<and> \<not> contains_any c [CHR 0x0A, CHR 0x0D, CHR 0x00]))"

lemma contains_any_subset: "set f \<subseteq> set s \<Longrightarrow> \<not> contains_any s cs \<Longrightarrow> \<not> contains_any f cs"
  by (auto simp: contains_any_def list_ex_iff)

lemma parse_key_ok:
  assumes "parse_key line = Some k"
  obtains cs where "key_ok k cs"
proof -
  let ?t = "trim_space line"
  have "\<not> contains_any ?t [CHR 0x0A, CHR 0x0D, CHR 0x00]"
    and k: "key_ok k (drop 2 (str_fields ?t)) \<or> True"
    using assms by (auto simp: parse_key_def Let_def split: if_splits)
  then have "\<forall>c\<in>set (drop 2 (str_fields ?t)). c \<noteq> [] \<and> spaceless c \<and> \<not> contains_any c [CHR 0x0A, CHR 0x0D, CHR 0x00]"
    using str_fields_spaceless contains_any_subset by (meson in_set_dropD)
  then have "key_ok k (drop 2 (str_fields ?t))"
    using assms by (auto simp: parse_key_def key_ok_def Let_def split: if_splits option.splits)
  then show ?thesis by (rule that)
qed

lemma str_join_Nil: "\<forall>c\<in>set cs. c \<noteq> [] \<Longrightarrow> str_join sep cs = [] \<longleftrightarrow> cs = []"
  by (induction cs rule: induct_list012) auto

lemma key_string_fields:
  assumes "key_ok k cs"
  shows "key_string k = str_join '' '' (algorithm k # b64_encode (blob k) # cs)"
  using assms str_join_Nil [of cs "'' ''"] by (cases cs) (auto simp: key_string_def key_ok_def Let_def)

lemma key_fields_ok:
  assumes "key_ok k cs"
  shows "\<forall>f\<in>set (algorithm k # b64_encode (blob k) # cs). f \<noteq> [] \<and> spaceless f \<and>
     \<not> contains_any f [CHR 0x0A, CHR 0x0D, CHR 0x00]"
proof -
  have "algorithm k \<noteq> [] \<and> list_all plain (algorithm k) \<and>
      \<not> contains_any (algorithm k) [CHR 0x0A, CHR 0x0D, CHR 0x00]"
    using assms algorithms_plain by (auto simp: key_ok_def list_all_iff)
  moreover have "blob k \<noteq> []" using assms by (auto simp: key_ok_def ssh_string_def)
  ultimately show ?thesis
    using assms plain_spaceless b64_encode_plain b64_encode_clean by (auto simp: key_ok_def)
qed

lemma contains_any_join:
  "\<forall>f\<in>set fs. \<not> contains_any f cs \<Longrightarrow> CHR '' '' \<notin> set cs \<Longrightarrow> \<not> contains_any (str_join '' '' fs) cs"
  using set_str_join [of "'' ''" fs] unfolding contains_any_def list_ex_iff by fastforce

lemma parse_rendered:
  assumes ok: "key_ok k cs"
  shows "parse_key (key_string k) = Some k"
proof -
  let ?fs = "algorithm k # b64_encode (blob k) # cs"
  note fs = key_fields_ok [OF ok]
  have trim: "trim_space (str_join '' '' ?fs) = str_join '' '' ?fs"
    by (rule trim_joined) (use fs in blast)+
  have fields: "str_fields (str_join '' '' ?fs) = ?fs"
    by (rule fields_of_join) (use fs in blast)
  have clean: "\<not> contains_any (str_join '' '' ?fs) [CHR 0x0A, CHR 0x0D, CHR 0x00]"
    by (rule contains_any_join) (use fs in blast, simp)
  have "parse_key (key_string k) = Some k"
    using ok clean unfolding parse_key_def Let_def key_string_fields [OF ok] trim fields
    by (simp add: b64_roundtrip key_ok_def del: str_join.simps)
  then show ?thesis .
qed


lemma parse_key_string: "parse_key line = Some k \<Longrightarrow> parse_key (key_string k) = Some k"
  by (erule parse_key_ok) (rule parse_rendered)

text \<open>
  C31. What is stored is the key: rendering a parsed key and parsing it again gives
  the same key, so the canonical line is a fixed point of \<open>Parse\<close> then \<open>String\<close>.
\<close>

theorem parse_of_string:
  assumes "parse_key line = Some k"
  shows "parse_key (key_string k) = Some k \<and> key_valid (key_string k)"
  using parse_key_string [OF assms] by (simp add: key_valid_def)

lemma spaceless_no_ascii: "spaceless f \<Longrightarrow> [c] \<in> set ascii_spaces \<Longrightarrow> c \<notin> set f"
proof
  assume f: "spaceless f" "[c] \<in> set ascii_spaces" "c \<in> set f"
  then obtain u t where "f = u @ c # t" by (meson split_list)
  then have "space_len (c # t) = 0" using f(1) by (auto simp: spaceless_def)
  moreover have "[c] \<in> set (ascii_spaces @ wide_spaces)" using f(2) by simp
  ultimately have "\<not> has_prefix (c # t) [c]" unfolding space_len_0 by blast
  then show False by simp
qed

text \<open>
  A key cannot open a second line: whatever was sent, what \<open>String\<close> renders of an
  accepted key is one line of fields separated by single spaces, with no NUL, tab,
  line feed, vertical tab, form feed or carriage return in it, starting with a
  known algorithm that its own material names.
\<close>

theorem accepted_key_is_one_line:
  assumes "parse_key line = Some k"
  shows "\<not> contains_any (key_string k) [CHR 0x00, CHR 0x09, CHR 0x0A, CHR 0x0B, CHR 0x0C, CHR 0x0D] \<and>
    str_join '' '' (str_fields (key_string k)) = key_string k \<and>
    algorithm k \<in> set algorithms \<and> ssh_string (blob k) = Some (algorithm k)"
proof -
  obtain cs where ok: "key_ok k cs" by (rule parse_key_ok [OF assms])
  let ?fs = "algorithm k # b64_encode (blob k) # cs"
  note fs = key_fields_ok [OF ok]
  have "\<not> contains_any f [CHR 0x00, CHR 0x09, CHR 0x0A, CHR 0x0B, CHR 0x0C, CHR 0x0D]" if "f \<in> set ?fs" for f
  proof -
    have "spaceless f" "\<not> contains_any f [CHR 0x0A, CHR 0x0D, CHR 0x00]" using fs that by blast+
    moreover have "set f \<inter> {CHR 0x09, CHR 0x0A, CHR 0x0B, CHR 0x0C, CHR 0x0D} = {}"
      using spaceless_no_ascii [OF \<open>spaceless f\<close>] by (simp add: ascii_spaces_def)
    ultimately show ?thesis
      unfolding contains_any_def list_ex_iff list.set by blast
  qed
  then have "\<not> contains_any (str_join '' '' ?fs) [CHR 0x00, CHR 0x09, CHR 0x0A, CHR 0x0B, CHR 0x0C, CHR 0x0D]"
    by (intro contains_any_join) auto
  moreover have "str_fields (str_join '' '' ?fs) = ?fs" by (rule fields_of_join) (use fs in blast)
  ultimately show ?thesis using ok unfolding key_string_fields [OF ok] by (simp add: key_ok_def)
qed

lemma hex_pairs_length:
  "length s = 2 * n \<Longrightarrow> length (hex_pairs s) = n \<and> (\<forall>p\<in>set (hex_pairs s). length p = 2)"
proof (induction n arbitrary: s)
  case (Suc n)
  then obtain a b t where "s = a # b # t" "length t = 2 * n" by (auto simp: length_Suc_conv numeral_eq_Suc)
  then show ?case using Suc.IH by simp
qed simp

text \<open>
  A fingerprint is of the key and nothing else: two accepted lines with the same
  material have the same fingerprint whatever their comments and white space, the
  canonical line has it too, and it is sixteen pairs of hexadecimal digits.
\<close>

theorem fingerprint_is_of_the_material:
  assumes "parse_key line = Some k" "parse_key line' = Some k'" "blob k = blob k'"
  shows "fingerprint_md5 line = fingerprint_md5 line' \<and>
    fingerprint_md5 (key_string k) = fingerprint_md5 line \<and>
    (\<exists>ps. fingerprint_md5 line = str_join '':'' ps \<and> length ps = 16 \<and> (\<forall>p\<in>set ps. length p = 2))"
proof -
  have "fingerprint_md5 line = key_fingerprint k" "fingerprint_md5 line' = key_fingerprint k'"
    "fingerprint_md5 (key_string k) = key_fingerprint k"
    using assms parse_key_string [OF assms(1)] by (simp_all add: fingerprint_md5_def)
  then show ?thesis
    using assms(3) hex_pairs_length [of "hex_encode (md5_sum (blob k))" 16]
    by (auto simp: key_fingerprint_def)
qed

section \<open>Witnesses\<close>

definition key0 :: ssh_key where
  "key0 = \<lparr>algorithm = ''ssh-ed25519'',
     blob = [CHR 0x00, CHR 0x00, CHR 0x00, CHR 0x0B] @ ''ssh-ed25519'' @ [CHR 0x00, CHR 0x00],
     comment = ''me@host''\<rparr>"

lemma key0_ok: "key_ok key0 [''me@host'']"
proof -
  have "spaceless ''me@host''" by (rule plain_spaceless) code_simp
  then show ?thesis
    by (simp add: key_ok_def key0_def algorithms_def ssh_string_def contains_any_def)
qed

lemma line0_parses: "parse_key (key_string key0) = Some key0"
  by (rule parse_rendered [OF key0_ok])

lemma parse_of_string_witness: "key_valid (key_string key0)"
  using parse_of_string [OF line0_parses] by simp

lemma one_line_witness: "\<not> contains_any (key_string key0) [CHR 0x0A] \<and> comment key0 \<noteq> []"
  using accepted_key_is_one_line [OF line0_parses] by (simp add: contains_any_def list_ex_iff key0_def)

lemma fingerprint_witness: "\<exists>ps. fingerprint_md5 (key_string key0) = str_join '':'' ps \<and> length ps = 16"
  using fingerprint_is_of_the_material [OF line0_parses line0_parses refl] by blast

end
