(* ===== verification/Firewall.thy ===== *)
theory Firewall
  imports Netip
begin

text \<open>
  Rule sets as the packs describe them and as the runtime takes them:
  \<open>internal/core/machine/firewall.go\<close>, the pure half of
  \<open>firewall_binding.go\<close>, and the translation of
  \<open>incus_firewall.go\<close> (\<open>toACLRules\<close> and what it calls). The second part says what a
  rule set means to traffic, for a runtime that orders rules by action.
\<close>

section \<open>Rules, sets, bindings\<close>

record fw_rule =
  fdirection :: string
  faction :: string
  fprotocol :: string
  fsource :: string
  fdestination :: string
  fport_from :: int
  fport_to :: int

record fw_spec =
  sname :: string
  sdefault_in :: string
  sdefault_out :: string
  srules :: "fw_rule list"

record fw_binding =
  bnames :: "string list"
  bdefault_in :: string
  bdefault_out :: string
  bunfiltered :: "string list"

definition covers :: "fw_binding \<Rightarrow> string \<Rightarrow> bool" where
  "covers b network = (network = [] \<or> network \<notin> set (bunfiltered b))"

text \<open>A rule of the given direction and action that names nothing else.\<close>

definition bare_rule :: "string \<Rightarrow> string \<Rightarrow> fw_rule" where
  "bare_rule d a = \<lparr>fdirection = d, faction = a, fprotocol = [], fsource = [], fdestination = [],
     fport_from = 0, fport_to = 0\<rparr>"

definition enforces_nothing :: "fw_spec \<Rightarrow> bool" where
  "enforces_nothing s =
     (if sdefault_in s \<noteq> ''allow'' \<or> sdefault_out s \<noteq> ''allow'' then False
      else \<not> list_ex (\<lambda>r. faction r = ''drop'' \<or> faction r = ''reject'') (srules s))"

definition with_permissive_catch_all :: "fw_spec \<Rightarrow> string \<Rightarrow> fw_spec" where
  "with_permissive_catch_all s allow =
     (let s1 = (if sdefault_in s = ''allow'' then s\<lparr>srules := srules s @ [bare_rule ''ingress'' allow]\<rparr> else s)
      in (if sdefault_out s1 = ''allow'' then s1\<lparr>srules := srules s1 @ [bare_rule ''egress'' allow]\<rparr> else s1))"

text \<open>
  The binding \<open>ApplyRuleSets\<close> computes: one turn of its loop, the loop, and the
  empty binding when no set is left.
\<close>

fun bind_spec :: "fw_spec \<Rightarrow> fw_binding \<Rightarrow> fw_binding" where
  "bind_spec s b =
     (if enforces_nothing s then b
      else
        (let b1 = b\<lparr>bnames := bnames b @ [sname s]\<rparr>;
             b2 = (if sdefault_in s \<noteq> ''allow'' then b1\<lparr>bdefault_in := ''drop''\<rparr> else b1)
         in (if sdefault_out s \<noteq> ''allow'' then b2\<lparr>bdefault_out := ''drop''\<rparr> else b2)))"

definition binding_of :: "string list \<Rightarrow> fw_spec list \<Rightarrow> fw_binding" where
  "binding_of unfiltered specs =
     (let b = fold bind_spec specs
            \<lparr>bnames = [], bdefault_in = ''allow'', bdefault_out = ''allow'', bunfiltered = unfiltered\<rparr>
      in (if bnames b = []
          then \<lparr>bnames = [], bdefault_in = [], bdefault_out = [], bunfiltered = unfiltered\<rparr>
          else b))"

section \<open>The runtime's rules\<close>

record acl_rule =
  acl_action :: string
  acl_state :: string
  acl_protocol :: string
  acl_source :: string
  acl_destination :: string
  acl_port :: string

definition port_range :: "int \<Rightarrow> int \<Rightarrow> string" where
  "port_range pf pt =
     (if pf \<le> 0 \<and> pt \<le> 0 then []
      else if pf \<le> 0 then itoa pt
      else if pt \<le> 0 \<or> pt = pf then itoa pf
      else itoa pf @ ''-'' @ itoa pt)"

definition parse_address_or_prefix :: "string \<Rightarrow> addr option" where
  "parse_address_or_prefix s =
     (case parse_prefix s of
        Some p \<Rightarrow> Some (paddr p)
      | None \<Rightarrow> parse_addr s)"

text \<open>\<open>strings.SplitN(member, "-", 2)\<close>.\<close>

definition range_bounds :: "string \<Rightarrow> string list" where
  "range_bounds member = (let (b, a, found) = cut_on CHR ''-'' member in if found then [b, a] else [member])"

fun bound_families :: "string list \<Rightarrow> bool \<times> bool \<Rightarrow> (bool \<times> bool) option" where
  "bound_families [] f = Some f"
| "bound_families (b # bs) (v4, v6) =
     (case parse_address_or_prefix (trim_space b) of
        None \<Rightarrow> None
      | Some a \<Rightarrow>
          (if is4 a \<or> is4in6 a then bound_families bs (True, v6)
           else bound_families bs (v4, True)))"

fun member_families :: "string list \<Rightarrow> bool \<times> bool \<Rightarrow> (bool \<times> bool) option" where
  "member_families [] f = Some f"
| "member_families (m # ms) f =
     (let member = trim_space m in
      if member = [] then None
      else
        (case bound_families (range_bounds member) f of
           None \<Rightarrow> None
         | Some f' \<Rightarrow> member_families ms f'))"

text \<open>The families a field names, or None when it cannot be read.\<close>

definition address_families :: "string \<Rightarrow> (bool \<times> bool) option" where
  "address_families field =
     (if trim_space field = [] then Some (False, False)
      else member_families (split_on CHR '','' field) (False, False))"

definition icmp_family_of_name :: "string \<Rightarrow> int option" where
  "icmp_family_of_name name =
     (if name \<in> set [''icmp'', ''icmp4'', ''icmpv4''] then Some 0
      else if name \<in> set [''icmp6'', ''icmpv6'', ''ipv6-icmp''] then Some 6
      else None)"

definition icmp_protocols :: "int \<Rightarrow> string \<Rightarrow> string \<Rightarrow> string list option" where
  "icmp_protocols named source destination =
     (case (address_families source, address_families destination) of
        (Some (s4, s6), Some (d4, d6)) \<Rightarrow>
          (let v4 = (s4 \<or> d4); v6 = (s6 \<or> d6) in
           if v4 \<and> v6 then None
           else if v4 then (if named = 6 then None else Some [''icmp4''])
           else if v6 then (if named = 4 then None else Some [''icmp6''])
           else if named = 4 then Some [''icmp4'']
           else if named = 6 then Some [''icmp6'']
           else Some [''icmp4'', ''icmp6''])
      | _ \<Rightarrow> None)"

definition acl_protocols :: "fw_rule \<Rightarrow> string list option" where
  "acl_protocols rule =
     (let name = to_lower (trim_space (fprotocol rule)) in
      if name = [] \<or> name = ''any'' then Some [[]]
      else if name = ''tcp'' \<or> name = ''udp'' then Some [name]
      else
        (case icmp_family_of_name name of
           None \<Rightarrow> None
         | Some named \<Rightarrow> icmp_protocols named (fsource rule) (fdestination rule)))"

text \<open>One turn of the loop of \<open>toACLRules\<close>, and the function.\<close>

definition acl_rule_of :: "fw_rule \<Rightarrow> string \<Rightarrow> acl_rule" where
  "acl_rule_of rule protocol =
     (let c = \<lparr>acl_action = faction rule, acl_state = ''enabled'', acl_protocol = protocol,
            acl_source = fsource rule, acl_destination = fdestination rule, acl_port = []\<rparr>
      in (if protocol = ''tcp'' \<or> protocol = ''udp''
          then c\<lparr>acl_port := port_range (fport_from rule) (fport_to rule)\<rparr> else c))"

definition to_acl_rules :: "fw_rule \<Rightarrow> acl_rule list" where
  "to_acl_rules rule =
     (if faction rule \<notin> set [''allow'', ''allow-stateless'', ''drop'', ''reject''] then []
      else
        (case acl_protocols rule of
           None \<Rightarrow> []
         | Some protocols \<Rightarrow> map (acl_rule_of rule) protocols))"

definition describe_rule :: "fw_rule \<Rightarrow> string" where
  "describe_rule rule =
     (let ports = port_range (fport_from rule) (fport_to rule) in
      str_join '' ''
        ([fdirection rule, faction rule]
         @ (if fprotocol rule \<noteq> [] then [fprotocol rule] else [])
         @ (if fsource rule \<noteq> [] then [''from '' @ fsource rule] else [])
         @ (if fdestination rule \<noteq> [] then [''to '' @ fdestination rule] else [])
         @ (if ports \<noteq> [] then [''port '' @ ports] else [])))"

section \<open>The translation never approximates\<close>

text \<open>Whether a field names an address of the given family.\<close>

definition v4_addr :: "addr \<Rightarrow> bool" where
  "v4_addr a = (is4 a \<or> is4in6 a)"

definition field_addrs :: "string \<Rightarrow> addr set" where
  "field_addrs field =
     {a. trim_space field \<noteq> [] \<and> (\<exists>m\<in>set (split_on CHR '','' field). \<exists>b\<in>set (range_bounds (trim_space m)).
        parse_address_or_prefix (trim_space b) = Some a)}"

lemma bound_families_Some:
  "bound_families bs (v4, v6) = Some (w4, w6) \<Longrightarrow>
     (\<forall>b\<in>set bs. \<exists>a. parse_address_or_prefix (trim_space b) = Some a) \<and>
     (w4 \<longleftrightarrow> v4 \<or> (\<exists>b\<in>set bs. \<exists>a. parse_address_or_prefix (trim_space b) = Some a \<and> v4_addr a)) \<and>
     (w6 \<longleftrightarrow> v6 \<or> (\<exists>b\<in>set bs. \<exists>a. parse_address_or_prefix (trim_space b) = Some a \<and> \<not> v4_addr a))"
proof (induction bs arbitrary: v4 v6)
  case (Cons b bs)
  then obtain a where a: "parse_address_or_prefix (trim_space b) = Some a" by (auto split: option.splits)
  then have "bound_families bs (if v4_addr a then (True, v6) else (v4, True)) = Some (w4, w6)"
    using Cons.prems by (auto simp: v4_addr_def split: if_splits)
  then show ?case
    using Cons.IH [of True v6] Cons.IH [of v4 True] a by (cases "v4_addr a") auto
qed simp

lemma member_families_Some:
  "member_families ms (v4, v6) = Some (w4, w6) \<Longrightarrow>
     (w4 \<longleftrightarrow> v4 \<or> (\<exists>m\<in>set ms. \<exists>b\<in>set (range_bounds (trim_space m)). \<exists>a.
        parse_address_or_prefix (trim_space b) = Some a \<and> v4_addr a)) \<and>
     (w6 \<longleftrightarrow> v6 \<or> (\<exists>m\<in>set ms. \<exists>b\<in>set (range_bounds (trim_space m)). \<exists>a.
        parse_address_or_prefix (trim_space b) = Some a \<and> \<not> v4_addr a))"
proof (induction ms arbitrary: v4 v6)
  case (Cons m ms)
  then obtain x4 x6 where x: "bound_families (range_bounds (trim_space m)) (v4, v6) = Some (x4, x6)"
    "member_families ms (x4, x6) = Some (w4, w6)"
    by (auto simp: Let_def split: if_splits option.splits)
  from bound_families_Some [OF x(1)] Cons.IH [OF x(2)] show ?case by auto
qed simp

lemma address_families_Some:
  assumes "address_families field = Some (v4, v6)"
  shows "v4 \<longleftrightarrow> (\<exists>a\<in>field_addrs field. v4_addr a)" "v6 \<longleftrightarrow> (\<exists>a\<in>field_addrs field. \<not> v4_addr a)"
  using member_families_Some [of "split_on CHR '','' field" False False v4 v6] assms
  by (auto simp: address_families_def field_addrs_def split: if_splits)

text \<open>The choice between the two ICMP protocols, on the set of addresses both fields name.\<close>

lemma icmp_protocols_eq:
  assumes "address_families src = Some (s4, s6)" "address_families dst = Some (d4, d6)"
    and "addrs = field_addrs src \<union> field_addrs dst"
  shows "icmp_protocols named src dst =
    (if \<exists>a\<in>addrs. v4_addr a then
       (if (\<exists>a\<in>addrs. \<not> v4_addr a) \<or> named = 6 then None else Some [''icmp4''])
     else if \<exists>a\<in>addrs. \<not> v4_addr a then (if named = 4 then None else Some [''icmp6''])
     else if named = 4 then Some [''icmp4''] else if named = 6 then Some [''icmp6'']
     else Some [''icmp4'', ''icmp6''])"
proof -
  have "s4 \<or> d4 \<longleftrightarrow> (\<exists>a\<in>addrs. v4_addr a)" "s6 \<or> d6 \<longleftrightarrow> (\<exists>a\<in>addrs. \<not> v4_addr a)"
    unfolding assms(3) using address_families_Some [OF assms(1)] address_families_Some [OF assms(2)] by blast+
  then show ?thesis by (simp add: icmp_protocols_def assms(1,2) Let_def)
qed

lemma icmp_protocols_read:
  assumes "icmp_protocols named src dst \<noteq> None"
  obtains s4 s6 d4 d6 where "address_families src = Some (s4, s6)" "address_families dst = Some (d4, d6)"
  using assms by (cases "address_families src"; cases "address_families dst")
    (auto simp: icmp_protocols_def)

lemma icmp_protocols_Some:
  assumes "icmp_protocols named src dst = Some ps" "p \<in> set ps"
  shows "(p = ''icmp4'' \<and> (\<forall>a\<in>field_addrs src \<union> field_addrs dst. v4_addr a)) \<or>
    (p = ''icmp6'' \<and> (\<forall>a\<in>field_addrs src \<union> field_addrs dst. \<not> v4_addr a))"
proof -
  define addrs where "addrs = field_addrs src \<union> field_addrs dst"
  obtain s4 s6 d4 d6 where "address_families src = Some (s4, s6)" "address_families dst = Some (d4, d6)"
    by (rule icmp_protocols_read [of named src dst]) (use assms in simp_all)
  from icmp_protocols_eq [OF this addrs_def] assms have
    "(p = ''icmp4'' \<and> (\<forall>a\<in>addrs. v4_addr a)) \<or> (p = ''icmp6'' \<and> (\<forall>a\<in>addrs. \<not> v4_addr a))"
    by (cases "\<exists>a\<in>addrs. v4_addr a"; cases "\<exists>a\<in>addrs. \<not> v4_addr a") (auto split: if_splits)
  then show ?thesis by (simp only: addrs_def)
qed

lemma acl_rule_of_fields [simp]:
  "acl_action (acl_rule_of rule p) = faction rule" "acl_protocol (acl_rule_of rule p) = p"
  "acl_source (acl_rule_of rule p) = fsource rule" "acl_destination (acl_rule_of rule p) = fdestination rule"
  "acl_port (acl_rule_of rule p) \<noteq> [] \<longrightarrow> p \<in> {''tcp'', ''udp''}"
  by (simp_all add: acl_rule_of_def Let_def)

lemma to_acl_rules_mem:
  assumes "r \<in> set (to_acl_rules rule)"
  obtains ps p where "acl_protocols rule = Some ps" "p \<in> set ps" "r = acl_rule_of rule p"
    "length (to_acl_rules rule) = length ps"
  using assms by (cases "acl_protocols rule") (auto simp: to_acl_rules_def split: if_splits)

text \<open>Which ICMP protocol is written, and where ports are.\<close>

lemma acl_protocols_families:
  assumes "acl_protocols rule = Some ps" "p \<in> set ps"
  shows "p \<in> {[], ''tcp'', ''udp''} \<or>
      (p = ''icmp4'' \<and> (\<forall>a\<in>field_addrs (fsource rule) \<union> field_addrs (fdestination rule). v4_addr a)) \<or>
      (p = ''icmp6'' \<and> (\<forall>a\<in>field_addrs (fsource rule) \<union> field_addrs (fdestination rule). \<not> v4_addr a))"
proof -
  consider "p \<in> {[], ''tcp'', ''udp''}"
    | named where "icmp_protocols named (fsource rule) (fdestination rule) = Some ps"
    using assms by (auto simp: acl_protocols_def Let_def split: if_splits option.splits)
  then show ?thesis by cases (use icmp_protocols_Some assms(2) in blast)+
qed

lemma acl_ports_named:
  assumes "acl_protocols rule = Some ps" "w \<in> set ps"
  shows "w = ''tcp'' \<or> w = ''udp'' \<longleftrightarrow> to_lower (trim_space (fprotocol rule)) \<in> {''tcp'', ''udp''}"
proof -
  define n where "n = to_lower (trim_space (fprotocol rule))"
  consider "n \<in> {[], ''any''}" "w = []" | "n \<in> {''tcp'', ''udp''}" "w = n"
    | named where "n \<notin> {''tcp'', ''udp''}" "icmp_protocols named (fsource rule) (fdestination rule) = Some ps"
    using assms by (auto simp: acl_protocols_def Let_def n_def split: if_split_asm option.split_asm)
  then show ?thesis
  proof cases
    case 3
    from icmp_protocols_Some [OF 3(2) assms(2)] have "w \<noteq> ''tcp'' \<and> w \<noteq> ''udp''" by auto
    with 3(1) show ?thesis by (simp flip: n_def)
  qed (auto simp flip: n_def)
qed

text \<open>
  What a rule means to a packet, on both sides. A rule of the packs names a protocol, an
  ICMP spelling fixing no family unless it is one of the three that say version six, and
  bounds the ports of TCP and UDP, zero bounding nothing; a rule of the runtime names one
  of its protocols and writes the ports as text. Which addresses a field of addresses
  takes in is the runtime's, and the same on both sides.
\<close>

datatype transport = TCP | UDP | ICMPv4 | ICMPv6 | OtherTransport

record packet =
  pk_transport :: transport
  pk_source :: addr
  pk_destination :: addr
  pk_port :: int

definition names_transport :: "string \<Rightarrow> transport \<Rightarrow> bool" where
  "names_transport name t =
     (let n = to_lower (trim_space name) in
      n \<in> {[], ''any''} \<or> n = ''tcp'' \<and> t = TCP \<or> n = ''udp'' \<and> t = UDP \<or>
      n \<in> {''icmp'', ''icmp4'', ''icmpv4''} \<and> t \<in> {ICMPv4, ICMPv6} \<or>
      n \<in> {''icmp6'', ''icmpv6'', ''ipv6-icmp''} \<and> t = ICMPv6)"

definition bounds_ports :: "string \<Rightarrow> bool" where
  "bounds_ports name \<longleftrightarrow> to_lower (trim_space name) \<in> {''tcp'', ''udp''}"

definition in_ports :: "int \<Rightarrow> int \<Rightarrow> int \<Rightarrow> bool" where
  "in_ports pf pt q \<longleftrightarrow>
     pf \<le> 0 \<and> pt \<le> 0 \<or> pf \<le> 0 \<and> 0 < pt \<and> q = pt \<or> 0 < pf \<and> pt \<le> 0 \<and> q = pf \<or> 0 < pf \<and> 0 < pt \<and> pf \<le> q \<and> q \<le> pt"

definition rule_hits :: "(string \<Rightarrow> addr \<Rightarrow> bool) \<Rightarrow> fw_rule \<Rightarrow> packet \<Rightarrow> bool" where
  "rule_hits takes r p \<longleftrightarrow>
     names_transport (fprotocol r) (pk_transport p) \<and> takes (fsource r) (pk_source p) \<and> takes (fdestination r) (pk_destination p) \<and>
     (bounds_ports (fprotocol r) \<longrightarrow> in_ports (fport_from r) (fport_to r) (pk_port p))"

text \<open>The runtime's own words: a protocol it has, ports as a number or two with a dash.\<close>

fun runtime_transport :: "string \<Rightarrow> transport \<Rightarrow> bool" where
  "runtime_transport w TCP = (w = [] \<or> w = ''tcp'')"
| "runtime_transport w UDP = (w = [] \<or> w = ''udp'')"
| "runtime_transport w ICMPv4 = (w = [] \<or> w = ''icmp4'')"
| "runtime_transport w ICMPv6 = (w = [] \<or> w = ''icmp6'')"
| "runtime_transport w OtherTransport = (w = [])"

definition port_text_hits :: "string \<Rightarrow> int \<Rightarrow> bool" where
  "port_text_hits s q =
     (s = [] \<or>
      (case cut_on CHR ''-'' s of (lo, hi, ranged) \<Rightarrow>
         if ranged then int (dec_val lo) \<le> q \<and> q \<le> int (dec_val hi) else q = int (dec_val lo)))"

definition acl_hits :: "(string \<Rightarrow> addr \<Rightarrow> bool) \<Rightarrow> acl_rule \<Rightarrow> packet \<Rightarrow> bool" where
  "acl_hits takes r p \<longleftrightarrow>
     runtime_transport (acl_protocol r) (pk_transport p) \<and> takes (acl_source r) (pk_source p) \<and>
     takes (acl_destination r) (pk_destination p) \<and> port_text_hits (acl_port r) (pk_port p)"

text \<open>ICMP of a version travels between addresses of that version.\<close>

definition sound_packet :: "packet \<Rightarrow> bool" where
  "sound_packet p \<longleftrightarrow>
     (pk_transport p = ICMPv4 \<longrightarrow> v4_addr (pk_source p) \<and> v4_addr (pk_destination p)) \<and>
     (pk_transport p = ICMPv6 \<longrightarrow> \<not> v4_addr (pk_source p) \<and> \<not> v4_addr (pk_destination p))"

lemma port_range_hits: "port_text_hits (port_range pf pt) q \<longleftrightarrow> in_ports pf pt q"
proof -
  have one: "port_text_hits (nat_digits n) q \<longleftrightarrow> q = int n" for n
    using cut_on_free [OF nat_digits_free [of "CHR ''-''" n]] by (simp add: port_text_hits_def)
  have two: "port_text_hits (nat_digits n @ CHR ''-'' # nat_digits m) q \<longleftrightarrow> int n \<le> q \<and> q \<le> int m" for n m
    using cut_on_append [OF nat_digits_free [of "CHR ''-''" n]] by (simp add: port_text_hits_def)
  show ?thesis
    by (auto simp: port_range_def in_ports_def itoa_def one two) (simp_all add: port_text_hits_def)
qed

text \<open>A field takes in only addresses of a family it names; an empty one takes in both.\<close>

definition keeps_families :: "(string \<Rightarrow> addr \<Rightarrow> bool) \<Rightarrow> bool" where
  "keeps_families takes \<longleftrightarrow>
     (\<forall>field a. takes field a \<and> trim_space field \<noteq> [] \<longrightarrow> (\<exists>b\<in>field_addrs field. v4_addr b = v4_addr a))"

lemma icmp_translated:
  assumes "keeps_families takes" "sound_packet p" "takes src (pk_source p)" "takes dst (pk_destination p)"
    and "icmp_protocols named src dst = Some ps" "named = 0 \<or> named = 6"
  shows "(\<exists>w\<in>set ps. runtime_transport w (pk_transport p)) \<longleftrightarrow> pk_transport p = ICMPv6 \<or> named = 0 \<and> pk_transport p = ICMPv4"
proof -
  obtain s4 s6 d4 d6 where "address_families src = Some (s4, s6)" "address_families dst = Some (d4, d6)"
    by (rule icmp_protocols_read [of named src dst]) (use assms(5) in simp_all)
  note eq = icmp_protocols_eq [OF this refl, of named]
  have blank: "field_addrs f = {}" if "trim_space f = []" for f using that by (simp add: field_addrs_def)
  have fam: "\<exists>b\<in>field_addrs f. v4_addr b = v4_addr a" if "takes f a" "field_addrs f \<noteq> {}" for f a
    using assms(1) that blank unfolding keeps_families_def by blast
  have four: "pk_transport p = ICMPv4 \<Longrightarrow> \<exists>a\<in>field_addrs src \<union> field_addrs dst. \<not> v4_addr a \<Longrightarrow>
      \<exists>a\<in>field_addrs src \<union> field_addrs dst. v4_addr a"
    using fam [OF assms(3)] fam [OF assms(4)] assms(2) unfolding sound_packet_def by blast
  have six: "pk_transport p = ICMPv6 \<Longrightarrow> \<exists>a\<in>field_addrs src \<union> field_addrs dst. v4_addr a \<Longrightarrow>
      \<exists>a\<in>field_addrs src \<union> field_addrs dst. \<not> v4_addr a"
    using fam [OF assms(3)] fam [OF assms(4)] assms(2) unfolding sound_packet_def by blast
  show ?thesis
    using assms(5,6) four six unfolding eq by (cases "pk_transport p") (auto split: if_split_asm)
qed

lemma protocols_translated:
  assumes "keeps_families takes" "sound_packet p" "takes (fsource rule) (pk_source p)" "takes (fdestination rule) (pk_destination p)"
    and "acl_protocols rule = Some ps"
  shows "(\<exists>w\<in>set ps. runtime_transport w (pk_transport p)) \<longleftrightarrow> names_transport (fprotocol rule) (pk_transport p)"
proof -
  define n where "n = to_lower (trim_space (fprotocol rule))"
  consider "n \<in> {[], ''any''}" "ps = [[]]" | "n = ''tcp''" "ps = [''tcp'']" | "n = ''udp''" "ps = [''udp'']"
    | named where "n \<notin> {[], ''any'', ''tcp'', ''udp''}" "icmp_family_of_name n = Some named"
        "icmp_protocols named (fsource rule) (fdestination rule) = Some ps"
    using assms(5) by (auto simp: acl_protocols_def Let_def n_def split: if_split_asm option.split_asm)
  then show ?thesis
  proof cases
    case 4
    have named: "named = 0 \<or> named = 6" using 4(2) by (simp add: icmp_family_of_name_def split: if_split_asm)
    from icmp_translated [OF assms(1-4) 4(3) named] 4(1,2) show ?thesis
      by (auto simp: names_transport_def Let_def icmp_family_of_name_def simp flip: n_def split: if_split_asm)
  qed (cases "pk_transport p"; auto simp: names_transport_def Let_def simp flip: n_def)+
qed

text \<open>
  C32. A rule is translated exactly or not at all. When anything is written for a rule, a
  packet is hit by one of the rules written exactly when it is hit by the rule: by its
  protocol, an ICMP spelling standing for the versions its addresses allow, by its
  addresses, and for TCP and UDP by its ports. Each of them keeps the action, there are
  at most two, and ICMP of a version is only ever written beside addresses of that
  version, which is what the daemon refuses a whole group for.
\<close>

theorem translation_is_exact_or_dropped:
  assumes "to_acl_rules rule \<noteq> []" "keeps_families takes" "sound_packet p"
  shows "(\<exists>r\<in>set (to_acl_rules rule). acl_hits takes r p) = rule_hits takes rule p \<and>
    length (to_acl_rules rule) \<le> 2 \<and>
    (\<forall>r\<in>set (to_acl_rules rule). acl_action r = faction rule \<and> acl_source r = fsource rule \<and> acl_destination r = fdestination rule \<and>
      (acl_protocol r = ''icmp4'' \<longrightarrow> (\<forall>a\<in>field_addrs (fsource rule) \<union> field_addrs (fdestination rule). v4_addr a)) \<and>
      (acl_protocol r = ''icmp6'' \<longrightarrow> (\<forall>a\<in>field_addrs (fsource rule) \<union> field_addrs (fdestination rule). \<not> v4_addr a)) \<and>
      (acl_port r \<noteq> [] \<longrightarrow> acl_protocol r \<in> {''tcp'', ''udp''}))"
proof -
  obtain ps where ps: "acl_protocols rule = Some ps" "to_acl_rules rule = map (acl_rule_of rule) ps"
    using assms(1) by (auto simp: to_acl_rules_def split: if_split_asm option.split_asm)
  have "(\<exists>r\<in>set (to_acl_rules rule). acl_hits takes r p) = rule_hits takes rule p"
  proof (cases "takes (fsource rule) (pk_source p) \<and> takes (fdestination rule) (pk_destination p)")
    case True
    note t = protocols_translated [OF assms(2,3) conjunct1 [OF True] conjunct2 [OF True] ps(1)]
    have port: "port_text_hits (acl_port (acl_rule_of rule w)) (pk_port p) \<longleftrightarrow>
        (bounds_ports (fprotocol rule) \<longrightarrow> in_ports (fport_from rule) (fport_to rule) (pk_port p))" if "w \<in> set ps" for w
      using acl_ports_named [OF ps(1) that] by (auto simp: bounds_ports_def acl_rule_of_def port_range_hits Let_def) (simp_all add: port_text_hits_def)
    show ?thesis using True t port by (auto simp: ps(2) acl_hits_def rule_hits_def)
  qed (auto simp: ps(2) acl_hits_def rule_hits_def)
  moreover have "length ps \<le> 2"
    using ps(1) by (auto simp: acl_protocols_def icmp_protocols_def Let_def split: if_splits option.splits)
  moreover have "(w = ''icmp4'' \<longrightarrow> (\<forall>a\<in>field_addrs (fsource rule) \<union> field_addrs (fdestination rule). v4_addr a)) \<and>
      (w = ''icmp6'' \<longrightarrow> (\<forall>a\<in>field_addrs (fsource rule) \<union> field_addrs (fdestination rule). \<not> v4_addr a))" if "w \<in> set ps" for w
    using acl_protocols_families [OF ps(1) that] by blast
  ultimately show ?thesis using acl_rule_of_fields(5) [of rule] by (simp add: ps(2))
qed

lemma icmp_protocols_None:
  assumes "named = 0 \<or> named = 6"
  shows "icmp_protocols named src dst = None \<longleftrightarrow>
      address_families src = None \<or> address_families dst = None \<or>
      (\<exists>a\<in>field_addrs src \<union> field_addrs dst. v4_addr a \<and>
        (named = 6 \<or> (\<exists>b\<in>field_addrs src \<union> field_addrs dst. \<not> v4_addr b)))"
proof (cases "address_families src = None \<or> address_families dst = None")
  case True
  then show ?thesis by (auto simp: icmp_protocols_def split: option.split)
next
  case False
  define addrs where "addrs = field_addrs src \<union> field_addrs dst"
  obtain s4 s6 d4 d6 where f: "address_families src = Some (s4, s6)" "address_families dst = Some (d4, d6)"
    using False by auto
  have "icmp_protocols named src dst = None \<longleftrightarrow>
      (\<exists>a\<in>addrs. v4_addr a) \<and> (named = 6 \<or> (\<exists>b\<in>addrs. \<not> v4_addr b))"
    unfolding icmp_protocols_eq [OF f addrs_def] using assms
    by (cases "\<exists>a\<in>addrs. v4_addr a"; cases "\<exists>a\<in>addrs. \<not> v4_addr a") auto
  with f show ?thesis unfolding addrs_def by auto
qed

lemma icmp_family_cases: "icmp_family_of_name n = Some f \<Longrightarrow> f = 0 \<or> f = 6"
  by (simp add: icmp_family_of_name_def split: if_splits)

lemma acl_protocols_Nil: "acl_protocols rule = Some ps \<Longrightarrow> ps \<noteq> []"
  by (auto simp: acl_protocols_def icmp_protocols_def Let_def split: option.splits if_splits)

text \<open>
  A rule is left out only for a reason that can be named: an action or a
  protocol the runtime does not have, or an ICMP rule with an address that cannot
  be read, with addresses of both families, or with an IPv4 address under a name
  that says IPv6. And ICMP that fixes no family at all becomes both protocols.
\<close>

theorem rules_are_dropped_for_a_reason:
  "(to_acl_rules rule = [] \<longleftrightarrow>
      faction rule \<notin> set [''allow'', ''allow-stateless'', ''drop'', ''reject''] \<or>
      (to_lower (trim_space (fprotocol rule)) \<notin> set [[], ''any'', ''tcp'', ''udp''] \<and>
       (case icmp_family_of_name (to_lower (trim_space (fprotocol rule))) of
          None \<Rightarrow> True
        | Some named \<Rightarrow>
            address_families (fsource rule) = None \<or> address_families (fdestination rule) = None \<or>
            (\<exists>a\<in>field_addrs (fsource rule) \<union> field_addrs (fdestination rule). v4_addr a \<and>
              (named = 6 \<or> (\<exists>b\<in>field_addrs (fsource rule) \<union> field_addrs (fdestination rule). \<not> v4_addr b)))))) \<and>
   (faction rule \<in> set [''allow'', ''allow-stateless'', ''drop'', ''reject''] \<and>
      to_lower (trim_space (fprotocol rule)) \<in> set [''icmp'', ''icmp4'', ''icmpv4''] \<and>
      trim_space (fsource rule) = [] \<and> trim_space (fdestination rule) = [] \<longrightarrow>
      map acl_protocol (to_acl_rules rule) = [''icmp4'', ''icmp6''])"
proof -
  have empty: "to_acl_rules rule = [] \<longleftrightarrow>
      faction rule \<notin> set [''allow'', ''allow-stateless'', ''drop'', ''reject''] \<or> acl_protocols rule = None"
    using acl_protocols_Nil [of rule] unfolding to_acl_rules_def by (cases "acl_protocols rule") simp_all
  have proto: "acl_protocols rule = None \<longleftrightarrow>
      to_lower (trim_space (fprotocol rule)) \<notin> set [[], ''any'', ''tcp'', ''udp''] \<and>
       (case icmp_family_of_name (to_lower (trim_space (fprotocol rule))) of
          None \<Rightarrow> True | Some named \<Rightarrow> icmp_protocols named (fsource rule) (fdestination rule) = None)"
    by (simp add: acl_protocols_def Let_def split: option.split)
  have both: "map acl_protocol (to_acl_rules rule) = [''icmp4'', ''icmp6'']"
    if "faction rule \<in> set [''allow'', ''allow-stateless'', ''drop'', ''reject'']"
      "to_lower (trim_space (fprotocol rule)) \<in> set [''icmp'', ''icmp4'', ''icmpv4'']"
      "trim_space (fsource rule) = []" "trim_space (fdestination rule) = []"
  proof -
    have "acl_protocols rule = Some [''icmp4'', ''icmp6'']"
      using that(2-4) by (auto simp: acl_protocols_def icmp_family_of_name_def icmp_protocols_def
          address_families_def Let_def)
    then show ?thesis using that(1) unfolding to_acl_rules_def by simp
  qed
  have fam: "(case icmp_family_of_name n of None \<Rightarrow> True
        | Some named \<Rightarrow> icmp_protocols named (fsource rule) (fdestination rule) = None) =
      (case icmp_family_of_name n of None \<Rightarrow> True | Some named \<Rightarrow>
            address_families (fsource rule) = None \<or> address_families (fdestination rule) = None \<or>
            (\<exists>a\<in>field_addrs (fsource rule) \<union> field_addrs (fdestination rule). v4_addr a \<and>
              (named = 6 \<or> (\<exists>b\<in>field_addrs (fsource rule) \<union> field_addrs (fdestination rule). \<not> v4_addr b))))" for n
    using icmp_protocols_None [OF icmp_family_cases [of n]] by (cases "icmp_family_of_name n") simp_all
  show ?thesis unfolding empty proto fam using both by blast
qed

section \<open>What a rule set means to traffic\<close>

text \<open>
  The order a runtime applies: a rule that denies wins over a rule that allows,
  whatever their positions, and the default decides what no rule matches. How a
  rule matches a packet is the runtime's; what the code relies on is that a rule
  naming only a direction matches every packet of that direction and no other.
\<close>

definition passes :: "(fw_rule \<Rightarrow> 'p \<Rightarrow> bool) \<Rightarrow> string \<Rightarrow> fw_rule list \<Rightarrow> 'p \<Rightarrow> bool" where
  "passes hits dflt rules p =
     (if \<exists>r\<in>set rules. hits r p \<and> (faction r = ''drop'' \<or> faction r = ''reject'') then False
      else if \<exists>r\<in>set rules. hits r p \<and> (faction r = ''allow'' \<or> faction r = ''allow-stateless'') then True
      else dflt = ''allow'')"

definition default_for :: "fw_spec \<Rightarrow> string \<Rightarrow> string" where
  "default_for s dir = (if dir = ''egress'' then sdefault_out s else sdefault_in s)"

text \<open>
  Leaving a set out when \<open>EnforcesNothing\<close> says so is sound: under such a set
  every packet passes, both ways.
\<close>

theorem nothing_enforced_means_all_pass:
  assumes "enforces_nothing s"
  shows "passes hits (default_for s dir) (srules s) p"
proof -
  have "\<not> (faction r = ''drop'' \<or> faction r = ''reject'')" if "r \<in> set (srules s)" for r
    using assms that by (auto simp: enforces_nothing_def list_ex_iff split: if_splits)
  moreover have "default_for s dir = ''allow''"
    using assms by (simp add: enforces_nothing_def default_for_def split: if_splits)
  ultimately show ?thesis by (auto simp: passes_def)
qed

lemma passes_append_bare:
  assumes "faction r = ''allow'' \<or> faction r = ''allow-stateless''"
  shows "passes hits d (rs @ [r]) p = (if hits r p then passes hits ''allow'' rs p else passes hits d rs p)"
  using assms by (auto simp: passes_def)

text \<open>
  The catch-all says the same as the default action it replaces: whatever the
  runtime does with unmatched traffic, a set with its permissive defaults
  written as catch-all rules lets a packet through exactly when the set with its
  own default would, and a direction whose default is to drop is left alone.
\<close>

theorem catch_all_is_the_default:
  assumes bare: "\<And>d a. hits (bare_rule d a) p \<longleftrightarrow> d = dir" and dir: "dir \<in> {''ingress'', ''egress''}"
    and allow: "allow \<in> {''allow'', ''allow-stateless''}"
  shows "passes hits runtime (srules (with_permissive_catch_all s allow)) p =
    (if default_for s dir = ''allow'' then passes hits (default_for s dir) (srules s) p
     else passes hits runtime (srules s) p)"
proof -
  have a: "faction (bare_rule d allow) = ''allow'' \<or> faction (bare_rule d allow) = ''allow-stateless''" for d
    using allow by (auto simp: bare_rule_def)
  have b: "passes hits d (rs @ [bare_rule e allow]) p = (if e = dir then passes hits ''allow'' rs p else passes hits d rs p)"
    for d e rs by (simp only: passes_append_bare [OF a] bare)
  have rules: "srules (with_permissive_catch_all s allow) =
      srules s @ (if sdefault_in s = ''allow'' then [bare_rule ''ingress'' allow] else [])
        @ (if sdefault_out s = ''allow'' then [bare_rule ''egress'' allow] else [])"
    by (simp add: with_permissive_catch_all_def)
  have b2: "passes hits d (rs @ [bare_rule e allow, bare_rule f allow]) p =
      (if f = dir \<or> e = dir then passes hits ''allow'' rs p else passes hits d rs p)" for d e f rs
    using b [of d "rs @ [bare_rule e allow]" f] b [of d rs e] b [of "''allow''" rs e]
    by (cases "e = dir") (simp_all split: if_splits)
  show ?thesis
  proof (cases "dir = ''egress''")
    case True
    then show ?thesis unfolding rules default_for_def
      by (cases "sdefault_in s = ''allow''"; cases "sdefault_out s = ''allow''") (simp_all add: b b2)
  next
    case False
    then have "dir = ''ingress''" using dir by simp
    then show ?thesis unfolding rules default_for_def
      by (cases "sdefault_in s = ''allow''"; cases "sdefault_out s = ''allow''") (simp_all add: b b2)
  qed
qed

lemma bind_spec_fold:
  "bnames (fold bind_spec specs b) = bnames b @ map sname (filter (\<lambda>s. \<not> enforces_nothing s) specs) \<and>
   bdefault_in (fold bind_spec specs b) =
     (if \<exists>s\<in>set specs. \<not> enforces_nothing s \<and> sdefault_in s \<noteq> ''allow'' then ''drop'' else bdefault_in b) \<and>
   bdefault_out (fold bind_spec specs b) =
     (if \<exists>s\<in>set specs. \<not> enforces_nothing s \<and> sdefault_out s \<noteq> ''allow'' then ''drop'' else bdefault_out b) \<and>
   bunfiltered (fold bind_spec specs b) = bunfiltered b"
proof (induction specs arbitrary: b)
  case (Cons s specs)
  have "bnames (bind_spec s b) = bnames b @ (if enforces_nothing s then [] else [sname s])"
    "bdefault_in (bind_spec s b) =
       (if \<not> enforces_nothing s \<and> sdefault_in s \<noteq> ''allow'' then ''drop'' else bdefault_in b)"
    "bdefault_out (bind_spec s b) =
       (if \<not> enforces_nothing s \<and> sdefault_out s \<noteq> ''allow'' then ''drop'' else bdefault_out b)"
    "bunfiltered (bind_spec s b) = bunfiltered b"
    by (simp_all add: Let_def)
  then show ?case using Cons.IH [of "bind_spec s b"] by (auto simp del: bind_spec.simps)
qed simp

lemma default_enforces: "sdefault_in s \<noteq> ''allow'' \<or> sdefault_out s \<noteq> ''allow'' \<Longrightarrow> \<not> enforces_nothing s"
  by (auto simp: enforces_nothing_def)

text \<open>
  What a machine's interfaces are bound to: the sets that enforce something, all
  of them and in the order they were given; a default of drop in a direction as
  soon as one set drops what it does not match there, whatever its neighbours
  say; no set and no default at all when none enforces anything; and the
  networks the groups do not cover, always.
\<close>

theorem binding_is_deny_dominant:
  "bnames (binding_of unfiltered specs) = map sname (filter (\<lambda>s. \<not> enforces_nothing s) specs) \<and>
   bunfiltered (binding_of unfiltered specs) = unfiltered \<and>
   (bdefault_in (binding_of unfiltered specs) = ''drop'' \<longleftrightarrow> (\<exists>s\<in>set specs. sdefault_in s \<noteq> ''allow'')) \<and>
   (bdefault_out (binding_of unfiltered specs) = ''drop'' \<longleftrightarrow> (\<exists>s\<in>set specs. sdefault_out s \<noteq> ''allow'')) \<and>
   (\<forall>s\<in>set specs. enforces_nothing s) = (bdefault_in (binding_of unfiltered specs) = [])"
proof -
  let ?b0 = "\<lparr>bnames = [], bdefault_in = ''allow'', bdefault_out = ''allow'', bunfiltered = unfiltered\<rparr>"
  note f = bind_spec_fold [of specs ?b0]
  show ?thesis
  proof (cases "\<forall>s\<in>set specs. enforces_nothing s")
    case True
    then have "bnames (fold bind_spec specs ?b0) = []" using f by simp
    moreover have "\<not> (\<exists>s\<in>set specs. sdefault_in s \<noteq> ''allow'')" "\<not> (\<exists>s\<in>set specs. sdefault_out s \<noteq> ''allow'')"
      using True default_enforces by blast+
    ultimately show ?thesis using True by (simp add: binding_of_def)
  next
    case False
    then have ne: "bnames (fold bind_spec specs ?b0) \<noteq> []" using f by (auto simp: filter_empty_conv)
    then have b: "binding_of unfiltered specs = fold bind_spec specs ?b0" by (simp add: binding_of_def Let_def)
    have "(\<exists>s\<in>set specs. \<not> enforces_nothing s \<and> sdefault_in s \<noteq> ''allow'') \<longleftrightarrow> (\<exists>s\<in>set specs. sdefault_in s \<noteq> ''allow'')"
      "(\<exists>s\<in>set specs. \<not> enforces_nothing s \<and> sdefault_out s \<noteq> ''allow'') \<longleftrightarrow> (\<exists>s\<in>set specs. sdefault_out s \<noteq> ''allow'')"
      using default_enforces by blast+
    then show ?thesis unfolding b using f False by auto
  qed
qed

section \<open>Witnesses\<close>

definition icmp0 :: fw_rule where
  "icmp0 = \<lparr>fdirection = ''ingress'', faction = ''allow'', fprotocol = ''ICMP'', fsource = ''10.0.0.0/8'',
     fdestination = [], fport_from = 0, fport_to = 0\<rparr>"

definition open0 :: fw_spec where
  "open0 = \<lparr>sname = ''g'', sdefault_in = ''allow'', sdefault_out = ''allow'', srules = [icmp0]\<rparr>"

lemma icmp0_rule: "to_acl_rules icmp0 = [acl_rule_of icmp0 ''icmp4'']"
proof -
  have trims: "trim_space ''10.0.0.0/8'' = ''10.0.0.0/8''" "trim_space [] = []" by code_simp+
  have "parse_address_or_prefix ''10.0.0.0/8'' = Some (V4 0x0A000000)"
    by (simp add: parse_address_or_prefix_def netip_eval)
  then have "address_families (fsource icmp0) = Some (True, False)" "address_families (fdestination icmp0) = Some (False, False)"
    by (simp_all add: address_families_def icmp0_def trims range_bounds_def)
  moreover have "to_lower (trim_space (fprotocol icmp0)) = ''icmp''" by code_simp
  ultimately have "acl_protocols icmp0 = Some [''icmp4'']"
    by (simp add: acl_protocols_def icmp_family_of_name_def icmp_protocols_def Let_def)
  then show ?thesis by (simp add: to_acl_rules_def icmp0_def)
qed

text \<open>A runtime whose fields take in the blocks and the addresses they list.\<close>

definition in_field :: "string \<Rightarrow> addr \<Rightarrow> bool" where
  "in_field field a =
     (trim_space field = [] \<or>
      (\<exists>m\<in>set (split_on CHR '','' field). \<exists>b\<in>set (range_bounds (trim_space m)).
         (case parse_prefix (trim_space b) of
            Some q \<Rightarrow> prefix_contains q a \<and> v4_addr (paddr q) = v4_addr a
          | None \<Rightarrow> parse_addr (trim_space b) = Some a)))"

definition ping0 :: packet where
  "ping0 = \<lparr>pk_transport = ICMPv4, pk_source = V4 0x0A000001, pk_destination = V4 0x0A000002, pk_port = 0\<rparr>"

lemma in_field_families: "keeps_families in_field"
  unfolding keeps_families_def
proof (intro allI impI, elim conjE)
  fix field a assume f: "in_field field a" "trim_space field \<noteq> []"
  then obtain m b where m: "m \<in> set (split_on CHR '','' field)" "b \<in> set (range_bounds (trim_space m))"
    "case parse_prefix (trim_space b) of Some q \<Rightarrow> prefix_contains q a \<and> v4_addr (paddr q) = v4_addr a
       | None \<Rightarrow> parse_addr (trim_space b) = Some a"
    unfolding in_field_def by blast
  then obtain c where "parse_address_or_prefix (trim_space b) = Some c" "v4_addr c = v4_addr a"
    by (auto simp: parse_address_or_prefix_def split: option.split_asm)
  with m(1,2) f(2) show "\<exists>b\<in>field_addrs field. v4_addr b = v4_addr a" unfolding field_addrs_def by blast
qed

lemma translation_witness: "\<exists>r\<in>set (to_acl_rules icmp0). acl_hits in_field r ping0"
proof -
  have trims: "trim_space ''10.0.0.0/8'' = ''10.0.0.0/8''" "trim_space [] = []" by code_simp+
  have "parse_prefix ''10.0.0.0/8'' = Some (Prefix (V4 0x0A000000) 8)" by (simp add: netip_eval)
  then have "in_field (fsource icmp0) (pk_source ping0)"
    by (simp add: in_field_def icmp0_def ping0_def trims range_bounds_def v4_addr_def netip_eval)
  moreover have "in_field (fdestination icmp0) (pk_destination ping0)" by (simp add: in_field_def icmp0_def trims)
  moreover have "names_transport (fprotocol icmp0) (pk_transport ping0)" "\<not> bounds_ports (fprotocol icmp0)" by code_simp+
  moreover have "to_acl_rules icmp0 \<noteq> []" by (simp add: icmp0_rule)
  moreover have "sound_packet ping0" by (simp add: sound_packet_def ping0_def v4_addr_def)
  ultimately show ?thesis
    using translation_is_exact_or_dropped [of icmp0 in_field ping0] in_field_families by (simp add: rule_hits_def)
qed

lemma dropped_witness: "to_acl_rules (icmp0\<lparr>faction := ''log''\<rparr>) = []"
  using rules_are_dropped_for_a_reason [of "icmp0\<lparr>faction := ''log''\<rparr>"] by (simp add: icmp0_def)

lemma nothing_enforced_witness: "passes (\<lambda>r p. True) ''allow'' (srules open0) ()"
proof -
  have "enforces_nothing open0" by (simp add: enforces_nothing_def open0_def icmp0_def)
  from nothing_enforced_means_all_pass [OF this, of "\<lambda>r p. True" "''ingress''" "()"] show ?thesis
    by (simp add: default_for_def open0_def)
qed

lemma catch_all_witness:
  "passes (\<lambda>r d. fdirection r = d) ''drop'' (srules (with_permissive_catch_all open0 ''allow'')) ''egress''"
  using catch_all_is_the_default [of "\<lambda>r d. fdirection r = d" "''egress''" "''egress''" "''allow''" "''drop''" open0]
  by (simp add: bare_rule_def default_for_def open0_def icmp0_def passes_def)

lemma binding_witness:
  "binding_of [''n1''] [open0, open0\<lparr>sname := ''h'', sdefault_in := ''drop''\<rparr>]
     = \<lparr>bnames = [''h''], bdefault_in = ''drop'', bdefault_out = ''allow'', bunfiltered = [''n1'']\<rparr> \<and>
   bnames (binding_of [''n1''] [open0, open0\<lparr>sname := ''h'', sdefault_in := ''drop''\<rparr>]) = [''h'']"
  using binding_is_deny_dominant [of "[''n1'']" "[open0, open0\<lparr>sname := ''h'', sdefault_in := ''drop''\<rparr>]"]
  by (simp add: enforces_nothing_def open0_def icmp0_def binding_of_def Let_def)

end
