(* ===== verification/Faults.thy ===== *)
theory Faults
  imports Prelude
begin

text \<open>
  The fault injector: \<open>internal/core/emulator/faults.go\<close>. Rules are refused when
  they are written or armed as a set; a call of an operation takes the rule that
  names it while the rule has hits left; the answer is the pack's own error or
  the handler's answer cut short. Durations are read as \<open>time.ParseDuration\<close>
  reads them, with the one floating point product it makes as a parameter.
\<close>

section \<open>Durations\<close>

text \<open>
  Nanoseconds. The accumulator is a \<open>uint64\<close>, and its two additions wrap; the
  bound on every term makes only the sum of terms able to do so. \<open>fmul f unit
  scale\<close> stands for \<open>uint64(float64(f) * (float64(unit) / scale))\<close>.
\<close>

fun leading_int :: "nat \<Rightarrow> string \<Rightarrow> (nat \<times> string) option" where
  "leading_int x [] = Some (x, [])"
| "leading_int x (c # s) =
     (if \<not> is_digit c then Some (x, c # s)
      else if x > 2 ^ 63 div 10 then None
      else if x * 10 + digit_val c > 2 ^ 63 then None
      else leading_int (x * 10 + digit_val c) s)"

fun leading_fraction :: "nat \<Rightarrow> nat \<Rightarrow> bool \<Rightarrow> string \<Rightarrow> nat \<times> nat \<times> string" where
  "leading_fraction x scale over [] = (x, scale, [])"
| "leading_fraction x scale over (c # s) =
     (if \<not> is_digit c then (x, scale, c # s)
      else if over \<or> x > (2 ^ 63 - 1) div 10 \<or> x * 10 + digit_val c > 2 ^ 63
      then leading_fraction x scale True s
      else leading_fraction (x * 10 + digit_val c) (scale * 10) False s)"

definition duration_unit :: "string \<Rightarrow> nat option" where
  "duration_unit u = map_of
     [(''ns'', 1), (''us'', 1000), ([CHR 0xC2, CHR 0xB5, CHR ''s''], 1000),
      ([CHR 0xCE, CHR 0xBC, CHR ''s''], 1000), (''ms'', 1000000), (''s'', 1000000000),
      (''m'', 60000000000), (''h'', 3600000000000)] u"

definition unit_char :: "char \<Rightarrow> bool" where
  "unit_char c = (c \<noteq> CHR ''.'' \<and> \<not> is_digit c)"

text \<open>One term: its nanoseconds and what follows it.\<close>

definition duration_term :: "(nat \<Rightarrow> nat \<Rightarrow> nat \<Rightarrow> nat) \<Rightarrow> string \<Rightarrow> (nat \<times> string) option" where
  "duration_term fmul s =
     (if s = [] \<or> \<not> (hd s = CHR ''.'' \<or> is_digit (hd s)) then None
      else
        (case leading_int 0 s of
           None \<Rightarrow> None
         | Some (v, s1) \<Rightarrow>
             (let pre = (length s1 \<noteq> length s);
                  (f, scale, s2) = (if s1 \<noteq> [] \<and> hd s1 = CHR ''.'' then leading_fraction 0 1 False (tl s1) else (0, 1, s1));
                  post = (s1 \<noteq> [] \<and> hd s1 = CHR ''.'' \<and> length s2 \<noteq> length (tl s1));
                  u = takeWhile unit_char s2; s3 = dropWhile unit_char s2 in
              if \<not> pre \<and> \<not> post then None
              else if u = [] then None
              else
                (case duration_unit u of
                   None \<Rightarrow> None
                 | Some unit \<Rightarrow>
                     (if v > 2 ^ 63 div unit then None
                      else if f > 0 \<and> v * unit + fmul f unit scale > 2 ^ 63 then None
                      else Some (v * unit + (if f > 0 then fmul f unit scale else 0), s3))))))"

lemma length_leading_int: "leading_int x s = Some (v, s1) \<Longrightarrow> length s1 \<le> length s"
  by (induction x s rule: leading_int.induct) (auto split: if_splits)

lemma length_leading_fraction: "leading_fraction x scale over s = (f, sc, s2) \<Longrightarrow> length s2 \<le> length s"
  by (induction x scale over s rule: leading_fraction.induct) (auto split: if_splits)

lemma length_drop_unit:
  assumes "takeWhile P s \<noteq> []"
  shows "length (dropWhile P s) < length s"
proof -
  have "length s = length (takeWhile P s) + length (dropWhile P s)"
    by (metis length_append takeWhile_dropWhile_id)
  with assms show ?thesis by (cases "takeWhile P s") auto
qed

lemma length_duration_term:
  assumes "duration_term fmul s = Some (v, s3)"
  shows "length s3 < length s"
proof -
  obtain w s1 where li: "leading_int 0 s = Some (w, s1)"
    using assms by (auto simp: duration_term_def split: option.splits if_splits)
  obtain f sc s2 where lf: "(if s1 \<noteq> [] \<and> hd s1 = CHR ''.'' then leading_fraction 0 1 False (tl s1) else (0, 1, s1)) = (f, sc, s2)"
    by (metis prod_cases3)
  have "length s2 \<le> length s1"
    using lf length_leading_fraction [of 0 1 False "tl s1" f sc s2] by (auto split: if_splits)
  moreover have "takeWhile unit_char s2 \<noteq> []" "s3 = dropWhile unit_char s2"
    using assms by (auto simp: duration_term_def li lf Let_def split: option.splits if_splits prod.splits)
  ultimately show ?thesis
    using length_drop_unit [of unit_char s2] length_leading_int [OF li] by simp
qed

function duration_terms :: "(nat \<Rightarrow> nat \<Rightarrow> nat \<Rightarrow> nat) \<Rightarrow> nat \<Rightarrow> string \<Rightarrow> nat option" where
  "duration_terms fmul d s =
     (if s = [] then Some d
      else
        (case duration_term fmul s of
           None \<Rightarrow> None
         | Some (v, s') \<Rightarrow>
             (let d' = (d + v) mod 2 ^ 64 in
              if d' > 2 ^ 63 then None else duration_terms fmul d' s')))"
  by pat_completeness auto
termination
  by (relation "measure (\<lambda>(fmul, d, s). length s)") (auto dest: length_duration_term)

declare duration_terms.simps [simp del]

definition parse_duration :: "(nat \<Rightarrow> nat \<Rightarrow> nat \<Rightarrow> nat) \<Rightarrow> string \<Rightarrow> int option" where
  "parse_duration fmul s0 =
     (let signed = (s0 \<noteq> [] \<and> (hd s0 = CHR ''-'' \<or> hd s0 = CHR ''+''));
          neg = (signed \<and> hd s0 = CHR ''-'');
          s = (if signed then tl s0 else s0) in
      if s = ''0'' then Some 0
      else if s = [] then None
      else
        (case duration_terms fmul 0 s of
           None \<Rightarrow> None
         | Some d \<Rightarrow>
             (if neg then Some (- int d)
              else if d > 2 ^ 63 - 1 then None
              else Some (int d))))"

section \<open>Rules\<close>

record fault =
  flt_operation :: string
  flt_status :: int
  flt_delay :: string
  flt_times :: int
  flt_truncate :: "int option"
  flt_hits :: int
  flt_wait :: int

record fault_view =
  fv_operation :: string
  fv_status :: int
  fv_delay :: string
  fv_times :: int
  fv_truncate :: "int option"
  fv_hits :: int
  fv_spent :: bool

definition maxFaultRules :: nat where "maxFaultRules = 64"
definition maxFaultDelay :: int where "maxFaultDelay = 5 * 60 * 1000000000"

definition maxTruncate :: int where "maxTruncate = 4 * 2 ^ 20"

text \<open>
  What a pack is to the injector: its name, the operations its routes serve, and
  the statuses it renders when it renders an error dialect at all.
\<close>

record fault_pack =
  pk_name :: string
  pk_operations :: "string list"
  pk_statuses :: "int list option"

definition operation_owners :: "fault_pack list \<Rightarrow> string \<Rightarrow> string option" where
  "operation_owners packs =
     fold (\<lambda>p m. fold (\<lambda>op m. m(op \<mapsto> pk_name p)) (pk_operations p) m) packs (\<lambda>_. None)"

definition faulters_of :: "fault_pack list \<Rightarrow> string \<Rightarrow> int list option" where
  "faulters_of packs =
     fold (\<lambda>p m. case pk_statuses p of None \<Rightarrow> m | Some ss \<Rightarrow> m(pk_name p \<mapsto> ss)) packs (\<lambda>_. None)"

definition status_renderable :: "int list \<Rightarrow> int \<Rightarrow> bool" where
  "status_renderable statuses status = list_ex (\<lambda>s. s = status) statuses"

datatype fault_error =
    TooManyRules nat
  | NoOperation nat
  | Unmounted string
  | Duplicate string
  | NotADuration string
  | NegativeDelay string
  | LongDelay string
  | NegativeTimes string
  | StatusAndTruncation string
  | AsksForNothing string
  | NegativeTruncation string
  | LargeTruncation string
  | NoDialect string
  | NotRendered string
  | BadRequest string

text \<open>The rule's delay, as the loop reads it, and the checks of one rule in the order of the loop.\<close>

definition read_delay :: "(nat \<Rightarrow> nat \<Rightarrow> nat \<Rightarrow> nat) \<Rightarrow> fault \<Rightarrow> fault_error + fault" where
  "read_delay fmul r =
     (if flt_delay r = [] then Inr r
      else
        (case parse_duration fmul (flt_delay r) of
           None \<Rightarrow> Inl (NotADuration (flt_operation r))
         | Some d \<Rightarrow>
             (if d < 0 then Inl (NegativeDelay (flt_operation r))
              else if d > maxFaultDelay then Inl (LongDelay (flt_operation r))
              else Inr (r\<lparr>flt_wait := d\<rparr>))))"

definition check_effect ::
  "(string \<Rightarrow> int list option) \<Rightarrow> string \<Rightarrow> fault \<Rightarrow> fault_error + fault" where
  "check_effect faulters provider r =
     (let op = flt_operation r in
      if flt_times r < 0 then Inl (NegativeTimes op)
      else if flt_status r \<noteq> 0 \<and> flt_truncate r \<noteq> None then Inl (StatusAndTruncation op)
      else if flt_status r = 0 \<and> flt_truncate r = None \<and> flt_wait r = 0 then Inl (AsksForNothing op)
      else if (\<exists>t. flt_truncate r = Some t \<and> t < 0) then Inl (NegativeTruncation op)
      else if (\<exists>t. flt_truncate r = Some t \<and> t > maxTruncate) then Inl (LargeTruncation op)
      else if flt_status r \<noteq> 0 then
        (case faulters provider of
           None \<Rightarrow> Inl (NoDialect op)
         | Some ss \<Rightarrow>
             (if \<not> status_renderable ss (flt_status r) then Inl (NotRendered op)
              else Inr (r\<lparr>flt_hits := 0\<rparr>)))
      else Inr (r\<lparr>flt_hits := 0\<rparr>))"

definition check_rule ::
  "(nat \<Rightarrow> nat \<Rightarrow> nat \<Rightarrow> nat) \<Rightarrow> (string \<Rightarrow> string option) \<Rightarrow> (string \<Rightarrow> int list option) \<Rightarrow>
     string list \<Rightarrow> nat \<Rightarrow> fault \<Rightarrow> fault_error + fault" where
  "check_rule fmul owner faulters seen i r =
     (if flt_operation r = [] then Inl (NoOperation i)
      else
        (case owner (flt_operation r) of
           None \<Rightarrow> Inl (Unmounted (flt_operation r))
         | Some provider \<Rightarrow>
             (if flt_operation r \<in> set seen then Inl (Duplicate (flt_operation r))
              else
                (case read_delay fmul r of
                   Inl e \<Rightarrow> Inl e
                 | Inr r' \<Rightarrow> check_effect faulters provider r'))))"

text \<open>The loop: the rules still to read, the operations seen and the rules accepted.\<close>

fun check_rules ::
  "(nat \<Rightarrow> nat \<Rightarrow> nat \<Rightarrow> nat) \<Rightarrow> (string \<Rightarrow> string option) \<Rightarrow> (string \<Rightarrow> int list option) \<Rightarrow>
     string list \<Rightarrow> nat \<Rightarrow> fault list \<Rightarrow> fault_error + fault list" where
  "check_rules fmul owner faulters seen i [] = Inr []"
| "check_rules fmul owner faulters seen i (r # rs) =
     (case check_rule fmul owner faulters seen i r of
        Inl e \<Rightarrow> Inl e
      | Inr r' \<Rightarrow>
          (case check_rules fmul owner faulters (flt_operation r # seen) (Suc i) rs of
             Inl e \<Rightarrow> Inl e
           | Inr rs' \<Rightarrow> Inr (r' # rs')))"

definition validate_faults ::
  "(nat \<Rightarrow> nat \<Rightarrow> nat \<Rightarrow> nat) \<Rightarrow> fault list \<Rightarrow> (string \<Rightarrow> string option) \<Rightarrow> (string \<Rightarrow> int list option) \<Rightarrow>
     fault_error + fault list" where
  "validate_faults fmul rules owner faulters =
     (if length rules > maxFaultRules then Inl (TooManyRules (length rules))
      else check_rules fmul owner faulters [] 0 rules)"

section \<open>The armed set\<close>

text \<open>
  \<open>fire\<close>: the first rule that names the operation answers, once it has counted
  the hit, or does not when its hits are spent.
\<close>

fun fire :: "fault list \<Rightarrow> string \<Rightarrow> fault list \<times> fault option" where
  "fire [] operation = ([], None)"
| "fire (r # rs) operation =
     (if flt_operation r \<noteq> operation then (let (rs', f) = fire rs operation in (r # rs', f))
      else if flt_times r > 0 \<and> flt_hits r \<ge> flt_times r then (r # rs, None)
      else (let r' = r\<lparr>flt_hits := flt_hits r + 1\<rparr> in (r' # rs, Some r')))"

definition armed :: "fault list \<Rightarrow> bool" where
  "armed rules = (length rules > 0)"

definition view_rule :: "fault \<Rightarrow> fault_view" where
  "view_rule r = \<lparr>fv_operation = flt_operation r, fv_status = flt_status r, fv_delay = flt_delay r,
     fv_times = flt_times r, fv_truncate = flt_truncate r, fv_hits = flt_hits r,
     fv_spent = (flt_times r > 0 \<and> flt_hits r \<ge> flt_times r)\<rparr>"

definition fault_views :: "fault list \<Rightarrow> fault_view list" where
  "fault_views rules = map view_rule rules"

text \<open>
  The three verbs of \<open>/_feint/faults\<close>. The decoded document is the rules, or the
  decoder's complaint; what the document says of hits and of the computed delay
  is not read from it.
\<close>

definition decoded_rule :: "fault \<Rightarrow> bool" where
  "decoded_rule r = (flt_hits r = 0 \<and> flt_wait r = 0)"

definition handle_faults_write ::
  "(nat \<Rightarrow> nat \<Rightarrow> nat \<Rightarrow> nat) \<Rightarrow> fault_pack list \<Rightarrow> string + fault list \<Rightarrow> fault list \<Rightarrow>
     fault list \<times> (fault_error + fault_view list)" where
  "handle_faults_write fmul packs req armed_rules =
     (case req of
        Inl e \<Rightarrow> (armed_rules, Inl (BadRequest e))
      | Inr rules \<Rightarrow>
          (case validate_faults fmul rules (operation_owners packs) (faulters_of packs) of
             Inl e \<Rightarrow> (armed_rules, Inl e)
           | Inr rules' \<Rightarrow> (rules', Inr (fault_views rules'))))"

definition handle_faults_read :: "fault list \<Rightarrow> fault_view list" where
  "handle_faults_read armed_rules = fault_views armed_rules"

definition handle_faults_clear :: "fault list \<Rightarrow> fault list \<times> fault_view list" where
  "handle_faults_clear armed_rules = ([], fault_views [])"

section \<open>The answer\<close>

text \<open>
  A handler's answer, as the calls it makes on the writer it is given, and the
  buffer that collects them.
\<close>

datatype writer_call = SetHeader string "string list" | WriteHeader int | WriteBody string

record buffered =
  bf_header :: "string \<Rightarrow> string list option"
  bf_status :: int
  bf_body :: string
  bf_sent :: bool

fun buffer_call :: "writer_call \<Rightarrow> buffered \<Rightarrow> buffered" where
  "buffer_call (SetHeader k v) b = b\<lparr>bf_header := (bf_header b)(k \<mapsto> v)\<rparr>"
| "buffer_call (WriteHeader s) b = (if bf_sent b then b else b\<lparr>bf_sent := True, bf_status := s\<rparr>)"
| "buffer_call (WriteBody p) b = b\<lparr>bf_sent := True, bf_body := bf_body b @ p\<rparr>"

definition buffer_new :: buffered where
  "buffer_new = \<lparr>bf_header = (\<lambda>_. None), bf_status = 200, bf_body = [], bf_sent = False\<rparr>"

text \<open>
  What reaches the client: nothing when it left during the delay, the pack's own
  error, the core's admission that no pack renders one, or a whole answer.
\<close>

datatype fault_answer =
    GaveUp
  | PackError "string \<Rightarrow> string list option" string int
  | CoreDefect "string \<Rightarrow> string list option"
  | Answer "string \<Rightarrow> string list option" int string

definition fault_header :: string where "fault_header = ''X-Feint-Fault''"
definition content_length :: string where "content_length = ''Content-Length''"

definition truncated :: "int option \<Rightarrow> string \<Rightarrow> string" where
  "truncated t body =
     (case t of None \<Rightarrow> body | Some n \<Rightarrow> (if n < int (length body) then take (nat n) body else body))"

definition serve_fault ::
  "(string \<Rightarrow> int list option) \<Rightarrow> string \<Rightarrow> string \<Rightarrow> writer_call list \<Rightarrow> fault \<Rightarrow> bool \<Rightarrow> int \<times> fault_answer" where
  "serve_fault faulters provider operation handler f client_left =
     (if flt_wait f > 0 \<and> client_left then (0, GaveUp)
      else if flt_status f \<noteq> 0 then
        (case faulters provider of
           None \<Rightarrow> (500, CoreDefect (Map.empty(fault_header \<mapsto> [operation])))
         | Some ss \<Rightarrow> (flt_status f, PackError (Map.empty(fault_header \<mapsto> [operation])) provider (flt_status f)))
      else
        (let buf = fold buffer_call handler buffer_new;
             header = (Map.empty(fault_header \<mapsto> [operation])) ++ bf_header buf
         in (bf_status buf,
             Answer (header(content_length := None)) (bf_status buf) (truncated (flt_truncate f) (bf_body buf)))))"

section \<open>What an accepted set is\<close>

text \<open>The rule as it is armed, and what a rule has to satisfy on its own.\<close>

definition rule_wait :: "(nat \<Rightarrow> nat \<Rightarrow> nat \<Rightarrow> nat) \<Rightarrow> fault \<Rightarrow> int option" where
  "rule_wait fmul r = (if flt_delay r = [] then Some (flt_wait r) else parse_duration fmul (flt_delay r))"

definition rule_ok ::
  "(nat \<Rightarrow> nat \<Rightarrow> nat \<Rightarrow> nat) \<Rightarrow> (string \<Rightarrow> string option) \<Rightarrow> (string \<Rightarrow> int list option) \<Rightarrow> fault \<Rightarrow> bool" where
  "rule_ok fmul owner faulters r \<longleftrightarrow>
     flt_operation r \<noteq> [] \<and> 0 \<le> flt_times r \<and>
     (flt_delay r \<noteq> [] \<longrightarrow> (\<exists>d. parse_duration fmul (flt_delay r) = Some d \<and> 0 \<le> d \<and> d \<le> maxFaultDelay)) \<and>
     (\<exists>provider. owner (flt_operation r) = Some provider \<and>
       (flt_status r \<noteq> 0 \<longrightarrow> flt_truncate r = None \<and>
          (\<exists>ss. faulters provider = Some ss \<and> flt_status r \<in> set ss))) \<and>
     (\<forall>t. flt_truncate r = Some t \<longrightarrow> 0 \<le> t \<and> t \<le> maxTruncate) \<and>
     (flt_status r = 0 \<and> flt_truncate r = None \<longrightarrow> rule_wait fmul r \<noteq> Some 0)"

definition armed_rule :: "(nat \<Rightarrow> nat \<Rightarrow> nat \<Rightarrow> nat) \<Rightarrow> fault \<Rightarrow> fault" where
  "armed_rule fmul r = r\<lparr>flt_wait := option_or 0 (rule_wait fmul r), flt_hits := 0\<rparr>"

lemma check_effect_Inr:
  "check_effect faulters provider r = Inr r' \<longleftrightarrow>
     r' = r\<lparr>flt_hits := 0\<rparr> \<and> 0 \<le> flt_times r \<and>
     (flt_status r \<noteq> 0 \<longrightarrow> flt_truncate r = None \<and> (\<exists>ss. faulters provider = Some ss \<and> flt_status r \<in> set ss)) \<and>
     (\<forall>t. flt_truncate r = Some t \<longrightarrow> 0 \<le> t \<and> t \<le> maxTruncate) \<and>
     (flt_status r = 0 \<and> flt_truncate r = None \<longrightarrow> flt_wait r \<noteq> 0)"
  by (cases "flt_truncate r"; cases "flt_status r = 0"; cases "faulters provider")
    (auto simp: check_effect_def Let_def status_renderable_def list_ex_iff)

lemma read_delay_Inr:
  "read_delay fmul r = Inr r' \<longleftrightarrow>
     (\<exists>d. rule_wait fmul r = Some d \<and> r' = r\<lparr>flt_wait := d\<rparr> \<and>
       (flt_delay r \<noteq> [] \<longrightarrow> 0 \<le> d \<and> d \<le> maxFaultDelay))"
  by (cases "flt_delay r = []"; cases "parse_duration fmul (flt_delay r)")
    (auto simp: read_delay_def rule_wait_def)

lemma check_rule_Inr:
  "check_rule fmul owner faulters seen i r = Inr r' \<longleftrightarrow>
     r' = armed_rule fmul r \<and> flt_operation r \<notin> set seen \<and> rule_ok fmul owner faulters r"
proof (cases "flt_operation r = [] \<or> owner (flt_operation r) = None \<or> flt_operation r \<in> set seen")
  case True
  then show ?thesis by (cases "owner (flt_operation r)") (auto simp: check_rule_def rule_ok_def)
next
  case False
  then obtain provider where p: "owner (flt_operation r) = Some provider" by auto
  show ?thesis
  proof (cases "read_delay fmul r")
    case (Inl e)
    then have "\<not> (\<exists>r'. read_delay fmul r = Inr r')" by simp
    then have "rule_wait fmul r = None \<or> (\<exists>d. rule_wait fmul r = Some d \<and> flt_delay r \<noteq> [] \<and> \<not> (0 \<le> d \<and> d \<le> maxFaultDelay))"
      unfolding read_delay_Inr by (cases "rule_wait fmul r") auto
    then have "\<not> rule_ok fmul owner faulters r"
      by (auto simp: rule_ok_def rule_wait_def split: if_splits)
    then show ?thesis using False p Inl by (simp add: check_rule_def)
  next
    case (Inr q)
    then obtain d where d: "rule_wait fmul r = Some d" "q = r\<lparr>flt_wait := d\<rparr>"
      "flt_delay r \<noteq> [] \<longrightarrow> 0 \<le> d \<and> d \<le> maxFaultDelay"
      unfolding read_delay_Inr by blast
    have e: "check_rule fmul owner faulters seen i r = check_effect faulters provider q"
      using False p Inr by (simp add: check_rule_def)
    have w: "armed_rule fmul r = r\<lparr>flt_wait := d, flt_hits := 0\<rparr>" by (simp add: armed_rule_def d(1))
    have "rule_ok fmul owner faulters r \<longleftrightarrow> flt_operation r \<noteq> [] \<and> 0 \<le> flt_times r \<and>
        (flt_status r \<noteq> 0 \<longrightarrow> flt_truncate r = None \<and> (\<exists>ss. faulters provider = Some ss \<and> flt_status r \<in> set ss)) \<and>
        (\<forall>t. flt_truncate r = Some t \<longrightarrow> 0 \<le> t \<and> t \<le> maxTruncate) \<and>
        (flt_status r = 0 \<and> flt_truncate r = None \<longrightarrow> d \<noteq> 0)"
      using d(1,3) p by (cases "flt_delay r = []") (simp_all add: rule_ok_def rule_wait_def)
    then show ?thesis
      using False unfolding e check_effect_Inr w d(2) by simp
  qed
qed

lemma flt_operation_armed [simp]: "flt_operation (armed_rule fmul r) = flt_operation r"
  by (simp add: armed_rule_def)

lemma check_rules_Inr:
  "check_rules fmul owner faulters seen i rules = Inr rs \<longleftrightarrow>
     rs = map (armed_rule fmul) rules \<and> distinct (map flt_operation rules) \<and>
     set (map flt_operation rules) \<inter> set seen = {} \<and> (\<forall>r\<in>set rules. rule_ok fmul owner faulters r)"
proof (induction rules arbitrary: seen i rs)
  case (Cons r rules)
  show ?case
  proof (cases "check_rule fmul owner faulters seen i r")
    case (Inl e)
    then have "\<not> (flt_operation r \<notin> set seen \<and> rule_ok fmul owner faulters r)"
      using check_rule_Inr [of fmul owner faulters seen i r "armed_rule fmul r"] by auto
    then show ?thesis using Inl by auto
  next
    case (Inr r')
    then have r: "r' = armed_rule fmul r" "flt_operation r \<notin> set seen" "rule_ok fmul owner faulters r"
      unfolding check_rule_Inr by auto
    show ?thesis
      using Cons.IH [of "flt_operation r # seen" "Suc i"] Inr r
      by (cases "check_rules fmul owner faulters (flt_operation r # seen) (Suc i) rules") auto
  qed
qed auto

text \<open>
  C36. A set of rules is armed exactly when there are at most 64 of them, no two
  for one operation, each for an operation a route serves, each with an effect
  that can be seen and produced: a status its operation's own pack renders, or a
  truncation in range, or a delay of at most five minutes that is not zero. What
  is armed is the rules as written, with no hit counted.
\<close>

theorem armed_exactly_when_every_rule_can_fire:
  "validate_faults fmul rules owner faulters = Inr rs \<longleftrightarrow>
     length rules \<le> 64 \<and> distinct (map flt_operation rules) \<and>
     (\<forall>r\<in>set rules. rule_ok fmul owner faulters r) \<and> rs = map (armed_rule fmul) rules"
  using check_rules_Inr [of fmul owner faulters "[]" 0 rules rs]
  by (auto simp: validate_faults_def maxFaultRules_def)

section \<open>Firing\<close>

fun fire_all :: "fault list \<Rightarrow> string list \<Rightarrow> fault list \<times> fault option list" where
  "fire_all rules [] = (rules, [])"
| "fire_all rules (c # calls) =
     (let (rules1, a) = fire rules c; (rules2, as) = fire_all rules1 calls in (rules2, a # as))"

text \<open>The rules after \<open>n\<close> calls, each operation \<open>op\<close> called \<open>n op\<close> times.\<close>

definition hit_by :: "(string \<Rightarrow> nat) \<Rightarrow> fault \<Rightarrow> fault" where
  "hit_by n r = r\<lparr>flt_hits := (if flt_times r = 0 then int (n (flt_operation r))
      else min (flt_times r) (int (n (flt_operation r))))\<rparr>"

lemma hit_by_op [simp]: "flt_operation (hit_by n r) = flt_operation r" "flt_times (hit_by n r) = flt_times r"
  by (simp_all add: hit_by_def)

lemma map_hit_by_other: "op \<notin> flt_operation ` set rs \<Longrightarrow> map (hit_by (n(op := k))) rs = map (hit_by n) rs"
  by (auto simp: hit_by_def)

text \<open>What the call of an operation is answered when it comes after \<open>k\<close> others.\<close>

definition answer_after :: "fault list \<Rightarrow> string \<Rightarrow> nat \<Rightarrow> fault option" where
  "answer_after rs c k =
     (case find (\<lambda>r. flt_operation r = c) rs of
        None \<Rightarrow> None
      | Some r \<Rightarrow> (if flt_times r = 0 \<or> int k < flt_times r then Some (r\<lparr>flt_hits := int k + 1\<rparr>) else None))"

lemma fire_hit_by:
  assumes "distinct (map flt_operation rs)" "\<forall>r\<in>set rs. 0 \<le> flt_times r"
  shows "fire (map (hit_by n) rs) c = (map (hit_by (n(c := Suc (n c)))) rs, answer_after rs c (n c))"
  using assms
proof (induction rs)
  case (Cons r rs)
  show ?case
  proof (cases "flt_operation r = c")
    case True
    then have "c \<notin> flt_operation ` set rs" using Cons.prems by auto
    note rest = map_hit_by_other [OF this, of n "Suc (n c)"]
    show ?thesis using True Cons.prems rest
      by (auto simp: hit_by_def min_def Let_def answer_after_def)
  next
    case False
    then show ?thesis using Cons by (simp add: hit_by_def Let_def answer_after_def)
  qed
qed (simp add: answer_after_def)

lemma fire_all_hit_by:
  assumes "distinct (map flt_operation rs)" "\<forall>r\<in>set rs. 0 \<le> flt_times r"
  shows "length (snd (fire_all (map (hit_by n) rs) calls)) = length calls \<and>
    fst (fire_all (map (hit_by n) rs) calls) = map (hit_by (\<lambda>op. n op + count_list calls op)) rs \<and>
    (\<forall>i < length calls. snd (fire_all (map (hit_by n) rs) calls) ! i =
      answer_after rs (calls ! i) (n (calls ! i) + count_list (take i calls) (calls ! i)))"
proof (induction calls arbitrary: n)
  case (Cons c calls)
  let ?m = "n(c := Suc (n c))"
  have n: "(\<lambda>op. ?m op + count_list calls op) = (\<lambda>op. n op + count_list (c # calls) op)"
    by auto
  obtain rs2 as where run: "fire_all (map (hit_by ?m) rs) calls = (rs2, as)" by (cases "fire_all (map (hit_by ?m) rs) calls")
  note IH = Cons.IH [of ?m, unfolded run fst_conv snd_conv n]
  have step: "fire_all (map (hit_by n) rs) (c # calls) = (rs2, answer_after rs c (n c) # as)"
    using fire_hit_by [OF assms, of n c] run by (simp del: fun_upd_apply)
  have "?m (calls ! j) + count_list (take j calls) (calls ! j) =
      n (calls ! j) + count_list (take (Suc j) (c # calls)) (calls ! j)" for j
    by simp
  then show ?case using IH unfolding step fst_conv snd_conv by (auto simp: nth_Cons split: nat.split)
qed auto

lemma find_distinct:
  assumes "distinct (map f rs)" "r \<in> set rs" "f r = c"
  shows "find (\<lambda>r. f r = c) rs = Some r"
  using assms by (induction rs) auto

text \<open>
  C37. A rule fires exactly as often as it says and for its own operation only. In
  any sequence of calls against a freshly armed set, a call is answered by a
  rule exactly when the set has one for its operation and that rule names no
  number of times, or a number not yet reached by the earlier calls of that same
  operation; the answer carries the count, and calls of other operations change
  nothing.
\<close>

theorem rule_fires_exactly_times_times:
  assumes "validate_faults fmul rules owner faulters = Inr rs" "i < length calls"
  shows "snd (fire_all rs calls) ! i = Some f \<longleftrightarrow>
    (\<exists>r\<in>set rs. flt_operation r = calls ! i \<and> f = r\<lparr>flt_hits := int (count_list (take i calls) (calls ! i)) + 1\<rparr> \<and>
       (flt_times r = 0 \<or> int (count_list (take i calls) (calls ! i)) < flt_times r))"
proof -
  from check_rules_Inr [of fmul owner faulters "[]" 0 rules rs] assms(1)
  have v: "rs = map (armed_rule fmul) rules" "distinct (map flt_operation rules)" "\<forall>r\<in>set rules. 0 \<le> flt_times r"
    by (auto simp: validate_faults_def rule_ok_def split: if_splits)
  then have d: "distinct (map flt_operation rs)" "\<forall>r\<in>set rs. 0 \<le> flt_times r"
    by (simp_all add: comp_def armed_rule_def)
  have h: "map (hit_by (\<lambda>_. 0)) rs = rs"
    using v(1,3) by (auto simp: hit_by_def armed_rule_def comp_def)
  have at: "snd (fire_all rs calls) ! i = answer_after rs (calls ! i) (count_list (take i calls) (calls ! i))"
    using fire_all_hit_by [OF d, of "\<lambda>_. 0" calls] assms(2) by (simp add: h)
  show ?thesis
  proof (cases "find (\<lambda>r. flt_operation r = calls ! i) rs")
    case None
    then have "\<forall>r\<in>set rs. flt_operation r \<noteq> calls ! i" by (auto simp: find_None_iff)
    then show ?thesis using at None by (auto simp: answer_after_def)
  next
    case (Some r)
    then have r: "r \<in> set rs" "flt_operation r = calls ! i" by (auto simp: find_Some_iff)
    have u: "q = r" if "q \<in> set rs" "flt_operation q = calls ! i" for q
      using find_distinct [OF d(1) that] Some by simp
    let ?k = "int (count_list (take i calls) (calls ! i))"
    have "snd (fire_all rs calls) ! i = (if flt_times r = 0 \<or> ?k < flt_times r then Some (r\<lparr>flt_hits := ?k + 1\<rparr>) else None)"
      unfolding at answer_after_def Some by simp
    then have "snd (fire_all rs calls) ! i = Some f \<longleftrightarrow> (flt_times r = 0 \<or> ?k < flt_times r) \<and> f = r\<lparr>flt_hits := ?k + 1\<rparr>"
      by (cases "flt_times r = 0 \<or> ?k < flt_times r") (simp_all only: if_True if_False option.inject option.distinct simp_thms eq_commute)
    then show ?thesis using u r by blast
  qed
qed

section \<open>The answer is the pack's own\<close>

lemma fire_from_set:
  "fire rules c = (rules', Some f) \<Longrightarrow> \<exists>r\<in>set rules. flt_operation r = c \<and> f = r\<lparr>flt_hits := flt_hits r + 1\<rparr>"
  by (induction rules arbitrary: rules') (auto simp: Let_def split: if_splits prod.splits)

lemma accepted_fields:
  assumes "validate_faults fmul rules owner faulters = Inr rs" "r \<in> set rs"
  obtains r0 where "r0 \<in> set rules" "rule_ok fmul owner faulters r0" "r = armed_rule fmul r0"
  using assms check_rules_Inr [of fmul owner faulters "[]" 0 rules rs]
  by (auto simp: validate_faults_def split: if_splits)

lemma fire_all_from_set:
  "f \<in> set (snd (fire_all rs calls)) \<Longrightarrow> f = Some g \<Longrightarrow>
     \<exists>r\<in>set rs. \<exists>h. g = r\<lparr>flt_hits := h\<rparr> \<and> flt_operation r \<in> set calls"
proof (induction calls arbitrary: rs)
  case (Cons c calls)
  obtain rs1 a where fire: "fire rs c = (rs1, a)" by (cases "fire rs c")
  have origin: "\<exists>q\<in>set rs. \<exists>h. r = q\<lparr>flt_hits := h\<rparr>" if "r \<in> set rs1" for r
    using fire that
  proof (induction rs arbitrary: rs1 a)
    case (Cons q rs)
    have self: "q = q\<lparr>flt_hits := flt_hits q\<rparr>" by simp
    from Cons.prems show ?case
    proof (cases "flt_operation q = c")
      case True
      then have "r = q \<or> r = q\<lparr>flt_hits := flt_hits q + 1\<rparr> \<or> r \<in> set rs"
        using Cons.prems by (auto simp: Let_def split: if_splits)
      moreover have "r = r\<lparr>flt_hits := flt_hits r\<rparr>" by simp
      ultimately show ?thesis using self by (metis list.set_intros)
    next
      case False
      then obtain rs2 where f: "fire rs c = (rs2, a)" "rs1 = q # rs2"
        using Cons.prems by (auto simp: Let_def split: prod.splits)
      then show ?thesis using Cons.IH [OF f(1)] Cons.prems(2) self by (metis list.set_intros set_ConsD)
    qed
  qed simp
  show ?case
  proof (cases "a = f")
    case True
    then show ?thesis using fire fire_from_set [of rs c rs1 g] Cons.prems by auto
  next
    case False
    then have "f \<in> set (snd (fire_all rs1 calls))"
      using Cons.prems fire by (auto split: prod.splits)
    from Cons.IH [OF this Cons.prems(2)] obtain r h where r: "r \<in> set rs1" "g = r\<lparr>flt_hits := h\<rparr>"
      "flt_operation r \<in> set calls" by blast
    from origin [OF r(1)] obtain q h' where q: "q \<in> set rs" "r = q\<lparr>flt_hits := h'\<rparr>" by blast
    then have "g = q\<lparr>flt_hits := h\<rparr>" "flt_operation q \<in> set (c # calls)" using r(2,3) by simp_all
    with q(1) show ?thesis by blast
  qed
qed simp

lemma buffer_status:
  "bf_sent b \<Longrightarrow> bf_status (fold buffer_call cs b) = bf_status b"
proof (induction cs arbitrary: b)
  case (Cons c cs)
  have "bf_sent (buffer_call c b) \<and> bf_status (buffer_call c b) = bf_status b"
    using Cons.prems by (cases c) auto
  then show ?case using Cons.IH by auto
qed simp

lemma buffer_body:
  "bf_body (fold buffer_call cs b) = bf_body b @ concat (map (\<lambda>c. case c of WriteBody p \<Rightarrow> p | _ \<Rightarrow> []) cs)"
proof (induction cs arbitrary: b)
  case (Cons c cs)
  show ?case by (cases c) (simp_all add: Cons.IH)
qed simp

text \<open>
  A status that fires is rendered by the pack that serves the operation, and
  by nothing else: whatever calls came before, a rule of an accepted set that
  fires on an operation finds its pack's error dialect and one of the statuses
  it renders, so the core never writes an error of its own.
\<close>

theorem status_fault_is_the_packs_own:
  assumes set_ok: "validate_faults fmul rules (operation_owners packs) (faulters_of packs) = Inr rs"
    and hit: "Some f \<in> set (snd (fire_all rs calls))"
    and owner: "operation_owners packs (flt_operation f) = Some provider"
  shows "(flt_status f \<noteq> 0 \<longrightarrow>
      (\<exists>ss. faulters_of packs provider = Some ss \<and> flt_status f \<in> set ss) \<and>
      snd (serve_fault (faulters_of packs) provider operation handler f False)
        = PackError (Map.empty(fault_header \<mapsto> [operation])) provider (flt_status f)) \<and>
    (\<forall>gone h. snd (serve_fault (faulters_of packs) provider operation handler f gone) \<noteq> CoreDefect h)"
proof -
  from fire_all_from_set [OF hit] obtain r h where r: "r \<in> set rs" "f = r\<lparr>flt_hits := h\<rparr>" by blast
  from accepted_fields [OF set_ok r(1)] obtain r0 where
    "rule_ok fmul (operation_owners packs) (faulters_of packs) r0" "r = armed_rule fmul r0" by blast
  then have "flt_status f \<noteq> 0 \<longrightarrow> (\<exists>ss. faulters_of packs provider = Some ss \<and> flt_status f \<in> set ss)"
    using owner r(2) by (auto simp: rule_ok_def armed_rule_def)
  then show ?thesis by (auto simp: serve_fault_def Let_def)
qed

text \<open>
  A rule with no status lets the handler answer and only shortens what it
  said: the status is the first the handler wrote, 200 when it wrote a body first
  or nothing at all; the body is the beginning of everything it wrote, of the
  length asked at most; no length is announced, and the operation is named unless
  the handler itself names another.
\<close>

theorem truncation_only_shortens:
  assumes "flt_status f = 0" "\<not> (flt_wait f > 0 \<and> gone)"
    and body: "body = concat (map (\<lambda>c. case c of WriteBody p \<Rightarrow> p | _ \<Rightarrow> []) handler)"
    and pre: "handler = pre @ WriteHeader s # post" "\<forall>c\<in>set pre. \<exists>k v. c = SetHeader k v"
  shows "\<exists>header. serve_fault faulters provider operation handler f gone =
      (s, Answer header s (case flt_truncate f of None \<Rightarrow> body | Some n \<Rightarrow> take (nat n) body)) \<and>
      header content_length = None \<and>
      (fault_header \<notin> {k. \<exists>v. SetHeader k v \<in> set handler} \<longrightarrow> header fault_header = Some [operation])"
proof -
  let ?buf = "fold buffer_call handler buffer_new"
  have b: "bf_body ?buf = body" by (simp add: buffer_body body buffer_new_def)
  have unsent: "\<not> bf_sent (fold buffer_call pre b)" if "\<not> bf_sent b" "\<forall>c\<in>set pre. \<exists>k v. c = SetHeader k v" for b
    using that by (induction pre arbitrary: b) auto
  have "\<not> bf_sent (fold buffer_call pre buffer_new)" using unsent pre(2) by (simp add: buffer_new_def)
  then have st: "bf_status ?buf = s" by (simp add: pre(1) buffer_status)
  have hd: "k \<notin> {k. \<exists>v. SetHeader k v \<in> set cs} \<Longrightarrow> bf_header (fold buffer_call cs b) k = bf_header b k" for k cs b
  proof (induction cs arbitrary: b)
    case (Cons c cs)
    then have "bf_header (buffer_call c b) k = bf_header b k" by (cases c) auto
    with Cons show ?case by auto
  qed simp
  have tr: "truncated t body = (case t of None \<Rightarrow> body | Some n \<Rightarrow> take (nat n) body)" for t
    by (auto simp: truncated_def split: option.split)
  have names: "fault_header \<noteq> content_length" by (simp add: fault_header_def content_length_def)
  have h: "bf_header ?buf fault_header = None" if "fault_header \<notin> {k. \<exists>v. SetHeader k v \<in> set handler}"
    using hd [OF that, of buffer_new] by (simp add: buffer_new_def)
  show ?thesis
    using assms(1,2) names h
    by (auto simp: serve_fault_def Let_def b st tr map_add_def split: option.splits)
qed

section \<open>Witnesses\<close>

definition refusing :: fault where
  "refusing = \<lparr>flt_operation = ''ListServers'', flt_status = 503, flt_delay = [], flt_times = 2,
     flt_truncate = None, flt_hits = 0, flt_wait = 0\<rparr>"

definition one_pack :: fault_pack where
  "one_pack = \<lparr>pk_name = ''scaleway'', pk_operations = [''ListServers'', ''GetServer''], pk_statuses = Some [403, 503]\<rparr>"

lemma refusing_accepted:
  "validate_faults (\<lambda>f u s. f * u div s) [refusing] (operation_owners [one_pack]) (faulters_of [one_pack]) = Inr [refusing]"
  by (simp add: validate_faults_def maxFaultRules_def check_rule_def read_delay_def check_effect_def Let_def
      refusing_def one_pack_def operation_owners_def faulters_of_def status_renderable_def)

lemma armed_witness: "rule_ok (\<lambda>f u s. f * u div s) (operation_owners [one_pack]) (faulters_of [one_pack]) refusing"
  using armed_exactly_when_every_rule_can_fire
    [of "\<lambda>f u s. f * u div s" "[refusing]" "operation_owners [one_pack]" "faulters_of [one_pack]" "[refusing]"]
    refusing_accepted by simp

lemma fires_witness:
  "snd (fire_all [refusing] [''ListServers'', ''GetServer'', ''ListServers'', ''ListServers'']) ! 2 = Some (refusing\<lparr>flt_hits := 2\<rparr>) \<and>
   snd (fire_all [refusing] [''ListServers'', ''GetServer'', ''ListServers'', ''ListServers'']) ! 3 \<noteq> Some (refusing\<lparr>flt_hits := 3\<rparr>)"
  using rule_fires_exactly_times_times [OF refusing_accepted, of 2 "[''ListServers'', ''GetServer'', ''ListServers'', ''ListServers'']" "refusing\<lparr>flt_hits := 2\<rparr>"]
    rule_fires_exactly_times_times [OF refusing_accepted, of 3 "[''ListServers'', ''GetServer'', ''ListServers'', ''ListServers'']" "refusing\<lparr>flt_hits := 3\<rparr>"]
  by (simp add: refusing_def numeral_2_eq_2 numeral_3_eq_3)

lemma pack_error_witness:
  "snd (serve_fault (faulters_of [one_pack]) ''scaleway'' ''ListServers'' [] (refusing\<lparr>flt_hits := 1\<rparr>) False)
     = PackError (Map.empty(fault_header \<mapsto> [''ListServers''])) ''scaleway'' 503"
  using status_fault_is_the_packs_own [OF refusing_accepted, of "refusing\<lparr>flt_hits := 1\<rparr>" "[''ListServers'']" "''scaleway''" "''ListServers''" "[]"]
  by (simp add: refusing_def one_pack_def operation_owners_def Let_def)

lemma truncation_witness:
  "\<exists>header. serve_fault (\<lambda>_. None) ''p'' ''op'' [SetHeader ''a'' [''b''], WriteHeader 201, WriteBody ''abc'', WriteBody ''def'']
     (refusing\<lparr>flt_status := 0, flt_truncate := Some 4\<rparr>) True = (201, Answer header 201 ''abcd'')"
proof -
  let ?cs = "[SetHeader ''a'' [''b''], WriteHeader 201, WriteBody ''abc'', WriteBody ''def'']"
  have "flt_status (refusing\<lparr>flt_status := 0, flt_truncate := Some 4\<rparr>) = 0"
    "\<not> (flt_wait (refusing\<lparr>flt_status := 0, flt_truncate := Some 4\<rparr>) > 0 \<and> True)"
    "''abcdef'' = concat (map (\<lambda>c. case c of WriteBody p \<Rightarrow> p | _ \<Rightarrow> []) ?cs)"
    "?cs = [SetHeader ''a'' [''b'']] @ WriteHeader 201 # [WriteBody ''abc'', WriteBody ''def'']"
    "\<forall>c\<in>set [SetHeader ''a'' [''b'']]. \<exists>k v. c = SetHeader k v"
    by (simp_all add: refusing_def)
  from truncation_only_shortens [OF this, of "\<lambda>_. None" "''p''" "''op''"] show ?thesis by auto
qed

end
