(* ===== verification/Evidence.thy ===== *)
theory Evidence
  imports Faults "HOL-Library.Sublist"
begin

text \<open>
  The evidence axes: \<open>internal/core/emulator/assert.go\<close> and \<open>goroutine.go\<close>, and the
  order \<open>wrap\<close> of \<open>conformance.go\<close> gives the steps of a request. A suite opens a
  span, drives clients, and closes the span; the observer decides what the span
  proved. The first part is the observer's operations, each atomic under its
  lock; the second the requests that interleave over it, as a step relation.
\<close>

section \<open>Spans and flights\<close>

record span_exchange =
  sx_operation :: string
  sx_status :: int
  sx_synthetic :: bool
  sx_injected :: bool

record store_event =
  ev_action :: string
  ev_provider :: string
  ev_kind :: string
  ev_id :: string

record span_touch =
  st_operation :: string
  st_event :: store_event

record assert_span =
  sp_proves :: string
  sp_exchanges :: "span_exchange list"
  sp_touches :: "span_touch list"
  sp_overflowed :: bool

record flight_entry =
  fl_operation :: string
  fl_synthetic :: bool
  fl_goroutine :: nat

record observer =
  o_calls :: "string \<Rightarrow> nat"
  o_probed :: "string \<Rightarrow> nat"
  o_injected :: "string \<Rightarrow> nat"
  o_flight :: "(nat \<times> flight_entry) list"
  o_flight_seq :: nat
  o_spans :: "(string \<times> assert_span) list"
  o_spans_open :: nat
  o_behaviour :: "string set"
  o_negative :: "string set"

definition provesBehaviour :: string where "provesBehaviour = ''behaviour''"
definition provesNegative :: string where "provesNegative = ''negative''"
definition eventCreated :: string where "eventCreated = ''created''"
definition eventDeleted :: string where "eventDeleted = ''deleted''"
definition eventListed :: string where "eventListed = ''listed''"

definition maxOpenSpans :: nat where "maxOpenSpans = 32"
definition maxSpanEntries :: nat where "maxSpanEntries = 8192"

definition new_observer :: observer where
  "new_observer = \<lparr>o_calls = (\<lambda>_. 0), o_probed = (\<lambda>_. 0), o_injected = (\<lambda>_. 0), o_flight = [],
     o_flight_seq = 0, o_spans = [], o_spans_open = 0, o_behaviour = {}, o_negative = {}\<rparr>"

text \<open>
  \<open>goroutineID\<close>: what the first 32 bytes of the traceback say, as a \<open>uint64\<close>, and 0
  when they say nothing it can read. \<open>stack_header\<close> is the line the runtime prints.
\<close>

definition goroutine_id :: "string \<Rightarrow> nat" where
  "goroutine_id text =
     (let b = take 32 text; prefix = ''goroutine '' in
      if length b < length prefix + 1 \<or> take (length prefix) b \<noteq> prefix then 0
      else
        (let ds = takeWhile is_digit (drop (length prefix) b) in
         if ds = [] then 0
         else foldl (\<lambda>n c. (n * 10 + digit_val c) mod 2 ^ 64) 0 ds))"

definition stack_header :: "nat \<Rightarrow> string" where
  "stack_header g = ''goroutine '' @ nat_digits g @ '' [running]:''"

definition gid_of :: "nat \<Rightarrow> nat" where
  "gid_of g = goroutine_id (stack_header g)"

definition begin_flight :: "string \<Rightarrow> bool \<Rightarrow> nat \<Rightarrow> observer \<Rightarrow> observer \<times> nat" where
  "begin_flight operation synthetic gid ob =
     (let token = Suc (o_flight_seq ob) in
      (ob\<lparr>o_flight_seq := token,
          o_flight := AList.update token \<lparr>fl_operation = operation, fl_synthetic = synthetic, fl_goroutine = gid\<rparr> (o_flight ob)\<rparr>,
       token))"

definition end_flight :: "nat \<Rightarrow> observer \<Rightarrow> observer" where
  "end_flight token ob = ob\<lparr>o_flight := AList.delete token (o_flight ob)\<rparr>"

text \<open>The loop over the flights, in whatever order the map gives them.\<close>

fun attribute_loop :: "nat \<Rightarrow> string \<Rightarrow> nat \<Rightarrow> (nat \<times> flight_entry) list \<Rightarrow> string" where
  "attribute_loop gid found last_token [] = found"
| "attribute_loop gid found last_token ((token, f) # rest) =
     (if fl_goroutine f \<noteq> gid \<or> token < last_token then attribute_loop gid found last_token rest
      else attribute_loop gid (if fl_synthetic f then [] else fl_operation f) token rest)"

definition attributed_operation :: "nat \<Rightarrow> observer \<Rightarrow> string" where
  "attributed_operation gid ob = (if gid = 0 then [] else attribute_loop gid [] 0 (o_flight ob))"

definition span_full :: "assert_span \<Rightarrow> bool" where
  "span_full sp = (length (sp_exchanges sp) + length (sp_touches sp) \<ge> maxSpanEntries)"

definition add_exchange :: "span_exchange \<Rightarrow> assert_span \<Rightarrow> assert_span" where
  "add_exchange e sp =
     (if span_full sp then sp\<lparr>sp_overflowed := True\<rparr>
      else sp\<lparr>sp_exchanges := sp_exchanges sp @ [e]\<rparr>)"

definition add_touch :: "span_touch \<Rightarrow> assert_span \<Rightarrow> assert_span" where
  "add_touch t sp =
     (if span_full sp then sp\<lparr>sp_overflowed := True\<rparr>
      else sp\<lparr>sp_touches := sp_touches sp @ [t]\<rparr>)"

definition offer_exchange :: "span_exchange \<Rightarrow> observer \<Rightarrow> observer" where
  "offer_exchange e ob = ob\<lparr>o_spans := map (\<lambda>(k, sp). (k, add_exchange e sp)) (o_spans ob)\<rparr>"

definition client_exchange :: "string \<Rightarrow> int \<Rightarrow> bool \<Rightarrow> span_exchange" where
  "client_exchange operation status synthetic =
     \<lparr>sx_operation = operation, sx_status = status, sx_synthetic = synthetic, sx_injected = False\<rparr>"

definition injected_exchange :: "string \<Rightarrow> int \<Rightarrow> span_exchange" where
  "injected_exchange operation status =
     \<lparr>sx_operation = operation, sx_status = status, sx_synthetic = False, sx_injected = True\<rparr>"

text \<open>The half of \<open>storeTouch\<close> under the lock; the half before it reads \<open>spansOpen\<close> and the goroutine.\<close>

definition touch_for :: "store_event \<Rightarrow> nat \<Rightarrow> observer \<Rightarrow> span_touch" where
  "touch_for ev gid ob = \<lparr>st_operation = attributed_operation gid ob, st_event = ev\<rparr>"

definition store_touch :: "store_event \<Rightarrow> nat \<Rightarrow> observer \<Rightarrow> observer" where
  "store_touch ev gid ob =
     (if o_spans ob = [] then ob
      else ob\<lparr>o_spans := map (\<lambda>(k, sp). (k, add_touch (touch_for ev gid ob) sp)) (o_spans ob)\<rparr>)"

section \<open>What a closed span proves\<close>

datatype span_error =
    SpanOverflow
  | UnknownAxis string
  | OnlyInjected
  | NoRefusal
  | NoLifecycle
  | NoAttribution

definition sorted_ops :: "string list \<Rightarrow> string list" where
  "sorted_ops marked = sort (remdups marked)"

text \<open>The refusals of a span, and whether an injected one was seen.\<close>

definition is_refusal :: "span_exchange \<Rightarrow> bool" where
  "is_refusal e = (\<not> (sx_synthetic e \<or> sx_status e < 400 \<or> sx_status e \<ge> 500))"

definition refused_operations :: "assert_span \<Rightarrow> span_error + string list" where
  "refused_operations sp =
     (let refusals = filter is_refusal (sp_exchanges sp);
          injectedOnly = list_ex sx_injected refusals;
          ops = map sx_operation (filter (\<lambda>e. \<not> sx_injected e) refusals) in
      if ops = [] then (if injectedOnly then Inl OnlyInjected else Inl NoRefusal)
      else Inr (sorted_ops ops))"

definition resource_key :: "store_event \<Rightarrow> string" where
  "resource_key ev = ev_provider ev @ ''|'' @ ev_kind ev @ ''|'' @ ev_id ev"

text \<open>The first loop: the resources created so far and the ones then deleted.\<close>

fun lifecycles :: "string list \<Rightarrow> string list \<Rightarrow> span_touch list \<Rightarrow> string list" where
  "lifecycles created completed [] = completed"
| "lifecycles created completed (t # ts) =
     (let k = resource_key (st_event t); a = ev_action (st_event t) in
      if a = eventCreated then lifecycles (add_new created k) completed ts
      else if a = eventDeleted \<and> k \<in> set created then lifecycles created (add_new completed k) ts
      else lifecycles created completed ts)"

definition split_resource_key :: "string \<Rightarrow> string \<times> string" where
  "split_resource_key k = (let (p, rest, _) = cut_on CHR ''|'' k in (p, fst (cut_on CHR ''|'' rest)))"

definition kind_key :: "string \<Rightarrow> string" where
  "kind_key k = (let (provider, kind) = split_resource_key k in provider @ ''|'' @ kind)"

definition kinds_of :: "string list \<Rightarrow> string list" where
  "kinds_of completed = map kind_key completed"

definition part_of_lifecycle :: "string list \<Rightarrow> span_touch \<Rightarrow> bool" where
  "part_of_lifecycle completed t =
     (if ev_action (st_event t) = eventListed
      then ev_provider (st_event t) @ ''|'' @ ev_kind (st_event t) \<in> set (kinds_of completed)
      else resource_key (st_event t) \<in> set completed)"

definition lifecycle_operations :: "assert_span \<Rightarrow> nat \<times> (span_error + string list)" where
  "lifecycle_operations sp =
     (let completed = lifecycles [] [] (sp_touches sp) in
      if completed = [] then (0, Inl NoLifecycle)
      else
        (let parts = filter (part_of_lifecycle completed) (sp_touches sp);
             unattributed = length (filter (\<lambda>t. st_operation t = []) parts);
             marked = map st_operation (filter (\<lambda>t. st_operation t \<noteq> []) parts) in
         if marked = [] then (unattributed, Inl NoAttribution)
         else (unattributed, Inr (sorted_ops marked))))"

definition close_span :: "assert_span \<Rightarrow> nat \<times> (span_error + string list)" where
  "close_span sp =
     (if sp_overflowed sp then (0, Inl SpanOverflow)
      else if sp_proves sp = provesNegative then (0, refused_operations sp)
      else if sp_proves sp = provesBehaviour then lifecycle_operations sp
      else (0, Inl (UnknownAxis (sp_proves sp))))"

text \<open>The two handlers, with the status they answer.\<close>

definition handle_assert_open :: "string + string \<Rightarrow> string \<Rightarrow> observer \<Rightarrow> observer \<times> int" where
  "handle_assert_open req new_id ob =
     (case req of
        Inl e \<Rightarrow> (ob, 400)
      | Inr proves \<Rightarrow>
          (if proves \<noteq> provesBehaviour \<and> proves \<noteq> provesNegative then (ob, 400)
           else if length (o_spans ob) \<ge> maxOpenSpans then (ob, 409)
           else
             (let spans = AList.update new_id
                    \<lparr>sp_proves = proves, sp_exchanges = [], sp_touches = [], sp_overflowed = False\<rparr> (o_spans ob)
              in (ob\<lparr>o_spans := spans, o_spans_open := length spans\<rparr>, 201))))"

definition handle_assert_close :: "string \<Rightarrow> observer \<Rightarrow> observer \<times> int \<times> nat \<times> string list" where
  "handle_assert_close span_id ob =
     (case map_of (o_spans ob) span_id of
        None \<Rightarrow> (ob, 404, 0, [])
      | Some sp \<Rightarrow>
          (let spans = AList.delete span_id (o_spans ob);
               ob1 = ob\<lparr>o_spans := spans, o_spans_open := length spans\<rparr>;
               (unattributed, result) = close_span sp in
           (case result of
              Inl e \<Rightarrow> (ob1, 409, unattributed, [])
            | Inr ops \<Rightarrow>
                (if sp_proves sp = provesNegative
                 then (ob1\<lparr>o_negative := o_negative ob1 \<union> set ops\<rparr>, 200, unattributed, ops)
                 else (ob1\<lparr>o_behaviour := o_behaviour ob1 \<union> set ops\<rparr>, 200, unattributed, ops)))))"

definition record_call :: "string \<Rightarrow> bool \<Rightarrow> observer \<Rightarrow> observer" where
  "record_call operation synthetic ob =
     (if synthetic then ob\<lparr>o_probed := (o_probed ob)(operation := o_probed ob operation + 1)\<rparr>
      else ob\<lparr>o_calls := (o_calls ob)(operation := o_calls ob operation + 1)\<rparr>)"

definition record_injected :: "string \<Rightarrow> observer \<Rightarrow> observer" where
  "record_injected operation ob = ob\<lparr>o_injected := (o_injected ob)(operation := o_injected ob operation + 1)\<rparr>"

section \<open>Requests\<close>

text \<open>
  Where a goroutine stands. A request is claimed by the injector (\<open>Serving\<close>, then its
  two counts), or recorded, identified, handled, offered to the spans and ended.
  The handler touches the store while it is handled; the injector's own call of
  a handler touches it too, in no flight. A touch reads \<open>spansOpen\<close> first and takes
  the lock later, so it can wait in between: \<open>Touching\<close> remembers where to go back.
\<close>

datatype pc =
    Idle
  | Serving string fault
  | Served string int
  | Counted string int
  | Recorded string bool
  | Identified string bool nat
  | Handling string bool nat
  | Offered string bool nat
  | Touching store_event pc

text \<open>
  The system: the observer, the armed faults, the goroutines, and two histories
  nothing reads: the exchanges offered, and the touches with the request, if any,
  the goroutine that made each was handling.
\<close>

record ev_state =
  es_obs :: observer
  es_rules :: "fault list"
  es_pcs :: "nat \<Rightarrow> pc"
  es_exchanges :: "span_exchange list"
  es_touches :: "((string \<times> bool) option \<times> span_touch) list"

definition ev_start :: ev_state where
  "ev_start = \<lparr>es_obs = new_observer, es_rules = [], es_pcs = (\<lambda>_. Idle), es_exchanges = [], es_touches = []\<rparr>"

fun handled_by :: "pc \<Rightarrow> (string \<times> bool) option" where
  "handled_by (Handling op syn token) = Some (op, syn)"
| "handled_by _ = None"

fun may_touch :: "pc \<Rightarrow> bool" where
  "may_touch Idle = True"
| "may_touch (Serving op f) = True"
| "may_touch (Handling op syn token) = True"
| "may_touch _ = False"

definition goto :: "nat \<Rightarrow> pc \<Rightarrow> ev_state \<Rightarrow> ev_state" where
  "goto g p s = s\<lparr>es_pcs := (es_pcs s)(g := p)\<rparr>"

inductive ev_step :: "ev_state \<Rightarrow> ev_state \<Rightarrow> bool" where
  ev_claim: "\<lbrakk>es_pcs s g = Idle; 0 < g; g < 2 ^ 64; fire (es_rules s) op = (rules, Some f)\<rbrakk>
     \<Longrightarrow> ev_step s (goto g (Serving op f) (s\<lparr>es_rules := rules\<rparr>))"
| ev_serve: "\<lbrakk>es_pcs s g = Serving op f; status = fst (serve_fault faulters provider op handler f gone)\<rbrakk>
     \<Longrightarrow> ev_step s (goto g (Served op status) s)"
| ev_count: "es_pcs s g = Served op status
     \<Longrightarrow> ev_step s (goto g (Counted op status) (s\<lparr>es_obs := record_injected op (es_obs s)\<rparr>))"
| ev_offer_injected: "es_pcs s g = Counted op status
     \<Longrightarrow> ev_step s (goto g Idle (s\<lparr>es_obs := offer_exchange (injected_exchange op status) (es_obs s),
           es_exchanges := es_exchanges s @ [injected_exchange op status]\<rparr>))"
| ev_record: "\<lbrakk>es_pcs s g = Idle; 0 < g; g < 2 ^ 64; fire (es_rules s) op = (rules, None)\<rbrakk>
     \<Longrightarrow> ev_step s (goto g (Recorded op False) (s\<lparr>es_obs := record_call op False (es_obs s), es_rules := rules\<rparr>))"
| ev_probe: "\<lbrakk>es_pcs s g = Idle; 0 < g; g < 2 ^ 64\<rbrakk>
     \<Longrightarrow> ev_step s (goto g (Recorded op True) (s\<lparr>es_obs := record_call op True (es_obs s)\<rparr>))"
| ev_identify: "\<lbrakk>es_pcs s g = Recorded op syn; gid = (if o_spans_open (es_obs s) > 0 then gid_of g else 0)\<rbrakk>
     \<Longrightarrow> ev_step s (goto g (Identified op syn gid) s)"
| ev_begin: "\<lbrakk>es_pcs s g = Identified op syn gid; begin_flight op syn gid (es_obs s) = (ob, token)\<rbrakk>
     \<Longrightarrow> ev_step s (goto g (Handling op syn token) (s\<lparr>es_obs := ob\<rparr>))"
| ev_sees_touch: "\<lbrakk>may_touch (es_pcs s g); 0 < g; g < 2 ^ 64; o_spans_open (es_obs s) \<noteq> 0\<rbrakk>
     \<Longrightarrow> ev_step s (goto g (Touching ev (es_pcs s g)) s)"
| ev_touch: "es_pcs s g = Touching ev p
     \<Longrightarrow> ev_step s (goto g p (s\<lparr>es_obs := store_touch ev (gid_of g) (es_obs s),
           es_touches := es_touches s @ [(handled_by p, touch_for ev (gid_of g) (es_obs s))]\<rparr>))"
| ev_offer: "\<lbrakk>es_pcs s g = Handling op syn token; e = client_exchange op status syn\<rbrakk>
     \<Longrightarrow> ev_step s (goto g (Offered op syn token) (s\<lparr>es_obs := offer_exchange e (es_obs s),
           es_exchanges := es_exchanges s @ [e]\<rparr>))"
| ev_end: "es_pcs s g = Offered op syn token
     \<Longrightarrow> ev_step s (goto g Idle (s\<lparr>es_obs := end_flight token (es_obs s)\<rparr>))"
| ev_open: "handle_assert_open req new_id (es_obs s) = (ob, status) \<Longrightarrow> ev_step s (s\<lparr>es_obs := ob\<rparr>)"
| ev_close: "handle_assert_close span_id (es_obs s) = (ob, status, unattributed, ops) \<Longrightarrow> ev_step s (s\<lparr>es_obs := ob\<rparr>)"
| ev_arm: "handle_faults_write fmul packs fault_req (es_rules s) = (rules, views) \<Longrightarrow> ev_step s (s\<lparr>es_rules := rules\<rparr>)"
| ev_disarm: "ev_step s (s\<lparr>es_rules := fst (handle_faults_clear (es_rules s))\<rparr>)"

inductive ev_reach :: "ev_state \<Rightarrow> bool" where
  ev_init: "ev_reach ev_start"
| ev_next: "ev_reach s \<Longrightarrow> ev_step s t \<Longrightarrow> ev_reach t"

section \<open>Identity\<close>

lemma digits_fold:
  assumes "n < 2 ^ 64"
  shows "foldl (\<lambda>n c. (n * 10 + digit_val c) mod 2 ^ 64) 0 (nat_digits n) = n"
  using assms
proof (induction n rule: nat_digits.induct)
  case (1 n)
  show ?case
  proof (cases "n < 10")
    case True
    then show ?thesis by (subst nat_digits.simps) simp
  next
    case False
    have "foldl (\<lambda>n c. (n * 10 + digit_val c) mod 2 ^ 64) 0 (nat_digits (n div 10)) = n div 10"
      using False 1 by simp
    then have "foldl (\<lambda>n c. (n * 10 + digit_val c) mod 2 ^ 64) 0 (nat_digits n) = (n div 10 * 10 + n mod 10) mod 2 ^ 64"
      using False by (subst nat_digits.simps) simp
    then show ?thesis using 1(2) by simp
  qed
qed

lemma length_nat_digits: "n < 10 ^ k \<Longrightarrow> 0 < k \<Longrightarrow> length (nat_digits n) \<le> k"
proof (induction n arbitrary: k rule: nat_digits.induct)
  case (1 n)
  show ?case
  proof (cases "n < 10")
    case True
    then show ?thesis using 1 by (subst nat_digits.simps) simp
  next
    case False
    obtain j where j: "k = Suc j" using 1(3) by (cases k) auto
    have "j \<noteq> 0" using 1(2) False j by (intro notI) simp
    with j have k: "k = Suc j" "0 < j" by simp_all
    have "n div 10 < 10 ^ j" using 1(2) k by (simp add: less_mult_imp_div_less mult.commute)
    then show ?thesis using 1(1) [OF False, of j] False k by (subst nat_digits.simps) simp
  qed
qed

text \<open>The identity read from the runtime's line is the goroutine's own.\<close>

lemma gid_of_own:
  assumes "g < 2 ^ 64"
  shows "gid_of g = g"
proof -
  have "g < 10 ^ 20" using assms by simp
  then have len: "length (nat_digits g) \<le> 20" using length_nat_digits [of g 20] by simp
  have "takeWhile is_digit (nat_digits g @ CHR '' '' # rest) = nat_digits g" for rest
    using nat_digits_all_digits [of g] by (simp add: takeWhile_append2)
  moreover have "take 22 (nat_digits g @ '' [running]:'') = nat_digits g @ take (22 - length (nat_digits g)) '' [running]:''"
    using len by simp
  moreover have "\<exists>rest. take (22 - length (nat_digits g)) '' [running]:'' = CHR '' '' # rest"
    using len by (cases "22 - length (nat_digits g)") auto
  ultimately have tw: "takeWhile is_digit (take 22 (nat_digits g @ '' [running]:'')) = nat_digits g" by auto
  have pre: "take 32 (stack_header g) = ''goroutine '' @ take 22 (nat_digits g @ '' [running]:'')"
    by (simp add: stack_header_def)
  have ne: "length (nat_digits g) \<le> 22" using len by simp
  show ?thesis
    unfolding gid_of_def goroutine_id_def Let_def pre using tw digits_fold [OF assms] by (simp add: min.absorb1 [OF ne])
qed

section \<open>What a span proves\<close>

lemma set_sorted_ops [simp]: "set (sorted_ops xs) = set xs"
  by (simp add: sorted_ops_def)

lemma sorted_ops_sorted: "sorted (sorted_ops xs) \<and> distinct (sorted_ops xs)"
  by (simp add: sorted_ops_def)

lemma refused_operations_Inr:
  "refused_operations sp = Inr ops \<longleftrightarrow> ops \<noteq> [] \<and>
     ops = sorted_ops (map sx_operation (filter (\<lambda>e. \<not> sx_injected e) (filter is_refusal (sp_exchanges sp))))"
proof -
  have "sorted_ops xs = [] \<longleftrightarrow> xs = []" for xs by (metis set_sorted_ops set_empty)
  then show ?thesis by (auto simp: refused_operations_def Let_def)
qed

lemma refused_set:
  "refused_operations sp = Inr ops \<Longrightarrow>
     set ops = {sx_operation e |e. e \<in> set (sp_exchanges sp) \<and> is_refusal e \<and> \<not> sx_injected e}"
  unfolding refused_operations_Inr by auto

text \<open>A resource whose creation and later deletion a list of touches shows.\<close>

definition created_then_deleted :: "string \<Rightarrow> span_touch list \<Rightarrow> bool" where
  "created_then_deleted k ts \<longleftrightarrow>
     (\<exists>us t vs u ws. ts = us @ t # vs @ u # ws \<and> ev_action (st_event t) = eventCreated \<and>
        ev_action (st_event u) = eventDeleted \<and> resource_key (st_event t) = k \<and> resource_key (st_event u) = k)"

lemma action_names [simp]:
  "eventCreated \<noteq> eventDeleted" "eventDeleted \<noteq> eventCreated" "eventListed \<noteq> eventCreated" "eventListed \<noteq> eventDeleted"
  by (simp_all add: eventCreated_def eventDeleted_def eventListed_def)

lemma lifecycles_iff:
  "k \<in> set (lifecycles created completed ts) \<longleftrightarrow>
     k \<in> set completed \<or> created_then_deleted k ts \<or>
     (k \<in> set created \<and> (\<exists>u\<in>set ts. ev_action (st_event u) = eventDeleted \<and> resource_key (st_event u) = k))"
proof (induction ts arbitrary: created completed)
  case (Cons t ts)
  have cons: "created_then_deleted k (t # ts) \<longleftrightarrow> created_then_deleted k ts \<or>
      (ev_action (st_event t) = eventCreated \<and> resource_key (st_event t) = k \<and>
       (\<exists>u\<in>set ts. ev_action (st_event u) = eventDeleted \<and> resource_key (st_event u) = k))" (is "?l \<longleftrightarrow> ?r")
  proof
    assume ?l
    then obtain us x vs u ws where *: "t # ts = us @ x # vs @ u # ws" "ev_action (st_event x) = eventCreated"
      "ev_action (st_event u) = eventDeleted" "resource_key (st_event x) = k" "resource_key (st_event u) = k"
      unfolding created_then_deleted_def by blast
    then show ?r
    proof (cases us)
      case (Cons y ys)
      then have "ts = ys @ x # vs @ u # ws" using *(1) by simp
      with *(2-5) have "created_then_deleted k ts" unfolding created_then_deleted_def by blast
      then show ?thesis by blast
    qed auto
  next
    assume ?r
    then show ?l
    proof
      assume "created_then_deleted k ts"
      then show ?l unfolding created_then_deleted_def by (metis append_Cons)
    next
      assume *: "ev_action (st_event t) = eventCreated \<and> resource_key (st_event t) = k \<and>
        (\<exists>u\<in>set ts. ev_action (st_event u) = eventDeleted \<and> resource_key (st_event u) = k)"
      then obtain u vs ws where "ts = vs @ u # ws" "ev_action (st_event u) = eventDeleted" "resource_key (st_event u) = k"
        by (metis split_list)
      with * show ?l unfolding created_then_deleted_def by (metis append_Nil)
    qed
  qed
  show ?case unfolding cons by (auto simp: Let_def Cons.IH)
qed (simp add: created_then_deleted_def)

lemma completed_iff: "k \<in> set (lifecycles [] [] ts) \<longleftrightarrow> created_then_deleted k ts"
  by (simp add: lifecycles_iff)

lemma created_then_deleted_subseq:
  assumes "subseq ts us" "created_then_deleted k ts"
  shows "created_then_deleted k us"
proof -
  obtain as t bs u cs where t: "ts = as @ t # bs @ u # cs" "ev_action (st_event t) = eventCreated"
    "ev_action (st_event u) = eventDeleted" "resource_key (st_event t) = k" "resource_key (st_event u) = k"
    using assms(2) unfolding created_then_deleted_def by blast
  have "subseq [t, u] (t # bs @ u # cs)" by (simp add: subseq_singleton_left)
  then have "subseq [t, u] ts" unfolding t(1) by (rule list_emb_append2)
  then have "subseq [t, u] us" using assms(1) by (rule subseq_order.order_trans)
  then obtain xs ys where s: "us = xs @ t # ys" "subseq [u] ys" by (auto dest: list_emb_ConsD)
  then obtain zs ws where "ys = zs @ u # ws" by (meson subseq_singleton_left split_list)
  with s t(2-5) show ?thesis unfolding created_then_deleted_def by metis
qed

section \<open>The invariants\<close>

text \<open>What an open span may hold, and that \<open>spansOpen\<close> counts them.\<close>

definition span_within :: "span_exchange list \<Rightarrow> span_touch list \<Rightarrow> assert_span \<Rightarrow> bool" where
  "span_within xs ts sp \<longleftrightarrow> length (sp_exchanges sp) + length (sp_touches sp) \<le> maxSpanEntries \<and>
     set (sp_exchanges sp) \<subseteq> set xs \<and> subseq (sp_touches sp) ts"

definition spans_inv :: "ev_state \<Rightarrow> bool" where
  "spans_inv s \<longleftrightarrow>
     o_spans_open (es_obs s) = length (o_spans (es_obs s)) \<and> length (o_spans (es_obs s)) \<le> maxOpenSpans \<and>
     (\<forall>(k, sp)\<in>set (o_spans (es_obs s)). span_within (es_exchanges s) (map snd (es_touches s)) sp)"

lemma goto_simps [simp]:
  "es_obs (goto g p s) = es_obs s" "es_rules (goto g p s) = es_rules s"
  "es_exchanges (goto g p s) = es_exchanges s" "es_touches (goto g p s) = es_touches s"
  "es_pcs (goto g p s) = (es_pcs s)(g := p)"
  by (simp_all add: goto_def)

lemma set_alist_update: "(k', v') \<in> set (AList.update k v xs) \<Longrightarrow> (k', v') = (k, v) \<or> (k', v') \<in> set xs"
  by (induction xs) (auto split: if_splits)

lemma length_alist_update: "length (AList.update k v xs) \<le> Suc (length xs)"
  by (induction xs) auto

lemma set_alist_delete: "(k', v') \<in> set (AList.delete k xs) \<longleftrightarrow> k' \<noteq> k \<and> (k', v') \<in> set xs"
  by (auto simp: AList.delete_eq)

lemma length_alist_delete: "length (AList.delete k xs) \<le> length xs"
  by (simp add: AList.delete_eq)

lemma span_within_exchange:
  "span_within xs ts sp \<Longrightarrow> span_within (xs @ [e]) ts (add_exchange e sp)"
  by (cases "span_full sp") (auto simp: span_within_def add_exchange_def span_full_def)

lemma span_within_touch:
  "span_within xs ts sp \<Longrightarrow> span_within xs (ts @ [t]) (add_touch t sp)"
  by (cases "span_full sp")
    (auto simp: span_within_def add_touch_def span_full_def intro: list_emb_append_mono list_emb_prefix)

lemma offer_exchange_inv:
  assumes "spans_inv s" "es_obs t = offer_exchange e (es_obs s)"
    "es_exchanges t = es_exchanges s @ [e]" "es_touches t = es_touches s"
  shows "spans_inv t"
  using assms span_within_exchange by (fastforce simp: spans_inv_def offer_exchange_def)

lemma store_touch_inv:
  assumes "spans_inv s" "es_obs t = store_touch ev gid (es_obs s)"
    "es_exchanges t = es_exchanges s" "es_touches t = es_touches s @ [(r, touch_for ev gid (es_obs s))]"
  shows "spans_inv t"
  using assms span_within_touch by (fastforce simp: spans_inv_def store_touch_def)

lemma obs_same_spans:
  assumes "spans_inv s" "o_spans (es_obs t) = o_spans (es_obs s)" "o_spans_open (es_obs t) = o_spans_open (es_obs s)"
    "es_exchanges t = es_exchanges s" "es_touches t = es_touches s"
  shows "spans_inv t"
  using assms by (simp add: spans_inv_def)

lemma assert_open_inv:
  assumes "spans_inv s" "handle_assert_open req new_id (es_obs s) = (ob, status)"
  shows "spans_inv (s\<lparr>es_obs := ob\<rparr>)"
proof (cases "ob = es_obs s")
  case True
  then show ?thesis using assms(1) by (simp add: spans_inv_def)
next
  case False
  then obtain proves where ob: "length (o_spans (es_obs s)) < maxOpenSpans"
    "o_spans ob = AList.update new_id \<lparr>sp_proves = proves, sp_exchanges = [], sp_touches = [], sp_overflowed = False\<rparr> (o_spans (es_obs s))"
    "o_spans_open ob = length (o_spans ob)"
    using assms(2) by (auto simp: handle_assert_open_def Let_def split: sum.splits if_splits)
  let ?sp = "\<lparr>sp_proves = proves, sp_exchanges = [], sp_touches = [], sp_overflowed = False\<rparr>"
  have "length (o_spans ob) \<le> maxOpenSpans"
    using ob(1) length_alist_update [of new_id ?sp "o_spans (es_obs s)"] unfolding ob(2) by linarith
  moreover have "span_within xs ts ?sp" for xs ts by (simp add: span_within_def)
  ultimately show ?thesis
    using assms(1) ob(3) unfolding spans_inv_def by (auto simp: ob(2) dest!: set_alist_update)
qed

lemma assert_close_fields:
  assumes "handle_assert_close span_id ob = (ob', status, unattributed, ops)"
  shows "ob' = ob \<or> (o_spans ob' = AList.delete span_id (o_spans ob) \<and> o_spans_open ob' = length (o_spans ob'))"
    "o_flight ob' = o_flight ob"
  using assms by (auto simp: handle_assert_close_def Let_def split: option.splits sum.splits if_splits prod.splits)

lemma assert_close_inv:
  assumes "spans_inv s" "handle_assert_close span_id (es_obs s) = (ob, status, unattributed, ops)"
  shows "spans_inv (s\<lparr>es_obs := ob\<rparr>)"
  using assert_close_fields(1) [OF assms(2)]
proof
  assume "ob = es_obs s"
  then show ?thesis using assms(1) by (simp add: spans_inv_def)
next
  assume ob: "o_spans ob = AList.delete span_id (o_spans (es_obs s)) \<and> o_spans_open ob = length (o_spans ob)"
  then show ?thesis
    using assms(1) length_alist_delete [of span_id "o_spans (es_obs s)"]
    by (auto simp: spans_inv_def set_alist_delete)
qed

lemma spans_inv_step: "ev_step s t \<Longrightarrow> spans_inv s \<Longrightarrow> spans_inv t"
proof (induction rule: ev_step.induct)
  case (ev_offer_injected s g op status)
  then show ?case by (auto intro: offer_exchange_inv)
next
  case (ev_offer s g op syn token e status)
  then show ?case by (auto intro: offer_exchange_inv)
next
  case (ev_touch s g ev p)
  then show ?case by (auto intro: store_touch_inv)
next
  case (ev_open req new_id s ob status)
  then show ?case by (blast intro: assert_open_inv)
next
  case (ev_close span_id s ob status unattributed ops)
  then show ?case by (blast intro: assert_close_inv)
qed (auto simp: spans_inv_def record_injected_def record_call_def begin_flight_def end_flight_def Let_def)

lemma spans_inv_reach: "ev_reach s \<Longrightarrow> spans_inv s"
proof (induction rule: ev_reach.induct)
  case ev_init
  then show ?case by (simp add: spans_inv_def ev_start_def new_observer_def)
qed (rule spans_inv_step)

text \<open>Every flight has the request that made it, on the goroutine it names or on none.\<close>

fun flying :: "pc \<Rightarrow> (string \<times> bool \<times> nat) option" where
  "flying (Handling op syn token) = Some (op, syn, token)"
| "flying (Offered op syn token) = Some (op, syn, token)"
| "flying (Touching ev p) = flying p"
| "flying _ = None"

fun pc_ok :: "nat \<Rightarrow> pc \<Rightarrow> bool" where
  "pc_ok g Idle = True"
| "pc_ok g (Identified op syn gid) = (0 < g \<and> g < 2 ^ 64 \<and> (gid = 0 \<or> gid = g))"
| "pc_ok g (Touching ev p) = (0 < g \<and> g < 2 ^ 64 \<and> may_touch p)"
| "pc_ok g _ = (0 < g \<and> g < 2 ^ 64)"

definition flights_inv :: "ev_state \<Rightarrow> bool" where
  "flights_inv s \<longleftrightarrow> (\<forall>g. pc_ok g (es_pcs s g)) \<and>
     (\<forall>(token, f)\<in>set (o_flight (es_obs s)). \<exists>g.
        flying (es_pcs s g) = Some (fl_operation f, fl_synthetic f, token) \<and> fl_goroutine f \<in> {0, g})"

lemma flights_invI:
  assumes "flights_inv s"
    and "\<And>h. h \<noteq> g \<Longrightarrow> es_pcs t h = es_pcs s h" "pc_ok g (es_pcs t g)"
    and "\<And>token f. (token, f) \<in> set (o_flight (es_obs t)) \<Longrightarrow>
       ((token, f) \<in> set (o_flight (es_obs s)) \<and>
         (flying (es_pcs s g) = Some (fl_operation f, fl_synthetic f, token) \<longrightarrow> flying (es_pcs t g) = flying (es_pcs s g))) \<or>
       (flying (es_pcs t g) = Some (fl_operation f, fl_synthetic f, token) \<and> fl_goroutine f \<in> {0, g})"
  shows "flights_inv t"
  unfolding flights_inv_def
proof (intro conjI allI ballI, goal_cases)
  case (1 h)
  then show ?case using assms(1,2,3) by (cases "h = g") (auto simp: flights_inv_def)
next
  case (2 tf)
  obtain token f where tf: "tf = (token, f)" by (cases tf)
  with assms(4) 2 consider (old) "(token, f) \<in> set (o_flight (es_obs s))"
      "flying (es_pcs s g) = Some (fl_operation f, fl_synthetic f, token) \<longrightarrow> flying (es_pcs t g) = flying (es_pcs s g)"
    | (new) "flying (es_pcs t g) = Some (fl_operation f, fl_synthetic f, token)" "fl_goroutine f \<in> {0, g}" by blast
  then show ?case unfolding tf prod.case
  proof cases
    case old
    then obtain h where h: "flying (es_pcs s h) = Some (fl_operation f, fl_synthetic f, token)" "fl_goroutine f \<in> {0, h}"
      using assms(1) by (auto simp: flights_inv_def)
    have "flying (es_pcs t h) = flying (es_pcs s h)" using assms(2) [of h] old(2) h(1) by (cases "h = g") auto
    with h show "\<exists>g. flying (es_pcs t g) = Some (fl_operation f, fl_synthetic f, token) \<and> fl_goroutine f \<in> {0, g}" by metis
  qed blast
qed

lemma store_touch_flight [simp]: "o_flight (store_touch ev gid ob) = o_flight ob"
  by (simp add: store_touch_def)

lemma offer_exchange_flight [simp]: "o_flight (offer_exchange e ob) = o_flight ob"
  by (simp add: offer_exchange_def)

lemma record_flight [simp]:
  "o_flight (record_call op syn ob) = o_flight ob" "o_flight (record_injected op ob) = o_flight ob"
  by (simp_all add: record_call_def record_injected_def)

lemma assert_open_flight: "handle_assert_open req new_id ob = (ob', status) \<Longrightarrow> o_flight ob' = o_flight ob"
  by (auto simp: handle_assert_open_def Let_def split: sum.splits if_splits)

lemma pc_ok_inside: "may_touch p \<Longrightarrow> 0 < g \<Longrightarrow> g < 2 ^ 64 \<Longrightarrow> pc_ok g p"
  by (cases p) auto

lemma flights_inv_step: "ev_step s t \<Longrightarrow> flights_inv s \<Longrightarrow> flights_inv t"
proof (induction rule: ev_step.induct)
  case (ev_claim s g op rules f)
  then show ?case by - (rule flights_invI [where g = g and s = s], auto)
next
  case (ev_serve s g op f status faulters provider handler gone)
  then have "pc_ok g (Serving op f)" by (metis flights_inv_def)
  with ev_serve show ?case by - (rule flights_invI [where g = g and s = s], auto)
next
  case (ev_count s g op status)
  then have "pc_ok g (Served op status)" by (metis flights_inv_def)
  with ev_count show ?case by - (rule flights_invI [where g = g and s = s], auto)
next
  case (ev_offer_injected s g op status)
  then show ?case by - (rule flights_invI [where g = g and s = s], auto)
next
  case (ev_record s g op rules)
  then show ?case by - (rule flights_invI [where g = g and s = s], auto)
next
  case (ev_probe s g op)
  then show ?case by - (rule flights_invI [where g = g and s = s], auto)
next
  case (ev_identify s g op syn gid)
  then have "pc_ok g (Recorded op syn)" by (metis flights_inv_def)
  with ev_identify show ?case by - (rule flights_invI [where g = g and s = s], auto simp: gid_of_own)
next
  case (ev_begin s g op syn gid ob token)
  then have "pc_ok g (Identified op syn gid)" by (metis flights_inv_def)
  with ev_begin show ?case
    by - (rule flights_invI [where g = g and s = s], auto simp: begin_flight_def Let_def dest!: set_alist_update)
next
  case (ev_sees_touch s g ev)
  then show ?case by - (rule flights_invI [where g = g and s = s], auto)
next
  case (ev_touch s g ev p)
  then have "pc_ok g (Touching ev p)" by (metis flights_inv_def)
  then have "pc_ok g p" using pc_ok_inside by simp
  with ev_touch show ?case by - (rule flights_invI [where g = g and s = s], auto)
next
  case (ev_offer s g op syn token e status)
  then have "pc_ok g (Handling op syn token)" by (metis flights_inv_def)
  with ev_offer show ?case by - (rule flights_invI [where g = g and s = s], auto)
next
  case (ev_end s g op syn token)
  then show ?case by - (rule flights_invI [where g = g and s = s], auto simp: end_flight_def set_alist_delete)
next
  case (ev_open req new_id s ob status)
  then show ?case by (auto simp: flights_inv_def assert_open_flight)
next
  case (ev_close span_id s ob status unattributed ops)
  then show ?case using assert_close_fields(2) by (auto simp: flights_inv_def)
qed (auto simp: flights_inv_def)

lemma flights_inv_reach: "ev_reach s \<Longrightarrow> flights_inv s"
proof (induction rule: ev_reach.induct)
  case ev_init
  then show ?case by (simp add: flights_inv_def ev_start_def new_observer_def)
qed (rule flights_inv_step)

text \<open>What the attribution finds is a flight of that goroutine that is not the probe's.\<close>

lemma attribute_loop_found:
  "attribute_loop gid found last_token fs = found \<or> attribute_loop gid found last_token fs = [] \<or>
     (\<exists>(token, f)\<in>set fs. fl_goroutine f = gid \<and> \<not> fl_synthetic f \<and> fl_operation f = attribute_loop gid found last_token fs)"
proof (induction gid found last_token fs rule: attribute_loop.induct)
  case (2 gid found last_token token f rest)
  then show ?case by (auto split: if_splits)
qed simp

text \<open>A touch recorded with no operation, or with that of the client request its goroutine was handling.\<close>

definition credited :: "(string \<times> bool) option \<times> span_touch \<Rightarrow> bool" where
  "credited rt = (st_operation (snd rt) = [] \<or> fst rt = Some (st_operation (snd rt), False))"

lemma touch_for_credited:
  assumes "flights_inv s" "es_pcs s g = Touching ev p"
  shows "credited (handled_by p, touch_for ev (gid_of g) (es_obs s))"
proof -
  have ok: "0 < g" "g < 2 ^ 64" "may_touch p" using assms by (metis flights_inv_def pc_ok.simps(3))+
  let ?op = "attributed_operation (gid_of g) (es_obs s)"
  have "?op = [] \<or> (\<exists>(token, f)\<in>set (o_flight (es_obs s)). fl_goroutine f = g \<and> \<not> fl_synthetic f \<and> fl_operation f = ?op)"
    using attribute_loop_found [of g "[]" 0 "o_flight (es_obs s)"] ok(1)
    by (auto simp: attributed_operation_def gid_of_own [OF ok(2)])
  then show ?thesis
  proof
    assume "\<exists>(token, f)\<in>set (o_flight (es_obs s)). fl_goroutine f = g \<and> \<not> fl_synthetic f \<and> fl_operation f = ?op"
    then obtain token f where f: "(token, f) \<in> set (o_flight (es_obs s))" "fl_goroutine f = g" "\<not> fl_synthetic f" "fl_operation f = ?op"
      by blast
    then have "flying (es_pcs s g) = Some (?op, False, token)"
      using assms(1) ok(1) by (fastforce simp: flights_inv_def)
    then have "handled_by p = Some (?op, False)" using assms(2) ok(3) by (cases p) auto
    then show ?thesis by (simp add: credited_def touch_for_def)
  qed (simp add: credited_def touch_for_def)
qed

lemma credited_reach: "ev_reach s \<Longrightarrow> \<forall>rt\<in>set (es_touches s). credited rt"
proof (induction rule: ev_reach.induct)
  case ev_init
  then show ?case by (simp add: ev_start_def)
next
  case (ev_next s t)
  from ev_next.hyps(2) ev_next.IH flights_inv_reach [OF ev_next.hyps(1)] show ?case
  proof (induction rule: ev_step.induct)
    case (ev_touch s g ev p)
    then show ?case using touch_for_credited [of s g ev p] by auto
  qed simp_all
qed

text \<open>
  A touch is credited to the request that made it or to nobody: in every
  interleaving, the operation a touch is recorded with is empty or is that of the
  client request the touching goroutine was handling, never another request's in
  flight beside it, never the probe's, and never one the injector served.
\<close>

theorem touches_are_credited_to_their_request:
  assumes "ev_reach s" "(request, t) \<in> set (es_touches s)"
  shows "st_operation t = [] \<or> request = Some (st_operation t, False)"
  using credited_reach [OF assms(1)] assms(2) by (auto simp: credited_def)

section \<open>What an axis says\<close>

definition demanded_refusal :: "span_exchange list \<Rightarrow> string \<Rightarrow> bool" where
  "demanded_refusal xs op \<longleftrightarrow>
     (\<exists>e\<in>set xs. sx_operation e = op \<and> 400 \<le> sx_status e \<and> sx_status e < 500 \<and> \<not> sx_synthetic e \<and> \<not> sx_injected e)"

definition lifecycle_touch :: "span_touch list \<Rightarrow> span_touch \<Rightarrow> bool" where
  "lifecycle_touch ts t \<longleftrightarrow>
     (if ev_action (st_event t) = eventListed
      then \<exists>k. created_then_deleted k ts \<and> kind_key k = ev_provider (st_event t) @ ''|'' @ ev_kind (st_event t)
      else created_then_deleted (resource_key (st_event t)) ts)"

lemma part_of_lifecycle_iff: "part_of_lifecycle (lifecycles [] [] ts) t = lifecycle_touch ts t"
  by (auto simp: part_of_lifecycle_def lifecycle_touch_def kinds_of_def image_iff Bex_def completed_iff)

lemma lifecycle_touch_subseq: "subseq ts us \<Longrightarrow> lifecycle_touch ts t \<Longrightarrow> lifecycle_touch us t"
  using created_then_deleted_subseq by (auto simp: lifecycle_touch_def split: if_splits)

lemma lifecycle_operations_set:
  assumes "lifecycle_operations sp = (n, Inr ops)"
  shows "set ops = {st_operation t |t. t \<in> set (sp_touches sp) \<and> st_operation t \<noteq> [] \<and> lifecycle_touch (sp_touches sp) t}"
    "n = length (filter (\<lambda>t. st_operation t = [] \<and> lifecycle_touch (sp_touches sp) t) (sp_touches sp))"
proof -
  have c: "lifecycle_operations sp = (n, Inr ops) \<Longrightarrow>
      ops = sorted_ops (map st_operation (filter (\<lambda>t. st_operation t \<noteq> [])
        (filter (lifecycle_touch (sp_touches sp)) (sp_touches sp)))) \<and>
      n = length (filter (\<lambda>t. st_operation t = []) (filter (lifecycle_touch (sp_touches sp)) (sp_touches sp)))"
    by (simp add: lifecycle_operations_def Let_def part_of_lifecycle_iff [abs_def] split: if_splits)
  show "set ops = {st_operation t |t. t \<in> set (sp_touches sp) \<and> st_operation t \<noteq> [] \<and> lifecycle_touch (sp_touches sp) t}"
    "n = length (filter (\<lambda>t. st_operation t = [] \<and> lifecycle_touch (sp_touches sp) t) (sp_touches sp))"
    using c [OF assms] by (auto simp: conj_commute)
qed

definition axes_inv :: "ev_state \<Rightarrow> bool" where
  "axes_inv s \<longleftrightarrow> (\<forall>op\<in>o_negative (es_obs s). demanded_refusal (es_exchanges s) op) \<and>
     (\<forall>op\<in>o_behaviour (es_obs s). \<exists>t\<in>set (map snd (es_touches s)).
        st_operation t = op \<and> op \<noteq> [] \<and> lifecycle_touch (map snd (es_touches s)) t)"

lemma axes_inv_grow:
  assumes "axes_inv s" "o_negative (es_obs t) = o_negative (es_obs s)" "o_behaviour (es_obs t) = o_behaviour (es_obs s)"
    "set (es_exchanges s) \<subseteq> set (es_exchanges t)" "\<exists>zs. es_touches t = es_touches s @ zs"
  shows "axes_inv t"
proof -
  obtain zs where zs: "es_touches t = es_touches s @ zs" using assms(5) by blast
  have sub: "subseq (map snd (es_touches s)) (map snd (es_touches t))"
    unfolding zs by (simp add: list_emb_prefix)
  show ?thesis unfolding axes_inv_def assms(2,3)
  proof (intro conjI ballI)
    fix op assume "op \<in> o_negative (es_obs s)"
    then show "demanded_refusal (es_exchanges t) op"
      using assms(1,4) unfolding axes_inv_def demanded_refusal_def by blast
  next
    fix op assume "op \<in> o_behaviour (es_obs s)"
    then obtain u where u: "u \<in> set (map snd (es_touches s))" "st_operation u = op" "op \<noteq> []"
      "lifecycle_touch (map snd (es_touches s)) u"
      using assms(1) unfolding axes_inv_def by blast
    have "u \<in> set (map snd (es_touches t))" using u(1) zs by auto
    with u lifecycle_touch_subseq [OF sub u(4)]
    show "\<exists>t'\<in>set (map snd (es_touches t)). st_operation t' = op \<and> op \<noteq> [] \<and> lifecycle_touch (map snd (es_touches t)) t'"
      by blast
  qed
qed

lemma axes_inv_close:
  assumes "axes_inv s" "spans_inv s" "handle_assert_close span_id (es_obs s) = (ob, status, unattributed, ops)"
  shows "axes_inv (s\<lparr>es_obs := ob\<rparr>)"
proof -
  consider (same) "o_negative ob = o_negative (es_obs s)" "o_behaviour ob = o_behaviour (es_obs s)"
    | (neg) sp where "map_of (o_spans (es_obs s)) span_id = Some sp" "refused_operations sp = Inr ops"
        "o_negative ob = o_negative (es_obs s) \<union> set ops" "o_behaviour ob = o_behaviour (es_obs s)"
    | (beh) sp n where "map_of (o_spans (es_obs s)) span_id = Some sp" "lifecycle_operations sp = (n, Inr ops)"
        "o_negative ob = o_negative (es_obs s)" "o_behaviour ob = o_behaviour (es_obs s) \<union> set ops"
    using assms(3)
    by (auto simp: handle_assert_close_def close_span_def Let_def split: option.splits sum.splits if_splits prod.splits)
  then show ?thesis
  proof cases
    case same
    then show ?thesis using assms(1) by (simp add: axes_inv_def)
  next
    case neg
    then have "span_within (es_exchanges s) (map snd (es_touches s)) sp"
      using assms(2) map_of_SomeD [OF neg(1)] by (auto simp: spans_inv_def)
    then have "\<forall>op\<in>set ops. demanded_refusal (es_exchanges s) op"
      unfolding refused_set [OF neg(2)] by (fastforce simp: span_within_def demanded_refusal_def is_refusal_def)
    then show ?thesis using assms(1) neg(3,4) by (auto simp: axes_inv_def)
  next
    case beh
    then have w: "span_within (es_exchanges s) (map snd (es_touches s)) sp"
      using assms(2) map_of_SomeD [OF beh(1)] by (auto simp: spans_inv_def)
    have "\<exists>t\<in>set (map snd (es_touches s)). st_operation t = op \<and> op \<noteq> [] \<and> lifecycle_touch (map snd (es_touches s)) t"
      if op: "op \<in> set ops" for op
    proof -
      obtain t where t: "t \<in> set (sp_touches sp)" "st_operation t = op" "op \<noteq> []" "lifecycle_touch (sp_touches sp) t"
        using op unfolding lifecycle_operations_set(1) [OF beh(2)] by blast
      have sub: "subseq (sp_touches sp) (map snd (es_touches s))" using w by (simp add: span_within_def)
      show ?thesis using t lifecycle_touch_subseq [OF sub t(4)] list_emb_set [OF sub t(1)] by auto
    qed
    then show ?thesis using assms(1) beh(3,4) by (auto simp: axes_inv_def)
  qed
qed

lemma axes_inv_step: "ev_step s t \<Longrightarrow> spans_inv s \<Longrightarrow> axes_inv s \<Longrightarrow> axes_inv t"
proof (induction rule: ev_step.induct)
  case (ev_close span_id s ob status unattributed ops)
  then show ?case using axes_inv_close by blast
next
  case (ev_open req new_id s ob status)
  then have "o_negative ob = o_negative (es_obs s)" "o_behaviour ob = o_behaviour (es_obs s)"
    by (auto simp: handle_assert_open_def Let_def split: sum.splits if_splits)
  with ev_open show ?case by (simp add: axes_inv_def)
next
  case (ev_begin s g op syn gid ob token)
  then have "o_negative ob = o_negative (es_obs s)" "o_behaviour ob = o_behaviour (es_obs s)"
    by (auto simp: begin_flight_def Let_def)
  with ev_begin show ?case by (simp add: axes_inv_def)
qed ((erule axes_inv_grow; auto simp: record_injected_def record_call_def offer_exchange_def store_touch_def end_flight_def)+)

lemma axes_inv_reach: "ev_reach s \<Longrightarrow> axes_inv s"
proof (induction rule: ev_reach.induct)
  case ev_init
  then show ?case by (simp add: axes_inv_def ev_start_def new_observer_def)
next
  case (ev_next s t)
  then show ?case using axes_inv_step spans_inv_reach by blast
qed

text \<open>
  C33. The negative axis is earned by refusals clients met, and by nothing that can be
  staged: whatever spans are opened and closed, whatever is armed and however
  requests interleave, an operation on that axis was answered with a 4xx by its
  own handler, to a client and not to the probe, and not by the injector.
\<close>

theorem negative_axis_is_a_demanded_refusal:
  assumes "ev_reach s" "op \<in> o_negative (es_obs s)"
  shows "\<exists>e\<in>set (es_exchanges s). sx_operation e = op \<and> 400 \<le> sx_status e \<and> sx_status e < 500 \<and>
    \<not> sx_synthetic e \<and> \<not> sx_injected e"
  using axes_inv_reach [OF assms(1)] assms(2) by (auto simp: axes_inv_def demanded_refusal_def)


text \<open>
  C35. What spans can hold is bounded: at most 32 are open, the counter read without
  the lock says how many, and none holds more than 8192 lines, all of them lines
  that were really observed, in the order they were.
\<close>

theorem open_spans_are_bounded:
  assumes "ev_reach s"
  shows "length (o_spans (es_obs s)) \<le> 32 \<and> o_spans_open (es_obs s) = length (o_spans (es_obs s)) \<and>
    (\<forall>(k, sp)\<in>set (o_spans (es_obs s)). length (sp_exchanges sp) + length (sp_touches sp) \<le> 8192 \<and>
       set (sp_exchanges sp) \<subseteq> set (es_exchanges s) \<and> subseq (sp_touches sp) (map snd (es_touches s)))"
  using spans_inv_reach [OF assms] by (auto simp: spans_inv_def span_within_def maxOpenSpans_def maxSpanEntries_def)

section \<open>Witnesses\<close>

text \<open>A suite opens both spans, a client creates and deletes a server through one refused call, and the suite closes them.\<close>

definition server_event :: "string \<Rightarrow> store_event" where
  "server_event a = \<lparr>ev_action = a, ev_provider = ''p'', ev_kind = ''server'', ev_id = ''1''\<rparr>"

definition w1 :: ev_state where "w1 = ev_start\<lparr>es_obs := fst (handle_assert_open (Inr provesNegative) ''n'' (es_obs ev_start))\<rparr>"
definition w2 :: ev_state where "w2 = w1\<lparr>es_obs := fst (handle_assert_open (Inr provesBehaviour) ''b'' (es_obs w1))\<rparr>"
definition w3 :: ev_state where "w3 = goto 1 (Recorded ''op'' False) (w2\<lparr>es_obs := record_call ''op'' False (es_obs w2), es_rules := []\<rparr>)"
definition w4 :: ev_state where "w4 = goto 1 (Identified ''op'' False 1) w3"
definition w5 :: ev_state where "w5 = goto 1 (Handling ''op'' False 1) (w4\<lparr>es_obs := fst (begin_flight ''op'' False 1 (es_obs w4))\<rparr>)"

definition touch_state :: "string \<Rightarrow> ev_state \<Rightarrow> ev_state" where
  "touch_state a s = goto 1 (Handling ''op'' False 1)
     ((goto 1 (Touching (server_event a) (Handling ''op'' False 1)) s)\<lparr>es_obs := store_touch (server_event a) 1 (es_obs s),
       es_touches := es_touches s @ [(Some (''op'', False), touch_for (server_event a) 1 (es_obs s))]\<rparr>)"

definition w9 :: ev_state where "w9 = touch_state eventDeleted (touch_state eventCreated w5)"
definition w10 :: ev_state where
  "w10 = goto 1 (Offered ''op'' False 1) (w9\<lparr>es_obs := offer_exchange (client_exchange ''op'' 404 False) (es_obs w9),
     es_exchanges := es_exchanges w9 @ [client_exchange ''op'' 404 False]\<rparr>)"
definition w11 :: ev_state where "w11 = w10\<lparr>es_obs := fst (handle_assert_close ''n'' (es_obs w10))\<rparr>"
definition w12 :: ev_state where "w12 = w11\<lparr>es_obs := fst (handle_assert_close ''b'' (es_obs w11))\<rparr>"

lemma open_reach: "ev_reach s \<Longrightarrow> ev_reach (s\<lparr>es_obs := fst (handle_assert_open req n (es_obs s))\<rparr>)"
  by (rule ev_next, assumption, rule ev_open, rule prod.collapse [symmetric])

lemma close_reach: "ev_reach s \<Longrightarrow> ev_reach (s\<lparr>es_obs := fst (handle_assert_close n (es_obs s))\<rparr>)"
  by (cases "handle_assert_close n (es_obs s)") (auto intro: ev_next ev_close)

lemma touch_reach:
  assumes "ev_reach s" "es_pcs s 1 = Handling ''op'' False 1" "o_spans_open (es_obs s) \<noteq> 0"
  shows "ev_reach (touch_state a s)"
proof -
  let ?ev = "server_event a"
  have "ev_step s (goto 1 (Touching ?ev (es_pcs s 1)) s)" by (rule ev_sees_touch) (use assms in auto)
  from ev_next [OF assms(1) this] have r: "ev_reach (goto 1 (Touching ?ev (Handling ''op'' False 1)) s)" by (simp only: assms(2))
  have "es_pcs (goto 1 (Touching ?ev (Handling ''op'' False 1)) s) 1 = Touching ?ev (Handling ''op'' False 1)" by simp
  from ev_next [OF r ev_touch [OF this]] show ?thesis
    using gid_of_own [of 1] by (simp add: touch_state_def)
qed

lemma w_reach: "ev_reach w5"
proof -
  have 2: "ev_reach w2" unfolding w2_def w1_def by (intro open_reach ev_init)
  have "ev_step w2 w3" unfolding w3_def by (rule ev_record) (simp_all add: w2_def w1_def ev_start_def)
  with 2 have 3: "ev_reach w3" by (rule ev_next)
  have "ev_step w3 w4" unfolding w4_def
    by (rule ev_identify) (use gid_of_own [of 1] in \<open>simp_all add: w3_def w2_def w1_def record_call_def ev_start_def
        handle_assert_open_def new_observer_def maxOpenSpans_def\<close>)
  with 3 have 4: "ev_reach w4" by (rule ev_next)
  have "ev_step w4 w5" unfolding w5_def
    by (rule ev_begin) (simp_all add: w4_def w3_def w2_def w1_def record_call_def ev_start_def
        handle_assert_open_def new_observer_def maxOpenSpans_def begin_flight_def Let_def)
  with 4 show ?thesis by (rule ev_next)
qed

lemmas w_eval = w5_def w4_def w3_def w2_def w1_def record_call_def ev_start_def handle_assert_open_def
  new_observer_def maxOpenSpans_def begin_flight_def touch_state_def store_touch_def touch_for_def
  attributed_operation_def add_touch_def span_full_def maxSpanEntries_def

lemma w5_fields:
  "es_pcs w5 1 = Handling ''op'' False 1" "o_spans_open (es_obs w5) \<noteq> 0"
  by (simp_all add: w_eval Let_def)

lemma w9_reach: "ev_reach w9"
  unfolding w9_def
proof (intro touch_reach w_reach w5_fields)
  show "es_pcs (touch_state eventCreated w5) 1 = Handling ''op'' False 1" by (simp add: touch_state_def)
  show "o_spans_open (es_obs (touch_state eventCreated w5)) \<noteq> 0"
    using w5_fields(2) by (simp add: touch_state_def store_touch_def)
qed

lemma w12_reach: "ev_reach w12"
proof -
  have "ev_step w9 w10" unfolding w10_def
    by (rule ev_offer) (simp_all add: w9_def touch_state_def)
  with w9_reach have "ev_reach w10" by (rule ev_next)
  then show ?thesis unfolding w12_def w11_def by (intro close_reach)
qed

lemma w9_fields:
  "o_spans (es_obs w9) =
    [(''n'', \<lparr>sp_proves = provesNegative, sp_exchanges = [], sp_touches =
        [\<lparr>st_operation = ''op'', st_event = server_event eventCreated\<rparr>, \<lparr>st_operation = ''op'', st_event = server_event eventDeleted\<rparr>],
        sp_overflowed = False\<rparr>),
     (''b'', \<lparr>sp_proves = provesBehaviour, sp_exchanges = [], sp_touches =
        [\<lparr>st_operation = ''op'', st_event = server_event eventCreated\<rparr>, \<lparr>st_operation = ''op'', st_event = server_event eventDeleted\<rparr>],
        sp_overflowed = False\<rparr>)]"
  "o_negative (es_obs w9) = {}" "o_behaviour (es_obs w9) = {}"
  by (simp_all add: w9_def w_eval Let_def)

lemma w12_axes: "''op'' \<in> o_negative (es_obs w12)" "''op'' \<in> o_behaviour (es_obs w12)"
  by (simp_all add: w12_def w11_def w10_def w9_fields offer_exchange_def add_exchange_def span_full_def maxSpanEntries_def
      handle_assert_close_def close_span_def refused_operations_def lifecycle_operations_def is_refusal_def
      client_exchange_def provesNegative_def provesBehaviour_def Let_def server_event_def resource_key_def
      part_of_lifecycle_def add_new_def eventCreated_def eventDeleted_def eventListed_def sorted_ops_def)

lemma credit_witness: "\<exists>rt\<in>set (es_touches w12). st_operation (snd rt) = ''op'' \<and> fst rt = Some (''op'', False)"
proof -
  let ?t = "\<lparr>st_operation = ''op'', st_event = server_event eventCreated\<rparr>"
  have "(Some (''op'', False), ?t) \<in> set (es_touches w12)"
    by (simp add: w12_def w11_def w10_def w9_def w_eval Let_def)
  from this touches_are_credited_to_their_request [OF w12_reach this] show ?thesis
    by (intro bexI [of _ "(Some (''op'', False), ?t)"]) simp_all
qed

lemma negative_witness: "\<exists>e\<in>set (es_exchanges w12). sx_operation e = ''op'' \<and> \<not> sx_injected e"
  using negative_axis_is_a_demanded_refusal [OF w12_reach w12_axes(1)] by blast


lemma bounded_witness: "length (o_spans (es_obs w12)) \<le> 32"
  using open_spans_are_bounded [OF w12_reach] by blast

end
