(* ===== verification/Claims.thy ===== *)
theory Claims
  imports Netip
begin

text \<open>
  What a plan claims of a machine and how a claim is answered:
  \<open>internal/core/machine/shape.go\<close>, \<open>claims.go\<close>, the claims of \<open>restart.go\<close> and the
  pure half of \<open>verdicts.go\<close>. A Go map is an association list read through
  \<open>map_of\<close>; the lemmas show that no answer depends on the order of one.
\<close>

section \<open>Shapes\<close>

record iface =
  if_network :: string
  if_routed :: bool
  if_addresses :: "prefix list"
  if_rulesets :: "string list"

record route =
  rt_dst :: prefix
  rt_via :: addr
  rt_dev :: string

record shape =
  sh_interfaces :: "(string \<times> iface) list"
  sh_routes :: "route list"
  sh_doors :: "(addr \<times> route) list"
  sh_gateways :: "(string \<times> prefix) list"

definition no_route :: route where
  "no_route = \<lparr>rt_dst = zero_prefix, rt_via = NoAddr, rt_dev = []\<rparr>"

definition no_iface :: iface where
  "no_iface = \<lparr>if_network = [], if_routed = False, if_addresses = [], if_rulesets = []\<rparr>"

definition route_string :: "route \<Rightarrow> string" where
  "route_string r =
     (if \<not> addr_valid (rt_via r) then ''dev '' @ rt_dev r
      else ''via '' @ addr_string (rt_via r) @ '' dev '' @ rt_dev r)"

definition default_dst :: prefix where
  "default_dst = Prefix (V4 0) 0"

definition default_route_of :: "shape \<Rightarrow> route option" where
  "default_route_of s = find (\<lambda>r. rt_dst r = default_dst) (sh_routes s)"

definition interface_names :: "shape \<Rightarrow> string list" where
  "interface_names s = sort (remdups (map fst (sh_interfaces s)))"

text \<open>Reading a missing key of a map gives the zero value.\<close>

definition iface_at :: "shape \<Rightarrow> string \<Rightarrow> iface" where
  "iface_at s name = option_or no_iface (map_of (sh_interfaces s) name)"

definition interface_on :: "shape \<Rightarrow> string \<Rightarrow> string" where
  "interface_on s network =
     option_or [] (find (\<lambda>name. if_network (iface_at s name) = network) (interface_names s))"

definition carried_part :: "shape \<Rightarrow> string \<Rightarrow> string" where
  "carried_part s name =
     (let addresses = if_addresses (iface_at s name) in
      if addresses = [] then name @ '': nothing''
      else name @ '': '' @ str_join '', '' (map prefix_string addresses))"

definition carried_by :: "shape \<Rightarrow> string list \<Rightarrow> string" where
  "carried_by s names =
     (if names = [] then ''no interface'' else str_join ''; '' (map (carried_part s) names))"

definition routes_to :: "shape \<Rightarrow> prefix \<Rightarrow> string" where
  "routes_to s dst =
     (let found = map route_string (filter (\<lambda>r. rt_dst r = dst) (sh_routes s)) in
      if found = [] then ''none'' else str_join '', '' found)"

section \<open>Claims and verdicts\<close>

datatype outcome = Held | Broken | Unreadable

definition outcome_string :: "outcome \<Rightarrow> string" where
  "outcome_string oc = (case oc of Held \<Rightarrow> ''held'' | Broken \<Rightarrow> ''broken'' | Unreadable \<Rightarrow> ''unreadable'')"

record verdict =
  v_claim :: string
  v_outcome :: outcome
  v_want :: string
  v_got :: string

definition verdict_string :: "verdict \<Rightarrow> string" where
  "verdict_string v =
     (case v_outcome v of
        Held \<Rightarrow> v_claim v @ '' held''
      | Unreadable \<Rightarrow> v_claim v @ '' unreadable: '' @ v_got v
      | Broken \<Rightarrow> v_claim v @ '' broken: want '' @ v_want v @ '', got '' @ v_got v)"

datatype claim =
    Carries string addr int
  | Leases string
  | DefaultRoute string
  | NoDefaultRoute
  | ReachesAggregates "prefix list" "string list"
  | Door addr addr addr string
  | Wears string "string list"
  | SameInterface string iface
  | SameDefaultRoute route bool
  | SameRoutes "route list"

definition prefixes_string :: "prefix list \<Rightarrow> string" where
  "prefixes_string blocks = str_join '', '' (map prefix_string blocks)"

fun claim_string :: "claim \<Rightarrow> string" where
  "claim_string (Carries network address bits) =
     (let loc = (if network = [] then ''any interface'' else network) in
      if bits = 0 then ''carries('' @ loc @ '', '' @ addr_string address @ '')''
      else ''carries('' @ loc @ '', '' @ addr_string address @ ''/'' @ itoa bits @ '')'')"
| "claim_string (Leases network) = ''leases('' @ network @ '')''"
| "claim_string (DefaultRoute network) = ''default route''"
| "claim_string NoDefaultRoute = ''no default route''"
| "claim_string (ReachesAggregates blocks networks) = ''private aggregates''"
| "claim_string (Door src dst via dev) = ''door('' @ addr_string src @ '')''"
| "claim_string (Wears network sets) = ''wears('' @ network @ '')''"
| "claim_string (SameInterface name was) = ''restart('' @ name @ '')''"
| "claim_string (SameDefaultRoute was had) = ''restart(default route)''"
| "claim_string (SameRoutes was) = ''restart(routes)''"

definition held :: "claim \<Rightarrow> verdict" where
  "held c = \<lparr>v_claim = claim_string c, v_outcome = Held, v_want = [], v_got = []\<rparr>"

definition broken :: "claim \<Rightarrow> string \<Rightarrow> string \<Rightarrow> verdict" where
  "broken c want got = \<lparr>v_claim = claim_string c, v_outcome = Broken, v_want = want, v_got = got\<rparr>"

definition unreadable :: "claim \<Rightarrow> string \<Rightarrow> verdict" where
  "unreadable c why = \<lparr>v_claim = claim_string c, v_outcome = Unreadable, v_want = [], v_got = why\<rparr>"

lemma verdict_outcomes [simp]:
  "v_outcome (held c) = Held" "v_outcome (broken c w g) = Broken" "v_outcome (unreadable c y) = Unreadable"
  by (simp_all add: held_def broken_def unreadable_def)

text \<open>The restart claims' renderings.\<close>

definition sorted_prefixes :: "prefix list \<Rightarrow> string list" where
  "sorted_prefixes ps = sort (map prefix_string ps)"

definition sorted_strings :: "string list \<Rightarrow> string list" where
  "sorted_strings xs = sort xs"

definition route_lines :: "route list \<Rightarrow> string list" where
  "route_lines rs =
     (if rs = [] then [''none'']
      else remdups_adj (sort (map (\<lambda>r. prefix_string (rt_dst r) @ '' '' @ route_string r) rs)))"

definition describe_interface :: "iface \<Rightarrow> string" where
  "describe_interface i =
     (let loc1 = (if if_routed i then ''routed'' else if_network i);
          loc = (if loc1 = [] then ''no network'' else loc1);
          addresses = (if if_addresses i = [] then ''nothing'' else str_join '', '' (sorted_prefixes (if_addresses i)));
          sets = (if if_rulesets i = [] then ''no rule set'' else str_join '', '' (sorted_strings (if_rulesets i)))
      in loc @ '': '' @ addresses @ ''; '' @ sets)"

section \<open>Checking a claim\<close>

definition carries_want :: "addr \<Rightarrow> int \<Rightarrow> string" where
  "carries_want address bits =
     (if bits = 0 then addr_string address else addr_string address @ ''/'' @ itoa bits)"

definition carries_match :: "addr \<Rightarrow> int \<Rightarrow> prefix \<Rightarrow> bool" where
  "carries_match address bits p = (paddr p = address \<and> (bits = 0 \<or> pbits p = bits))"

definition check_carries :: "string \<Rightarrow> addr \<Rightarrow> int \<Rightarrow> shape \<Rightarrow> verdict" where
  "check_carries network address bits s =
     (let c = Carries network address bits;
          candidates = filter (\<lambda>name. \<not> (network \<noteq> [] \<and> if_network (iface_at s name) \<noteq> network)) (interface_names s) in
      if list_ex (\<lambda>name. list_ex (carries_match address bits) (if_addresses (iface_at s name))) candidates then held c
      else if candidates = [] then broken c (carries_want address bits) (''no interface on '' @ network)
      else broken c (carries_want address bits) (carried_by s candidates))"

definition check_leases :: "string \<Rightarrow> shape \<Rightarrow> verdict" where
  "check_leases network s =
     (let c = Leases network in
      case map_of (sh_gateways s) network of
        None \<Rightarrow> unreadable c (''the block of '' @ network @ '' was not read'')
      | Some gateway \<Rightarrow>
          (let block = masked gateway; dev = interface_on s network in
           if dev = [] then broken c (''an address of '' @ prefix_string block) (''no interface on '' @ network)
           else if list_ex (\<lambda>p. prefix_contains block (paddr p)) (if_addresses (iface_at s dev)) then held c
           else broken c (''an address of '' @ prefix_string block @ '' on '' @ dev) (carried_by s [dev])))"

definition check_default_route :: "string \<Rightarrow> shape \<Rightarrow> verdict" where
  "check_default_route network s =
     (let c = DefaultRoute network in
      case map_of (sh_gateways s) network of
        None \<Rightarrow> unreadable c (''the gateway of '' @ network @ '' was not read'')
      | Some gateway \<Rightarrow>
          (let dev = interface_on s network in
           if dev = [] then
             broken c (''via '' @ addr_string (paddr gateway) @ '' on the interface of '' @ network) (''no interface on '' @ network)
           else
             (let want = \<lparr>rt_dst = default_dst, rt_via = paddr gateway, rt_dev = dev\<rparr> in
              case default_route_of s of
                None \<Rightarrow> broken c (route_string want) ''no default route''
              | Some got \<Rightarrow>
                  (if rt_via got = rt_via want \<and> rt_dev got = rt_dev want then held c
                   else broken c (route_string want) (route_string got)))))"

definition check_no_default_route :: "shape \<Rightarrow> verdict" where
  "check_no_default_route s =
     (case default_route_of s of
        Some got \<Rightarrow> broken NoDefaultRoute ''no default route'' (route_string got)
      | None \<Rightarrow> held NoDefaultRoute)"

text \<open>
  The next hops that are legitimate, gateway to interface: the loop stops at the
  first network whose gateway was not read, and a later network with the same
  gateway overwrites an earlier one.
\<close>

fun doors_of :: "shape \<Rightarrow> string list \<Rightarrow> (addr \<times> string) list \<Rightarrow> string + (addr \<times> string) list" where
  "doors_of s [] doors = Inr doors"
| "doors_of s (network # networks) doors =
     (case map_of (sh_gateways s) network of
        None \<Rightarrow> Inl network
      | Some gateway \<Rightarrow>
          (let dev = interface_on s network in
           doors_of s networks (if dev \<noteq> [] then AList.update (paddr gateway) dev doors else doors)))"

definition rides_door :: "(addr \<times> string) list \<Rightarrow> prefix \<Rightarrow> route \<Rightarrow> bool" where
  "rides_door doors block r =
     (case map_of doors (rt_via r) of
        None \<Rightarrow> False
      | Some dev \<Rightarrow> rt_dst r = block \<and> rt_dev r = dev)"

definition check_reaches :: "prefix list \<Rightarrow> string list \<Rightarrow> shape \<Rightarrow> verdict" where
  "check_reaches blocks networks s =
     (let c = ReachesAggregates blocks networks in
      case doors_of s networks [] of
        Inl network \<Rightarrow> unreadable c (''the gateway of '' @ network @ '' was not read'')
      | Inr doors \<Rightarrow>
          (let want = ''each of '' @ prefixes_string blocks @ '' via a gateway of '' @ str_join '', '' networks in
           if doors = [] then broken c want (''no interface on any of '' @ str_join '', '' networks)
           else
             (let missing = map (\<lambda>block. prefix_string block @ '': '' @ routes_to s block)
                    (filter (\<lambda>block. \<not> list_ex (rides_door doors block) (sh_routes s)) blocks) in
              if missing \<noteq> [] then broken c want (str_join ''; '' missing) else held c)))"

definition check_door :: "addr \<Rightarrow> addr \<Rightarrow> addr \<Rightarrow> string \<Rightarrow> shape \<Rightarrow> verdict" where
  "check_door src dst via dev s =
     (let c = Door src dst via dev in
      case map_of (sh_doors s) src of
        None \<Rightarrow> unreadable c (''the door of '' @ addr_string src @ '' was not read'')
      | Some got \<Rightarrow>
          (let want = \<lparr>rt_dst = zero_prefix, rt_via = via, rt_dev = dev\<rparr> in
           if rt_dev got = [] then broken c (route_string want) ''no route''
           else if rt_via got = via \<and> rt_dev got = dev then held c
           else broken c (route_string want) (route_string got)))"

definition wears_want :: "string list \<Rightarrow> string \<Rightarrow> string" where
  "wears_want sets dev =
     (if sets = [] then ''no rule set on '' @ dev else str_join '', '' sets @ '' on '' @ dev)"

definition check_wears :: "string \<Rightarrow> string list \<Rightarrow> shape \<Rightarrow> verdict" where
  "check_wears network sets s =
     (let c = Wears network sets; dev = interface_on s network in
      if dev = [] then broken c (wears_want sets (''the interface of '' @ network)) (''no interface on '' @ network)
      else
        (let got = if_rulesets (iface_at s dev) in
         if got = [] \<and> sets = [] then held c
         else if got = sets then held c
         else broken c (wears_want sets dev) ((if got \<noteq> [] then str_join '', '' got else ''none'') @ '' on '' @ dev)))"

definition same_iface :: "iface \<Rightarrow> iface \<Rightarrow> bool" where
  "same_iface got was =
     (if_network got = if_network was \<and> if_routed got = if_routed was \<and>
      sorted_prefixes (if_addresses got) = sorted_prefixes (if_addresses was) \<and>
      sorted_strings (if_rulesets got) = sorted_strings (if_rulesets was))"

definition check_same_interface :: "string \<Rightarrow> iface \<Rightarrow> shape \<Rightarrow> verdict" where
  "check_same_interface name was s =
     (let c = SameInterface name was in
      case map_of (sh_interfaces s) name of
        None \<Rightarrow> broken c (describe_interface was) (''no interface '' @ name)
      | Some got \<Rightarrow>
          (if same_iface got was then held c
           else broken c (describe_interface was) (describe_interface got)))"

definition check_same_default :: "route \<Rightarrow> bool \<Rightarrow> shape \<Rightarrow> verdict" where
  "check_same_default was had s =
     (let c = SameDefaultRoute was had in
      case default_route_of s of
        None \<Rightarrow> (if had then broken c (route_string was) ''no default route'' else held c)
      | Some got \<Rightarrow>
          (if \<not> had then broken c ''no default route'' (route_string got)
           else if rt_via got = rt_via was \<and> rt_dev got = rt_dev was then held c
           else broken c (route_string was) (route_string got)))"

definition other_routes :: "shape \<Rightarrow> route list" where
  "other_routes s = filter (\<lambda>r. rt_dst r \<noteq> default_dst) (sh_routes s)"

definition check_same_routes :: "route list \<Rightarrow> shape \<Rightarrow> verdict" where
  "check_same_routes was s =
     (let c = SameRoutes was; want = route_lines was; have_lines = route_lines (other_routes s) in
      if want = have_lines then held c
      else broken c (str_join '', '' want) (str_join '', '' have_lines))"

fun check_claim :: "claim \<Rightarrow> shape \<Rightarrow> verdict" where
  "check_claim (Carries network address bits) s = check_carries network address bits s"
| "check_claim (Leases network) s = check_leases network s"
| "check_claim (DefaultRoute network) s = check_default_route network s"
| "check_claim NoDefaultRoute s = check_no_default_route s"
| "check_claim (ReachesAggregates blocks networks) s = check_reaches blocks networks s"
| "check_claim (Door src dst via dev) s = check_door src dst via dev s"
| "check_claim (Wears network sets) s = check_wears network sets s"
| "check_claim (SameInterface name was) s = check_same_interface name was s"
| "check_claim (SameDefaultRoute was had) s = check_same_default was had s"
| "check_claim (SameRoutes was) s = check_same_routes was s"

definition restart_claims :: "shape \<Rightarrow> claim list" where
  "restart_claims before =
     map (\<lambda>name. SameInterface name (iface_at before name)) (interface_names before)
     @ [SameDefaultRoute (option_or no_route (default_route_of before)) (default_route_of before \<noteq> None),
        SameRoutes (other_routes before)]"

section \<open>A verification's summary\<close>

definition summary :: "verdict list \<Rightarrow> string" where
  "summary vs =
     (let br = map (\<lambda>v. v_claim v @ '' want '' @ v_want v @ '', got '' @ v_got v) (filter (\<lambda>v. v_outcome v = Broken) vs);
          un = map (\<lambda>v. v_claim v @ '': '' @ v_got v) (filter (\<lambda>v. v_outcome v = Unreadable) vs) in
      if br \<noteq> [] then ''broken: '' @ str_join ''; '' br
      else if un \<noteq> [] then ''unreadable: '' @ str_join ''; '' un
      else ''held'')"

definition any_broken :: "verdict list \<Rightarrow> bool" where
  "any_broken vs = list_ex (\<lambda>v. v_outcome v = Broken) vs"

record verification =
  vf_held :: nat
  vf_broken :: nat
  vf_unreadable :: nat
  vf_repaired :: nat

definition tally_count :: "verdict list \<Rightarrow> bool \<Rightarrow> verification \<Rightarrow> verification" where
  "tally_count vs repaired t =
     (let t1 = fold (\<lambda>v t. case v_outcome v of
            Held \<Rightarrow> t\<lparr>vf_held := vf_held t + 1\<rparr>
          | Broken \<Rightarrow> t\<lparr>vf_broken := vf_broken t + 1\<rparr>
          | Unreadable \<Rightarrow> t\<lparr>vf_unreadable := vf_unreadable t + 1\<rparr>) vs t
      in (if repaired then t1\<lparr>vf_repaired := vf_repaired t1 + 1\<rparr> else t1))"

section \<open>No answer depends on the order of a map\<close>

definition same_maps :: "shape \<Rightarrow> shape \<Rightarrow> bool" where
  "same_maps s t \<longleftrightarrow> map_of (sh_interfaces s) = map_of (sh_interfaces t) \<and> map_of (sh_doors s) = map_of (sh_doors t) \<and>
     map_of (sh_gateways s) = map_of (sh_gateways t) \<and> sh_routes s = sh_routes t"

lemma interface_names_map_of:
  assumes "map_of (sh_interfaces s) = map_of (sh_interfaces t)"
  shows "interface_names s = interface_names t"
proof -
  have "set (map fst (sh_interfaces s)) = set (map fst (sh_interfaces t))"
    using arg_cong [OF assms, of dom] by (simp add: dom_map_of_conv_image_fst)
  then show ?thesis
    using sorted_distinct_set_unique [of "interface_names s" "interface_names t"]
    by (simp add: interface_names_def)
qed

text \<open>
  Two readings of one machine give the same verdicts: whatever order the maps of
  a shape are iterated in, every claim answers the same outcome, with the same
  text, as does the list of claims a reboot is judged on.
\<close>

theorem verdicts_are_order_free:
  assumes "same_maps s t"
  shows "check_claim c s = check_claim c t \<and> restart_claims s = restart_claims t"
proof -
  have n: "interface_names s = interface_names t" by (rule interface_names_map_of) (use assms in \<open>simp add: same_maps_def\<close>)
  have i: "iface_at s = iface_at t" using assms by (intro ext) (simp add: iface_at_def same_maps_def)
  have on: "interface_on s = interface_on t" by (simp add: fun_eq_iff interface_on_def n i)
  have cp: "carried_part s = carried_part t" by (intro ext) (simp add: carried_part_def i)
  have cb: "carried_by s = carried_by t" by (intro ext) (simp add: carried_by_def cp)
  have r: "default_route_of s = default_route_of t" "other_routes s = other_routes t" "routes_to s = routes_to t"
    using assms by (simp_all add: fun_eq_iff default_route_of_def other_routes_def routes_to_def same_maps_def)
  have d: "doors_of s = doors_of t"
  proof (intro ext)
    fix ns ds show "doors_of s ns ds = doors_of t ns ds"
      using assms by (induction ns arbitrary: ds) (simp_all add: same_maps_def on split: option.split)
  qed
  have m: "map_of (sh_interfaces s) = map_of (sh_interfaces t)" "map_of (sh_doors s) = map_of (sh_doors t)"
    "map_of (sh_gateways s) = map_of (sh_gateways t)" "sh_routes s = sh_routes t"
    using assms by (simp_all add: same_maps_def)
  have "check_claim c s = check_claim c t"
    by (cases c; simp only: check_claim.simps; unfold check_carries_def check_leases_def check_default_route_def check_no_default_route_def check_reaches_def
        check_door_def check_wears_def check_same_interface_def check_same_default_def check_same_routes_def
        m n i on cb r d; rule refl)
  moreover have "restart_claims s = restart_claims t"
    unfolding restart_claims_def n i r ..
  ultimately show ?thesis ..
qed

section \<open>What a reboot is judged on\<close>

definition all_held :: "claim list \<Rightarrow> shape \<Rightarrow> bool" where
  "all_held cs s \<longleftrightarrow> (\<forall>c\<in>set cs. v_outcome (check_claim c s) = Held)"

lemma same_default_held:
  "v_outcome (check_claim (SameDefaultRoute (option_or no_route b) (b \<noteq> None)) s) = Held \<longleftrightarrow>
     (case (b, default_route_of s) of
        (None, None) \<Rightarrow> True
      | (Some x, Some y) \<Rightarrow> rt_via x = rt_via y \<and> rt_dev x = rt_dev y
      | _ \<Rightarrow> False)"
  by (cases b; cases "default_route_of s") (auto simp: check_same_default_def Let_def)

text \<open>
  After a reboot the machine is found unchanged exactly when every interface it
  had is there with the same network, kind, addresses and rule sets, in any
  order; the default route is present or absent as before and leaves through the
  same door; and the rest of the table is the same set of lines.
\<close>

theorem restart_claims_compare_the_shape:
  "all_held (restart_claims before) after \<longleftrightarrow>
     (\<forall>name was. map_of (sh_interfaces before) name = Some was \<longrightarrow>
        (\<exists>got. map_of (sh_interfaces after) name = Some got \<and> if_network got = if_network was \<and>
           if_routed got = if_routed was \<and>
           mset (map prefix_string (if_addresses got)) = mset (map prefix_string (if_addresses was)) \<and>
           mset (if_rulesets got) = mset (if_rulesets was))) \<and>
     (case (default_route_of before, default_route_of after) of
        (None, None) \<Rightarrow> True
      | (Some x, Some y) \<Rightarrow> rt_via x = rt_via y \<and> rt_dev x = rt_dev y
      | _ \<Rightarrow> False) \<and>
     route_lines (other_routes before) = route_lines (other_routes after)"
proof -
  have sort_eq: "sort xs = sort ys \<longleftrightarrow> mset xs = mset ys" for xs ys :: "string list"
    by (metis mset_sort properties_for_sort sorted_sort)
  have one: "v_outcome (check_claim (SameInterface name was) after) = Held \<longleftrightarrow>
      (\<exists>got. map_of (sh_interfaces after) name = Some got \<and> same_iface got was)" for name was
    by (auto simp: check_same_interface_def Let_def split: option.split)
  have names: "set (interface_names before) = {name. \<exists>was. map_of (sh_interfaces before) name = Some was}"
    using dom_map_of_conv_image_fst [of "sh_interfaces before"] by (auto simp: interface_names_def dom_def)
  have "(\<forall>name\<in>set (interface_names before). v_outcome (check_claim (SameInterface name (iface_at before name)) after) = Held) \<longleftrightarrow>
      (\<forall>name was. map_of (sh_interfaces before) name = Some was \<longrightarrow>
        (\<exists>got. map_of (sh_interfaces after) name = Some got \<and> same_iface got was))"
    unfolding one names by (auto simp: iface_at_def)
  moreover have "v_outcome (check_claim (SameRoutes (other_routes before)) after) = Held \<longleftrightarrow>
      route_lines (other_routes before) = route_lines (other_routes after)"
    by (simp add: check_same_routes_def Let_def)
  ultimately show ?thesis
    unfolding all_held_def restart_claims_def same_iface_def sorted_prefixes_def sorted_strings_def sort_eq
    using same_default_held [of "default_route_of before" after]
    by (simp add: ball_Un conj_ac del: check_claim.simps)
qed

section \<open>A summary says which claims did not hold\<close>

lemma summary_prefix:
  "has_prefix (summary vs) ''broken: '' \<longleftrightarrow> any_broken vs"
  "has_prefix (summary vs) ''unreadable: '' \<longleftrightarrow> \<not> any_broken vs \<and> (\<exists>v\<in>set vs. v_outcome v = Unreadable)"
  "summary vs = ''held'' \<longleftrightarrow> (\<forall>v\<in>set vs. v_outcome v = Held)"
proof -
  have h: "v_outcome v = Held \<longleftrightarrow> v_outcome v \<noteq> Broken \<and> v_outcome v \<noteq> Unreadable" for v by (cases "v_outcome v") auto
  show "has_prefix (summary vs) ''broken: '' \<longleftrightarrow> any_broken vs"
    by (auto simp: summary_def any_broken_def Let_def list_ex_iff filter_empty_conv)
  show "has_prefix (summary vs) ''unreadable: '' \<longleftrightarrow> \<not> any_broken vs \<and> (\<exists>v\<in>set vs. v_outcome v = Unreadable)"
    by (auto simp: summary_def any_broken_def Let_def list_ex_iff filter_empty_conv)
  show "summary vs = ''held'' \<longleftrightarrow> (\<forall>v\<in>set vs. v_outcome v = Held)"
    unfolding h by (auto simp: summary_def Let_def filter_empty_conv)
qed

lemma tally_count_total:
  "vf_held (tally_count vs r t) + vf_broken (tally_count vs r t) + vf_unreadable (tally_count vs r t)
     = vf_held t + vf_broken t + vf_unreadable t + length vs"
proof -
  let ?f = "\<lambda>v t. case v_outcome v of Held \<Rightarrow> t\<lparr>vf_held := vf_held t + 1\<rparr>
      | Broken \<Rightarrow> t\<lparr>vf_broken := vf_broken t + 1\<rparr> | Unreadable \<Rightarrow> t\<lparr>vf_unreadable := vf_unreadable t + 1\<rparr>"
  have "vf_held (fold ?f vs t) + vf_broken (fold ?f vs t) + vf_unreadable (fold ?f vs t)
      = vf_held t + vf_broken t + vf_unreadable t + length vs"
    by (induction vs arbitrary: t) (auto split: outcome.split)
  then show ?thesis by (simp add: tally_count_def Let_def)
qed

section \<open>Two networks behind one gateway address\<close>

text \<open>
  The legitimate next hops are keyed by the gateway's address, so of two networks
  that share one only the last keeps its interface. A machine every block of which
  leaves through a gateway of the plan, on that gateway's own interface, is then
  found broken.
\<close>

definition shared_gateway :: shape where
  "shared_gateway =
     \<lparr>sh_interfaces = [(''eth0'', \<lparr>if_network = ''a'', if_routed = False, if_addresses = [], if_rulesets = []\<rparr>),
                       (''eth1'', \<lparr>if_network = ''b'', if_routed = False, if_addresses = [], if_rulesets = []\<rparr>)],
      sh_routes = [\<lparr>rt_dst = Prefix (V4 0x0A000000) 8, rt_via = V4 0x0A000001, rt_dev = ''eth0''\<rparr>],
      sh_doors = [],
      sh_gateways = [(''a'', Prefix (V4 0x0A000001) 24), (''b'', Prefix (V4 0x0A000001) 24)]\<rparr>"

theorem shared_gateway_reads_as_broken:
  "v_outcome (check_claim (ReachesAggregates [Prefix (V4 0x0A000000) 8] [''a'', ''b'']) shared_gateway) = Broken \<and>
   (\<forall>block\<in>{Prefix (V4 0x0A000000) 8}. \<exists>n\<in>{''a'', ''b''}. \<exists>r\<in>set (sh_routes shared_gateway). rt_dst r = block \<and>
      map_of (sh_gateways shared_gateway) n = Some (Prefix (rt_via r) 24) \<and> rt_dev r = interface_on shared_gateway n)"
proof -
  have on: "interface_on shared_gateway ''a'' = ''eth0''" "interface_on shared_gateway ''b'' = ''eth1''" by code_simp+
  have gw: "map_of (sh_gateways shared_gateway) ''a'' = Some (Prefix (V4 0x0A000001) 24)"
    "map_of (sh_gateways shared_gateway) ''b'' = Some (Prefix (V4 0x0A000001) 24)"
    by (simp_all add: shared_gateway_def)
  have "doors_of shared_gateway [''a'', ''b''] [] = Inr [(V4 0x0A000001, ''eth1'')]"
    by (simp add: on gw)
  then have "v_outcome (check_claim (ReachesAggregates [Prefix (V4 0x0A000000) 8] [''a'', ''b'']) shared_gateway) = Broken"
    by (simp add: check_reaches_def Let_def rides_door_def shared_gateway_def)
  moreover have "sh_routes shared_gateway = [\<lparr>rt_dst = Prefix (V4 0x0A000000) 8, rt_via = V4 0x0A000001, rt_dev = ''eth0''\<rparr>]"
    by (simp add: shared_gateway_def)
  ultimately show ?thesis using on gw by simp
qed

section \<open>Witnesses\<close>

lemma order_witness:
  "restart_claims shared_gateway = restart_claims (shared_gateway\<lparr>sh_interfaces := rev (sh_interfaces shared_gateway)\<rparr>)"
proof -
  have "same_maps shared_gateway (shared_gateway\<lparr>sh_interfaces := rev (sh_interfaces shared_gateway)\<rparr>)"
    by (auto simp: same_maps_def shared_gateway_def fun_eq_iff)
  from verdicts_are_order_free [OF this] show ?thesis by blast
qed

lemma restart_witness: "all_held (restart_claims shared_gateway) shared_gateway"
  using restart_claims_compare_the_shape [of shared_gateway shared_gateway] by (simp split: option.split)

end
