(* ===== verification/Expect.thy ===== *)
theory Expect
  imports Claims
begin

text \<open>
  A machine's declared interface plan and what it claims: the data of
  \<open>internal/core/machine/plan.go\<close> and \<open>Reconciler.Expect\<close> of \<open>claims.go\<close> with its ledger.
  A plan two of whose steps claim one property is refused before the runtime is
  asked for anything; the lemmas say exactly which plans those are.
\<close>

section \<open>Plans\<close>

record attachment =
  at_network :: string
  at_address :: string
  at_prefix_len :: int
  at_secondary :: "string list"
  at_unfiltered :: bool

record plan =
  pl_boot :: "attachment list"
  pl_memberships :: "attachment list"
  pl_publics :: "string list"
  pl_route_via :: string
  pl_egress :: string
  pl_no_egress :: bool

record dialect =
  dl_next_hop :: addr
  dl_aggregates :: "prefix list"
  dl_lays_default :: bool

definition zero_dialect :: dialect where
  "zero_dialect = \<lparr>dl_next_hop = NoAddr, dl_aggregates = [], dl_lays_default = False\<rparr>"

definition attachments :: "plan \<Rightarrow> attachment list" where
  "attachments p = pl_boot p @ pl_memberships p"

definition describe_attachment :: "attachment \<Rightarrow> string" where
  "describe_attachment a =
     (if at_address a = [] then ''an attachment on '' @ at_network a @ '' leased by DHCP''
      else ''an attachment on '' @ at_network a @ '' at '' @ at_address a)"

text \<open>Whether an address is one the pack can have handed out; \<open>block\<close> is its \<open>PublicBlock\<close>.\<close>

definition emulated :: "prefix \<Rightarrow> string \<Rightarrow> bool" where
  "emulated block address =
     (if \<not> prefix_valid block then False
      else
        (case parse_addr address of
           None \<Rightarrow> False
         | Some a \<Rightarrow> prefix_contains block a))"

section \<open>The ledger\<close>

type_synonym ledger = "(string \<times> string list) list"

definition claimants :: "ledger \<Rightarrow> string \<Rightarrow> string list" where
  "claimants l property = option_or [] (map_of l property)"

definition ledger_claim :: "string \<Rightarrow> string \<Rightarrow> ledger \<Rightarrow> ledger" where
  "ledger_claim property who l =
     (if who \<in> set (claimants l property) then l
      else AList.update property (claimants l property @ [who]) l)"

text \<open>The properties with more than one claimant, in name order, with their claimants.\<close>

definition contradiction :: "ledger \<Rightarrow> (string \<times> string list) list" where
  "contradiction l =
     map (\<lambda>property. (property, claimants l property))
       (filter (\<lambda>property. \<not> length (claimants l property) < 2) (sort (remdups (map fst l))))"

section \<open>Expect\<close>

datatype expect_error =
    NotAnAddress string string
  | Contradiction "(string \<times> string list) list"

definition property_default_route :: string where
  "property_default_route = ''the default route''"

definition interface_property :: "string \<Rightarrow> string" where
  "interface_property network = ''the interface on '' @ network"

text \<open>The addresses of one attachment, in order, until one that is not an address.\<close>

fun address_claims :: "attachment \<Rightarrow> string list \<Rightarrow> expect_error + claim list" where
  "address_claims att [] = Inr []"
| "address_claims att (address # rest) =
     (case parse_addr address of
        None \<Rightarrow> Inl (NotAnAddress (at_network att) address)
      | Some a \<Rightarrow>
          (case address_claims att rest of
             Inl e \<Rightarrow> Inl e
           | Inr cs \<Rightarrow> Inr (Carries (at_network att) a (at_prefix_len att) # cs)))"

definition own_claims :: "attachment \<Rightarrow> expect_error + claim list" where
  "own_claims att =
     (if at_address att = [] then Inr [Leases (at_network att)]
      else address_claims att (at_address att # at_secondary att))"

fun attachment_claims ::
  "attachment list \<Rightarrow> string list \<Rightarrow> ledger \<Rightarrow> expect_error + claim list \<times> string list \<times> ledger" where
  "attachment_claims [] networks owners = Inr ([], networks, owners)"
| "attachment_claims (att # atts) networks owners =
     (if at_network att = [] then attachment_claims atts networks owners
      else
        (let owners' = ledger_claim (interface_property (at_network att)) (describe_attachment att) owners in
         if at_network att \<in> set networks then attachment_claims atts networks owners'
         else
           (case own_claims att of
              Inl e \<Rightarrow> Inl e
            | Inr cs \<Rightarrow>
                (case attachment_claims atts (networks @ [at_network att]) owners' of
                   Inl e \<Rightarrow> Inl e
                 | Inr (cs', rest) \<Rightarrow> Inr (cs @ cs', rest)))))"

fun public_claims :: "prefix \<Rightarrow> string list \<Rightarrow> string list \<Rightarrow> claim list \<times> string list" where
  "public_claims block [] publics = ([], publics)"
| "public_claims block (address # rest) publics =
     (case parse_addr address of
        None \<Rightarrow> public_claims block rest publics
      | Some a \<Rightarrow>
          (if \<not> emulated block address \<or> addr_string a \<in> set publics then public_claims block rest publics
           else
             (let (cs, ps) = public_claims block rest (publics @ [addr_string a]) in
              (Carries [] a 32 # cs, ps))))"

definition egress_claims :: "plan \<Rightarrow> dialect \<Rightarrow> claim list" where
  "egress_claims p d =
     (if pl_egress p \<noteq> [] \<and> dl_lays_default d then [DefaultRoute (pl_egress p)] else [])
     @ (if pl_no_egress p \<and> dl_lays_default d then [NoDefaultRoute] else [])"

definition default_owners :: "plan \<Rightarrow> string list \<Rightarrow> ledger \<Rightarrow> ledger" where
  "default_owners p publics owners =
     (let l1 = (if length publics > 0
                then ledger_claim property_default_route (''the public address '' @ str_join '', '' publics) owners else owners);
          l2 = (if pl_egress p \<noteq> [] then ledger_claim property_default_route (''egress through '' @ pl_egress p) l1 else l1)
      in (if pl_no_egress p then ledger_claim property_default_route ''the refusal of any way out (NoEgress)'' l2 else l2))"

definition expect :: "prefix \<Rightarrow> plan \<Rightarrow> dialect \<Rightarrow> expect_error + claim list" where
  "expect block p d =
     (case attachment_claims (attachments p) [] [] of
        Inl e \<Rightarrow> Inl e
      | Inr (cs, networks, owners) \<Rightarrow>
          (let (pcs, publics) = public_claims block (pl_publics p) [];
               owners' = default_owners p publics owners;
               acs = (if dl_aggregates d \<noteq> [] \<and> networks \<noteq> [] then [ReachesAggregates (dl_aggregates d) networks] else []) in
           if contradiction owners' \<noteq> [] then Inl (Contradiction (contradiction owners'))
           else Inr (cs @ pcs @ egress_claims p d @ acs)))"

section \<open>What the ledger holds\<close>

lemma claimants_claim:
  "claimants (ledger_claim property who l) q =
     (if q = property then add_new (claimants l q) who else claimants l q)"
  by (simp add: ledger_claim_def claimants_def add_new_def update_conv')

lemma contradiction_empty:
  "contradiction l = [] \<longleftrightarrow> (\<forall>property. length (claimants l property) < 2)"
proof -
  have "map_of l property = None \<or> property \<in> fst ` set l" for property
    by (simp add: map_of_eq_None_iff)
  then have "length (claimants l property) < 2 \<or> property \<in> fst ` set l" for property
    by (metis claimants_def length_0_conv option_or_simps(1) pos2)
  then show ?thesis by (auto simp: contradiction_def filter_empty_conv)
qed

lemma claimants_Nil [simp]: "claimants [] q = []"
  by (simp add: claimants_def)

text \<open>What the attachments leave in the ledger, and which networks they are on.\<close>

definition on_network :: "string \<Rightarrow> attachment list \<Rightarrow> attachment list" where
  "on_network n atts = filter (\<lambda>a. at_network a = n) atts"

lemma attachment_claims_ledger:
  "attachment_claims atts networks owners = Inr (cs, networks', owners') \<Longrightarrow>
     (\<forall>q. claimants owners' q =
        fold (\<lambda>a ws. if at_network a \<noteq> [] \<and> interface_property (at_network a) = q then add_new ws (describe_attachment a) else ws)
          atts (claimants owners q)) \<and>
     set networks' = set networks \<union> {at_network a |a. a \<in> set atts \<and> at_network a \<noteq> []} \<and>
     (distinct networks \<longrightarrow> distinct networks')"
proof (induction atts arbitrary: networks owners cs)
  case (Cons a atts)
  let ?owners = "ledger_claim (interface_property (at_network a)) (describe_attachment a) owners"
  show ?case
  proof (cases "at_network a = []")
    case True
    then show ?thesis using Cons by auto
  next
    case False
    have l: "claimants ?owners q =
        (if interface_property (at_network a) = q then add_new (claimants owners q) (describe_attachment a) else claimants owners q)" for q
      by (auto simp: claimants_claim)
    show ?thesis
    proof (cases "at_network a \<in> set networks")
      case True
      then have "attachment_claims atts networks ?owners = Inr (cs, networks', owners')"
        using Cons.prems False by (simp add: Let_def)
      from Cons.IH [OF this] show ?thesis using False True l by auto
    next
      case new: False
      then obtain cs1 cs2 where "attachment_claims atts (networks @ [at_network a]) ?owners = Inr (cs2, networks', owners')"
        using Cons.prems False by (auto simp: Let_def split: sum.splits prod.splits)
      from Cons.IH [OF this] show ?thesis using False new l by auto
    qed
  qed
qed auto

text \<open>A fold that adds what is not there yet, and how long it leaves the list.\<close>

lemma fold_add_new:
  "fold (\<lambda>a ws. if P a then add_new ws (f a) else ws) xs ws = fold (\<lambda>w ws. add_new ws w) (map f (filter P xs)) ws"
  by (induction xs arbitrary: ws) auto

lemma set_fold_add_new: "set (fold (\<lambda>w ws. add_new ws w) xs ws) = set ws \<union> set xs"
  by (induction xs arbitrary: ws) auto

lemma distinct_fold_add_new: "distinct ws \<Longrightarrow> distinct (fold (\<lambda>w ws. add_new ws w) xs ws)"
  by (induction xs arbitrary: ws) auto

lemma length_less_two:
  assumes "distinct ws"
  shows "length ws < 2 \<longleftrightarrow> (\<forall>x\<in>set ws. \<forall>y\<in>set ws. x = y)"
proof (cases ws)
  case (Cons x xs)
  then show ?thesis using assms by (cases xs) auto
qed simp

section \<open>Which plans are refused\<close>

definition readable_addresses :: "plan \<Rightarrow> bool" where
  "readable_addresses p \<longleftrightarrow> (\<forall>a\<in>set (attachments p). at_network a \<noteq> [] \<and> at_address a \<noteq> [] \<longrightarrow>
     (\<forall>x\<in>set (at_address a # at_secondary a). parse_addr x \<noteq> None))"

text \<open>How many of the three say who owns the default route.\<close>

definition has_public :: "prefix \<Rightarrow> plan \<Rightarrow> bool" where
  "has_public block p = list_ex (emulated block) (pl_publics p)"

definition default_claimants :: "prefix \<Rightarrow> plan \<Rightarrow> nat" where
  "default_claimants block p = of_bool (has_public block p) + of_bool (pl_egress p \<noteq> []) + of_bool (pl_no_egress p)"

lemma address_claims_Inr:
  "(\<forall>x\<in>set xs. parse_addr x \<noteq> None) \<Longrightarrow>
     address_claims att xs = Inr (map (\<lambda>x. Carries (at_network att) (the (parse_addr x)) (at_prefix_len att)) xs)"
  by (induction xs) auto

lemma own_claims_Inr:
  assumes "at_address a \<noteq> [] \<Longrightarrow> \<forall>x\<in>set (at_address a # at_secondary a). parse_addr x \<noteq> None"
  shows "own_claims a = Inr (if at_address a = [] then [Leases (at_network a)]
      else map (\<lambda>x. Carries (at_network a) (the (parse_addr x)) (at_prefix_len a)) (at_address a # at_secondary a))"
proof (cases "at_address a = []")
  case False
  from address_claims_Inr [OF assms [OF this], of a] show ?thesis by (simp only: own_claims_def False if_False)
qed (simp add: own_claims_def)

lemma attachment_claims_readable:
  "\<forall>a\<in>set atts. at_network a \<noteq> [] \<and> at_address a \<noteq> [] \<longrightarrow> (\<forall>x\<in>set (at_address a # at_secondary a). parse_addr x \<noteq> None) \<Longrightarrow>
     \<exists>r. attachment_claims atts networks owners = Inr r"
proof (induction atts arbitrary: networks owners)
  case (Cons a atts)
  have rest: "\<exists>r. attachment_claims atts n l = Inr r" for n l
    using Cons.IH [of n l] Cons.prems by (meson list.set_intros(2))
  show ?case
  proof (cases "at_network a = []")
    case True
    then show ?thesis using rest by simp
  next
    case False
    then obtain cs where "own_claims a = Inr cs"
      using own_claims_Inr [of a] Cons.prems by (metis list.set_intros(1))
    then show ?thesis
      using False rest [of networks "ledger_claim (interface_property (at_network a)) (describe_attachment a) owners"]
        rest [of "networks @ [at_network a]" "ledger_claim (interface_property (at_network a)) (describe_attachment a) owners"]
      by (auto simp: Let_def split: sum.split)
  qed
qed simp

lemma public_claims_empty:
  "snd (public_claims block xs publics) = [] \<longleftrightarrow> publics = [] \<and> \<not> list_ex (emulated block) xs"
proof (induction block xs publics rule: public_claims.induct)
  case (2 block address rest publics)
  have e: "emulated block address \<Longrightarrow> parse_addr address \<noteq> None"
    by (auto simp: emulated_def split: if_splits option.splits)
  show ?case
  proof (cases "parse_addr address")
    case None
    then show ?thesis using 2 e by auto
  next
    case (Some a)
    then show ?thesis using 2 by (auto simp: Let_def split: prod.splits)
  qed
qed simp

lemma property_names [simp]:
  "interface_property n = interface_property m \<longleftrightarrow> n = m" "interface_property n \<noteq> property_default_route"
  "property_default_route \<noteq> interface_property n"
  by (auto simp: interface_property_def property_default_route_def)

lemma describe_attachment_eq:
  "at_network a = at_network b \<Longrightarrow> describe_attachment a = describe_attachment b \<longleftrightarrow> at_address a = at_address b"
  by (cases "at_address a = []"; cases "at_address b = []") (auto simp: describe_attachment_def)

lemma interface_claimants:
  assumes "attachment_claims atts [] [] = Inr (cs, networks, owners)"
  shows "claimants owners property_default_route = []"
    "length (claimants owners (interface_property n)) < 2 \<longleftrightarrow>
      n = [] \<or> (\<forall>a\<in>set (on_network n atts). \<forall>b\<in>set (on_network n atts). at_address a = at_address b)"
    "(\<And>n. q \<noteq> interface_property n) \<Longrightarrow> claimants owners q = []"
proof -
  note l = attachment_claims_ledger [OF assms]
  have c: "claimants owners q = fold (\<lambda>w ws. add_new ws w)
      (map describe_attachment (filter (\<lambda>a. at_network a \<noteq> [] \<and> interface_property (at_network a) = q) atts)) []" for q
    using l by (simp add: fold_add_new)
  show none: "claimants owners q = []" if "\<And>n. q \<noteq> interface_property n" for q
  proof -
    have "filter (\<lambda>a. at_network a \<noteq> [] \<and> interface_property (at_network a) = q) atts = []"
      using that by (auto simp: filter_empty_conv)
    then show ?thesis unfolding c by simp
  qed
  show "claimants owners property_default_route = []" by (rule none) simp
  have f: "filter (\<lambda>a. at_network a \<noteq> [] \<and> interface_property (at_network a) = interface_property n) atts =
      (if n = [] then [] else on_network n atts)"
    by (auto simp: on_network_def filter_empty_conv intro: filter_cong)
  have "distinct (claimants owners (interface_property n))" unfolding c by (rule distinct_fold_add_new) simp
  then show "length (claimants owners (interface_property n)) < 2 \<longleftrightarrow>
      n = [] \<or> (\<forall>a\<in>set (on_network n atts). \<forall>b\<in>set (on_network n atts). at_address a = at_address b)"
    unfolding length_less_two [OF \<open>distinct (claimants owners (interface_property n))\<close>]
    using describe_attachment_eq unfolding c f set_fold_add_new by (auto simp: on_network_def)
qed

lemma default_owners_claimants:
  "q \<noteq> property_default_route \<Longrightarrow> claimants (default_owners p publics owners) q = claimants owners q"
  "claimants owners property_default_route = [] \<Longrightarrow>
     length (claimants (default_owners p publics owners) property_default_route) =
       of_bool (publics \<noteq> []) + of_bool (pl_egress p \<noteq> []) + of_bool (pl_no_egress p)"
proof -
  show "q \<noteq> property_default_route \<Longrightarrow> claimants (default_owners p publics owners) q = claimants owners q"
    by (simp add: default_owners_def Let_def claimants_claim)
  assume n: "claimants owners property_default_route = []"
  show "length (claimants (default_owners p publics owners) property_default_route) =
       of_bool (publics \<noteq> []) + of_bool (pl_egress p \<noteq> []) + of_bool (pl_no_egress p)"
    by (cases "publics = []"; cases "pl_egress p = []"; cases "pl_no_egress p")
      (simp_all add: default_owners_def claimants_claim n add_new_def)
qed

definition one_address :: "attachment list \<Rightarrow> bool" where
  "one_address atts \<longleftrightarrow> (\<forall>a\<in>set atts. \<forall>b\<in>set atts.
     at_network a \<noteq> [] \<and> at_network a = at_network b \<longrightarrow> at_address a = at_address b)"

lemma one_address_iff:
  "(\<forall>n. n = [] \<or> (\<forall>a\<in>set (on_network n atts). \<forall>b\<in>set (on_network n atts). at_address a = at_address b)) \<longleftrightarrow> one_address atts"
  (is "?l \<longleftrightarrow> _")
proof
  assume l: ?l
  show "one_address atts" unfolding one_address_def
  proof (intro ballI impI)
    fix a b assume ab: "a \<in> set atts" "b \<in> set atts" "at_network a \<noteq> [] \<and> at_network a = at_network b"
    then have "a \<in> set (on_network (at_network a) atts)" "b \<in> set (on_network (at_network a) atts)"
      by (simp_all add: on_network_def)
    with l ab(3) show "at_address a = at_address b" by blast
  qed
next
  assume "one_address atts"
  then show ?l unfolding one_address_def on_network_def by force
qed

lemma expect_Inr_iff:
  assumes "readable_addresses p"
  shows "(\<exists>cs. expect block p d = Inr cs) \<longleftrightarrow> one_address (attachments p) \<and> default_claimants block p \<le> 1"
proof -
  obtain cs networks owners where ac: "attachment_claims (attachments p) [] [] = Inr (cs, networks, owners)"
    using attachment_claims_readable assms unfolding readable_addresses_def by (metis prod_cases3)
  obtain pcs publics where pc: "public_claims block (pl_publics p) [] = (pcs, publics)" by fastforce
  let ?o = "default_owners p publics owners"
  note ic = interface_claimants [OF ac]
  have pub: "publics \<noteq> [] \<longleftrightarrow> has_public block p"
    using public_claims_empty [of block "pl_publics p" "[]"] pc by (simp add: has_public_def)
  have q: "length (claimants ?o q) < 2 \<longleftrightarrow>
      (if q = property_default_route then default_claimants block p \<le> 1 else length (claimants owners q) < 2)" for q
    using default_owners_claimants(1) [of q p publics owners] default_owners_claimants(2) [OF ic(1), of p publics] pub
    by (auto simp: default_claimants_def)
  have other: "length (claimants owners q) < 2" if "\<And>n. q \<noteq> interface_property n" for q
    using ic(3) [OF that] by simp
  have "contradiction ?o = [] \<longleftrightarrow> default_claimants block p \<le> 1 \<and> (\<forall>n. length (claimants owners (interface_property n)) < 2)"
    (is "?l \<longleftrightarrow> ?r")
  proof
    assume ?l
    then have "length (claimants ?o q) < 2" for q by (simp add: contradiction_empty)
    from this [of property_default_route] this [of "interface_property n" for n] show ?r unfolding q by simp
  next
    assume r: ?r
    have "length (claimants ?o x) < 2" for x
    proof (cases "\<exists>n. x = interface_property n")
      case True
      then show ?thesis using r unfolding q by auto
    next
      case False
      then show ?thesis using r other [of x] unfolding q by auto
    qed
    then show ?l by (simp add: contradiction_empty)
  qed
  moreover have "(\<forall>n. length (claimants owners (interface_property n)) < 2) \<longleftrightarrow> one_address (attachments p)"
    unfolding ic(2) by (rule one_address_iff)
  moreover have "(\<exists>cs. expect block p d = Inr cs) \<longleftrightarrow> contradiction ?o = []"
    unfolding expect_def ac pc Let_def by simp
  ultimately show ?thesis by blast
qed

text \<open>
  C39. A plan whose addresses can be read is refused exactly when it contradicts
  itself: two attachments put different addresses on one network, or more than
  one of the three - a public address the layer routes, an egress network, a
  refusal of any way out - claims the default route.
\<close>

theorem plan_refused_exactly_when_it_contradicts_itself:
  assumes "readable_addresses p"
  shows "(\<exists>cs. expect block p d = Inr cs) \<longleftrightarrow>
    (\<forall>a\<in>set (attachments p). \<forall>b\<in>set (attachments p).
       at_network a \<noteq> [] \<and> at_network a = at_network b \<longrightarrow> at_address a = at_address b) \<and>
    \<not> (has_public block p \<and> pl_egress p \<noteq> []) \<and> \<not> (has_public block p \<and> pl_no_egress p) \<and>
    \<not> (pl_egress p \<noteq> [] \<and> pl_no_egress p)"
  unfolding expect_Inr_iff [OF assms] default_claimants_def one_address_def
  by (cases "has_public block p"; cases "pl_egress p = []"; cases "pl_no_egress p") simp_all

section \<open>An accepted plan can be satisfied\<close>

text \<open>
  The shape a plan's claims ask for: one interface on each network, named after
  it, with every address claimed there and the gateway's own; one routed
  interface for the public addresses; the routes through the gateways.
\<close>

definition model_gateway :: prefix where
  "model_gateway = Prefix (V4 1) 24"

definition claimed_on :: "string \<Rightarrow> claim list \<Rightarrow> prefix list" where
  "claimed_on n cs = List.map_filter (\<lambda>c. case c of Carries m a b \<Rightarrow> if m = n then Some (Prefix a b) else None | _ \<Rightarrow> None) cs"

definition fresh_name :: "string list \<Rightarrow> string" where
  "fresh_name ns = concat ns @ ''x''"

definition model_shape :: "string list \<Rightarrow> claim list \<Rightarrow> string \<Rightarrow> prefix list \<Rightarrow> shape" where
  "model_shape ns cs egress blocks =
     \<lparr>sh_interfaces = map (\<lambda>n. (n, \<lparr>if_network = n, if_routed = False, if_addresses = model_gateway # claimed_on n cs, if_rulesets = []\<rparr>)) ns
        @ [(fresh_name ns, \<lparr>if_network = [], if_routed = True, if_addresses = claimed_on [] cs, if_rulesets = []\<rparr>)],
      sh_routes = (if egress = [] then [] else [\<lparr>rt_dst = default_dst, rt_via = V4 1, rt_dev = egress\<rparr>])
        @ map (\<lambda>b. \<lparr>rt_dst = b, rt_via = V4 1, rt_dev = last ns\<rparr>) blocks,
      sh_doors = [], sh_gateways = map (\<lambda>n. (n, model_gateway)) ns\<rparr>"

lemma set_claimed_on: "set (claimed_on n cs) = {Prefix a b |a b. Carries n a b \<in> set cs}"
  by (induction cs) (auto simp: claimed_on_def map_filter_simps split: claim.splits)

lemma fresh_name_new: "fresh_name ns \<notin> set ns"
proof
  assume "fresh_name ns \<in> set ns"
  moreover have "\<forall>n\<in>set ns. length n \<le> length (concat ns)" by (induction ns) auto
  ultimately show False by (auto simp: fresh_name_def)
qed

lemma model_iface:
  "n \<in> set ns \<Longrightarrow> map_of (sh_interfaces (model_shape ns cs e bs)) n =
     Some \<lparr>if_network = n, if_routed = False, if_addresses = model_gateway # claimed_on n cs, if_rulesets = []\<rparr>"
  "map_of (sh_interfaces (model_shape ns cs e bs)) (fresh_name ns) =
     Some \<lparr>if_network = [], if_routed = True, if_addresses = claimed_on [] cs, if_rulesets = []\<rparr>"
  "set (interface_names (model_shape ns cs e bs)) = insert (fresh_name ns) (set ns)"
proof -
  have m: "map_of (map (\<lambda>n. (n, f n)) ns @ [(k, v)]) n = (if n \<in> set ns then Some (f n) else if n = k then Some v else None)"
    for f :: "string \<Rightarrow> iface" and k v n
    by (induction ns) auto
  show "n \<in> set ns \<Longrightarrow> map_of (sh_interfaces (model_shape ns cs e bs)) n =
     Some \<lparr>if_network = n, if_routed = False, if_addresses = model_gateway # claimed_on n cs, if_rulesets = []\<rparr>"
    "map_of (sh_interfaces (model_shape ns cs e bs)) (fresh_name ns) =
     Some \<lparr>if_network = [], if_routed = True, if_addresses = claimed_on [] cs, if_rulesets = []\<rparr>"
    using fresh_name_new [of ns] by (simp_all add: model_shape_def m del: map_of_append)
  show "set (interface_names (model_shape ns cs e bs)) = insert (fresh_name ns) (set ns)"
    by (simp add: interface_names_def model_shape_def image_image)
qed

lemma model_gateways: "n \<in> set ns \<Longrightarrow> map_of (sh_gateways (model_shape ns cs e bs)) n = Some model_gateway"
proof -
  have "n \<in> set ns \<Longrightarrow> map_of (map (\<lambda>n. (n, g)) ns) n = Some g" for g :: prefix by (induction ns) auto
  then show "n \<in> set ns \<Longrightarrow> ?thesis" by (simp add: model_shape_def)
qed

lemma find_only:
  assumes "x \<in> set xs" "P x" "\<And>y. y \<in> set xs \<Longrightarrow> P y \<Longrightarrow> y = x"
  shows "find P xs = Some x"
  using assms
proof (induction xs)
  case (Cons y ys)
  show ?case
  proof (cases "P y")
    case True
    then have "y = x" using Cons.prems(3) by (metis list.set_intros(1))
    with True show ?thesis by simp
  next
    case False
    then have "x \<in> set ys" using Cons.prems(1,2) by auto
    then have "find P ys = Some x" using Cons.IH Cons.prems(2,3) by (metis list.set_intros(2))
    with False show ?thesis by simp
  qed
qed simp

lemma model_interface_on:
  assumes "n \<in> set ns" "n \<noteq> []"
  shows "interface_on (model_shape ns cs e bs) n = n"
proof -
  let ?s = "model_shape ns cs e bs"
  have "find (\<lambda>name. if_network (iface_at ?s name) = n) (interface_names ?s) = Some n"
  proof (rule find_only)
    fix y assume "y \<in> set (interface_names ?s)" "if_network (iface_at ?s y) = n"
    then show "y = n" using assms by (auto simp: model_iface iface_at_def)
  qed (use assms in \<open>simp_all add: model_iface iface_at_def\<close>)
  then show ?thesis by (simp add: interface_on_def)
qed

lemma model_doors:
  assumes "\<forall>n\<in>set ms. n \<in> set ns \<and> n \<noteq> []"
  shows "doors_of (model_shape ns cs e bs) ms doors = Inr (if ms = [] then doors else AList.update (V4 1) (last ms) doors)"
  using assms
proof (induction ms arbitrary: doors)
  case (Cons m ms)
  then show ?case
    by (simp add: model_gateways model_interface_on model_gateway_def)
qed simp

lemma model_default_route:
  assumes "default_dst \<notin> set bs"
  shows "default_route_of (model_shape ns cs e bs) =
    (if e = [] then None else Some \<lparr>rt_dst = default_dst, rt_via = V4 1, rt_dev = e\<rparr>)"
  using assms by (auto simp: default_route_of_def model_shape_def find_None_iff)

lemma gateway_contains_itself: "prefix_contains (masked model_gateway) (paddr model_gateway)"
proof -
  have "wf_prefix model_gateway" "prefix_valid model_gateway" by (simp_all add: model_gateway_def prefix_valid_def)
  then show ?thesis by (simp add: contains_own)
qed

lemma held_carries:
  assumes "name \<in> set (interface_names s)" "network = [] \<or> if_network (iface_at s name) = network"
    "Prefix a b \<in> set (if_addresses (iface_at s name))"
  shows "v_outcome (check_claim (Carries network a b) s) = Held"
proof -
  have "carries_match a b (Prefix a b)" by (simp add: carries_match_def)
  then have "list_ex (\<lambda>name. list_ex (carries_match a b) (if_addresses (iface_at s name)))
      (filter (\<lambda>name. \<not> (network \<noteq> [] \<and> if_network (iface_at s name) \<noteq> network)) (interface_names s))"
    using assms by (auto simp: list_ex_iff)
  then show ?thesis by (simp add: check_carries_def Let_def)
qed

text \<open>What an accepted plan claims, kind by kind.\<close>

definition plain_address :: "addr \<Rightarrow> int \<Rightarrow> bool" where
  "plain_address a b \<longleftrightarrow> a \<noteq> NoAddr \<and> \<not> has_zone a \<and> 0 \<le> b \<and> b \<le> bit_len a"

lemma plain_address_wf: "plain_address a b \<longleftrightarrow> wf_prefix (Prefix a b) \<and> prefix_valid (Prefix a b)"
  by (auto simp: plain_address_def prefix_valid_def)

definition plain_plan :: "plan \<Rightarrow> bool" where
  "plain_plan p \<longleftrightarrow> (\<forall>att\<in>set (attachments p). \<forall>x\<in>set (at_address att # at_secondary att).
     \<forall>a. parse_addr x = Some a \<longrightarrow> plain_address a (at_prefix_len att))"

lemma address_claims_kind:
  "address_claims att xs = Inr cs \<Longrightarrow> c \<in> set cs \<Longrightarrow>
     \<exists>x\<in>set xs. \<exists>a. parse_addr x = Some a \<and> c = Carries (at_network att) a (at_prefix_len att)"
  by (induction xs arbitrary: cs) (auto split: option.splits sum.splits)

lemma attachment_claims_kind:
  "attachment_claims atts networks owners = Inr (cs, networks', owners') \<Longrightarrow>
     \<forall>att\<in>set atts. \<forall>x\<in>set (at_address att # at_secondary att). \<forall>a. parse_addr x = Some a \<longrightarrow> plain_address a (at_prefix_len att) \<Longrightarrow>
     c \<in> set cs \<Longrightarrow>
     (\<exists>n\<in>set networks'. n \<noteq> [] \<and> (c = Leases n \<or> (\<exists>a b. plain_address a b \<and> c = Carries n a b)))"
proof (induction atts arbitrary: networks owners cs)
  case (Cons a atts)
  let ?owners = "ledger_claim (interface_property (at_network a)) (describe_attachment a) owners"
  have plain: "\<forall>att\<in>set atts. \<forall>x\<in>set (at_address att # at_secondary att). \<forall>a. parse_addr x = Some a \<longrightarrow> plain_address a (at_prefix_len att)"
    using Cons.prems(2) by (meson list.set_intros(2))
  show ?case
  proof (cases "at_network a = [] \<or> at_network a \<in> set networks")
    case True
    then obtain l where "attachment_claims atts networks l = Inr (cs, networks', owners')"
      using Cons.prems(1) by (auto simp: Let_def split: if_splits)
    from Cons.IH [OF this plain Cons.prems(3)] show ?thesis .
  next
    case False
    then obtain cs1 cs2 where split: "own_claims a = Inr cs1" "cs = cs1 @ cs2"
      "attachment_claims atts (networks @ [at_network a]) ?owners = Inr (cs2, networks', owners')"
      using Cons.prems(1) by (auto simp: Let_def split: sum.splits prod.splits)
    show ?thesis
    proof (cases "c \<in> set cs2")
      case True
      from Cons.IH [OF split(3) plain True] show ?thesis .
    next
      case own: False
      then have "c \<in> set cs1" using Cons.prems(3) split(2) by simp
      then have "c = Leases (at_network a) \<or> (\<exists>x\<in>set (at_address a # at_secondary a). \<exists>ad.
          parse_addr x = Some ad \<and> c = Carries (at_network a) ad (at_prefix_len a))"
        using split(1) address_claims_kind [of a "at_address a # at_secondary a" cs1 c]
        by (cases "at_address a = []") (simp_all only: own_claims_def if_True if_False, auto)
      moreover have "at_network a \<in> set networks'"
        using attachment_claims_ledger [OF split(3)] by auto
      moreover have "plain_address ad (at_prefix_len a)" if "x \<in> set (at_address a # at_secondary a)" "parse_addr x = Some ad" for x ad
        using Cons.prems(2) that by (meson list.set_intros(1))
      ultimately show ?thesis using False by blast
    qed
  qed
qed simp

lemma public_claims_kind:
  "c \<in> set (fst (public_claims block xs publics)) \<Longrightarrow> wf_prefix block \<Longrightarrow>
     \<exists>a. plain_address a 32 \<and> c = Carries [] a 32"
proof (induction block xs publics rule: public_claims.induct)
  case (2 block address rest publics)
  show ?case
  proof (cases "parse_addr address")
    case None
    then show ?thesis using 2 by simp
  next
    case (Some a)
    show ?thesis
    proof (cases "\<not> emulated block address \<or> addr_string a \<in> set publics")
      case True
      then show ?thesis using 2 Some by simp
    next
      case False
      then have "prefix_contains block a" using Some by (auto simp: emulated_def split: if_splits)
      then have "plain_address a 32"
        using 2(5) by (cases a) (auto simp: plain_address_def prefix_contains_def contains_iff)
      then show ?thesis using 2(3) [OF Some False] 2(4,5) Some False by (auto simp: Let_def split: prod.splits)
    qed
  qed
qed simp

text \<open>
  C38. The claims of an accepted plan whose addresses are plain, with masks that fit, whose
  egress network is one the machine is on, under a well-formed public block and with no
  aggregate that is the default route itself, never contradict each other: there is a
  shape, with well-formed addresses only, on which every one of them is held. \<open>Expect\<close>
  checks none of these conditions; the theorem after this one shows what a mask that
  does not fit is good for.
\<close>

theorem accepted_plan_can_be_satisfied:
  assumes ok: "expect block p d = Inr cs" and plain: "plain_plan p" and block: "wf_prefix block"
    and egress: "pl_egress p \<noteq> [] \<Longrightarrow> \<exists>a\<in>set (attachments p). at_network a = pl_egress p"
    and blocks: "default_dst \<notin> set (dl_aggregates d)"
  shows "\<exists>s. (\<forall>(name, i)\<in>set (sh_interfaces s). \<forall>q\<in>set (if_addresses i). wf_prefix q \<and> prefix_valid q) \<and>
    (\<forall>c\<in>set cs. v_outcome (check_claim c s) = Held)"
proof -
  obtain acs ns owners where ac: "attachment_claims (attachments p) [] [] = Inr (acs, ns, owners)"
    using ok by (auto simp: expect_def split: sum.splits prod.splits)
  obtain pcs publics where pc: "public_claims block (pl_publics p) [] = (pcs, publics)" by fastforce
  note ns = attachment_claims_ledger [OF ac]
  have no: "contradiction (default_owners p publics owners) = []"
    and cs: "cs = acs @ pcs @ egress_claims p d @
      (if dl_aggregates d \<noteq> [] \<and> ns \<noteq> [] then [ReachesAggregates (dl_aggregates d) ns] else [])"
    using ok by (auto simp: expect_def ac pc Let_def split: if_splits)
  have nonempty: "\<forall>n\<in>set ns. n \<noteq> []" using ns by auto
  have one: "\<not> (pl_egress p \<noteq> [] \<and> pl_no_egress p)"
    using no default_owners_claimants(2) [OF interface_claimants(1) [OF ac], of p publics]
    by (auto simp: contradiction_empty dest: spec [of _ property_default_route])
  let ?s = "model_shape ns cs (pl_egress p) (dl_aggregates d)"
  have kinds: "(\<exists>n\<in>set ns. n \<noteq> [] \<and> (c = Leases n \<or> (\<exists>a b. plain_address a b \<and> c = Carries n a b))) \<or>
      (\<exists>a. plain_address a 32 \<and> c = Carries [] a 32) \<or> c \<in> set (egress_claims p d) \<or>
      (c = ReachesAggregates (dl_aggregates d) ns \<and> ns \<noteq> [])" if mem: "c \<in> set cs" for c
  proof -
    consider "c \<in> set acs" | "c \<in> set pcs" | "c \<in> set (egress_claims p d)"
      | "c = ReachesAggregates (dl_aggregates d) ns" "ns \<noteq> []"
      using mem unfolding cs by (auto split: if_splits)
    then show ?thesis
    proof cases
      case 1
      from attachment_claims_kind [OF ac plain [unfolded plain_plan_def] this] show ?thesis by blast
    next
      case 2
      with public_claims_kind [of c block "pl_publics p" "[]"] pc block show ?thesis by simp
    qed blast+
  qed
  have set_ns: "set ns = {at_network a |a. a \<in> set (attachments p) \<and> at_network a \<noteq> []}" using ns by simp
  have egress_in: "pl_egress p \<in> set ns" if "pl_egress p \<noteq> []"
  proof -
    obtain a where "a \<in> set (attachments p)" "at_network a = pl_egress p" using egress \<open>pl_egress p \<noteq> []\<close> by blast
    then show ?thesis unfolding set_ns using that by force
  qed
  have "v_outcome (check_claim c ?s) = Held" if c: "c \<in> set cs" for c
    using kinds [OF c]
  proof (elim disjE)
    assume "\<exists>n\<in>set ns. n \<noteq> [] \<and> (c = Leases n \<or> (\<exists>a b. plain_address a b \<and> c = Carries n a b))"
    then obtain n where n: "n \<in> set ns" "n \<noteq> []" "c = Leases n \<or> (\<exists>a b. c = Carries n a b)" by blast
    from n(3) show ?thesis
    proof
      assume "c = Leases n"
      then show ?thesis using n(1,2) gateway_contains_itself
        by (simp add: check_leases_def Let_def model_gateways model_interface_on iface_at_def model_iface)
    next
      assume "\<exists>a b. c = Carries n a b"
      then obtain a b where ab: "c = Carries n a b" by blast
      show ?thesis unfolding ab
        by (rule held_carries [of n]) (use n c ab in \<open>auto simp: model_iface iface_at_def set_claimed_on\<close>)
    qed
  next
    assume "\<exists>a. plain_address a 32 \<and> c = Carries [] a 32"
    then obtain a where ab: "c = Carries [] a 32" by blast
    show ?thesis unfolding ab
      by (rule held_carries [of "fresh_name ns"]) (use c ab in \<open>auto simp: model_iface iface_at_def set_claimed_on\<close>)
  next
    assume e: "c \<in> set (egress_claims p d)"
    then consider "c = DefaultRoute (pl_egress p)" "pl_egress p \<noteq> []" | "c = NoDefaultRoute" "pl_no_egress p"
      by (auto simp: egress_claims_def split: if_splits)
    then show ?thesis
    proof cases
      case 1
      then show ?thesis using egress_in
        by (simp add: check_default_route_def Let_def model_gateways model_interface_on model_default_route [OF blocks] model_gateway_def)
    next
      case 2
      then show ?thesis using one by (simp add: check_no_default_route_def model_default_route [OF blocks])
    qed
  next
    assume r: "c = ReachesAggregates (dl_aggregates d) ns \<and> ns \<noteq> []"
    have "doors_of ?s ns [] = Inr [(V4 1, last ns)]" using model_doors [of ns ns] nonempty r by simp
    then show ?thesis using r
      by (simp add: check_reaches_def Let_def list_ex_iff rides_door_def filter_empty_conv) (simp add: model_shape_def)
  qed
  moreover have "wf_prefix q \<and> prefix_valid q" if "(name, i) \<in> set (sh_interfaces ?s)" "q \<in> set (if_addresses i)" for name i q
  proof -
    have "q = model_gateway \<or> (\<exists>n a b. q = Prefix a b \<and> Carries n a b \<in> set cs)"
      using that by (auto simp: model_shape_def set_claimed_on)
    moreover have "plain_address a b" if "Carries n a b \<in> set cs" for n a b
      using kinds [OF that] by (auto simp: egress_claims_def split: if_splits)
    moreover have "wf_prefix model_gateway \<and> prefix_valid model_gateway" by (simp add: model_gateway_def prefix_valid_def)
    ultimately show ?thesis using plain_address_wf by blast
  qed
  ultimately show ?thesis by (intro exI [of _ ?s]) auto
qed

text \<open>
  No mask is checked: a plan for an address with a mask of 33 is accepted, and no machine
  whose addresses are addresses can hold what it claims.
\<close>

definition wide_plan :: plan where
  "wide_plan = \<lparr>pl_boot = [\<lparr>at_network = ''n'', at_address = ''10.0.0.5'', at_prefix_len = 33, at_secondary = [], at_unfiltered = False\<rparr>],
     pl_memberships = [], pl_publics = [], pl_route_via = [], pl_egress = [], pl_no_egress = False\<rparr>"

theorem a_mask_that_fits_nothing_is_accepted:
  "\<exists>c. expect zero_prefix wide_plan zero_dialect = Inr [c] \<and>
     (\<forall>s :: shape. (\<forall>(name, i)\<in>set (sh_interfaces s). \<forall>q\<in>set (if_addresses i). wf_prefix q \<and> prefix_valid q) \<longrightarrow> v_outcome (check_claim c s) \<noteq> Held)"
proof (intro exI conjI allI impI)
  let ?c = "Carries ''n'' (V4 0x0A000005) 33"
  show "expect zero_prefix wide_plan zero_dialect = Inr [?c]"
    by (simp add: expect_def attachments_def wide_plan_def own_claims_def egress_claims_def default_owners_def zero_dialect_def
        ledger_claim_def claimants_def contradiction_def describe_attachment_def interface_property_def property_default_route_def
        Let_def netip_eval)
  fix s :: shape assume valid: "\<forall>(name, i)\<in>set (sh_interfaces s). \<forall>q\<in>set (if_addresses i). wf_prefix q \<and> prefix_valid q"
  have "\<not> carries_match (V4 0x0A000005) 33 q" if "q \<in> set (if_addresses (iface_at s name))" for q name
  proof (cases "map_of (sh_interfaces s) name")
    case None
    then show ?thesis using that by (simp add: iface_at_def no_iface_def)
  next
    case (Some i)
    then have "wf_prefix q" using valid that map_of_SomeD [OF Some] by (auto simp: iface_at_def)
    then show ?thesis by (cases q) (auto simp: carries_match_def)
  qed
  then show "v_outcome (check_claim ?c s) \<noteq> Held"
    by (auto simp: check_carries_def Let_def list_ex_iff)
qed

section \<open>Witnesses\<close>

definition nic :: attachment where
  "nic = \<lparr>at_network = ''n'', at_address = [], at_prefix_len = 0, at_secondary = [], at_unfiltered = False\<rparr>"

definition plan0 :: plan where
  "plan0 = \<lparr>pl_boot = [nic], pl_memberships = [], pl_publics = [], pl_route_via = [], pl_egress = ''n'', pl_no_egress = False\<rparr>"

definition dialect0 :: dialect where
  "dialect0 = \<lparr>dl_next_hop = NoAddr, dl_aggregates = [Prefix (V4 0x0A000000) 8], dl_lays_default = True\<rparr>"

lemma refused_witness:
  "(\<exists>cs. expect zero_prefix plan0 dialect0 = Inr cs) \<and> (\<nexists>cs. expect zero_prefix (plan0\<lparr>pl_no_egress := True\<rparr>) dialect0 = Inr cs)"
proof -
  have r: "readable_addresses plan0" "readable_addresses (plan0\<lparr>pl_no_egress := True\<rparr>)"
    by (simp_all add: readable_addresses_def attachments_def plan0_def nic_def)
  show ?thesis
    unfolding plan_refused_exactly_when_it_contradicts_itself [OF r(1)] plan_refused_exactly_when_it_contradicts_itself [OF r(2)]
    by (simp add: attachments_def plan0_def nic_def has_public_def)
qed

lemma satisfied_witness:
  "\<exists>s cs. expect zero_prefix plan0 dialect0 = Inr cs \<and> (\<lambda>c. v_outcome (check_claim c s)) ` set cs = {Held}"
proof -
  have e: "expect zero_prefix plan0 dialect0 =
      Inr [Leases ''n'', DefaultRoute ''n'', ReachesAggregates [Prefix (V4 0x0A000000) 8] [''n'']]"
    by (simp add: expect_def attachments_def plan0_def nic_def dialect0_def own_claims_def egress_claims_def default_owners_def
        ledger_claim_def claimants_def contradiction_def describe_attachment_def interface_property_def property_default_route_def Let_def)
  have "plain_plan plan0"
    by (simp add: plain_plan_def attachments_def plan0_def nic_def parse_addr_def)
  then obtain s where
    "(\<lambda>c. v_outcome (check_claim c s)) ` set [Leases ''n'', DefaultRoute ''n'', ReachesAggregates [Prefix (V4 0x0A000000) 8] [''n'']] = {Held}"
    using accepted_plan_can_be_satisfied [OF e] by (auto simp: attachments_def plan0_def nic_def dialect0_def default_dst_def)
  with e show ?thesis by blast
qed

end
