(* ===== verification/Images.thy ===== *)
theory Images
  imports Prelude
begin

text \<open>
  The base images a station holds: \<open>internal/core/machine/images.go\<close>. A reference is
  a family and a version; an image's alias, its source and the way to install an
  SSH daemon in it follow from the reference. Building one is the host's work,
  reached through the two optional halves of a driver.
\<close>

record image_spec =
  is_name :: string
  is_source :: string
  is_package :: string
  is_service :: string
  is_manager :: string

record image_family =
  fam_package :: string
  fam_service :: string
  fam_manager :: string

definition image_prefix :: string where "image_prefix = ''feint''"

definition image_alias_of :: "image_spec \<Rightarrow> string" where
  "image_alias_of s = image_prefix @ ''/'' @ is_name s"

definition image_families :: "(string \<times> image_family) list" where
  "image_families =
     (let apt = \<lparr>fam_package = ''openssh-server'', fam_service = ''ssh'', fam_manager = ''apt''\<rparr>;
          dnf = \<lparr>fam_package = ''openssh-server'', fam_service = ''sshd'', fam_manager = ''dnf''\<rparr> in
      [(''ubuntu'', apt), (''debian'', apt),
       (''alpine'', \<lparr>fam_package = ''openssh'', fam_service = ''sshd'', fam_manager = ''apk''\<rparr>),
       (''almalinux'', dnf), (''rockylinux'', dnf), (''centos'', dnf), (''fedora'', dnf)])"

definition families :: "string list" where
  "families = sort (map fst image_families)"

section \<open>References\<close>

definition is_alnum :: "char \<Rightarrow> bool" where
  "is_alnum c = ((CHR ''a'' \<le> c \<and> c \<le> CHR ''z'') \<or> (CHR ''A'' \<le> c \<and> c \<le> CHR ''Z'') \<or> (CHR ''0'' \<le> c \<and> c \<le> CHR ''9''))"

definition ref_token :: "string \<Rightarrow> bool" where
  "ref_token s =
     (if s = [] \<or> length s > 64 then False
      else is_alnum (hd s) \<and> list_all (\<lambda>c. is_alnum c \<or> c = CHR ''.'' \<or> c = CHR ''_'' \<or> c = CHR ''-'') s)"

definition split_ref :: "string \<Rightarrow> (string \<times> string) option" where
  "split_ref ref =
     (if list_ex (\<lambda>c. c = CHR ''/'') ref then None
      else
        (let (family, version, found) = cut_on CHR '':'' ref in
         if \<not> found \<or> \<not> ref_token family \<or> \<not> ref_token version then None
         else Some (family, version)))"

definition image_alias :: "string \<Rightarrow> string option" where
  "image_alias ref =
     (case split_ref ref of
        None \<Rightarrow> None
      | Some (family, version) \<Rightarrow> Some (image_prefix @ ''/'' @ family @ ''/'' @ version))"

definition spec_for :: "string \<Rightarrow> image_spec option" where
  "spec_for ref =
     (case split_ref ref of
        None \<Rightarrow> None
      | Some (family, version) \<Rightarrow>
          (case map_of image_families family of
             None \<Rightarrow> None
           | Some recipe \<Rightarrow>
               Some \<lparr>is_name = family @ ''/'' @ version,
                     is_source = ''images:'' @ family @ ''/'' @ version @ ''/cloud'',
                     is_package = fam_package recipe, is_service = fam_service recipe,
                     is_manager = fam_manager recipe\<rparr>))"

definition required_refs :: "string list" where
  "required_refs = [''ubuntu:24.04'', ''ubuntu:22.04'', ''debian:12'', ''debian:13'', ''alpine:3.21'', ''almalinux:9'']"

definition required_images :: "image_spec list" where
  "required_images = List.map_filter spec_for required_refs"

section \<open>Images an operator declares\<close>

record image =
  im_ref :: string
  im_user :: string

datatype declared_error =
    BadEntry string
  | UnknownRef string string
  | DeclaredTwice string string

fun declared_entries :: "string list \<Rightarrow> (string \<times> image) list \<Rightarrow> declared_error + (string \<times> image) list" where
  "declared_entries [] out = Inr out"
| "declared_entries (e # es) out =
     (let entry = trim_space e in
      if entry = [] then declared_entries es out
      else
        (let (i0, s0, found) = cut_on CHR ''='' entry; ident = trim_space i0; spec = trim_space s0 in
         if \<not> found \<or> ident = [] \<or> spec = [] then Inl (BadEntry entry)
         else
           (let (ref, login, _) = cut_on CHR ''@'' spec in
            if spec_for ref = None then Inl (UnknownRef entry ref)
            else if map_of out ident \<noteq> None then Inl (DeclaredTwice entry ident)
            else declared_entries es (AList.update ident \<lparr>im_ref = ref, im_user = login\<rparr> out))))"

definition parse_declared_images :: "string \<Rightarrow> declared_error + (string \<times> image) list" where
  "parse_declared_images s =
     (if trim_space s = [] then Inr [] else declared_entries (split_on CHR '','' s) [])"

section \<open>Building\<close>

text \<open>
  The two halves of a driver: asking which aliases it holds, with their
  fingerprints, and building one. Either may be missing.
\<close>

type_synonym 'h lister = "'h \<Rightarrow> 'h \<times> (string + (string \<times> string) list)"
type_synonym 'h builder = "image_spec \<Rightarrow> 'h \<Rightarrow> 'h \<times> string option"

definition build_if_missing ::
  "'h lister option \<Rightarrow> 'h builder option \<Rightarrow> image_spec \<Rightarrow> 'h \<Rightarrow> 'h \<times> (string + bool)" where
  "build_if_missing lister builder spec h =
     (case builder of
        None \<Rightarrow> (h, Inl ''the runtime cannot build images'')
      | Some build \<Rightarrow>
          (let (h1, present) =
             (case lister of
                None \<Rightarrow> (h, False)
              | Some ask \<Rightarrow>
                  (case ask h of
                     (h1, Inl e) \<Rightarrow> (h1, False)
                   | (h1, Inr locals) \<Rightarrow> (h1, map_of locals (image_alias_of spec) \<noteq> None))) in
           if present then (h1, Inr False)
           else
             (case build spec h1 of
                (h2, Some e) \<Rightarrow> (h2, Inl e)
              | (h2, None) \<Rightarrow> (h2, Inr True))))"

definition ensure_image ::
  "'h lister option \<Rightarrow> 'h builder option \<Rightarrow> string \<Rightarrow> 'h \<Rightarrow> 'h \<times> (string + bool)" where
  "ensure_image lister builder ref h =
     (case spec_for ref of
        None \<Rightarrow> (h, Inr False)
      | Some spec \<Rightarrow>
          (case (lister, builder) of
             (Some ask, Some build) \<Rightarrow>
               (case ask h of
                  (h1, Inl e) \<Rightarrow> (h1, Inr False)
                | (h1, Inr locals) \<Rightarrow>
                    (if map_of locals (image_alias_of spec) \<noteq> None then (h1, Inr False)
                     else build_if_missing lister builder spec h1))
           | _ \<Rightarrow> (h, Inr False)))"

section \<open>The inventory\<close>

record image_status =
  ist_spec :: image_spec
  ist_fingerprint :: string

definition image_present :: "image_status \<Rightarrow> bool" where
  "image_present s = (ist_fingerprint s \<noteq> [])"

text \<open>\<open>locals\<close> is what the lister answered, the empty map when there is none.\<close>

definition image_inventory :: "string + (string \<times> string) list \<Rightarrow> string + image_status list" where
  "image_inventory answer =
     (case answer of
        Inl e \<Rightarrow> Inl e
      | Inr locals \<Rightarrow>
          Inr (map (\<lambda>spec. \<lparr>ist_spec = spec, ist_fingerprint = option_or [] (map_of locals (image_alias_of spec))\<rparr>)
            (sort_key is_name required_images)))"

text \<open>\<open>strings.Replace(name, "/", ":", 1)\<close>.\<close>

fun replace_first :: "char \<Rightarrow> char \<Rightarrow> string \<Rightarrow> string" where
  "replace_first a b [] = []"
| "replace_first a b (c # s) = (if c = a then b # s else c # replace_first a b s)"

definition bare_spec :: "string \<Rightarrow> image_spec" where
  "bare_spec name = \<lparr>is_name = name, is_source = [], is_package = [], is_service = [], is_manager = []\<rparr>"

definition derived_status :: "string \<times> string \<Rightarrow> image_status" where
  "derived_status = (\<lambda>(alias, fingerprint).
     (let name = drop (length image_prefix + 1) alias in
      \<lparr>ist_spec = option_or (bare_spec name) (spec_for (replace_first CHR ''/'' CHR '':'' name)),
       ist_fingerprint = fingerprint\<rparr>))"

definition derived_images :: "string + (string \<times> string) list \<Rightarrow> string + image_status list" where
  "derived_images answer =
     (case answer of
        Inl e \<Rightarrow> Inl e
      | Inr locals \<Rightarrow>
          Inr (sort_key (is_name \<circ> ist_spec) (map derived_status
            (filter (\<lambda>(alias, _). \<not> (alias \<in> set (map image_alias_of required_images) \<or> \<not> has_prefix alias (image_prefix @ ''/''))) locals))))"

definition missing_images :: "image_status list \<Rightarrow> image_spec list" where
  "missing_images inventory = map ist_spec (filter (\<lambda>s. \<not> image_present s) inventory)"

definition image_names :: "image_spec list \<Rightarrow> string" where
  "image_names specs = str_join '', '' (map is_name specs)"

definition install_commands :: "image_spec \<Rightarrow> string list list option" where
  "install_commands spec =
     (if is_manager spec = ''apt'' then Some
        [[''sh'', ''-c'', ''DEBIAN_FRONTEND=noninteractive apt-get update -qq''],
         [''sh'', ''-c'', ''DEBIAN_FRONTEND=noninteractive apt-get install -y -qq --no-install-recommends '' @ is_package spec],
         [''systemctl'', ''enable'', is_service spec],
         [''sh'', ''-c'', ''apt-get clean && rm -rf /var/lib/apt/lists/*'']]
      else if is_manager spec = ''apk'' then Some
        [[''apk'', ''add'', ''--no-cache'', is_package spec],
         [''rc-update'', ''add'', is_service spec, ''default'']]
      else if is_manager spec = ''dnf'' then Some
        [[''sh'', ''-c'', ''dnf install -y -q '' @ is_package spec],
         [''systemctl'', ''enable'', is_service spec],
         [''sh'', ''-c'', ''dnf clean all'']]
      else None)"

section \<open>A reference and its alias say the same\<close>

lemma cut_on_found:
  "cut_on c s = (b, a, True) \<Longrightarrow> s = b @ c # a \<and> c \<notin> set b"
proof (induction s arbitrary: b a)
  case (Cons x xs)
  show ?case
  proof (cases "x = c")
    case True
    then show ?thesis using Cons.prems by simp
  next
    case False
    then obtain b' where "cut_on c xs = (b', a, True)" "b = x # b'"
      using Cons.prems by (auto simp: Let_def split: prod.splits)
    then show ?thesis using Cons.IH [of b' a] False by simp
  qed
qed simp

lemma ref_token_free: "ref_token s \<Longrightarrow> CHR ''/'' \<notin> set s \<and> CHR '':'' \<notin> set s \<and> s \<noteq> []"
proof -
  assume r: "ref_token s"
  then have c: "\<forall>c\<in>set s. is_alnum c \<or> c = CHR ''.'' \<or> c = CHR ''_'' \<or> c = CHR ''-''" and "s \<noteq> []"
    by (simp_all add: ref_token_def list_all_iff split: if_splits)
  moreover have n: "\<not> is_alnum CHR ''/''" "\<not> is_alnum CHR '':''" by (simp_all add: is_alnum_def)
  have "CHR ''/'' \<notin> set s" using bspec [OF c, of "CHR ''/''"] n(1) by auto
  moreover have "CHR '':'' \<notin> set s" using bspec [OF c, of "CHR '':''"] n(2) by auto
  ultimately show ?thesis by simp
qed

lemma split_ref_Some:
  assumes "split_ref ref = Some (family, version)"
  shows "ref = family @ CHR '':'' # version" "ref_token family" "ref_token version"
proof -
  obtain b a f where c: "cut_on CHR '':'' ref = (b, a, f)" by (metis prod_cases3)
  then have s: "f" "b = family" "a = version" "ref_token family" "ref_token version"
    using assms by (auto simp: split_ref_def split: if_splits)
  show "ref = family @ CHR '':'' # version" using cut_on_found [of "CHR '':''" ref b a] c s(1-3) by simp
  show "ref_token family" "ref_token version" by (fact s(4), fact s(5))
qed

lemma split_ref_join:
  assumes "ref_token family" "ref_token version"
  shows "split_ref (family @ CHR '':'' # version) = Some (family, version)"
  using assms ref_token_free [OF assms(1)] ref_token_free [OF assms(2)]
  by (auto simp: split_ref_def cut_on_append list_ex_iff)

lemma replace_first_append: "a \<notin> set x \<Longrightarrow> replace_first a b (x @ a # y) = x @ b # y"
  by (induction x) auto

text \<open>
  The alias a station lists an image under leads back to the reference that
  built it: the inventory of derived images recovers the very recipe of every
  image the reference describes, and two references share an alias only when
  they are the same.
\<close>

theorem alias_leads_back_to_the_recipe:
  assumes "spec_for ref = Some spec"
  shows "image_alias ref = Some (image_alias_of spec) \<and>
    ist_spec (derived_status (image_alias_of spec, fingerprint)) = spec \<and>
    (\<forall>ref'. image_alias ref' = image_alias ref \<longrightarrow> ref' = ref)"
proof -
  obtain family version recipe where r: "split_ref ref = Some (family, version)" "map_of image_families family = Some recipe"
    "is_name spec = family @ ''/'' @ version"
    using assms by (auto simp: spec_for_def split: option.splits)
  note s = split_ref_Some [OF r(1)]
  have al: "image_alias_of spec = image_prefix @ ''/'' @ family @ ''/'' @ version"
    by (simp add: image_alias_of_def r(3))
  have "drop (length image_prefix + 1) (image_alias_of spec) = family @ CHR ''/'' # version"
    unfolding al by (simp add: image_prefix_def)
  then have "replace_first CHR ''/'' CHR '':'' (drop (length image_prefix + 1) (image_alias_of spec)) = ref"
    using ref_token_free [OF s(2)] s(1) by (simp add: replace_first_append)
  then have recovered: "ist_spec (derived_status (image_alias_of spec, fingerprint)) = spec"
    using assms by (simp add: derived_status_def Let_def)
  have "ref' = ref" if other: "image_alias ref' = image_alias ref" for ref'
  proof -
    obtain f v where fv: "split_ref ref' = Some (f, v)" "f @ CHR ''/'' # v = family @ CHR ''/'' # version"
      using other r(1) by (auto simp: image_alias_def split: option.splits)
    note s' = split_ref_Some [OF fv(1)]
    have "split_on CHR ''/'' (f @ CHR ''/'' # v) = f # split_on CHR ''/'' v"
      "split_on CHR ''/'' (family @ CHR ''/'' # version) = family # split_on CHR ''/'' version"
      using ref_token_free [OF s'(2)] ref_token_free [OF s(2)] by (simp_all add: split_on_append)
    then have "f = family" using fv(2) by simp
    then show ?thesis using fv(2) s(1) s'(1) by simp
  qed
  then show ?thesis using recovered al r(1) by (simp add: image_alias_def)
qed

text \<open>Every image the program requires is one it knows how to build.\<close>

lemma required_images_built:
  "length required_images = length required_refs"
  "\<forall>spec\<in>set required_images. install_commands spec \<noteq> None"
  by code_simp+

lemma alias_witness: "ist_spec (derived_status (''feint/debian/12'', ''f'')) =
    \<lparr>is_name = ''debian/12'', is_source = ''images:debian/12/cloud'', is_package = ''openssh-server'',
     is_service = ''ssh'', is_manager = ''apt''\<rparr>"
proof -
  have "spec_for ''debian:12'' = Some \<lparr>is_name = ''debian/12'', is_source = ''images:debian/12/cloud'',
      is_package = ''openssh-server'', is_service = ''ssh'', is_manager = ''apt''\<rparr>" by code_simp
  from alias_leads_back_to_the_recipe [OF this, of "''f''"] show ?thesis
    by (simp add: image_alias_of_def image_prefix_def)
qed

end
