(* ===== verification/Cloudinit.thy ===== *)
theory Cloudinit
  imports Encoding
begin

text \<open>
  The cloud-config of a machine's default account: \<open>internal/core/cloudinit\<close>. The
  four embedded templates are data, a list of nodes per file name handed to the
  rendering; the nodes are the actions the templates use and \<open>exec_node\<close> is what
  \<open>text/template\<close> does with them, which is to concatenate without escaping. What
  stands between a client's value and a line of its own is \<open>checkInjection\<close>.
\<close>

record cloud_spec =
  cs_distribution :: string
  cs_hostname :: string
  cs_user :: string
  cs_keys :: "string list"
  cs_sshd :: bool

datatype tnode =
    TText string
  | THostname
  | TUser
  | TDot
  | TIfRoot "tnode list" "tnode list"
  | TIfSshd "tnode list"
  | TRangeKeys "tnode list"

datatype cloud_error =
    BadHostname
  | BadUser
  | BadKey nat
  | NoTemplate string

definition line_breaks :: "char list" where
  "line_breaks = [CHR 0x0A, CHR 0x0D, CHR 0x00]"

fun check_keys :: "nat \<Rightarrow> string list \<Rightarrow> cloud_error option" where
  "check_keys i [] = None"
| "check_keys i (k # ks) = (if contains_any k line_breaks then Some (BadKey i) else check_keys (Suc i) ks)"

definition check_injection :: "cloud_spec \<Rightarrow> cloud_error option" where
  "check_injection s =
     (if contains_any (cs_hostname s) line_breaks then Some BadHostname
      else if contains_any (cs_user s) line_breaks then Some BadUser
      else check_keys 0 (cs_keys s))"

definition template_for :: "string \<Rightarrow> string" where
  "template_for distribution =
     (let d = to_lower distribution in
      if str_contains d ''ubuntu'' then ''ubuntu.yaml.tmpl''
      else if str_contains d ''alpine'' then ''alpine.yaml.tmpl''
      else if str_contains d ''alma'' \<or> str_contains d ''rocky'' \<or> str_contains d ''fedora'' \<or>
              str_contains d ''centos'' \<or> str_contains d ''rhel'' then ''almalinux.yaml.tmpl''
      else ''debian.yaml.tmpl'')"

fun exec_node :: "cloud_spec \<Rightarrow> string \<Rightarrow> tnode \<Rightarrow> string"
  and exec_nodes :: "cloud_spec \<Rightarrow> string \<Rightarrow> tnode list \<Rightarrow> string" where
  "exec_node s dot (TText t) = t"
| "exec_node s dot THostname = cs_hostname s"
| "exec_node s dot TUser = cs_user s"
| "exec_node s dot TDot = dot"
| "exec_node s dot (TIfRoot yes no) = (if cs_user s = ''root'' then exec_nodes s dot yes else exec_nodes s dot no)"
| "exec_node s dot (TIfSshd yes) = (if cs_sshd s then exec_nodes s dot yes else [])"
| "exec_node s dot (TRangeKeys body) = concat (map (\<lambda>k. exec_nodes s k body) (cs_keys s))"
| "exec_nodes s dot [] = []"
| "exec_nodes s dot (n # ns) = exec_node s dot n @ exec_nodes s dot ns"

definition with_defaults :: "cloud_spec \<Rightarrow> cloud_spec" where
  "with_defaults s =
     (let s1 = (if cs_user s = [] then s\<lparr>cs_user := ''root''\<rparr> else s)
      in (if cs_hostname s1 = [] then s1\<lparr>cs_hostname := ''feint''\<rparr> else s1))"

definition render :: "(string \<Rightarrow> tnode list option) \<Rightarrow> cloud_spec \<Rightarrow> cloud_error + string" where
  "render templates spec0 =
     (if length (cs_keys spec0) = 0 then Inr []
      else
        (let spec = with_defaults spec0 in
         case check_injection spec of
           Some e \<Rightarrow> Inl e
         | None \<Rightarrow>
             (case templates (template_for (cs_distribution spec)) of
                None \<Rightarrow> Inl (NoTemplate (template_for (cs_distribution spec)))
              | Some nodes \<Rightarrow> Inr (exec_nodes spec [] nodes))))"

text \<open>\<open>Decode\<close>: the standard decoder skips line breaks, and what it refuses is kept as it is.\<close>

definition decode_user_data :: "string \<Rightarrow> string" where
  "decode_user_data user_data =
     (if user_data = [] then []
      else
        (case b64_decode (filter (\<lambda>c. c \<noteq> CHR 0x0A \<and> c \<noteq> CHR 0x0D) user_data) of
           None \<Rightarrow> user_data
         | Some decoded \<Rightarrow> decoded))"

definition max_user_data :: nat where "max_user_data = 500 * 2 ^ 10"

section \<open>A client's value stays on its line\<close>

definition newlines :: "string \<Rightarrow> nat" where
  "newlines s = count_list s (CHR 0x0A)"

lemma newlines_simps [simp]:
  "newlines [] = 0" "newlines (x @ y) = newlines x + newlines y"
  by (simp_all add: newlines_def)

lemma newlines_free: "CHR 0x0A \<notin> set s \<Longrightarrow> newlines s = 0"
  by (simp add: newlines_def count_notin)

lemma check_keys_None: "check_keys i ks = None \<longleftrightarrow> (\<forall>k\<in>set ks. \<not> contains_any k line_breaks)"
  by (induction ks arbitrary: i) auto

lemma contains_any_iff: "contains_any s cs \<longleftrightarrow> set s \<inter> set cs \<noteq> {}"
  by (auto simp: contains_any_def list_ex_iff)

lemma check_injection_None:
  "check_injection s = None \<longleftrightarrow>
     (\<forall>v\<in>insert (cs_hostname s) (insert (cs_user s) (set (cs_keys s))). set v \<inter> set line_breaks = {})"
  by (auto simp: check_injection_def check_keys_None contains_any_iff)

text \<open>How many lines a list of nodes writes, from what the template and the conditions say alone.\<close>

fun node_lines :: "bool \<Rightarrow> bool \<Rightarrow> nat \<Rightarrow> tnode \<Rightarrow> nat"
  and nodes_lines :: "bool \<Rightarrow> bool \<Rightarrow> nat \<Rightarrow> tnode list \<Rightarrow> nat" where
  "node_lines isroot sshd n (TText t) = newlines t"
| "node_lines isroot sshd n THostname = 0"
| "node_lines isroot sshd n TUser = 0"
| "node_lines isroot sshd n TDot = 0"
| "node_lines isroot sshd n (TIfRoot yes no) = (if isroot then nodes_lines isroot sshd n yes else nodes_lines isroot sshd n no)"
| "node_lines isroot sshd n (TIfSshd yes) = (if sshd then nodes_lines isroot sshd n yes else 0)"
| "node_lines isroot sshd n (TRangeKeys body) = n * nodes_lines isroot sshd n body"
| "nodes_lines isroot sshd n [] = 0"
| "nodes_lines isroot sshd n (x # xs) = node_lines isroot sshd n x + nodes_lines isroot sshd n xs"

definition one_line :: "string \<Rightarrow> bool" where
  "one_line v \<longleftrightarrow> CHR 0x0A \<notin> set v"

lemma newlines_concat: "\<forall>k\<in>set ks. newlines (f k) = m \<Longrightarrow> newlines (concat (map f ks)) = length ks * m"
  by (induction ks) auto

definition plain_values :: "cloud_spec \<Rightarrow> bool" where
  "plain_values s \<longleftrightarrow> one_line (cs_hostname s) \<and> one_line (cs_user s) \<and> (\<forall>k\<in>set (cs_keys s). one_line k)"

lemma exec_lines:
  "plain_values s \<Longrightarrow> one_line dot \<Longrightarrow>
     newlines (exec_node s dot n) = node_lines (cs_user s = ''root'') (cs_sshd s) (length (cs_keys s)) n"
  "plain_values s \<Longrightarrow> one_line dot \<Longrightarrow>
     newlines (exec_nodes s dot ns) = nodes_lines (cs_user s = ''root'') (cs_sshd s) (length (cs_keys s)) ns"
proof (induction s dot n and s dot ns rule: exec_node_exec_nodes.induct)
  case (7 s dot body)
  have "\<forall>k\<in>set (cs_keys s). newlines (exec_nodes s k body) = nodes_lines (cs_user s = ''root'') (cs_sshd s) (length (cs_keys s)) body"
    using 7 by (simp add: plain_values_def)
  from newlines_concat [OF this] show ?case by simp
qed (simp_all add: plain_values_def one_line_def newlines_free)

text \<open>
  C40. Nothing a client sends opens a line of the document: two accepted machines
  with the same distribution, number of keys, choice of root and daemon get
  documents of exactly the same number of lines, whatever hostname, user and keys
  they send; a value with a line feed, a carriage return or a NUL is refused.
\<close>

theorem client_values_open_no_line:
  assumes a: "render templates s = Inr x" "render templates t = Inr y"
    and same: "cs_distribution s = cs_distribution t" "length (cs_keys s) = length (cs_keys t)" "cs_sshd s = cs_sshd t"
      "cs_user (with_defaults s) = ''root'' \<longleftrightarrow> cs_user (with_defaults t) = ''root''"
  shows "newlines x = newlines y"
proof (cases "cs_keys s = []")
  case True
  then show ?thesis using a same(2) by (simp add: render_def)
next
  case False
  have d: "cs_distribution (with_defaults u) = cs_distribution u" "cs_keys (with_defaults u) = cs_keys u"
    "cs_sshd (with_defaults u) = cs_sshd u" for u
    by (simp_all add: with_defaults_def Let_def)
  have lines: "\<exists>nodes. templates (template_for (cs_distribution u)) = Some nodes \<and>
      newlines z = nodes_lines (cs_user (with_defaults u) = ''root'') (cs_sshd u) (length (cs_keys u)) nodes"
    if u: "render templates u = Inr z" "cs_keys u \<noteq> []" for u z
  proof -
    obtain nodes where n: "check_injection (with_defaults u) = None"
      "templates (template_for (cs_distribution u)) = Some nodes" "z = exec_nodes (with_defaults u) [] nodes"
      using u by (auto simp: render_def Let_def d split: option.splits)
    have "plain_values (with_defaults u)"
      using n(1) unfolding check_injection_None plain_values_def one_line_def line_breaks_def by auto
    from exec_lines(2) [OF this, of "[]" nodes] n show ?thesis by (simp add: d one_line_def)
  qed
  have t: "cs_keys t \<noteq> []" using False same(2) by auto
  obtain n1 where 1: "templates (template_for (cs_distribution s)) = Some n1"
    "newlines x = nodes_lines (cs_user (with_defaults s) = ''root'') (cs_sshd s) (length (cs_keys s)) n1"
    using lines [OF a(1) False] by blast
  obtain n2 where 2: "templates (template_for (cs_distribution t)) = Some n2"
    "newlines y = nodes_lines (cs_user (with_defaults t) = ''root'') (cs_sshd t) (length (cs_keys t)) n2"
    using lines [OF a(2) t] by blast
  have "n1 = n2" using 1(1) 2(1) unfolding same(1) by simp
  then show ?thesis unfolding 1(2) 2(2) same by simp
qed

text \<open>
  The three bytes are all that is refused. U+0085, which is a control character
  and which YAML 1.1 reads as the end of a line, goes through a hostname.
\<close>

theorem next_line_is_not_refused:
  "check_injection \<lparr>cs_distribution = ''debian'', cs_hostname = ''h'' @ [CHR 0xC2, CHR 0x85] @ ''runcmd: [x]'',
     cs_user = ''root'', cs_keys = [''k''], cs_sshd = True\<rparr> = None"
  by (simp add: check_injection_def contains_any_def line_breaks_def)

definition tiny :: "string \<Rightarrow> tnode list option" where
  "tiny name = Some [TText ''hostname: '', THostname, TText [CHR 0x0A], TRangeKeys [TText ''- '', TDot, TText [CHR 0x0A]]]"

definition machine0 :: "string \<Rightarrow> cloud_spec" where
  "machine0 h = \<lparr>cs_distribution = ''debian'', cs_hostname = h, cs_user = ''root'', cs_keys = [''k1'', ''k2''], cs_sshd = True\<rparr>"

lemma lines_witness: "\<exists>x y. render tiny (machine0 ''a'') = Inr x \<and> render tiny (machine0 ''a: b'') = Inr y \<and> newlines x = newlines y"
proof -
  have r: "\<exists>x. render tiny (machine0 ''a'') = Inr x" "\<exists>x. render tiny (machine0 ''a: b'') = Inr x"
    by (simp_all add: render_def tiny_def machine0_def with_defaults_def check_injection_def contains_any_def line_breaks_def)
  obtain x where x: "render tiny (machine0 ''a'') = Inr x" using r(1) by (rule exE)
  obtain y where y: "render tiny (machine0 ''a: b'') = Inr y" using r(2) by (rule exE)
  have "newlines x = newlines y"
    by (rule client_values_open_no_line [OF x y]) (simp_all add: machine0_def with_defaults_def)
  with x y show ?thesis by (intro exI conjI)
qed

end
