(* ===== verification/Driver.thy ===== *)
theory Driver
  imports Expect Firewall Images
begin

text \<open>
  The driver contract of \<open>internal/core/machine/machine.go\<close>, \<open>address.go\<close>,
  \<open>firewall.go\<close>, \<open>isolate.go\<close> and \<open>capabilities.go\<close>, and the two drivers that are
  code of this repository alone: \<open>Noop\<close> and the \<open>Recorder\<close> of \<open>recorder.go\<close>. A
  driver is a record of operations over a host state of any type; an optional
  half of the contract is an option. An operation answers the host it leaves and
  an error text, or nothing.
\<close>

section \<open>What the layer hands a driver\<close>

record network_spec =
  ns_name :: string
  ns_cidr :: string
  ns_gateway :: string
  ns_nat :: bool
  ns_labels :: "string \<Rightarrow> string option"

record machine_spec =
  ms_name :: string
  ms_image :: string
  ms_labels :: "string \<Rightarrow> string option"
  ms_user :: string
  ms_keys :: "string list"
  ms_cloud_init :: string
  ms_attachments :: "attachment list"
  ms_publics :: "string list"

record machine =
  mc_name :: string
  mc_addresses :: "string list"
  mc_running :: bool

record address_spec =
  as_machine :: string
  as_address :: string
  as_network :: string

record capabilities =
  cap_machines :: bool
  cap_addresses :: bool
  cap_firewall :: bool
  cap_firewall_public_only :: bool
  cap_firewall_public_when_joined :: bool
  cap_isolation :: bool
  cap_own_kernel :: bool
  cap_balancing :: bool
  cap_private_from_host :: bool

definition no_capabilities :: capabilities where
  "no_capabilities = \<lparr>cap_machines = False, cap_addresses = False, cap_firewall = False,
     cap_firewall_public_only = False, cap_firewall_public_when_joined = False, cap_isolation = False,
     cap_own_kernel = False, cap_balancing = False, cap_private_from_host = False\<rparr>"

type_synonym 'h effect = "'h \<Rightarrow> 'h \<times> string option"

record 'h router =
  ro_route :: "address_spec \<Rightarrow> 'h effect"
  ro_unroute :: "string \<Rightarrow> string \<Rightarrow> 'h effect"

record 'h egress_router =
  er_route :: "string \<Rightarrow> string \<Rightarrow> 'h effect"
  er_drop :: "string \<Rightarrow> 'h effect"

record 'h firewaller =
  fw_ensure :: "fw_spec \<Rightarrow> 'h effect"
  fw_apply :: "string \<Rightarrow> fw_binding \<Rightarrow> 'h effect"
  fw_remove :: "string \<Rightarrow> 'h effect"

record 'h peerer =
  pe_native :: "'h \<Rightarrow> bool"
  pe_peer :: "string \<Rightarrow> string list \<Rightarrow> 'h effect"

record 'h observer_half =
  ob_observe :: "string \<Rightarrow> 'h \<Rightarrow> 'h \<times> (string + shape)"
  ob_door :: "string \<Rightarrow> addr \<Rightarrow> addr \<Rightarrow> 'h \<Rightarrow> 'h \<times> (string + route)"

record 'h driver =
  dr_noop :: bool
  dr_start :: "machine_spec \<Rightarrow> 'h \<Rightarrow> 'h \<times> (string + machine)"
  dr_stop :: "string \<Rightarrow> 'h effect"
  dr_remove :: "string \<Rightarrow> 'h effect"
  dr_inspect :: "string \<Rightarrow> 'h \<Rightarrow> 'h \<times> (string + machine option)"
  dr_ensure_network :: "network_spec \<Rightarrow> 'h effect"
  dr_attach :: "string \<Rightarrow> attachment \<Rightarrow> 'h effect"
  dr_detach :: "string \<Rightarrow> string \<Rightarrow> 'h effect"
  dr_remove_network :: "string \<Rightarrow> 'h effect"
  dr_router :: "'h router option"
  dr_egress :: "'h egress_router option"
  dr_firewaller :: "'h firewaller option"
  dr_peerer :: "'h peerer option"
  dr_isolator :: "(string \<Rightarrow> string list \<Rightarrow> 'h effect) option"
  dr_observer :: "'h observer_half option"
  dr_lister :: "'h lister option"
  dr_builder :: "'h builder option"
  dr_dialect :: "dialect option"
  dr_capabilities :: "('h \<Rightarrow> capabilities) option"

definition declared_capabilities :: "'h driver \<Rightarrow> 'h \<Rightarrow> capabilities option" where
  "declared_capabilities d h = map_option (\<lambda>caps. caps h) (dr_capabilities d)"

definition capabilities_of :: "'h driver \<Rightarrow> 'h \<Rightarrow> capabilities" where
  "capabilities_of d h = option_or no_capabilities (declared_capabilities d h)"

section \<open>The driver that does nothing\<close>

definition noop_driver :: "'h driver" where
  "noop_driver =
     \<lparr>dr_noop = True,
      dr_start = (\<lambda>spec h. (h, Inr \<lparr>mc_name = ms_name spec, mc_addresses = [], mc_running = True\<rparr>)),
      dr_stop = (\<lambda>name h. (h, None)),
      dr_remove = (\<lambda>name h. (h, None)),
      dr_inspect = (\<lambda>name h. (h, Inr None)),
      dr_ensure_network = (\<lambda>spec h. (h, None)),
      dr_attach = (\<lambda>name att h. (h, None)),
      dr_detach = (\<lambda>name network h. (h, None)),
      dr_remove_network = (\<lambda>name h. (h, None)),
      dr_router = None, dr_egress = None, dr_firewaller = None, dr_peerer = None, dr_isolator = None,
      dr_observer = None, dr_lister = None, dr_builder = None, dr_dialect = None,
      dr_capabilities = Some (\<lambda>h. no_capabilities)\<rparr>"

section \<open>The recorder\<close>

text \<open>
  A gesture with its full argument; \<open>Record\<close> is exported, so a control can plant
  one of any other kind.
\<close>

datatype gesture =
    GStart machine_spec
  | GStop string
  | GRemove string
  | GEnsureNetwork network_spec
  | GAttach string attachment
  | GDetach string string
  | GRemoveNetwork string
  | GRouteAddress address_spec
  | GUnrouteAddress string string
  | GEnsureFirewall fw_spec
  | GApplyFirewall string fw_binding
  | GRemoveFirewall string
  | GPeerNetworks string "string list"
  | GIsolateNetwork string "string list"
  | GPlanted string

fun gesture_kind :: "gesture \<Rightarrow> string" where
  "gesture_kind (GStart s) = ''Start''"
| "gesture_kind (GStop n) = ''Stop''"
| "gesture_kind (GRemove n) = ''Remove''"
| "gesture_kind (GEnsureNetwork s) = ''EnsureNetwork''"
| "gesture_kind (GAttach n a) = ''Attach''"
| "gesture_kind (GDetach n w) = ''Detach''"
| "gesture_kind (GRemoveNetwork n) = ''RemoveNetwork''"
| "gesture_kind (GRouteAddress s) = ''RouteAddress''"
| "gesture_kind (GUnrouteAddress m a) = ''UnrouteAddress''"
| "gesture_kind (GEnsureFirewall s) = ''EnsureFirewall''"
| "gesture_kind (GApplyFirewall m b) = ''ApplyFirewall''"
| "gesture_kind (GRemoveFirewall n) = ''RemoveFirewall''"
| "gesture_kind (GPeerNetworks n ps) = ''PeerNetworks''"
| "gesture_kind (GIsolateNetwork n fs) = ''IsolateNetwork''"
| "gesture_kind (GPlanted k) = k"

text \<open>The table of the contract's methods: recorded, or a question that is not.\<close>

definition contract_gestures :: "(string \<times> bool) list" where
  "contract_gestures =
     [(''Name'', False), (''Available'', False), (''Start'', True), (''Stop'', True), (''Remove'', True),
      (''Inspect'', False), (''EnsureNetwork'', True), (''Attach'', True), (''Detach'', True),
      (''RemoveNetwork'', True), (''RouteAddress'', True), (''UnrouteAddress'', True), (''EnsureFirewall'', True),
      (''ApplyFirewall'', True), (''RemoveFirewall'', True), (''NativeIsolation'', False), (''PeerNetworks'', True),
      (''IsolateNetwork'', True), (''EnsureBalancer'', True), (''RemoveBalancer'', True), (''Capabilities'', False)]"

definition known_gesture :: "string \<Rightarrow> bool" where
  "known_gesture kind = (map_of contract_gestures kind \<noteq> None)"

record recorded_machine =
  rm_ip :: string
  rm_running :: bool

record recorder =
  rc_joined :: bool
  rc_events :: "gesture list"
  rc_machines :: "(string \<times> recorded_machine) list"

definition new_recorder :: recorder where
  "new_recorder = \<lparr>rc_joined = False, rc_events = [], rc_machines = []\<rparr>"

definition record_gesture :: "gesture \<Rightarrow> recorder \<Rightarrow> recorder" where
  "record_gesture g r = r\<lparr>rc_events := rc_events r @ [g]\<rparr>"

definition sequence :: "recorder \<Rightarrow> string list" where
  "sequence r = map gesture_kind (rc_events r)"

definition outside_contract :: "recorder \<Rightarrow> gesture list" where
  "outside_contract r = filter (\<lambda>e. \<not> known_gesture (gesture_kind e)) (rc_events r)"

definition recorder_start :: "machine_spec \<Rightarrow> recorder \<Rightarrow> recorder \<times> (string + machine)" where
  "recorder_start spec r =
     (let ip = (case ms_attachments spec of
            [] \<Rightarrow> ''10.230.0.10''
          | att # _ \<Rightarrow> (if at_address att \<noteq> [] then at_address att else ''10.230.0.10''));
          r1 = r\<lparr>rc_machines := AList.update (ms_name spec) \<lparr>rm_ip = ip, rm_running = True\<rparr> (rc_machines r)\<rparr>
      in (record_gesture (GStart spec) r1,
          Inr \<lparr>mc_name = ms_name spec, mc_addresses = [ip], mc_running = True\<rparr>))"

definition recorder_stop :: "string \<Rightarrow> recorder effect" where
  "recorder_stop name r =
     (let r1 = (case map_of (rc_machines r) name of
            None \<Rightarrow> r
          | Some m \<Rightarrow> r\<lparr>rc_machines := AList.update name (m\<lparr>rm_running := False\<rparr>) (rc_machines r)\<rparr>)
      in (record_gesture (GStop name) r1, None))"

definition recorder_remove :: "string \<Rightarrow> recorder effect" where
  "recorder_remove name r =
     (record_gesture (GRemove name) (r\<lparr>rc_machines := AList.delete name (rc_machines r)\<rparr>), None)"

definition recorder_inspect :: "string \<Rightarrow> recorder \<Rightarrow> recorder \<times> (string + machine option)" where
  "recorder_inspect name r =
     (r, Inr (map_option (\<lambda>m. \<lparr>mc_name = name, mc_addresses = [rm_ip m], mc_running = rm_running m\<rparr>)
               (map_of (rc_machines r) name)))"

text \<open>The gestures that only record.\<close>

definition recorded :: "gesture \<Rightarrow> recorder effect" where
  "recorded g r = (record_gesture g r, None)"

definition recorder_capabilities :: capabilities where
  "recorder_capabilities = \<lparr>cap_machines = True, cap_addresses = True, cap_firewall = True,
     cap_firewall_public_only = True, cap_firewall_public_when_joined = False, cap_isolation = True,
     cap_own_kernel = True, cap_balancing = True, cap_private_from_host = True\<rparr>"

definition recorder_driver :: "recorder driver" where
  "recorder_driver =
     \<lparr>dr_noop = False,
      dr_start = recorder_start,
      dr_stop = recorder_stop,
      dr_remove = recorder_remove,
      dr_inspect = recorder_inspect,
      dr_ensure_network = (\<lambda>spec. recorded (GEnsureNetwork spec)),
      dr_attach = (\<lambda>name att. recorded (GAttach name att)),
      dr_detach = (\<lambda>name network. recorded (GDetach name network)),
      dr_remove_network = (\<lambda>name. recorded (GRemoveNetwork name)),
      dr_router = Some \<lparr>ro_route = (\<lambda>spec. recorded (GRouteAddress spec)),
                        ro_unroute = (\<lambda>machine address. recorded (GUnrouteAddress machine address))\<rparr>,
      dr_egress = None,
      dr_firewaller = Some \<lparr>fw_ensure = (\<lambda>spec. recorded (GEnsureFirewall spec)),
                            fw_apply = (\<lambda>machine binding. recorded (GApplyFirewall machine binding)),
                            fw_remove = (\<lambda>name. recorded (GRemoveFirewall name))\<rparr>,
      dr_peerer = Some \<lparr>pe_native = (\<lambda>r. \<not> rc_joined r),
                        pe_peer = (\<lambda>network peers. recorded (GPeerNetworks network peers))\<rparr>,
      dr_isolator = Some (\<lambda>network foreign. recorded (GIsolateNetwork network foreign)),
      dr_observer = None, dr_lister = None, dr_builder = None, dr_dialect = None,
      dr_capabilities = Some (\<lambda>r. recorder_capabilities)\<rparr>"

text \<open>
  Every gesture the driver's methods record is one of the contract's, and a
  recorded one; what the detector reports is what was planted.
\<close>

definition planted :: "gesture \<Rightarrow> bool" where
  "planted g = (case g of GPlanted k \<Rightarrow> True | _ \<Rightarrow> False)"

lemma gestures_are_known [simp]: "\<not> planted g \<Longrightarrow> map_of contract_gestures (gesture_kind g) = Some True"
  by (cases g) (simp_all add: contract_gestures_def planted_def)

lemma outside_contract_planted: "set (outside_contract r) \<subseteq> {g. planted g}"
  by (auto simp: outside_contract_def known_gesture_def) (rule ccontr, simp)

lemma record_gesture_simps [simp]:
  "rc_events (record_gesture g r) = rc_events r @ [g]"
  "rc_machines (record_gesture g r) = rc_machines r"
  "rc_joined (record_gesture g r) = rc_joined r"
  by (simp_all add: record_gesture_def)

lemma recorder_events [simp]:
  "rc_events (fst (recorder_start spec r)) = rc_events r @ [GStart spec]"
  "rc_events (fst (recorder_stop name r)) = rc_events r @ [GStop name]"
  "rc_events (fst (recorder_remove name r)) = rc_events r @ [GRemove name]"
  "rc_events (fst (recorder_inspect name r)) = rc_events r"
  "fst (recorded g r) = record_gesture g r"
  by (simp_all add: recorder_start_def recorder_stop_def recorder_remove_def recorder_inspect_def recorded_def
      Let_def split: option.split)

end
