(* ===== verification/World.thy ===== *)
theory World
  imports Driver Resource Cloudinit
begin

text \<open>
  What the machine layer acts on: the host behind the driver, the package-level
  table of placements and the counters of the runtime handle, threaded through
  every operation as one value; and the steps that reach the host through one
  operation of the driver. What the layer writes to its log is not modelled: no
  operation reads it.
\<close>

record 'h world =
  w_host :: 'h
  w_placements :: "(string \<times> string) list"
  w_tally :: "verification option"

definition new_world :: "'h \<Rightarrow> 'h world" where
  "new_world h = \<lparr>w_host = h, w_placements = [], w_tally = None\<rparr>"

text \<open>An operation of the driver, on the host of the world.\<close>

definition on_host :: "('h \<Rightarrow> 'h \<times> 'a) \<Rightarrow> 'h world \<Rightarrow> 'h world \<times> 'a" where
  "on_host f w = (case f (w_host w) of (h, x) \<Rightarrow> (w\<lparr>w_host := h\<rparr>, x))"

lemma on_host_simps [simp]:
  "w_host (fst (on_host f w)) = fst (f (w_host w))"
  "w_placements (fst (on_host f w)) = w_placements w"
  "w_tally (fst (on_host f w)) = w_tally w"
  "snd (on_host f w) = snd (f (w_host w))"
  by (simp_all add: on_host_def split: prod.split)

text \<open>The events a recording host has recorded.\<close>

definition events :: "recorder world \<Rightarrow> gesture list" where
  "events w = rc_events (w_host w)"

lemma events_recorded [simp]:
  "events (fst (on_host (recorded g) w)) = events w @ [g]"
  "snd (on_host (recorded g) w) = None"
  "events (fst (on_host (recorder_start spec) w)) = events w @ [GStart spec]"
  "events (fst (on_host (recorder_stop name) w)) = events w @ [GStop name]"
  "events (fst (on_host (recorder_remove name) w)) = events w @ [GRemove name]"
  "events (fst (on_host (recorder_inspect name) w)) = events w"
  by (simp_all add: events_def recorded_def)

end
