(* ===== verification/Placement.thy ===== *)
theory Placement
  imports World
begin

text \<open>
  One address, one machine: \<open>internal/core/machine/placement.go\<close>. The table of
  placements is what moves an address off its last holder before the next one
  gets it. A locale states what the layer needs from a driver's routing half; the
  laws are discharged for the recorder, and the properties say what the table
  guarantees over any sequence of calls, and what it does not.
\<close>

definition placement_key :: "string \<Rightarrow> string \<Rightarrow> string" where
  "placement_key prov address = prov @ ''|'' @ address"

definition place :: "string \<Rightarrow> string \<Rightarrow> 'h world \<Rightarrow> 'h world" where
  "place k m w = w\<lparr>w_placements := AList.update k m (w_placements w)\<rparr>"

definition unplace :: "string \<Rightarrow> 'h world \<Rightarrow> 'h world" where
  "unplace k w = w\<lparr>w_placements := AList.delete k (w_placements w)\<rparr>"

definition placed :: "'h world \<Rightarrow> string \<Rightarrow> string option" where
  "placed w k = map_of (w_placements w) k"

lemma place_simps [simp]:
  "w_host (place k m w) = w_host w" "w_host (unplace k w) = w_host w"
  "w_tally (place k m w) = w_tally w" "w_tally (unplace k w) = w_tally w"
  "placed (place k m w) j = (if j = k then Some m else placed w j)"
  "placed (unplace k w) j = (if j = k then None else placed w j)"
  "placed (fst (on_host f w)) j = placed w j"
  by (simp_all add: place_def unplace_def placed_def update_conv' delete_conv')

lemma placement_key_inj [simp]: "placement_key p a = placement_key p b \<longleftrightarrow> a = b"
  by (simp add: placement_key_def)

section \<open>Routing and unrouting\<close>

text \<open>
  Whether an address has to be taken back first, and from whom: from the recorded
  holder when there is one and it is another machine.
\<close>

definition taken_from :: "'h world \<Rightarrow> string \<Rightarrow> string \<Rightarrow> string option" where
  "taken_from w k m =
     (case placed w k of
        None \<Rightarrow> None
      | Some previous \<Rightarrow> (if previous \<noteq> [] \<and> previous \<noteq> m then Some previous else None))"

definition route_and_place :: "string \<Rightarrow> 'h router \<Rightarrow> address_spec \<Rightarrow> 'h world \<Rightarrow> 'h world \<times> string option" where
  "route_and_place k r spec w =
     (case on_host (ro_route r spec) w of
        (w1, Some e) \<Rightarrow> (w1, Some e)
      | (w1, None) \<Rightarrow> (place k (as_machine spec) w1, None))"

definition route_address :: "string \<Rightarrow> 'h router option \<Rightarrow> address_spec \<Rightarrow> 'h world \<Rightarrow> 'h world \<times> string option" where
  "route_address prov ro spec w =
     (case ro of
        None \<Rightarrow> (w, None)
      | Some r \<Rightarrow>
          (if as_address spec = [] \<or> as_machine spec = [] then (w, None)
           else
             (let k = placement_key prov (as_address spec) in
              case taken_from w k (as_machine spec) of
                Some previous \<Rightarrow>
                  (case on_host (ro_unroute r previous (as_address spec)) w of
                     (w1, Some e) \<Rightarrow> (w1, Some e)
                   | (w1, None) \<Rightarrow> route_and_place k r spec w1)
              | None \<Rightarrow> route_and_place k r spec w)))"

definition unroute_address :: "string \<Rightarrow> 'h router option \<Rightarrow> string \<Rightarrow> string \<Rightarrow> 'h world \<Rightarrow> 'h world \<times> string option" where
  "unroute_address prov ro m address w =
     (case ro of
        None \<Rightarrow> (w, None)
      | Some r \<Rightarrow>
          (if address = [] then (w, None)
           else
             (let (w1, e) = on_host (ro_unroute r m address) w;
                  k = placement_key prov address in
              case placed w1 k of
                None \<Rightarrow> (w1, e)
              | Some current \<Rightarrow> (if current = m \<or> m = [] then (unplace k w1, e) else (w1, e)))))"

definition forget_placements :: "string \<Rightarrow> 'h world \<Rightarrow> 'h world" where
  "forget_placements prov w =
     (let prefix = prov @ ''|'' in
      w\<lparr>w_placements := filter (\<lambda>(k, m). \<not> (length k > length prefix \<and> has_prefix k prefix)) (w_placements w)\<rparr>)"

lemma route_and_place_simps [simp]:
  "w_host (fst (route_and_place k r spec w)) = fst (ro_route r spec (w_host w))"
  "placed (fst (route_and_place k r spec w)) j =
     (if j = k \<and> snd (ro_route r spec (w_host w)) = None then Some (as_machine spec) else placed w j)"
  "snd (route_and_place k r spec w) = snd (ro_route r spec (w_host w))"
  by (simp_all add: route_and_place_def on_host_def placed_def place_def update_conv' split: prod.split option.split)

lemma unroute_address_simps:
  assumes "address \<noteq> []"
  shows "w_host (fst (unroute_address prov (Some r) m address w)) = fst (ro_unroute r m address (w_host w))"
    "placed (fst (unroute_address prov (Some r) m address w)) j =
      (if j = placement_key prov address \<and> (m = [] \<or> placed w j = Some m) then None else placed w j)"
    "snd (unroute_address prov (Some r) m address w) = snd (ro_unroute r m address (w_host w))"
  using assms
  by (auto simp: unroute_address_def on_host_def placed_def unplace_def delete_conv' Let_def split: prod.split option.split)

section \<open>What the layer needs from a routing half\<close>

text \<open>
  \<open>carriers h a\<close> are the machines a host carries the address on. A call that
  succeeds does what it says and a call that fails puts the address on no machine
  it was not on; no call touches another address.
\<close>

locale routing_half =
  fixes route :: "address_spec \<Rightarrow> 'h effect"
    and unroute :: "string \<Rightarrow> string \<Rightarrow> 'h effect"
    and carriers :: "'h \<Rightarrow> string \<Rightarrow> string set"
  assumes routed: "route spec h = (h', None) \<Longrightarrow> carriers h' (as_address spec) = insert (as_machine spec) (carriers h (as_address spec))"
    and not_routed: "route spec h = (h', Some e) \<Longrightarrow> carriers h' (as_address spec) \<subseteq> carriers h (as_address spec)"
    and unrouted: "unroute m a h = (h', None) \<Longrightarrow> carriers h' a = carriers h a - {m}"
    and not_unrouted: "unroute m a h = (h', Some e) \<Longrightarrow> carriers h' a \<subseteq> carriers h a"
    and route_others: "a \<noteq> as_address spec \<Longrightarrow> carriers (fst (route spec h)) a = carriers h a"
    and unroute_others: "b \<noteq> a \<Longrightarrow> carriers (fst (unroute m a h)) b = carriers h b"
begin

text \<open>An address is carried by the machine the table names for it, and by no other.\<close>

definition tracked_at :: "string \<Rightarrow> string \<Rightarrow> 'h world \<Rightarrow> bool" where
  "tracked_at prov a w \<longleftrightarrow> carriers (w_host w) a \<subseteq> set_option (placed w (placement_key prov a)) - {[]}"

abbreviation rh :: "'h router" where
  "rh \<equiv> \<lparr>ro_route = route, ro_unroute = unroute\<rparr>"

lemma route_result: "carriers (fst (route spec h)) (as_address spec) \<subseteq> 
    (if snd (route spec h) = None then insert (as_machine spec) (carriers h (as_address spec)) else carriers h (as_address spec))"
  using routed [of spec h "fst (route spec h)"] not_routed [of spec h "fst (route spec h)" "the (snd (route spec h))"]
  by (cases "snd (route spec h)") (auto simp: prod_eq_iff)

lemma unroute_result: "carriers (fst (unroute m a h)) a \<subseteq> carriers h a"
    "snd (unroute m a h) = None \<Longrightarrow> carriers (fst (unroute m a h)) a = carriers h a - {m}"
  using unrouted [of m a h "fst (unroute m a h)"] not_unrouted [of m a h "fst (unroute m a h)" "the (snd (unroute m a h))"]
  by (cases "snd (unroute m a h)"; auto simp: prod_eq_iff)+

lemma route_and_place_tracked:
  assumes "tracked_at prov a w" "as_machine spec \<noteq> []"
    and "carriers (w_host w) (as_address spec) \<subseteq> {as_machine spec}"
  shows "tracked_at prov a (fst (route_and_place (placement_key prov (as_address spec)) rh spec w))"
proof (cases "a = as_address spec")
  case True
  then show ?thesis using assms route_result [of spec "w_host w"] by (auto simp: tracked_at_def split: if_splits)
next
  case False
  then show ?thesis using assms(1) route_others [OF False, of "w_host w"] by (simp add: tracked_at_def)
qed

lemma route_address_tracked:
  assumes t: "\<And>a. tracked_at prov a w"
  shows "tracked_at prov a (fst (route_address prov (Some rh) spec w))"
proof (cases "as_address spec = [] \<or> as_machine spec = []")
  case True
  then show ?thesis using t by (simp add: route_address_def)
next
  case named: False
  let ?k = "placement_key prov (as_address spec)"
  show ?thesis
  proof (cases "taken_from w ?k (as_machine spec)")
    case None
    then have "carriers (w_host w) (as_address spec) \<subseteq> {as_machine spec}"
      using t [of "as_address spec"] by (auto simp: tracked_at_def taken_from_def split: option.splits if_splits)
    with route_and_place_tracked [OF t, of spec] None named show ?thesis by (simp add: route_address_def)
  next
    case (Some previous)
    obtain w1 e where u: "on_host (unroute previous (as_address spec)) w = (w1, e)" by fastforce
    have p1: "placed w1 j = placed w j" for j using place_simps(7) [of "unroute previous (as_address spec)" w j] u by simp
    have h1: "w_host w1 = fst (unroute previous (as_address spec) (w_host w))" "e = snd (unroute previous (as_address spec) (w_host w))"
      using on_host_simps(1,4) [of "unroute previous (as_address spec)" w] u by simp_all
    have t1: "tracked_at prov b w1" for b
      using t [of b] p1 unroute_result(1) [of previous b "w_host w"] unroute_others [of b "as_address spec" previous "w_host w"]
      by (cases "b = as_address spec") (auto simp: tracked_at_def h1(1))
    show ?thesis
    proof (cases e)
      case (Some err)
      then show ?thesis using \<open>taken_from w ?k _ = Some previous\<close> named u t1 by (simp add: route_address_def)
    next
      case None
      have "placed w ?k = Some previous" using Some by (auto simp: taken_from_def split: option.splits if_splits)
      then have "carriers (w_host w) (as_address spec) \<subseteq> {previous}" using t [of "as_address spec"] by (auto simp: tracked_at_def)
      then have "carriers (w_host w1) (as_address spec) \<subseteq> {as_machine spec}"
        using unroute_result(2) [of previous "as_address spec" "w_host w"] None h1 by auto
      from route_and_place_tracked [OF t1 _ this] None Some named u show ?thesis by (simp add: route_address_def)
    qed
  qed
qed

text \<open>Taking an address back keeps the table right when the driver did take it back, from a named machine.\<close>

lemma unroute_address_tracked:
  assumes t: "\<And>a. tracked_at prov a w" and m: "m \<noteq> []"
    and ok: "snd (unroute_address prov (Some rh) m address w) = None"
  shows "tracked_at prov a (fst (unroute_address prov (Some rh) m address w))"
proof (cases "address = []")
  case True
  then show ?thesis using t by (simp add: unroute_address_def)
next
  case False
  have "snd (unroute m address (w_host w)) = None" using ok unroute_address_simps(3) [OF False, of prov rh m w] by simp
  from unroute_result(2) [OF this] show ?thesis
    using t [of a] m unroute_others [of a address m "w_host w"]
    by (cases "a = address") (auto simp: tracked_at_def unroute_address_simps [OF False])
qed

end

section \<open>The recorder's routing half\<close>

definition recorder_router :: "recorder router" where
  "recorder_router = \<lparr>ro_route = (\<lambda>spec. recorded (GRouteAddress spec)),
     ro_unroute = (\<lambda>m address. recorded (GUnrouteAddress m address))\<rparr>"

lemma recorder_driver_router [simp]: "dr_router recorder_driver = Some recorder_router"
  by (simp add: recorder_driver_def recorder_router_def)

text \<open>The machines that carry an address after what was recorded.\<close>

definition carry_step :: "string \<Rightarrow> gesture \<Rightarrow> string set \<Rightarrow> string set" where
  "carry_step a g ms =
     (case g of
        GRouteAddress spec \<Rightarrow> (if as_address spec = a then insert (as_machine spec) ms else ms)
      | GUnrouteAddress m b \<Rightarrow> (if b = a then ms - {m} else ms)
      | _ \<Rightarrow> ms)"

definition carriers_of :: "recorder \<Rightarrow> string \<Rightarrow> string set" where
  "carriers_of r a = fold (carry_step a) (rc_events r) {}"

lemma carriers_of_record [simp]: "carriers_of (record_gesture g r) a = carry_step a g (carriers_of r a)"
  by (simp add: carriers_of_def)

interpretation rec: routing_half "\<lambda>spec. recorded (GRouteAddress spec)" "\<lambda>m address. recorded (GUnrouteAddress m address)" carriers_of
  by unfold_locales (auto simp: recorded_def carry_step_def)

text \<open>A sequence of calls of the layer, one after the other.\<close>

datatype placement_call = CallRoute address_spec | CallUnroute string string

fun run_call_at :: "string \<Rightarrow> 'h router \<Rightarrow> placement_call \<Rightarrow> 'h world \<Rightarrow> 'h world" where
  "run_call_at prov r (CallRoute spec) w = fst (route_address prov (Some r) spec w)"
| "run_call_at prov r (CallUnroute m address) w = fst (unroute_address prov (Some r) m address w)"

definition run_calls_at :: "string \<Rightarrow> 'h router \<Rightarrow> placement_call list \<Rightarrow> 'h world \<Rightarrow> 'h world" where
  "run_calls_at prov r calls w = fold (run_call_at prov r) calls w"

definition names_machine :: "placement_call \<Rightarrow> bool" where
  "names_machine c = (case c of CallRoute spec \<Rightarrow> True | CallUnroute m address \<Rightarrow> m \<noteq> [])"

lemma run_calls_tracked:
  assumes "list_all names_machine calls" "\<And>a. rec.tracked_at prov a w"
  shows "rec.tracked_at prov a (run_calls_at prov recorder_router calls w)"
  using assms
proof (induction calls arbitrary: w a)
  case (Cons c calls)
  have "rec.tracked_at prov b (run_call_at prov recorder_router c w)" for b
  proof (cases c)
    case (CallRoute spec)
    then show ?thesis using rec.route_address_tracked [OF Cons.prems(2), of b spec] by (simp add: recorder_router_def)
  next
    case (CallUnroute m address)
    have "snd (unroute_address prov (Some recorder_router) m address w) = None"
      using unroute_address_simps(3) [of address prov recorder_router m w]
      by (cases "address = []") (simp_all add: unroute_address_def recorder_router_def recorded_def)
    moreover have "m \<noteq> []" using Cons.prems(1) CallUnroute by (simp add: names_machine_def)
    ultimately show ?thesis
      using rec.unroute_address_tracked [OF Cons.prems(2), of m address b] CallUnroute by (simp add: recorder_router_def)
  qed
  with Cons show ?case by (simp add: run_calls_at_def)
qed (simp add: run_calls_at_def)

lemma fresh_tracked [simp]: "rec.tracked_at prov a (new_world new_recorder)"
  by (simp add: rec.tracked_at_def new_world_def carriers_of_def new_recorder_def)

lemma route_address_carries:
  assumes "rec.tracked_at prov (as_address spec) w" "as_address spec \<noteq> []" "as_machine spec \<noteq> []"
  shows "carriers_of (w_host (fst (route_address prov (Some recorder_router) spec w))) (as_address spec) = {as_machine spec}"
proof (cases "taken_from w (placement_key prov (as_address spec)) (as_machine spec)")
  case None
  then have "carriers_of (w_host w) (as_address spec) \<subseteq> {as_machine spec}"
    using assms(1) by (auto simp: rec.tracked_at_def taken_from_def split: option.splits if_splits)
  then show ?thesis using assms None by (auto simp: route_address_def recorder_router_def recorded_def carry_step_def)
next
  case (Some previous)
  then have "carriers_of (w_host w) (as_address spec) \<subseteq> {previous}"
    using assms(1) by (auto simp: rec.tracked_at_def taken_from_def split: option.splits if_splits)
  then show ?thesis using assms Some
    by (auto simp: route_address_def recorder_router_def on_host_def recorded_def carry_step_def)
qed

text \<open>
  C23. On a router whose calls never fail, the \<open>Recorder\<close>'s, and for calls made one after
  the other, each of them naming a machine, an address is carried by at most one machine,
  the one the table of placements names; and an address just routed is carried by the
  machine it was routed to and by no other. A call that fails and calls that interleave
  are the limits of it, and the two theorems below show them.
\<close>

theorem an_address_is_on_one_machine:
  assumes "list_all names_machine calls"
  shows "carriers_of (w_host (run_calls_at prov recorder_router calls (new_world new_recorder))) a
      \<subseteq> set_option (placed (run_calls_at prov recorder_router calls (new_world new_recorder)) (placement_key prov a))
    \<and> (as_address spec \<noteq> [] \<longrightarrow> as_machine spec \<noteq> [] \<longrightarrow>
      carriers_of (w_host (run_calls_at prov recorder_router (calls @ [CallRoute spec]) (new_world new_recorder))) (as_address spec)
        = {as_machine spec})"
proof -
  have t: "rec.tracked_at prov b (run_calls_at prov recorder_router calls (new_world new_recorder))" for b
    by (rule run_calls_tracked [OF assms fresh_tracked])
  have "run_calls_at prov recorder_router (calls @ [CallRoute spec]) w =
      fst (route_address prov (Some recorder_router) spec (run_calls_at prov recorder_router calls w))" for w
    by (simp add: run_calls_at_def)
  then show ?thesis using t [of a] route_address_carries [OF t] by (auto simp: rec.tracked_at_def)
qed

section \<open>What the table does not guarantee\<close>

text \<open>
  \<open>UnrouteAddress\<close> forgets the holder even when the driver failed to take the
  address back. The next call then routes the address to another machine without
  asking the driver to take it from the first: here is a host whose \<open>m1\<close> refuses,
  and it carries the address on both.
\<close>

definition stubborn_router :: "recorder router" where
  "stubborn_router = recorder_router\<lparr>ro_unroute := (\<lambda>m address r.
     if m = ''m1'' then (r, Some ''the agent did not answer'') else recorded (GUnrouteAddress m address) r)\<rparr>"

definition spec_to :: "string \<Rightarrow> address_spec" where
  "spec_to m = \<lparr>as_machine = m, as_address = ''203.0.113.2'', as_network = []\<rparr>"

theorem failed_unroute_leaves_two_carriers:
  "carriers_of (w_host (run_calls_at ''p'' stubborn_router
     [CallRoute (spec_to ''m1''), CallUnroute ''m1'' ''203.0.113.2'', CallRoute (spec_to ''m2'')] (new_world new_recorder))) ''203.0.113.2''
   = {''m1'', ''m2''}"
  by (simp add: run_calls_at_def new_world_def new_recorder_def stubborn_router_def recorder_router_def spec_to_def
      route_address_def taken_from_def route_and_place_def unroute_address_def on_host_def recorded_def placed_def place_def
      unplace_def delete_conv' update_conv' carriers_of_def record_gesture_def carry_step_def Let_def insert_commute)

text \<open>
  A call of \<open>RouteAddress\<close> as the four steps another call can fall between: the
  table is read, the driver takes the address back, the driver routes it, the table
  is written. Each of them is one call of \<open>sync.Map\<close> or of the driver.
\<close>

datatype route_pc = AtLoad | AtUnroute string | AtRoute | AtStore | AtEnd "string option"

fun route_micro :: "string \<Rightarrow> 'h router \<Rightarrow> address_spec \<Rightarrow> route_pc \<Rightarrow> 'h world \<Rightarrow> route_pc \<times> 'h world" where
  "route_micro prov r spec AtLoad w =
     (case taken_from w (placement_key prov (as_address spec)) (as_machine spec) of
        None \<Rightarrow> (AtRoute, w)
      | Some previous \<Rightarrow> (AtUnroute previous, w))"
| "route_micro prov r spec (AtUnroute previous) w =
     (case on_host (ro_unroute r previous (as_address spec)) w of
        (w1, Some e) \<Rightarrow> (AtEnd (Some e), w1)
      | (w1, None) \<Rightarrow> (AtRoute, w1))"
| "route_micro prov r spec AtRoute w =
     (case on_host (ro_route r spec) w of
        (w1, Some e) \<Rightarrow> (AtEnd (Some e), w1)
      | (w1, None) \<Rightarrow> (AtStore, w1))"
| "route_micro prov r spec AtStore w = (AtEnd None, place (placement_key prov (as_address spec)) (as_machine spec) w)"
| "route_micro prov r spec (AtEnd e) w = (AtEnd e, w)"

text \<open>
  Calls in flight, one per goroutine, and a schedule that says whose step is next.
\<close>

definition micro_turn :: "string \<Rightarrow> 'h router \<Rightarrow> nat \<Rightarrow> (address_spec \<times> route_pc) list \<times> 'h world \<Rightarrow> (address_spec \<times> route_pc) list \<times> 'h world" where
  "micro_turn prov r i st =
     (case st of (calls, w) \<Rightarrow>
        (case calls ! i of (spec, pc) \<Rightarrow>
           (case route_micro prov r spec pc w of (pc', w') \<Rightarrow> (calls[i := (spec, pc')], w'))))"

definition micro_run :: "string \<Rightarrow> 'h router \<Rightarrow> nat list \<Rightarrow> (address_spec \<times> route_pc) list \<times> 'h world \<Rightarrow> (address_spec \<times> route_pc) list \<times> 'h world" where
  "micro_run prov r schedule st = fold (micro_turn prov r) schedule st"

text \<open>Left alone, the four steps are the call.\<close>

lemma route_micro_alone:
  assumes "as_address spec \<noteq> []" "as_machine spec \<noteq> []"
  shows "micro_run prov r [0, 0, 0, 0] ([(spec, AtLoad)], w) =
    ([(spec, AtEnd (snd (route_address prov (Some r) spec w)))], fst (route_address prov (Some r) spec w))"
  using assms
  by (auto simp: micro_run_def micro_turn_def route_address_def route_and_place_def on_host_def Let_def
      split: option.split prod.split)

text \<open>
  Two calls for two machines that both read the table before either writes it: the
  address ends on both, and the table knows one of them.
\<close>

theorem interleaved_moves_leave_two_carriers:
  "carriers_of (w_host (snd (micro_run ''p'' recorder_router [0, 1, 0, 1, 0, 1]
     ([(spec_to ''m1'', AtLoad), (spec_to ''m2'', AtLoad)], new_world new_recorder)))) ''203.0.113.2'' = {''m1'', ''m2''}"
  by (simp add: micro_run_def micro_turn_def new_world_def new_recorder_def recorder_router_def spec_to_def taken_from_def
      on_host_def recorded_def placed_def place_def update_conv' carriers_of_def record_gesture_def carry_step_def insert_commute)

section \<open>Witnesses\<close>

lemma one_machine_witness:
  "carriers_of (w_host (run_calls_at ''p'' recorder_router [CallRoute (spec_to ''m1''), CallRoute (spec_to ''m2'')]
     (new_world new_recorder))) ''203.0.113.2'' = {''m2''}"
  using an_address_is_on_one_machine [of "[CallRoute (spec_to ''m1'')]" "''p''" "''203.0.113.2''" "spec_to ''m2''"]
  by (simp add: names_machine_def spec_to_def)

end
