(* ===== verification/Binding.thy ===== *)
theory Binding
  imports Placement StoreSpec
begin

text \<open>
  How a pack backs an emulated server with a machine:
  \<open>internal/core/machine/binding.go\<close>, the backing networks of \<open>plan.go\<close>, the runtime
  handle of \<open>runtime.go\<close>, and the two doors of \<open>observe.go\<close> and \<open>transition.go\<close>. An
  operation takes the resource and the world and answers both. The pack's
  cloud-init templates and the digest that names a network are arguments.
\<close>

section \<open>The binding\<close>

record 'h binding =
  bd_driver :: "'h driver option"
  bd_provider :: string
  bd_prefix :: string
  bd_user :: string
  bd_runtime_key :: string
  bd_address_key :: string
  bd_running :: string
  bd_failed :: string
  bd_declared :: "string \<Rightarrow> image option"

record boot =
  bo_id :: string
  bo_image :: string
  bo_requested :: string
  bo_reason :: string
  bo_hostname :: string
  bo_user :: string
  bo_keys :: "string list"
  bo_cloud_init :: string
  bo_attachments :: "attachment list"
  bo_publics :: "string list"
  bo_labels :: "string \<Rightarrow> string option"

record started =
  st_machine :: string
  st_addresses :: "string list"

record 'h runtime_handle =
  rn_driver :: "'h driver option"

definition backing :: "'h runtime_handle \<Rightarrow> 'h driver" where
  "backing r = (case rn_driver r of None \<Rightarrow> noop_driver | Some d \<Rightarrow> d)"

definition runs :: "'h runtime_handle \<Rightarrow> bool" where
  "runs r = (case rn_driver r of None \<Rightarrow> False | Some d \<Rightarrow> \<not> dr_noop d)"

definition with_runtime :: "'h binding \<Rightarrow> 'h runtime_handle \<Rightarrow> 'h binding" where
  "with_runtime b r = b\<lparr>bd_driver := rn_driver r\<rparr>"

definition name_of :: "'h binding \<Rightarrow> string \<Rightarrow> string" where
  "name_of b i = bd_prefix b @ map (\<lambda>c. if c = CHR ''/'' then CHR ''-'' else c) i"

definition no_start :: started where
  "no_start = \<lparr>st_machine = [], st_addresses = []\<rparr>"

definition label_key :: string where
  "label_key = ''feint.provider''"

section \<open>Starting a machine\<close>

text \<open>
  Which image to boot: the pack's own, or the one the operator declared for the
  identifier the client sent; nothing otherwise, except for a driver that boots
  nothing.
\<close>

definition declared_image :: "'h binding \<Rightarrow> 'h driver \<Rightarrow> boot \<Rightarrow> boot option" where
  "declared_image b d boot =
     (if bo_image boot = [] \<and> \<not> dr_noop d then
        (case bd_declared b (bo_requested boot) of
           None \<Rightarrow> None
         | Some im \<Rightarrow>
             (if bo_requested boot = [] then None
              else
                (let boot1 = boot\<lparr>bo_image := im_ref im\<rparr>
                 in Some (if bo_user boot1 = [] then boot1\<lparr>bo_user := im_user im\<rparr> else boot1))))
      else Some boot)"

definition login_of :: "'h binding \<Rightarrow> boot \<Rightarrow> string" where
  "login_of b boot = (if bo_user boot \<noteq> [] then bo_user boot else bd_user b)"

definition user_data_of :: "(string \<Rightarrow> tnode list option) \<Rightarrow> 'h binding \<Rightarrow> boot \<Rightarrow> cloud_error + string" where
  "user_data_of templates b boot =
     (if bo_cloud_init boot = [] then
        render templates
          \<lparr>cs_distribution = bo_image boot,
           cs_hostname = (if bo_hostname boot = [] then bo_id boot else bo_hostname boot),
           cs_user = login_of b boot, cs_keys = bo_keys boot, cs_sshd = True\<rparr>
      else Inr (bo_cloud_init boot))"

definition labels_of :: "'h binding \<Rightarrow> boot \<Rightarrow> string \<Rightarrow> string option" where
  "labels_of b boot = [label_key \<mapsto> bd_provider b] ++ bo_labels boot"

definition spec_of :: "'h binding \<Rightarrow> boot \<Rightarrow> string \<Rightarrow> machine_spec" where
  "spec_of b boot user_data =
     \<lparr>ms_name = name_of b (bo_id boot), ms_image = bo_image boot, ms_labels = labels_of b boot,
      ms_user = login_of b boot, ms_keys = bo_keys boot, ms_cloud_init = user_data,
      ms_attachments = bo_attachments boot, ms_publics = bo_publics boot\<rparr>"

definition start :: "(string \<Rightarrow> tnode list option) \<Rightarrow> 'h binding \<Rightarrow> boot \<Rightarrow> 'h world \<Rightarrow> 'h world \<times> started" where
  "start templates b boot0 w =
     (case bd_driver b of
        None \<Rightarrow> (w, no_start)
      | Some d \<Rightarrow>
          (case declared_image b d boot0 of
             None \<Rightarrow> (w, no_start)
           | Some boot \<Rightarrow>
               (case (if bo_image boot \<noteq> [] then on_host (ensure_image (dr_lister d) (dr_builder d) (bo_image boot)) w
                      else (w, Inr False)) of
                  (w1, Inl e) \<Rightarrow> (w1, no_start)
                | (w1, Inr built) \<Rightarrow>
                    (case user_data_of templates b boot of
                       Inl e \<Rightarrow> (w1, no_start)
                     | Inr user_data \<Rightarrow>
                         (case on_host (dr_start d (spec_of b boot user_data)) w1 of
                            (w2, Inl e) \<Rightarrow> (w2, no_start)
                          | (w2, Inr m) \<Rightarrow>
                              (w2, \<lparr>st_machine = name_of b (bo_id boot), st_addresses = mc_addresses m\<rparr>))))))"

text \<open>The warning about packages a machine has no way to fetch; it changes nothing else.\<close>

definition package_line :: "string \<Rightarrow> bool" where
  "package_line line =
     (let (k, v, found) = cut_on CHR '':'' line in
      found \<and> (k = ''packages'' \<or> (k = ''package_update'' \<or> k = ''package_upgrade'') \<and> trim_space v = ''true''))"

definition declares_package_step :: "string \<Rightarrow> bool" where
  "declares_package_step user_data =
     (if \<not> has_prefix (trim_space user_data) ''#cloud-config'' then False
      else list_ex package_line (split_on CHR 0x0A user_data))"

section \<open>Stopping, removing, asking\<close>

text \<open>A recorded name the binding could not have written falls back on the derived one.\<close>

definition own_name :: "'h binding \<Rightarrow> string \<Rightarrow> string \<Rightarrow> string" where
  "own_name b i m = (if bd_prefix b \<noteq> [] \<and> has_prefix m (bd_prefix b) then m else name_of b i)"

definition stop :: "'h binding \<Rightarrow> string \<Rightarrow> string \<Rightarrow> 'h world \<Rightarrow> 'h world" where
  "stop b i m w =
     (case bd_driver b of
        None \<Rightarrow> w
      | Some d \<Rightarrow> (if m = [] then w else fst (on_host (dr_stop d (own_name b i m)) w)))"

definition remove_machine :: "'h binding \<Rightarrow> string \<Rightarrow> string \<Rightarrow> 'h world \<Rightarrow> 'h world" where
  "remove_machine b i m w =
     (case bd_driver b of
        None \<Rightarrow> w
      | Some d \<Rightarrow> fst (on_host (dr_remove d (if m = [] then name_of b i else own_name b i m)) w))"

definition addresses :: "'h binding \<Rightarrow> string \<Rightarrow> string \<Rightarrow> 'h world \<Rightarrow> 'h world \<times> string list option" where
  "addresses b i m w =
     (case bd_driver b of
        None \<Rightarrow> (w, None)
      | Some d \<Rightarrow>
          (if m = [] then (w, None)
           else
             (case on_host (dr_inspect d (own_name b i m)) w of
                (w1, Inl e) \<Rightarrow> (w1, None)
              | (w1, Inr None) \<Rightarrow> (w1, None)
              | (w1, Inr (Some mc)) \<Rightarrow> (w1, if mc_addresses mc = [] then None else Some (mc_addresses mc)))))"

section \<open>What the resource remembers\<close>

definition stored_addresses :: "string \<Rightarrow> string list" where
  "stored_addresses stored =
     (if stored = [] then []
      else map addr_string (List.map_filter (\<lambda>entry. parse_addr (trim_space entry)) (split_on CHR '','' stored)))"

definition join_addresses :: "string list \<Rightarrow> string" where
  "join_addresses xs = str_join '','' (map addr_string (List.map_filter (\<lambda>x. parse_addr (trim_space x)) xs))"

definition addresses_of :: "'h binding \<Rightarrow> resource \<Rightarrow> string list" where
  "addresses_of b res = stored_addresses (rt_get res (bd_address_key b))"

definition power_on :: "(string \<Rightarrow> tnode list option) \<Rightarrow> 'h binding \<Rightarrow> resource \<Rightarrow> boot \<Rightarrow> 'h world \<Rightarrow> 'h world \<times> resource \<times> bool" where
  "power_on templates b res boot w =
     (case bd_driver b of
        None \<Rightarrow> (w, res\<lparr>rstate := bd_running b\<rparr>, True)
      | Some d \<Rightarrow>
          (case start templates b (boot\<lparr>bo_id := rid res\<rparr>) w of
             (w1, s) \<Rightarrow>
               (if st_machine s = [] then (w1, res\<lparr>rstate := bd_failed b\<rparr>, False)
                else
                  (let r1 = rt_set res (bd_runtime_key b) (st_machine s);
                       joined = join_addresses (st_addresses s);
                       r2 = (if joined \<noteq> [] then rt_set r1 (bd_address_key b) joined else r1)
                   in (w1, r2\<lparr>rstate := bd_running b\<rparr>, True)))))"

definition power_off :: "'h binding \<Rightarrow> resource \<Rightarrow> 'h world \<Rightarrow> 'h world \<times> resource" where
  "power_off b res w =
     (let r1 = rt_del res (bd_address_key b) in (stop b (rid r1) (rt_get r1 (bd_runtime_key b)) w, r1))"

definition destroy :: "'h binding \<Rightarrow> resource \<Rightarrow> 'h world \<Rightarrow> 'h world" where
  "destroy b res w = remove_machine b (rid res) (rt_get res (bd_runtime_key b)) w"

definition refresh :: "'h binding \<Rightarrow> resource \<Rightarrow> 'h world \<Rightarrow> 'h world \<times> resource \<times> bool" where
  "refresh b res w =
     (if rt_get res (bd_address_key b) \<noteq> [] then (w, res, False)
      else
        (case addresses b (rid res) (rt_get res (bd_runtime_key b)) w of
           (w1, None) \<Rightarrow> (w1, res, False)
         | (w1, Some xs) \<Rightarrow>
             (let joined = join_addresses xs in
              if joined = [] then (w1, res, False) else (w1, rt_set res (bd_address_key b) joined, True))))"

definition rescan :: "'h binding \<Rightarrow> resource \<Rightarrow> 'h world \<Rightarrow> 'h world \<times> resource \<times> bool" where
  "rescan b res w =
     (case addresses b (rid res) (rt_get res (bd_runtime_key b)) w of
        (w1, None) \<Rightarrow> (w1, res, False)
      | (w1, Some xs) \<Rightarrow>
          (let joined = join_addresses xs in
           if joined = [] \<or> joined = rt_get res (bd_address_key b) then (w1, res, False)
           else (w1, rt_set res (bd_address_key b) joined, True)))"

definition refresh_if_running :: "'h binding \<Rightarrow> resource \<Rightarrow> 'h world \<Rightarrow> 'h world \<times> resource \<times> bool" where
  "refresh_if_running b res w = (if rstate res = bd_running b then refresh b res w else (w, res, False))"

section \<open>Backing networks\<close>

definition network_prefix :: string where
  "network_prefix = ''fnt''"

definition max_network_name_len :: nat where
  "max_network_name_len = 15"

text \<open>\<open>digest\<close> is the SHA-256 of an identifier, in hexadecimal.\<close>

definition network_name :: "(string \<Rightarrow> string) \<Rightarrow> string \<Rightarrow> string \<Rightarrow> string" where
  "network_name digest prefix i =
     (let room = int max_network_name_len - int (length prefix) - 1 in
      if room < 1 then take max_network_name_len prefix
      else
        (let d = digest i; room' = (if nat room > length d then length d else nat room)
         in prefix @ ''-'' @ take room' d))"

record backing_network =
  bn_key :: string
  bn_cidr :: prefix
  bn_gateway :: bool
  bn_nat :: bool
  bn_marker :: string

text \<open>\<open>Addr.Next\<close>: the zero address when there is none.\<close>

fun next_addr :: "addr \<Rightarrow> addr" where
  "next_addr NoAddr = NoAddr"
| "next_addr (V4 x) = (if x + 1 = 0 then NoAddr else V4 (x + 1))"
| "next_addr (V6 x z) = (if x + 1 = 0 then NoAddr else V6 (x + 1) z)"

definition backing_spec :: "(string \<Rightarrow> string) \<Rightarrow> 'h binding \<Rightarrow> string \<Rightarrow> backing_network \<Rightarrow> network_spec" where
  "backing_spec digest b i spec =
     \<lparr>ns_name = network_name digest network_prefix i,
      ns_cidr = prefix_string (masked (bn_cidr spec)),
      ns_gateway = (if bn_gateway spec then addr_string (next_addr (paddr (masked (bn_cidr spec)))) else []),
      ns_nat = bn_nat spec,
      ns_labels = (if bn_marker spec \<noteq> [] then [label_key \<mapsto> bd_provider b](bn_marker spec \<mapsto> i)
                   else [label_key \<mapsto> bd_provider b])\<rparr>"

definition ensure_backing_network ::
  "(string \<Rightarrow> string) \<Rightarrow> 'h binding \<Rightarrow> resource \<Rightarrow> backing_network \<Rightarrow> 'h world \<Rightarrow> 'h world \<times> resource \<times> string option" where
  "ensure_backing_network digest b res spec w =
     (case bd_driver b of
        None \<Rightarrow> (w, res, None)
      | Some d \<Rightarrow>
          (case on_host (dr_ensure_network d (backing_spec digest b (rid res) spec)) w of
             (w1, Some e) \<Rightarrow> (w1, res, Some e)
           | (w1, None) \<Rightarrow> (w1, rt_set res (bn_key spec) (network_name digest network_prefix (rid res)), None)))"

definition remove_backing_network :: "'h binding \<Rightarrow> resource \<Rightarrow> string \<Rightarrow> 'h world \<Rightarrow> 'h world \<times> resource \<times> string option" where
  "remove_backing_network b res k w =
     (case bd_driver b of
        None \<Rightarrow> (w, res, None)
      | Some d \<Rightarrow>
          (if rt_get res k = [] then (w, res, None)
           else
             (case on_host (dr_remove_network d (rt_get res k)) w of
                (w1, Some e) \<Rightarrow> (w1, res, Some e)
              | (w1, None) \<Rightarrow> (w1, rt_del res k, None))))"

section \<open>Reading to act\<close>

text \<open>
  \<open>Observe\<close> reads the resource, lets the caller work on its copy outside the store's
  lock, and commits what changed. \<open>meanwhile\<close> is what other requests do to the
  store during that work. The per-target lock orders calls for one target, so the
  model takes them one after the other.
\<close>

definition observe_with ::
  "string \<Rightarrow> store \<Rightarrow> (store \<Rightarrow> store) \<Rightarrow> int \<Rightarrow> string \<Rightarrow> string \<Rightarrow> (resource \<Rightarrow> 'h world \<Rightarrow> 'h world \<times> resource \<times> bool) \<Rightarrow>
   'h world \<Rightarrow> 'h world \<times> store \<times> (unit store_error + resource)" where
  "observe_with prov s meanwhile now k i look w =
     (case peek s prov k i of
        (s1, None) \<Rightarrow> (w, s1, Inl ErrNotFound)
      | (s1, Some res) \<Rightarrow>
          (let base = clone res in
           case look res w of
             (w1, r1, changed) \<Rightarrow>
               (let s2 = meanwhile s1 in
                if \<not> changed then (w1, s2, Inr r1)
                else
                  (case commit s2 base r1 now of
                     (s3, True) \<Rightarrow> (w1, s3, Inr r1)
                   | (s3, False) \<Rightarrow> (w1, s3, Inl ErrNotFound)))))"

definition transition ::
  "string \<Rightarrow> store \<Rightarrow> (store \<Rightarrow> store) \<Rightarrow> int \<Rightarrow> string \<Rightarrow> string \<Rightarrow> (resource \<Rightarrow> 'h world \<Rightarrow> 'h world \<times> resource) \<Rightarrow>
   'h world \<Rightarrow> 'h world \<times> store \<times> unit store_error option" where
  "transition prov s meanwhile now k i change w =
     (case observe_with prov s meanwhile now k i
             (\<lambda>res w. case change res w of (w1, r1) \<Rightarrow> (w1, r1, True)) w of
        (w1, s1, Inl e) \<Rightarrow> (w1, s1, Some e)
      | (w1, s1, Inr res) \<Rightarrow> (w1, s1, None))"

section \<open>What a start asks of the driver\<close>

lemma rt_get_state [simp]: "rt_get (r\<lparr>rstate := x\<rparr>) k = rt_get r k"
  by (simp add: rt_get_def rt_def)

lemma start_cases:
  obtains (nothing) "fst (start templates b boot w) = w" "snd (start templates b boot w) = no_start"
  | (refused) d boot1 where "bd_driver b = Some d" "declared_image b d boot = Some boot1" "bo_image boot1 \<noteq> []"
      "fst (start templates b boot w) = fst (on_host (ensure_image (dr_lister d) (dr_builder d) (bo_image boot1)) w)"
      "snd (start templates b boot w) = no_start"
  | (asked) d boot1 w1 user_data where "bd_driver b = Some d" "declared_image b d boot = Some boot1"
      "w1 = (if bo_image boot1 \<noteq> [] then fst (on_host (ensure_image (dr_lister d) (dr_builder d) (bo_image boot1)) w) else w)"
      "user_data_of templates b boot1 = Inr user_data"
      "fst (start templates b boot w) = fst (on_host (dr_start d (spec_of b boot1 user_data)) w1)"
      "snd (start templates b boot w) =
        (case snd (on_host (dr_start d (spec_of b boot1 user_data)) w1) of Inl e \<Rightarrow> no_start
         | Inr m \<Rightarrow> \<lparr>st_machine = name_of b (bo_id boot1), st_addresses = mc_addresses m\<rparr>)"
proof (cases "bd_driver b")
  case none: None
  show thesis by (rule nothing) (simp_all add: start_def none)
next
  case d: (Some d)
  show thesis
  proof (cases "declared_image b d boot")
    case none: None
    show thesis by (rule nothing) (simp_all add: start_def none d)
  next
    case b1: (Some boot1)
    obtain w1 r where e: "(if bo_image boot1 \<noteq> [] then on_host (ensure_image (dr_lister d) (dr_builder d) (bo_image boot1)) w
                      else (w, Inr False)) = (w1, r)" by fastforce
    then have w1: "w1 = (if bo_image boot1 \<noteq> [] then fst (on_host (ensure_image (dr_lister d) (dr_builder d) (bo_image boot1)) w) else w)"
      by (metis fst_conv)
    have st: "start templates b boot w =
        (case r of Inl e \<Rightarrow> (w1, no_start)
         | Inr built \<Rightarrow>
             (case user_data_of templates b boot1 of Inl e \<Rightarrow> (w1, no_start)
              | Inr data \<Rightarrow>
                  (case on_host (dr_start d (spec_of b boot1 data)) w1 of
                     (w2, Inl e) \<Rightarrow> (w2, no_start)
                   | (w2, Inr m) \<Rightarrow> (w2, \<lparr>st_machine = name_of b (bo_id boot1), st_addresses = mc_addresses m\<rparr>))))"
      by (simp only: start_def d b1 option.case e prod.case)
    have ensured: "bo_image boot1 \<noteq> [] \<Longrightarrow>
        w1 = fst (on_host (ensure_image (dr_lister d) (dr_builder d) (bo_image boot1)) w)"
      using w1 by simp
    show thesis
    proof (cases r)
      case (Inl x)
      then have ne: "bo_image boot1 \<noteq> []" using e by (auto split: if_splits)
      show thesis by (rule refused [OF d b1 ne]) (simp_all only: st Inl sum.case fst_conv snd_conv ensured [OF ne])
    next
      case (Inr built)
      show thesis
      proof (cases "user_data_of templates b boot1")
        case (Inl x)
        show thesis
        proof (cases "bo_image boot1 = []")
          case True
          then have same: "w1 = w" using e by simp
          show thesis by (rule nothing) (simp_all only: st Inl Inr sum.case fst_conv snd_conv same)
        next
          case ne: False
          show thesis by (rule refused [OF d b1 ne]) (simp_all only: st Inl Inr sum.case fst_conv snd_conv ensured [OF ne])
        qed
      next
        case (Inr data)
        obtain w2 q where o: "on_host (dr_start d (spec_of b boot1 data)) w1 = (w2, q)" by fastforce
        show thesis
          by (rule asked [OF d b1 w1 Inr])
            (simp_all add: st \<open>r = Inr built\<close> Inr o del: on_host_simps split: sum.split)
      qed
    qed
  qed
qed

lemma declared_image_id: "declared_image b d boot = Some boot1 \<Longrightarrow> bo_id boot1 = bo_id boot"
  by (auto simp: declared_image_def Let_def split: if_splits option.splits)

lemma spec_of_name [simp]: "ms_name (spec_of b boot d) = name_of b (bo_id boot)" "ms_image (spec_of b boot d) = bo_image boot"
  by (simp_all add: spec_of_def)

text \<open>The image a machine is booted on: the catalogue's, or the operator's declaration, or none for a driver that boots nothing.\<close>

definition image_asked :: "'h binding \<Rightarrow> 'h driver \<Rightarrow> boot \<Rightarrow> string option" where
  "image_asked b d boot =
     (if bo_image boot \<noteq> [] then Some (bo_image boot)
      else if dr_noop d then Some []
      else if bo_requested boot = [] then None
      else map_option im_ref (bd_declared b (bo_requested boot)))"

lemma declared_image_asked: "map_option bo_image (declared_image b d boot) = image_asked b d boot"
  by (auto simp: declared_image_def image_asked_def Let_def split: option.split)

lemma power_on_driver:
  assumes "bd_driver b = Some d"
  shows "power_on templates b res boot w =
    (let (w1, s) = start templates b (boot\<lparr>bo_id := rid res\<rparr>) w in
     if st_machine s = [] then (w1, res\<lparr>rstate := bd_failed b\<rparr>, False)
     else (w1, (let r1 = rt_set res (bd_runtime_key b) (st_machine s) in
       if join_addresses (st_addresses s) \<noteq> [] then rt_set r1 (bd_address_key b) (join_addresses (st_addresses s)) else r1)
         \<lparr>rstate := bd_running b\<rparr>, True))"
  by (simp add: power_on_def assms Let_def split: prod.split)


section \<open>What is recorded is read back\<close>

text \<open>A text of digits and dots has nothing to trim.\<close>

definition dotted :: "string \<Rightarrow> bool" where
  "dotted s = list_all (\<lambda>c. is_digit c \<or> c = CHR ''.'') s"

lemma space_bytes:
  assumes "sp \<in> set (ascii_spaces @ wide_spaces)"
  shows "\<exists>c cs. sp = c # cs \<and> \<not> is_digit c \<and> c \<noteq> CHR ''.''" "\<exists>c cs. rev sp = c # cs \<and> \<not> is_digit c \<and> c \<noteq> CHR ''.''"
proof -
  have "list_all (\<lambda>sp. sp \<noteq> [] \<and> \<not> is_digit (hd sp) \<and> hd sp \<noteq> CHR ''.'' \<and> \<not> is_digit (hd (rev sp)) \<and> hd (rev sp) \<noteq> CHR ''.'')
      (ascii_spaces @ wide_spaces)"
    by code_simp
  then have p: "sp \<noteq> []" "\<not> is_digit (hd sp)" "hd sp \<noteq> CHR ''.''" "\<not> is_digit (hd (rev sp))" "hd (rev sp) \<noteq> CHR ''.''"
    using assms unfolding list_all_iff by blast+
  show "\<exists>c cs. sp = c # cs \<and> \<not> is_digit c \<and> c \<noteq> CHR ''.''" using p by (cases sp) auto
  have "rev sp \<noteq> []" using p(1) by simp
  then show "\<exists>c cs. rev sp = c # cs \<and> \<not> is_digit c \<and> c \<noteq> CHR ''.''" using p by (cases "rev sp") auto
qed

lemma space_len_dotted: "dotted s \<Longrightarrow> space_len s = 0"
proof -
  assume d: "dotted s"
  have "\<not> has_prefix s sp" if "sp \<in> set (ascii_spaces @ wide_spaces)" for sp
    using space_bytes(1) [OF that] d by (cases s) (auto simp: dotted_def)
  then have "find (has_prefix s) (ascii_spaces @ wide_spaces) = None" unfolding find_None_iff by blast
  then show ?thesis by (simp add: space_len_def)
qed

lemma space_rlen_dotted: "dotted s \<Longrightarrow> space_rlen s = 0"
proof -
  assume d: "dotted s"
  have "\<not> has_prefix s (rev sp)" if "sp \<in> set (ascii_spaces @ wide_spaces)" for sp
    using space_bytes(2) [OF that] d by (cases s) (auto simp: dotted_def)
  then have "find (\<lambda>sp. has_prefix s (rev sp)) (ascii_spaces @ wide_spaces) = None" unfolding find_None_iff by blast
  then show ?thesis by (simp add: space_rlen_def)
qed

lemma trim_space_dotted: "dotted s \<Longrightarrow> trim_space s = s"
proof -
  assume d: "dotted s"
  then have "trim_left s = s" by (subst trim_left.simps) (simp add: space_len_dotted)
  moreover have "dotted (rev s)" using d by (simp add: dotted_def)
  then have "trim_rev (rev s) = rev s" by (subst trim_rev.simps) (simp add: space_rlen_dotted)
  ultimately show ?thesis by (simp add: trim_space_def)
qed

lemma dotted_v4_string: "dotted (v4_string w)"
  using nat_digits_all_digits by (auto simp: dotted_def v4_string_def list_all_iff)

lemma dotted_no_comma: "dotted s \<Longrightarrow> CHR '','' \<notin> set s"
  by (auto simp: dotted_def list_all_iff)

lemma stored_join:
  assumes "\<forall>a\<in>set as. \<exists>x. a = V4 x"
  shows "stored_addresses (str_join '','' (map addr_string as)) = map addr_string as"
proof (cases "as = []")
  case True
  then show ?thesis by (simp add: stored_addresses_def)
next
  case False
  have d: "dotted (addr_string a)" if "a \<in> set as" for a
    using assms that dotted_v4_string by force
  have "CHR '','' \<notin> set t" if "t \<in> set (map addr_string as)" for t
    using that d dotted_no_comma by auto
  then have s: "split_on CHR '','' (str_join '','' (map addr_string as)) = map addr_string as"
    using split_on_join [of "map addr_string as"] False by simp
  have "addr_string (hd as) \<noteq> []" using False assms
    by (cases as) (auto simp: v4_string_def)
  then have ne: "str_join '','' (map addr_string as) \<noteq> []"
    using False by (cases as rule: list.exhaust; cases "tl as") auto
  have "parse_addr (trim_space (addr_string a)) = Some a" if "a \<in> set as" for a
    using assms that by (auto simp: trim_space_dotted [OF dotted_v4_string] parse_v4_string)
  then have "List.map_filter (\<lambda>entry. parse_addr (trim_space entry)) (map addr_string as) = as"
    by (induction as) (auto simp: List.map_filter_simps)
  then show ?thesis using ne by (simp add: stored_addresses_def s)
qed

lemma join_stored:
  assumes "\<forall>a\<in>set as. \<exists>x. a = V4 x"
  shows "List.map_filter (\<lambda>x. parse_addr (trim_space x)) (map addr_string as) = as"
  using assms by (induction as) (auto simp: List.map_filter_simps trim_space_dotted [OF dotted_v4_string] parse_v4_string)

text \<open>
  The addresses a resource remembers are the ones the runtime reported: of the
  texts recorded, those that are IPv4 addresses come back, all of them, in order and
  in their canonical spelling, and what comes back records as the same text again.
  Nothing that is not an address comes back from any record, restored or written.
\<close>

theorem recorded_addresses_read_back:
  assumes "\<And>x a. x \<in> set xs \<Longrightarrow> parse_addr (trim_space x) = Some a \<Longrightarrow> \<exists>w. a = V4 w"
  shows "stored_addresses (join_addresses xs) = map addr_string (List.map_filter (\<lambda>x. parse_addr (trim_space x)) xs) \<and>
    join_addresses (stored_addresses (join_addresses xs)) = join_addresses xs \<and>
    set (stored_addresses text) \<subseteq> addr_string ` {a. \<exists>x. parse_addr x = Some a}"
proof -
  let ?as = "List.map_filter (\<lambda>x. parse_addr (trim_space x)) xs"
  have v: "\<forall>a\<in>set ?as. \<exists>x. a = V4 x" using assms by (auto simp: List.map_filter_def)
  have "set (stored_addresses text) \<subseteq> addr_string ` {a. \<exists>x. parse_addr x = Some a}"
    by (auto simp: stored_addresses_def List.map_filter_def)
  then show ?thesis using stored_join [OF v] join_stored [OF v] by (simp add: join_addresses_def)
qed

section \<open>Only machines of this binding\<close>

text \<open>The machine a gesture acts on.\<close>

definition machine_of :: "gesture \<Rightarrow> string option" where
  "machine_of g =
     (case g of
        GStart spec \<Rightarrow> Some (ms_name spec)
      | GStop m \<Rightarrow> Some m
      | GRemove m \<Rightarrow> Some m
      | GAttach m att \<Rightarrow> Some m
      | GDetach m network \<Rightarrow> Some m
      | GRouteAddress spec \<Rightarrow> Some (as_machine spec)
      | GUnrouteAddress m address \<Rightarrow> Some m
      | GApplyFirewall m fb \<Rightarrow> Some m
      | _ \<Rightarrow> None)"

lemma machine_of_simps [simp]:
  "machine_of (GStart spec) = Some (ms_name spec)" "machine_of (GStop m) = Some m" "machine_of (GRemove m) = Some m"
  "machine_of (GAttach m att) = Some m" "machine_of (GRouteAddress aspec) = Some (as_machine aspec)"
  "machine_of (GApplyFirewall m fb) = Some m"
  by (simp_all add: machine_of_def)

datatype binding_op = OpPowerOn boot | OpPowerOff | OpDestroy | OpRefresh | OpRescan

fun run_op :: "(string \<Rightarrow> tnode list option) \<Rightarrow> 'h binding \<Rightarrow> binding_op \<Rightarrow> resource \<Rightarrow> 'h world \<Rightarrow> 'h world" where
  "run_op templates b (OpPowerOn boot) res w = fst (power_on templates b res boot w)"
| "run_op templates b OpPowerOff res w = fst (power_off b res w)"
| "run_op templates b OpDestroy res w = destroy b res w"
| "run_op templates b OpRefresh res w = fst (refresh b res w)"
| "run_op templates b OpRescan res w = fst (rescan b res w)"

definition own_gesture :: "'h binding \<Rightarrow> gesture \<Rightarrow> bool" where
  "own_gesture b g = (case machine_of g of None \<Rightarrow> False | Some m \<Rightarrow> has_prefix m (bd_prefix b))"

lemma own_name_prefix: "has_prefix (own_name b i m) (bd_prefix b)" "has_prefix (name_of b i) (bd_prefix b)"
  by (simp_all add: own_name_def name_of_def)

lemma recorder_driver_simps [simp]:
  "dr_noop recorder_driver = False" "dr_start recorder_driver = recorder_start" "dr_stop recorder_driver = recorder_stop"
  "dr_remove recorder_driver = recorder_remove" "dr_inspect recorder_driver = recorder_inspect"
  "dr_attach recorder_driver = (\<lambda>name att. recorded (GAttach name att))"
  "dr_lister recorder_driver = None" "dr_builder recorder_driver = None" "dr_observer recorder_driver = None"
  "dr_egress recorder_driver = None" "dr_dialect recorder_driver = None"
  by (simp_all add: recorder_driver_def)

lemma ensure_image_nothing [simp]: "ensure_image None None ref h = (h, Inr False)"
  by (simp add: ensure_image_def split: option.split)

lemma on_host_same: "on_host (\<lambda>h. (h, x)) w = (w, x)"
  by (simp add: on_host_def)

lemma start_events:
  assumes "bd_driver b = Some recorder_driver"
  shows "events (fst (start templates b boot w)) = events w \<or>
    (\<exists>spec. events (fst (start templates b boot w)) = events w @ [GStart spec] \<and> ms_name spec = name_of b (bo_id boot))"
proof (cases rule: start_cases [of templates b boot w])
  case (refused d boot1)
  then show ?thesis using assms by (simp add: events_def)
next
  case (asked d boot1 w1 user_data)
  have "events w1 = events w" using asked(1,3) assms by (simp add: events_def)
  then show ?thesis using asked assms declared_image_id [OF asked(2)] by auto
qed simp

lemma declared_image_interfaces:
  "declared_image b d boot = Some boot1 \<Longrightarrow> bo_attachments boot1 = bo_attachments boot \<and> bo_publics boot1 = bo_publics boot"
  by (auto simp: declared_image_def Let_def split: if_splits option.splits)

text \<open>On the recorder a machine starts, with the interfaces it was declared with, or nothing is asked.\<close>

lemma power_on_recorder:
  assumes d: "bd_driver b = Some recorder_driver" and prefix: "bd_prefix b \<noteq> []" and keys: "bd_runtime_key b \<noteq> bd_address_key b"
    and on: "power_on templates b res boot w = (w', r', up)"
  shows "if up then \<exists>spec. events w' = events w @ [GStart spec] \<and> ms_name spec = name_of b (rid res) \<and>
           rt_get r' (bd_runtime_key b) = ms_name spec \<and> ms_attachments spec = bo_attachments boot \<and> ms_publics spec = bo_publics boot
         else events w' = events w \<and> rstate r' = bd_failed b"
proof -
  let ?boot = "boot\<lparr>bo_id := rid res\<rparr>"
  let ?s = "snd (start templates b ?boot w)"
  have p: "w' = fst (start templates b ?boot w)" "up = (st_machine ?s \<noteq> [])" "\<not> up \<longrightarrow> rstate r' = bd_failed b"
    "up \<longrightarrow> rt_get r' (bd_runtime_key b) = st_machine ?s"
    using on keys by (auto simp: power_on_driver [OF d] Let_def split: prod.splits if_splits)
  show ?thesis
  proof (cases rule: start_cases [of templates b ?boot w])
    case nothing
    then show ?thesis using p by (simp add: no_start_def)
  next
    case (refused d' boot1)
    then show ?thesis using p d by (simp add: no_start_def events_def)
  next
    case (asked d' boot1 w1 user_data)
    then have w1: "events w1 = events w" using d by (simp add: events_def)
    have s: "?s = \<lparr>st_machine = name_of b (rid res), st_addresses = st_addresses ?s\<rparr>"
      using asked(6) asked(1) d declared_image_id [OF asked(2)] by (simp add: recorder_start_def Let_def)
    have "name_of b (rid res) \<noteq> []" using prefix by (simp add: name_of_def)
    then have up: "up" "rt_get r' (bd_runtime_key b) = name_of b (rid res)" using p s by (metis started.select_convs(1))+
    have "events w' = events w @ [GStart (spec_of b boot1 user_data)]" using asked(1,5) d p(1) w1 by simp
    moreover have "ms_attachments (spec_of b boot1 user_data) = bo_attachments boot \<and> ms_publics (spec_of b boot1 user_data) = bo_publics boot"
      using declared_image_interfaces [OF asked(2)] by (simp add: spec_of_def)
    moreover have "ms_name (spec_of b boot1 user_data) = name_of b (rid res)" using declared_image_id [OF asked(2)] by simp
    ultimately show ?thesis using up by auto
  qed
qed

lemma addresses_events: "bd_driver b = Some recorder_driver \<Longrightarrow> events (fst (addresses b i m w)) = events w"
  by (auto simp: addresses_def split: prod.split sum.split option.split)
    (metis events_recorded(6) fst_conv)+

lemma run_op_events:
  assumes "bd_driver b = Some recorder_driver"
  shows "\<exists>new. events (run_op templates b op res w) = events w @ new \<and> list_all (own_gesture b) new"
proof -
  have scan: "events (fst (rescan b res w)) = events w" "events (fst (refresh b res w)) = events w"
    using addresses_events [OF assms, of "rid res" "rt_get res (bd_runtime_key b)" w]
    by (auto simp: rescan_def refresh_def Let_def split: prod.split option.split)
  show ?thesis
  proof (cases op)
    case (OpPowerOn boot)
    then show ?thesis
      using start_events [OF assms, of templates "boot\<lparr>bo_id := rid res\<rparr>" w]
      by (auto simp: power_on_driver [OF assms] own_gesture_def own_name_prefix Let_def split: prod.splits)
  qed (auto simp: power_off_def destroy_def stop_def remove_machine_def assms Let_def own_gesture_def own_name_prefix scan)
qed

definition run_ops :: "(string \<Rightarrow> tnode list option) \<Rightarrow> 'h binding \<Rightarrow> (binding_op \<times> resource) list \<Rightarrow> 'h world \<Rightarrow> 'h world" where
  "run_ops templates b ops w = fold (\<lambda>(op, res) w. run_op templates b op res w) ops w"

text \<open>
  C22. Whatever a resource says, restored from a snapshot or not, the machine it
  powers on, off or destroys is one this binding could have named: every gesture of
  any run of operations over any resources acts on a machine whose name carries the
  binding's prefix.
\<close>

theorem only_own_machines_are_touched:
  assumes "bd_driver b = Some recorder_driver"
  shows "\<exists>new. events (run_ops templates b ops w) = events w @ new \<and> list_all (own_gesture b) new"
proof (induction ops arbitrary: w)
  case (Cons x ops)
  obtain op res where x: "x = (op, res)" by fastforce
  obtain new where n: "events (run_op templates b op res w) = events w @ new" "list_all (own_gesture b) new"
    using run_op_events [OF assms] by blast
  then show ?case using Cons.IH [of "run_op templates b op res w"] by (auto simp: run_ops_def x)
qed (simp add: run_ops_def)

section \<open>An action against everybody else\<close>

lemma commit_result:
  "snd (commit s base res now) = (cell s (addr_of res) \<noteq> None)"
  "cell (fst (commit s base res now)) (addr_of res) = map_option (commit_change base res now) (cell s (addr_of res))"
  "key p k i \<noteq> key (provider (tenant res)) (kind res) (rid res) \<Longrightarrow> cell (fst (commit s base res now)) (p, k, i) = cell s (p, k, i)"
  by (simp_all add: commit_def update_res_def  Let_def split: option.split)

lemma peek_cell: "snd (peek s p k i) = cell s (p, k, i)" "items (fst (peek s p k i)) = items s"
  by (simp_all add: peek_def  split: option.split)

text \<open>
  C21. A lifecycle action takes nobody's write with it. While the runtime works other
  requests change the store as they like; what is then written is, field by field,
  the action's value where the action changed it and theirs where it did not. A
  resource deleted meanwhile stays deleted and the action says so, and no other
  resource is touched.
\<close>

theorem an_action_is_merged_with_what_happened_meanwhile:
  assumes found: "cell s (prov, k, i) = Some res" and own: "addr_of res = (prov, k, i)"
    and same: "addr_of (snd (change res w)) = addr_of res"
    and run: "transition prov s meanwhile now k i change w = (w', s', e)"
  shows "(case cell (meanwhile (fst (peek s prov k i))) (prov, k, i) of
       None \<Rightarrow> e = Some ErrNotFound \<and> cell s' (prov, k, i) = None
     | Some st \<Rightarrow> e = None \<and> (\<exists>final. cell s' (prov, k, i) = Some final \<and>
         rstate final = (if rstate (snd (change res w)) = rstate res then rstate st else rstate (snd (change res w))) \<and>
         (\<forall>a. attrs final a = (if attrs (snd (change res w)) a = attrs res a then attrs st a else attrs (snd (change res w)) a)) \<and>
         (\<forall>a. rt final a = (if rt (snd (change res w)) a = rt res a then rt st a else rt (snd (change res w)) a)) \<and>
         updated final = now)) \<and>
    (\<forall>p' k' i'. key p' k' i' \<noteq> key prov k i \<longrightarrow> cell s' (p', k', i') = cell (meanwhile (fst (peek s prov k i))) (p', k', i')) \<and>
    w' = fst (change res w)"
proof -
  obtain w1 r1 where c: "change res w = (w1, r1)" by fastforce
  obtain s1 where p: "peek s prov k i = (s1, Some res)"
    using peek_cell(1) [of s prov k i] found by (metis prod.collapse)
  let ?s2 = "meanwhile s1"
  obtain s3 ok where cm: "commit ?s2 res r1 now = (s3, ok)" by fastforce
  have a: "addr_of r1 = (prov, k, i)" using same own c by simp
  note r = commit_result [where s = ?s2 and base = res and res = r1 and now = now]
  have e: "s' = s3" "w' = w1" "e = (if ok then None else Some ErrNotFound)"
    using run by (auto simp: transition_def observe_with_def p c cm split: bool.splits)
  have m: "cell s3 (prov, k, i) = map_option (commit_change res r1 now) (cell ?s2 (prov, k, i))"
    "ok = (cell ?s2 (prov, k, i) \<noteq> None)"
    using r(1,2) cm by (simp_all add: a)
  have o: "cell s3 (p', k', i') = cell ?s2 (p', k', i')" if "key p' k' i' \<noteq> key prov k i" for p' k' i'
    using r(3) [of p' k' i'] that cm a by simp
  have u: "updated (commit_change res r1 now st) = now" for st by (simp add: commit_change_def Let_def)
  show ?thesis
    using m o e u by (auto simp: c p commit_change_state commit_change_attr commit_change_rt split: option.split)
qed

section \<open>Backing networks\<close>

text \<open>
  The name of a backing network fits what the kernel allows an interface, carries
  the emulator's prefix, and is recorded only once the driver accepted the network.
\<close>

lemma network_name_fits:
  assumes "length (digest i) = 64"
  shows "length (network_name digest network_prefix i) = max_network_name_len \<and>
    has_prefix (network_name digest network_prefix i) (network_prefix @ ''-'')"
  using assms by (simp add: network_name_def network_prefix_def max_network_name_len_def Let_def has_prefix_iff)

lemma ensure_backing_network_records:
  assumes "ensure_backing_network digest b res spec w = (w', res', e)" "bd_driver b = Some d"
  shows "e = snd (on_host (dr_ensure_network d (backing_spec digest b (rid res) spec)) w) \<and>
    res' = (if e = None then rt_set res (bn_key spec) (network_name digest network_prefix (rid res)) else res)"
  using assms by (auto simp: ensure_backing_network_def on_host_def split: option.splits prod.splits)

section \<open>Witnesses\<close>

definition tpl0 :: "string \<Rightarrow> tnode list option" where
  "tpl0 name = Some [THostname]"

definition binding0 :: "recorder binding" where
  "binding0 = \<lparr>bd_driver = Some recorder_driver, bd_provider = ''scw'', bd_prefix = ''feint-'', bd_user = ''root'',
     bd_runtime_key = ''machine'', bd_address_key = ''address'', bd_running = ''running'', bd_failed = ''stopped'',
     bd_declared = Map.empty\<rparr>"

definition boot0 :: boot where
  "boot0 = \<lparr>bo_id = [], bo_image = ''ubuntu:24.04'', bo_requested = [], bo_reason = [], bo_hostname = [], bo_user = [],
     bo_keys = [], bo_cloud_init = ''x'', bo_attachments = [], bo_publics = [], bo_labels = Map.empty\<rparr>"

definition res0 :: resource where
  "res0 = new_resource ''1'' ''server'' \<lparr>provider = ''scw'', project = [], zone = []\<rparr> ''stopped'' 0"

lemma power_on0:
  "\<exists>w r. power_on tpl0 binding0 res0 boot0 (new_world new_recorder) = (w, r, True)"
  by (simp add: power_on_def start_def binding0_def boot0_def res0_def new_resource_def declared_image_def on_host_def
      user_data_of_def recorder_start_def spec_of_def name_of_def Let_def)


lemma read_back_witness: "stored_addresses (join_addresses [''10.0.0.7'', ''x'']) = [''10.0.0.7'']"
proof -
  have t: "trim_space ''10.0.0.7'' = ''10.0.0.7''" "trim_space ''x'' = ''x''" by code_simp+
  have p: "parse_addr ''10.0.0.7'' = Some (V4 0x0A000007)" "parse_addr ''x'' = None"
    by (simp_all add: netip_eval)
  have "addr_string (V4 0x0A000007) = ''10.0.0.7''" by (simp add: netip_eval)
  moreover have "\<exists>w. a = V4 w" if "x \<in> set [''10.0.0.7'', ''x'']" "parse_addr (trim_space x) = Some a" for x a
    using that t p by auto
  ultimately show ?thesis
    using recorded_addresses_read_back [of "[''10.0.0.7'', ''x'']" "[]"] by (simp add: t p List.map_filter_simps)
qed

lemma own_machines_witness:
  "\<exists>new. events (run_ops tpl0 binding0 [(OpDestroy, rt_set res0 ''machine'' ''production-database'')] (new_world new_recorder)) = new \<and>
     list_all (own_gesture binding0) new"
  using only_own_machines_are_touched [of binding0 tpl0 "[(OpDestroy, rt_set res0 ''machine'' ''production-database'')]" "new_world new_recorder"]
  by (simp add: binding0_def new_world_def new_recorder_def events_def)

definition store0 :: store where
  "store0 = put new_store res0"

lemma merged_witness:
  "\<exists>final. cell (fst (snd (transition ''scw'' store0 (\<lambda>s. fst (commit s res0 (res0\<lparr>attrs := [''name'' \<mapsto> AString ''web'']\<rparr>) 1)) 2 ''server'' ''1''
      (\<lambda>r w. (w, r\<lparr>rstate := ''running''\<rparr>)) (new_world ())))) (''scw'', ''server'', ''1'') = Some final \<and>
    rstate final = ''running'' \<and> attrs final ''name'' = Some (AString ''web'')"
proof -
  let ?meanwhile = "\<lambda>s. fst (commit s res0 (res0\<lparr>attrs := [''name'' \<mapsto> AString ''web'']\<rparr>) 1)"
  let ?change = "\<lambda>r (w :: unit world). (w, r\<lparr>rstate := ''running''\<rparr>)"
  have found: "cell store0 (''scw'', ''server'', ''1'') = Some res0"
    by (simp add: store0_def put_def  new_store_def res0_def new_resource_def countOnlySignal_def notify_def key_def Let_def)
  have own: "addr_of res0 = (''scw'', ''server'', ''1'')" by (simp add: res0_def new_resource_def)
  obtain w s e where t: "transition ''scw'' store0 ?meanwhile 2 ''server'' ''1'' ?change (new_world ()) = (w, s, e)" by (metis prod_cases3)
  have "cell (?meanwhile (fst (peek store0 ''scw'' ''server'' ''1''))) (''scw'', ''server'', ''1'') =
      Some (commit_change res0 (res0\<lparr>attrs := [''name'' \<mapsto> AString ''web'']\<rparr>) 1 res0)"
    using commit_result(2) [where s = "fst (peek store0 ''scw'' ''server'' ''1'')" and base = res0 and res = "res0\<lparr>attrs := [''name'' \<mapsto> AString ''web'']\<rparr>" and now = 1]
      found own peek_cell(2) [of store0 "''scw''" "''server''" "''1''"] by simp
  with an_action_is_merged_with_what_happened_meanwhile [OF found own _ t] t own show ?thesis
    by (auto simp: commit_change_attr res0_def new_resource_def)
qed

end
