(* ===== verification/GroupSync.thy ===== *)
theory GroupSync
  imports Binding
begin

text \<open>
  The orchestration of security groups onto machines:
  \<open>internal/core/machine/groupsync.go\<close>, the driver half of \<open>firewall_binding.go\<close> and
  the reconciliation pass of \<open>isolate.go\<close>. A field of the Go struct that may be nil
  is an option; every door asks \<open>wired\<close> before it calls one of the four required
  fields, so the defaults the model gives a nil one are never reached.
\<close>

record 'h group_sync =
  gs_binding :: "'h binding"
  gs_spec_of :: "(resource \<Rightarrow> resource option \<Rightarrow> fw_spec) option"
  gs_foreign_blocks :: "(resource \<Rightarrow> string list) option"
  gs_wearers :: "(resource \<Rightarrow> resource list) option"
  gs_worn_ids :: "(resource \<Rightarrow> string list) option"
  gs_group :: "(string \<Rightarrow> resource option) option"
  gs_plan_of :: "(resource \<Rightarrow> plan) option"
  gs_referrers :: "(string set \<Rightarrow> resource list) option"
  gs_enforces_nothing :: bool

section \<open>Wiring\<close>

definition required_fields :: "'h group_sync \<Rightarrow> (string \<times> bool) list" where
  "required_fields s =
     [(''SpecOf'', gs_spec_of s \<noteq> None), (''Wearers'', gs_wearers s \<noteq> None),
      (''WornIDs'', gs_worn_ids s \<noteq> None), (''Group'', gs_group s \<noteq> None)]"

text \<open>The provider named by the error and the fields it names, when one is missing.\<close>

definition missing_fields :: "'h group_sync \<Rightarrow> (string \<times> string list) option" where
  "missing_fields s =
     (let missing = map fst (filter (\<lambda>(name, is_set). \<not> is_set) (required_fields s)) in
      if missing = [] then None
      else
        (let prov = bd_provider (gs_binding s)
         in Some (if prov = [] then ''an unnamed'' else prov, missing)))"

definition enforcer :: "'h group_sync \<Rightarrow> 'h firewaller option" where
  "enforcer s = (case bd_driver (gs_binding s) of None \<Rightarrow> None | Some d \<Rightarrow> dr_firewaller d)"

definition wired :: "'h group_sync \<Rightarrow> bool" where
  "wired s =
     (if gs_enforces_nothing s then False
      else if missing_fields s \<noteq> None then False
      else enforcer s \<noteq> None)"

definition native_isolation :: "'h group_sync \<Rightarrow> 'h \<Rightarrow> bool" where
  "native_isolation s h =
     (case bd_driver (gs_binding s) of
        None \<Rightarrow> False
      | Some d \<Rightarrow> (case dr_peerer d of None \<Rightarrow> False | Some p \<Rightarrow> pe_native p h))"

definition worn_ids :: "'h group_sync \<Rightarrow> resource \<Rightarrow> string list" where
  "worn_ids s res = option_or (\<lambda>r. []) (gs_worn_ids s) res"

definition group_of :: "'h group_sync \<Rightarrow> string \<Rightarrow> resource option" where
  "group_of s i = option_or (\<lambda>i. None) (gs_group s) i"

definition wearers_of :: "'h group_sync \<Rightarrow> resource \<Rightarrow> resource list" where
  "wearers_of s g = option_or (\<lambda>g. []) (gs_wearers s) g"

definition pack_spec :: "'h group_sync \<Rightarrow> resource \<Rightarrow> resource option \<Rightarrow> fw_spec" where
  "pack_spec s g fresh = option_or (\<lambda>g f. \<lparr>sname = [], sdefault_in = [], sdefault_out = [], srules = []\<rparr>) (gs_spec_of s) g fresh"

section \<open>One group's rule set\<close>

definition reject_rules :: "string \<Rightarrow> fw_rule list" where
  "reject_rules block =
     [(bare_rule ''egress'' ''reject'')\<lparr>fdestination := block\<rparr>, (bare_rule ''ingress'' ''reject'')\<lparr>fsource := block\<rparr>]"

definition group_spec :: "'h group_sync \<Rightarrow> resource \<Rightarrow> resource option \<Rightarrow> 'h \<Rightarrow> fw_spec" where
  "group_spec s g fresh h =
     (let spec = pack_spec s g fresh in
      case gs_foreign_blocks s of
        None \<Rightarrow> spec
      | Some foreign_blocks \<Rightarrow>
          (if native_isolation s h then spec
           else
             (let blocks = foreign_blocks g in
              if length blocks = 0 then spec
              else spec\<lparr>srules := concat (map reject_rules blocks) @ srules spec\<rparr>)))"

definition sync_rule_set :: "'h firewaller option \<Rightarrow> fw_spec \<Rightarrow> 'h world \<Rightarrow> 'h world \<times> bool" where
  "sync_rule_set fw spec w =
     (case fw of
        None \<Rightarrow> (w, False)
      | Some f \<Rightarrow>
          (case on_host (fw_ensure f spec) w of
             (w1, Some e) \<Rightarrow> (w1, False)
           | (w1, None) \<Rightarrow> (w1, True)))"

definition apply_rule_sets :: "'h firewaller option \<Rightarrow> string \<Rightarrow> string list \<Rightarrow> fw_spec list \<Rightarrow> 'h world \<Rightarrow> 'h world" where
  "apply_rule_sets fw m unfiltered specs w =
     (case fw of
        None \<Rightarrow> w
      | Some f \<Rightarrow> (if m = [] then w else fst (on_host (fw_apply f m (binding_of unfiltered specs)) w)))"

definition drop_rule_set :: "'h firewaller option \<Rightarrow> string \<Rightarrow> 'h world \<Rightarrow> 'h world" where
  "drop_rule_set fw name w =
     (case fw of None \<Rightarrow> w | Some f \<Rightarrow> fst (on_host (fw_remove f name) w))"

section \<open>One machine\<close>

text \<open>The networks the groups do not cover, from both halves of the plan, each once.\<close>

definition unfiltered_networks :: "'h group_sync \<Rightarrow> resource \<Rightarrow> string list" where
  "unfiltered_networks s res =
     (case gs_plan_of s of
        None \<Rightarrow> []
      | Some plan_of \<Rightarrow>
          fold (\<lambda>att out. if at_unfiltered att \<and> at_network att \<noteq> [] then add_new out (at_network att) else out)
            (attachments (plan_of res)) [])"

text \<open>Every set is written before any is attached; the first refusal ends the pass.\<close>

fun write_sets :: "'h group_sync \<Rightarrow> resource option \<Rightarrow> string list \<Rightarrow> fw_spec list \<Rightarrow> 'h world \<Rightarrow> 'h world \<times> fw_spec list option" where
  "write_sets s fresh [] specs w = (w, Some specs)"
| "write_sets s fresh (i # ids) specs w =
     (case group_of s i of
        None \<Rightarrow> write_sets s fresh ids specs w
      | Some g \<Rightarrow>
          (let spec = group_spec s g fresh (w_host w) in
           case sync_rule_set (enforcer s) spec w of
             (w1, False) \<Rightarrow> (w1, None)
           | (w1, True) \<Rightarrow> write_sets s fresh ids (specs @ [spec]) w1))"

definition apply_to_machine :: "'h group_sync \<Rightarrow> resource \<Rightarrow> resource option \<Rightarrow> 'h world \<Rightarrow> 'h world" where
  "apply_to_machine s res fresh0 w =
     (if enforcer s = None then w
      else
        (let fresh = (case fresh0 of None \<Rightarrow> Some res | Some f \<Rightarrow> Some f) in
         case write_sets s fresh (worn_ids s res) [] w of
           (w1, None) \<Rightarrow> w1
         | (w1, Some specs) \<Rightarrow>
             apply_rule_sets (enforcer s) (rt_get res (bd_runtime_key (gs_binding s))) (unfiltered_networks s res) specs w1))"

definition apply_machine :: "'h group_sync \<Rightarrow> resource \<Rightarrow> 'h world \<Rightarrow> 'h world" where
  "apply_machine s res w = (if \<not> wired s then w else apply_to_machine s res (Some res) w)"

section \<open>One group, and the groups that name it\<close>

definition fresh_wearer :: "resource option \<Rightarrow> resource \<Rightarrow> resource" where
  "fresh_wearer fresh wearer =
     (case fresh of None \<Rightarrow> wearer | Some f \<Rightarrow> (if rid wearer = rid f then f else wearer))"

definition sync_group :: "'h group_sync \<Rightarrow> resource \<Rightarrow> resource option \<Rightarrow> 'h world \<Rightarrow> 'h world" where
  "sync_group s g fresh w =
     (if \<not> wired s then w
      else
        (case sync_rule_set (enforcer s) (group_spec s g fresh (w_host w)) w of
           (w1, False) \<Rightarrow> w1
         | (w1, True) \<Rightarrow> fold (\<lambda>wearer w. apply_to_machine s (fresh_wearer fresh wearer) fresh w) (wearers_of s g) w1))"

definition sync_referrers :: "'h group_sync \<Rightarrow> string list \<Rightarrow> resource option \<Rightarrow> 'h world \<Rightarrow> 'h world" where
  "sync_referrers s ids fresh w =
     (case gs_referrers s of
        None \<Rightarrow> w
      | Some referrers \<Rightarrow>
          (if length ids = 0 \<or> \<not> wired s then w
           else fold (\<lambda>g w. sync_group s g fresh w) (referrers (set ids)) w))"

definition after_boot :: "'h group_sync \<Rightarrow> resource \<Rightarrow> 'h world \<Rightarrow> 'h world" where
  "after_boot s res w =
     (if \<not> wired s then w
      else sync_referrers s (worn_ids s res) (Some res) (apply_to_machine s res (Some res) w))"

definition drop_group :: "'h group_sync \<Rightarrow> string \<Rightarrow> 'h world \<Rightarrow> 'h world" where
  "drop_group s name w = drop_rule_set (enforcer s) name w"

section \<open>Isolation\<close>

record isolation_member =
  im_id :: string
  im_network :: string
  im_block :: string

definition peers_of :: "isolation_member list \<Rightarrow> (nat \<Rightarrow> nat \<Rightarrow> bool) \<Rightarrow> nat \<Rightarrow> string list" where
  "peers_of members reachable i =
     map (\<lambda>j. im_network (members ! j))
       (filter (\<lambda>j. \<not> (j = i \<or> im_network (members ! j) = []) \<and> reachable i j) [0 ..< length members])"

definition foreign_of :: "isolation_member list \<Rightarrow> (nat \<Rightarrow> nat \<Rightarrow> bool) \<Rightarrow> nat \<Rightarrow> string list" where
  "foreign_of members reachable i =
     map (\<lambda>j. im_block (members ! j))
       (filter (\<lambda>j. \<not> (j = i \<or> reachable i j) \<and> im_block (members ! j) \<noteq> []) [0 ..< length members])"

text \<open>One pass over the members that have a network; what a driver answers is only logged.\<close>

definition isolation_pass ::
  "isolation_member list \<Rightarrow> (string \<Rightarrow> string list \<Rightarrow> 'h effect) \<Rightarrow> (nat \<Rightarrow> string list) \<Rightarrow> 'h world \<Rightarrow> 'h world" where
  "isolation_pass members act listed w =
     fold (\<lambda>i w. if im_network (members ! i) = [] then w else fst (on_host (act (im_network (members ! i)) (listed i)) w))
       [0 ..< length members] w"

definition native_peerer :: "'h driver \<Rightarrow> 'h \<Rightarrow> 'h peerer option" where
  "native_peerer d h = (case dr_peerer d of None \<Rightarrow> None | Some p \<Rightarrow> (if pe_native p h then Some p else None))"

definition reconcile_isolation ::
  "'h driver option \<Rightarrow> isolation_member list \<Rightarrow> (nat \<Rightarrow> nat \<Rightarrow> bool) \<Rightarrow> 'h world \<Rightarrow> 'h world \<times> bool \<times> bool" where
  "reconcile_isolation dr members reachable w =
     (case dr of
        None \<Rightarrow> (w, False, False)
      | Some d \<Rightarrow>
          (case native_peerer d (w_host w) of
             Some p \<Rightarrow> (isolation_pass members (pe_peer p) (peers_of members reachable) w, True, True)
           | None \<Rightarrow>
               (case dr_isolator d of
                  None \<Rightarrow> (w, False, False)
                | Some isolate \<Rightarrow> (isolation_pass members isolate (foreign_of members reachable) w, False, True))))"

section \<open>What a pass asks of the enforcing half\<close>

lemma group_spec_native: "native_isolation s h = native_isolation s h' \<Longrightarrow> group_spec s g fresh h = group_spec s g fresh h'"
  by (simp only: group_spec_def)

text \<open>The sets a resource wears, as the pass translates them.\<close>

definition specs_of :: "'h group_sync \<Rightarrow> resource option \<Rightarrow> 'h \<Rightarrow> string list \<Rightarrow> fw_spec list" where
  "specs_of s fresh h ids = List.map_filter (\<lambda>i. map_option (\<lambda>g. group_spec s g fresh h) (group_of s i)) ids"

lemma specs_of_simps [simp]:
  "specs_of s fresh h [] = []"
  "specs_of s fresh h (i # ids) =
     (case group_of s i of None \<Rightarrow> specs_of s fresh h ids | Some g \<Rightarrow> group_spec s g fresh h # specs_of s fresh h ids)"
  by (simp_all add: specs_of_def List.map_filter_simps split: option.split)

lemma specs_of_native: "native_isolation s h = native_isolation s h' \<Longrightarrow> specs_of s fresh h ids = specs_of s fresh h' ids"
  using group_spec_native [of s h h'] by (simp add: specs_of_def)

text \<open>
  What the layer needs of an enforcing half: a set it refuses leaves the host as it
  was, a set it takes and an attachment are journalled, and neither changes whether
  the networks are born apart.
\<close>

locale rule_journal =
  fixes journal :: "'h \<Rightarrow> gesture list" and fw :: "'h firewaller" and refused :: "fw_spec \<Rightarrow> bool" and native :: "'h \<Rightarrow> bool"
  assumes written: "\<not> refused spec \<Longrightarrow>
      snd (fw_ensure fw spec h) = None \<and> journal (fst (fw_ensure fw spec h)) = journal h @ [GEnsureFirewall spec]"
    and not_written: "refused spec \<Longrightarrow>
      snd (fw_ensure fw spec h) \<noteq> None \<and> journal (fst (fw_ensure fw spec h)) = journal h"
    and attached: "journal (fst (fw_apply fw m fb h)) = journal h @ [GApplyFirewall m fb]"
    and native_kept: "native (fst (fw_ensure fw spec h)) = native h" "native (fst (fw_apply fw m fb h)) = native h"
begin

definition drives :: "'h group_sync \<Rightarrow> bool" where
  "drives s \<longleftrightarrow> enforcer s = Some fw \<and> native_isolation s = native"

lemma sync_rule_set_journal:
  "journal (w_host (fst (sync_rule_set (Some fw) spec w))) =
     journal (w_host w) @ (if refused spec then [] else [GEnsureFirewall spec])"
  "snd (sync_rule_set (Some fw) spec w) = (\<not> refused spec)"
  "native (w_host (fst (sync_rule_set (Some fw) spec w))) = native (w_host w)"
  using written [of spec "w_host w"] not_written [of spec "w_host w"] native_kept(1) [of spec "w_host w"]
  by (cases "fw_ensure fw spec (w_host w)"; cases "refused spec"; cases "snd (fw_ensure fw spec (w_host w))";
      simp add: sync_rule_set_def on_host_def)+

lemma write_sets_journal:
  assumes "drives s"
  shows "journal (w_host (fst (write_sets s fresh ids specs w))) =
      journal (w_host w) @ map GEnsureFirewall (takeWhile (\<lambda>sp. \<not> refused sp) (specs_of s fresh (w_host w) ids)) \<and>
    snd (write_sets s fresh ids specs w) =
      (if list_ex refused (specs_of s fresh (w_host w) ids) then None else Some (specs @ specs_of s fresh (w_host w) ids)) \<and>
    native (w_host (fst (write_sets s fresh ids specs w))) = native (w_host w)"
proof (induction ids arbitrary: specs w)
  case (Cons i ids)
  show ?case
  proof (cases "group_of s i")
    case None
    then show ?thesis using Cons.IH by simp
  next
    case (Some g)
    let ?spec = "group_spec s g fresh (w_host w)"
    obtain w1 ok where r: "sync_rule_set (enforcer s) ?spec w = (w1, ok)" by fastforce
    then have j: "journal (w_host w1) = journal (w_host w) @ (if refused ?spec then [] else [GEnsureFirewall ?spec])"
      "ok = (\<not> refused ?spec)" "native (w_host w1) = native (w_host w)"
      using sync_rule_set_journal [of ?spec w] assms by (simp_all add: drives_def)
    have sp: "specs_of s fresh (w_host w1) ids = specs_of s fresh (w_host w) ids"
      using assms j(3) by (intro specs_of_native) (simp add: drives_def)
    show ?thesis using Some r j Cons.IH [of "specs @ [?spec]" w1] by (cases ok) (simp_all add: sp Let_def)
  qed
qed simp

definition machine_gestures :: "'h group_sync \<Rightarrow> resource \<Rightarrow> resource option \<Rightarrow> 'h \<Rightarrow> gesture list" where
  "machine_gestures s res fresh h =
     (let specs = specs_of s (Some (option_or res fresh)) h (worn_ids s res);
          m = rt_get res (bd_runtime_key (gs_binding s))
      in map GEnsureFirewall (takeWhile (\<lambda>sp. \<not> refused sp) specs) @
         (if list_ex refused specs \<or> m = [] then [] else [GApplyFirewall m (binding_of (unfiltered_networks s res) specs)]))"

lemma apply_to_machine_journal:
  assumes "drives s"
  shows "journal (w_host (apply_to_machine s res fresh w)) = journal (w_host w) @ machine_gestures s res fresh (w_host w) \<and>
    native (w_host (apply_to_machine s res fresh w)) = native (w_host w)"
proof -
  let ?fresh = "Some (option_or res fresh)"
  have f: "(case fresh of None \<Rightarrow> Some res | Some f \<Rightarrow> Some f) = ?fresh" by (cases fresh) simp_all
  obtain w1 r where ws: "write_sets s ?fresh (worn_ids s res) [] w = (w1, r)" by fastforce
  note j = write_sets_journal [OF assms, of ?fresh "worn_ids s res" "[]" w]
  have e: "enforcer s = Some fw" using assms by (simp add: drives_def)
  have a: "apply_to_machine s res fresh w = (case r of None \<Rightarrow> w1
      | Some specs \<Rightarrow> apply_rule_sets (Some fw) (rt_get res (bd_runtime_key (gs_binding s))) (unfiltered_networks s res) specs w1)"
    by (simp only: apply_to_machine_def e option.distinct if_False Let_def f ws prod.case)
  show ?thesis
    using j by (auto simp: a ws machine_gestures_def apply_rule_sets_def attached native_kept Let_def split: option.split)
qed

lemma machine_gestures_native:
  assumes "drives s" "native h = native h'"
  shows "machine_gestures s res fresh h = machine_gestures s res fresh h'"
proof -
  have "specs_of s f h ids = specs_of s f h' ids" for f ids
    using assms by (intro specs_of_native) (simp add: drives_def)
  then show ?thesis by (simp add: machine_gestures_def)
qed

lemma fold_journal:
  assumes "\<And>x w. journal (w_host (step x w)) = journal (w_host w) @ says x (w_host w) \<and> native (w_host (step x w)) = native (w_host w)"
    and "\<And>x h h'. native h = native h' \<Longrightarrow> says x h = says x h'"
  shows "journal (w_host (fold step xs w)) = journal (w_host w) @ concat (map (\<lambda>x. says x (w_host w)) xs) \<and>
    native (w_host (fold step xs w)) = native (w_host w)"
proof (induction xs arbitrary: w)
  case (Cons x xs)
  have n: "native (w_host (step x w)) = native (w_host w)" using assms(1) by blast
  have "says y (w_host (step x w)) = says y (w_host w)" for y by (rule assms(2) [OF n])
  then show ?case using Cons.IH [of "step x w"] assms(1) [of x w] by simp
qed simp

definition group_gestures :: "'h group_sync \<Rightarrow> resource \<Rightarrow> resource option \<Rightarrow> 'h \<Rightarrow> gesture list" where
  "group_gestures s g fresh h =
     (if refused (group_spec s g fresh h) then []
      else GEnsureFirewall (group_spec s g fresh h) #
        concat (map (\<lambda>wearer. machine_gestures s (fresh_wearer fresh wearer) fresh h) (wearers_of s g)))"

lemma sync_group_journal:
  assumes "drives s" "wired s"
  shows "journal (w_host (sync_group s g fresh w)) = journal (w_host w) @ group_gestures s g fresh (w_host w) \<and>
    native (w_host (sync_group s g fresh w)) = native (w_host w)"
proof -
  let ?spec = "group_spec s g fresh (w_host w)"
  obtain w1 ok where r: "sync_rule_set (enforcer s) ?spec w = (w1, ok)" by fastforce
  then have j: "journal (w_host w1) = journal (w_host w) @ (if refused ?spec then [] else [GEnsureFirewall ?spec])"
    "ok = (\<not> refused ?spec)" "native (w_host w1) = native (w_host w)"
    using sync_rule_set_journal [of ?spec w] assms(1) by (simp_all add: drives_def)
  have m: "machine_gestures s res fresh (w_host w1) = machine_gestures s res fresh (w_host w)" for res
    by (rule machine_gestures_native [OF assms(1) j(3)])
  have f: "journal (w_host (fold (\<lambda>wearer w. apply_to_machine s (fresh_wearer fresh wearer) fresh w) ws w1)) =
      journal (w_host w1) @ concat (map (\<lambda>wearer. machine_gestures s (fresh_wearer fresh wearer) fresh (w_host w1)) ws) \<and>
      native (w_host (fold (\<lambda>wearer w. apply_to_machine s (fresh_wearer fresh wearer) fresh w) ws w1)) = native (w_host w1)" for ws
    by (rule fold_journal) (rule apply_to_machine_journal [OF assms(1)], rule machine_gestures_native [OF assms(1)])
  show ?thesis using f [of "wearers_of s g"] j r assms(2)
    by (cases ok) (simp_all add: sync_group_def group_gestures_def m Let_def)
qed

lemma group_gestures_native:
  assumes "drives s" "native h = native h'"
  shows "group_gestures s g fresh h = group_gestures s g fresh h'"
proof -
  have "group_spec s g fresh h = group_spec s g fresh h'" using assms by (intro group_spec_native) (simp add: drives_def)
  then show ?thesis using machine_gestures_native [OF assms] by (simp add: group_gestures_def)
qed

lemma after_boot_journal:
  assumes "drives s" "wired s"
  shows "journal (w_host (after_boot s res w)) = journal (w_host w) @ machine_gestures s res (Some res) (w_host w) @
    (case gs_referrers s of None \<Rightarrow> []
     | Some referrers \<Rightarrow> if worn_ids s res = [] then []
         else concat (map (\<lambda>g. group_gestures s g (Some res) (w_host w)) (referrers (set (worn_ids s res)))))"
proof -
  let ?w1 = "apply_to_machine s res (Some res) w"
  have a: "journal (w_host ?w1) = journal (w_host w) @ machine_gestures s res (Some res) (w_host w)"
    "native (w_host ?w1) = native (w_host w)"
    using apply_to_machine_journal [OF assms(1), of res "Some res" w] by simp_all
  have f: "journal (w_host (fold (\<lambda>g w. sync_group s g (Some res) w) gs ?w1)) =
      journal (w_host ?w1) @ concat (map (\<lambda>g. group_gestures s g (Some res) (w_host ?w1)) gs) \<and>
      native (w_host (fold (\<lambda>g w. sync_group s g (Some res) w) gs ?w1)) = native (w_host ?w1)" for gs
    by (rule fold_journal) (rule sync_group_journal [OF assms], rule group_gestures_native [OF assms(1)])
  have g: "group_gestures s g (Some res) (w_host ?w1) = group_gestures s g (Some res) (w_host w)" for g
    by (rule group_gestures_native [OF assms(1) a(2)])
  show ?thesis
    using f assms(2) by (simp add: after_boot_def sync_referrers_def a(1) g split: option.split)
qed

end

section \<open>The recorder, and a recorder that refuses\<close>

text \<open>A recorder whose enforcing half refuses the sets with some names.\<close>

definition refusing_firewaller :: "string set \<Rightarrow> recorder firewaller" where
  "refusing_firewaller names =
     \<lparr>fw_ensure = (\<lambda>spec r. if sname spec \<in> names then (r, Some ''refused'') else recorded (GEnsureFirewall spec) r),
      fw_apply = (\<lambda>m fb. recorded (GApplyFirewall m fb)),
      fw_remove = (\<lambda>name. recorded (GRemoveFirewall name))\<rparr>"

definition refusing_driver :: "string set \<Rightarrow> recorder driver" where
  "refusing_driver names = recorder_driver\<lparr>dr_firewaller := Some (refusing_firewaller names)\<rparr>"

lemma recorder_never_refuses: "refusing_driver {} = recorder_driver"
  by (simp add: refusing_driver_def recorder_driver_def refusing_firewaller_def)

interpretation rules: rule_journal rc_events "refusing_firewaller names" "\<lambda>spec. sname spec \<in> names" "\<lambda>r. \<not> rc_joined r"
  for names
  by unfold_locales (simp_all add: refusing_firewaller_def recorded_def)

lemma refusing_drives:
  assumes "bd_driver (gs_binding s) = Some (refusing_driver names)"
  shows "rules.drives names s"
proof -
  have "native_isolation s = (\<lambda>r. \<not> rc_joined r)"
    by (rule ext) (simp add: native_isolation_def assms refusing_driver_def recorder_driver_def)
  then show ?thesis by (simp add: rules.drives_def enforcer_def assms refusing_driver_def)
qed

text \<open>
  C18. A machine is attached to all the sets it wears or to none. The sets are
  written first, in order, as far as the first the runtime refuses; only when every
  one was taken is the machine attached, once, to the binding of exactly those sets,
  so a refused set never leaves the machine with the others and its traffic open.
\<close>

theorem a_refused_set_attaches_nothing:
  assumes "bd_driver (gs_binding s) = Some (refusing_driver names)" and "wired s"
  shows "events (apply_machine s res w) = events w @
     map GEnsureFirewall (takeWhile (\<lambda>spec. sname spec \<notin> names) (specs_of s (Some res) (w_host w) (worn_ids s res))) @
     (if list_ex (\<lambda>spec. sname spec \<in> names) (specs_of s (Some res) (w_host w) (worn_ids s res)) \<or>
         rt_get res (bd_runtime_key (gs_binding s)) = [] then []
      else [GApplyFirewall (rt_get res (bd_runtime_key (gs_binding s)))
             (binding_of (unfiltered_networks s res) (specs_of s (Some res) (w_host w) (worn_ids s res)))])"
  using rules.apply_to_machine_journal [OF refusing_drives [OF assms(1)], of res "Some res" w] assms(2)
  by (simp add: apply_machine_def events_def rules.machine_gestures_def Let_def)

text \<open>
  What a boot makes of the groups. The machine's own sets are written and
  attached; then every group one of whose rules names a group it wears is written
  again and attached to every machine that wears it, the booting one included. In
  the whole pass no set is written with any copy of the booting resource but the
  fresh one, so no replay puts back what the store still says of it.
\<close>

theorem a_boot_reexpands_the_groups_that_name_it:
  assumes "bd_driver (gs_binding s) = Some recorder_driver" and "wired s"
  shows "\<exists>new. events (after_boot s res w) = events w @ new \<and>
    {spec. GEnsureFirewall spec \<in> set new} \<subseteq> {group_spec s g (Some res) (w_host w) |g. True} \<and>
    (rt_get res (bd_runtime_key (gs_binding s)) \<noteq> [] \<longrightarrow>
      GApplyFirewall (rt_get res (bd_runtime_key (gs_binding s)))
        (binding_of (unfiltered_networks s res) (specs_of s (Some res) (w_host w) (worn_ids s res))) \<in> set new) \<and>
    (\<forall>referrers g wearer. gs_referrers s = Some referrers \<and> worn_ids s res \<noteq> [] \<and> g \<in> set (referrers (set (worn_ids s res))) \<longrightarrow>
      GEnsureFirewall (group_spec s g (Some res) (w_host w)) \<in> set new \<and>
      (wearer \<in> set (wearers_of s g) \<and> rt_get (fresh_wearer (Some res) wearer) (bd_runtime_key (gs_binding s)) \<noteq> [] \<longrightarrow>
        GApplyFirewall (rt_get (fresh_wearer (Some res) wearer) (bd_runtime_key (gs_binding s)))
          (binding_of (unfiltered_networks s (fresh_wearer (Some res) wearer))
            (specs_of s (Some res) (w_host w) (worn_ids s (fresh_wearer (Some res) wearer)))) \<in> set new))"
proof -
  have d: "rules.drives {} s" using assms(1) by (intro refusing_drives) (simp add: recorder_never_refuses)
  let ?m = "\<lambda>r. rules.machine_gestures {} s r (Some res) (w_host w)"
  let ?g = "\<lambda>g. rules.group_gestures {} s g (Some res) (w_host w)"
  let ?new = "?m res @ (case gs_referrers s of None \<Rightarrow> []
     | Some referrers \<Rightarrow> if worn_ids s res = [] then [] else concat (map ?g (referrers (set (worn_ids s res)))))"
  have ev: "events (after_boot s res w) = events w @ ?new"
    using rules.after_boot_journal [OF d assms(2), of res w] by (simp add: events_def)
  have sp: "spec \<in> {group_spec s g (Some res) (w_host w) |g. True}" if "spec \<in> set (specs_of s (Some res) (w_host w) ids)" for spec ids
    using that by (auto simp: specs_of_def List.map_filter_def)
  have m: "spec \<in> {group_spec s g (Some res) (w_host w) |g. True}" if "GEnsureFirewall spec \<in> set (?m r)" for spec r
    using that sp [of spec "worn_ids s r"] unfolding rules.machine_gestures_def Let_def
    by (auto split: if_splits dest: set_takeWhileD)
  have ma: "GApplyFirewall (rt_get r (bd_runtime_key (gs_binding s)))
      (binding_of (unfiltered_networks s r) (specs_of s (Some res) (w_host w) (worn_ids s r))) \<in> set (?m r)"
    if "rt_get r (bd_runtime_key (gs_binding s)) \<noteq> []" for r
    using that unfolding rules.machine_gestures_def Let_def by (simp add: list_ex_iff)
  have g: "spec \<in> {group_spec s g (Some res) (w_host w) |g. True}" if "GEnsureFirewall spec \<in> set (?g gr)" for spec gr
    using that m unfolding rules.group_gestures_def by (auto split: if_splits)
  have all: "{spec. GEnsureFirewall spec \<in> set ?new} \<subseteq> {group_spec s g (Some res) (w_host w) |g. True}"
    using m g by (auto split: option.splits if_splits)
  have own: "rt_get res (bd_runtime_key (gs_binding s)) \<noteq> [] \<longrightarrow>
      GApplyFirewall (rt_get res (bd_runtime_key (gs_binding s)))
        (binding_of (unfiltered_networks s res) (specs_of s (Some res) (w_host w) (worn_ids s res))) \<in> set ?new"
    using ma [of res] by auto
  have others: "GEnsureFirewall (group_spec s gr (Some res) (w_host w)) \<in> set ?new \<and>
      (wearer \<in> set (wearers_of s gr) \<and> rt_get (fresh_wearer (Some res) wearer) (bd_runtime_key (gs_binding s)) \<noteq> [] \<longrightarrow>
        GApplyFirewall (rt_get (fresh_wearer (Some res) wearer) (bd_runtime_key (gs_binding s)))
          (binding_of (unfiltered_networks s (fresh_wearer (Some res) wearer))
            (specs_of s (Some res) (w_host w) (worn_ids s (fresh_wearer (Some res) wearer)))) \<in> set ?new)"
    if r: "gs_referrers s = Some referrers" "worn_ids s res \<noteq> []" "gr \<in> set (referrers (set (worn_ids s res)))" for referrers gr wearer
  proof -
    have sub: "set (?g gr) \<subseteq> set ?new" using r by auto
    have "GEnsureFirewall (group_spec s gr (Some res) (w_host w)) \<in> set (?g gr)" unfolding rules.group_gestures_def by simp
    moreover have "set (?m (fresh_wearer (Some res) wearer)) \<subseteq> set (?g gr)" if "wearer \<in> set (wearers_of s gr)"
      using that unfolding rules.group_gestures_def by auto
    ultimately show ?thesis using sub ma [of "fresh_wearer (Some res) wearer"] by blast
  qed
  show ?thesis by (rule exI [of _ ?new]) (use ev all own others in blast)
qed

section \<open>Isolation by peering and by rejection\<close>

lemma isolation_pass_events:
  assumes "\<And>n xs. act n xs = recorded (g n xs)"
  shows "events (isolation_pass members act listed w) = events w @
    map (\<lambda>i. g (im_network (members ! i)) (listed i)) (filter (\<lambda>i. im_network (members ! i) \<noteq> []) [0 ..< length members])"
proof -
  have "events (fold (\<lambda>i w. if im_network (members ! i) = [] then w else fst (on_host (act (im_network (members ! i)) (listed i)) w)) is w) =
      events w @ map (\<lambda>i. g (im_network (members ! i)) (listed i)) (filter (\<lambda>i. im_network (members ! i) \<noteq> []) is)" for "is"
    by (induction "is" arbitrary: w) (simp_all add: assms)
  then show ?thesis by (simp add: isolation_pass_def)
qed

lemma reconcile_recorder:
  "reconcile_isolation (Some recorder_driver) members reachable w =
    (if rc_joined (w_host w)
     then (isolation_pass members (\<lambda>n fs. recorded (GIsolateNetwork n fs)) (foreign_of members reachable) w, False, True)
     else (isolation_pass members (\<lambda>n ps. recorded (GPeerNetworks n ps)) (peers_of members reachable) w, True, True))"
  by (simp add: reconcile_isolation_def native_peerer_def recorder_driver_def)

definition names_a_member :: "('a \<Rightarrow> string) \<Rightarrow> 'a list \<Rightarrow> bool" where
  "names_a_member f xs \<longleftrightarrow> (\<forall>a < length xs. \<forall>b < length xs. f (xs ! a) = f (xs ! b) \<and> f (xs ! a) \<noteq> [] \<longrightarrow> a = b)"

text \<open>
  C19. The two runtimes are told the same thing. Each member with a network gets one
  instruction of one kind: on a runtime whose networks are born apart the peers are the
  networks it may reach, on one whose networks are born joined the foreign blocks are
  those it may not. Of every other member with a network the first names the network
  exactly when it may be reached, of every other member with a block the second names
  the block exactly when it may not; a member without a network, or without a block, is
  left out of the one list or of the other, so of a managed member the two lists say the
  same. It asks that no two members share a network or a block.
\<close>

theorem isolation_agrees_with_peering:
  assumes "\<not> rc_joined (w_host ovn)" and "rc_joined (w_host bridge)"
    and "i < length ms" "im_network (ms ! i) \<noteq> []"
    and "names_a_member im_network ms" "names_a_member im_block ms"
  shows "\<exists>peered isolated peers foreign.
    events (fst (reconcile_isolation (Some recorder_driver) ms reachable ovn)) = events ovn @ peered \<and>
    events (fst (reconcile_isolation (Some recorder_driver) ms reachable bridge)) = events bridge @ isolated \<and>
    {ps. GPeerNetworks (im_network (ms ! i)) ps \<in> set peered} = {peers} \<and>
    {fs. GIsolateNetwork (im_network (ms ! i)) fs \<in> set isolated} = {foreign} \<and>
    [] \<notin> set peers \<and> [] \<notin> set foreign \<and>
    (\<forall>j < length ms. j \<noteq> i \<longrightarrow>
      (im_network (ms ! j) \<noteq> [] \<longrightarrow> (im_network (ms ! j) \<in> set peers) = reachable i j) \<and>
      (im_block (ms ! j) \<noteq> [] \<longrightarrow> (im_block (ms ! j) \<in> set foreign) = (\<not> reachable i j)))"
proof -
  let ?n = "filter (\<lambda>i. im_network (ms ! i) \<noteq> []) [0 ..< length ms]"
  let ?peered = "map (\<lambda>i. GPeerNetworks (im_network (ms ! i)) (peers_of ms reachable i)) ?n"
  let ?isolated = "map (\<lambda>i. GIsolateNetwork (im_network (ms ! i)) (foreign_of ms reachable i)) ?n"
  have net: "a = b" if "a < length ms" "b < length ms" "im_network (ms ! a) = im_network (ms ! b)" "im_network (ms ! a) \<noteq> []" for a b
    using assms(5) that by (auto simp: names_a_member_def)
  have blk: "a = b" if "a < length ms" "b < length ms" "im_block (ms ! a) = im_block (ms ! b)" "im_block (ms ! a) \<noteq> []" for a b
    using assms(6) that by (auto simp: names_a_member_def)
  have e: "events (fst (reconcile_isolation (Some recorder_driver) ms reachable ovn)) = events ovn @ ?peered"
    "events (fst (reconcile_isolation (Some recorder_driver) ms reachable bridge)) = events bridge @ ?isolated"
    using assms(1,2) isolation_pass_events [of "\<lambda>n ps. recorded (GPeerNetworks n ps)" GPeerNetworks ms "peers_of ms reachable" ovn]
      isolation_pass_events [of "\<lambda>n fs. recorded (GIsolateNetwork n fs)" GIsolateNetwork ms "foreign_of ms reachable" bridge]
    by (simp_all add: reconcile_recorder)
  have one: "{ps. GPeerNetworks (im_network (ms ! i)) ps \<in> set ?peered} = {peers_of ms reachable i}"
    "{fs. GIsolateNetwork (im_network (ms ! i)) fs \<in> set ?isolated} = {foreign_of ms reachable i}"
    using assms(3,4) net [of i] by auto
  have p: "(im_network (ms ! j) \<in> set (peers_of ms reachable i)) = reachable i j"
    if "j < length ms" "j \<noteq> i" "im_network (ms ! j) \<noteq> []" for j
    using that net [of j] by (auto simp: peers_of_def)
  have f: "(im_block (ms ! j) \<in> set (foreign_of ms reachable i)) = (\<not> reachable i j)"
    if "j < length ms" "j \<noteq> i" "im_block (ms ! j) \<noteq> []" for j
    using that blk [of j] by (auto simp: foreign_of_def)
  have "[] \<notin> set (peers_of ms reachable i)" "[] \<notin> set (foreign_of ms reachable i)"
    by (auto simp: peers_of_def foreign_of_def)
  note n = this
  show ?thesis
    by (rule exI [of _ ?peered], rule exI [of _ ?isolated], rule exI [of _ "peers_of ms reachable i"],
        rule exI [of _ "foreign_of ms reachable i"]) (intro conjI allI impI e one n p f; assumption)
qed

section \<open>Witnesses\<close>

definition sync0 :: "string set \<Rightarrow> recorder group_sync" where
  "sync0 names = \<lparr>gs_binding = binding0\<lparr>bd_driver := Some (refusing_driver names)\<rparr>,
     gs_spec_of = Some (\<lambda>g fresh. \<lparr>sname = rid g, sdefault_in = ''drop'', sdefault_out = ''allow'', srules = []\<rparr>),
     gs_foreign_blocks = None, gs_wearers = Some (\<lambda>g. []), gs_worn_ids = Some (\<lambda>r. [''a'', ''b'']),
     gs_group = Some (\<lambda>i. Some (res0\<lparr>rid := i\<rparr>)), gs_plan_of = None,
     gs_referrers = Some (\<lambda>named. []), gs_enforces_nothing = False\<rparr>"

lemma sync0_wired: "wired (sync0 names)" "bd_driver (gs_binding (sync0 names)) = Some (refusing_driver names)"
  by (simp_all add: wired_def sync0_def missing_fields_def required_fields_def enforcer_def refusing_driver_def)

lemma refused_set_witness:
  "events (apply_machine (sync0 {''b''}) (rt_set res0 ''machine'' ''feint-1'') (new_world new_recorder)) =
     [GEnsureFirewall \<lparr>sname = ''a'', sdefault_in = ''drop'', sdefault_out = ''allow'', srules = []\<rparr>]"
  using a_refused_set_attaches_nothing [OF sync0_wired(2) sync0_wired(1), of "{''b''}" "rt_set res0 ''machine'' ''feint-1''" "new_world new_recorder"]
  by (simp add: sync0_def worn_ids_def group_of_def group_spec_def pack_spec_def events_def new_world_def new_recorder_def)

lemma boot_witness:
  "GApplyFirewall ''feint-1'' \<lparr>bnames = [''a'', ''b''], bdefault_in = ''drop'', bdefault_out = ''allow'', bunfiltered = []\<rparr>
     \<in> set (events (after_boot (sync0 {}) (rt_set res0 ''machine'' ''feint-1'') (new_world new_recorder)))"
proof -
  have d: "bd_driver (gs_binding (sync0 {})) = Some recorder_driver" by (simp add: sync0_wired recorder_never_refuses)
  have m: "rt_get (rt_set res0 ''machine'' ''feint-1'') (bd_runtime_key (gs_binding (sync0 {}))) = ''feint-1''"
    by (simp add: sync0_def binding0_def)
  have b: "binding_of (unfiltered_networks (sync0 {}) (rt_set res0 ''machine'' ''feint-1''))
      (specs_of (sync0 {}) (Some (rt_set res0 ''machine'' ''feint-1'')) (w_host (new_world new_recorder))
        (worn_ids (sync0 {}) (rt_set res0 ''machine'' ''feint-1''))) =
      \<lparr>bnames = [''a'', ''b''], bdefault_in = ''drop'', bdefault_out = ''allow'', bunfiltered = []\<rparr>"
    by (simp add: sync0_def worn_ids_def group_of_def group_spec_def pack_spec_def unfiltered_networks_def binding_of_def
        enforces_nothing_def Let_def)
  from a_boot_reexpands_the_groups_that_name_it [OF d sync0_wired(1), of "rt_set res0 ''machine'' ''feint-1''" "new_world new_recorder"]
  show ?thesis unfolding m b by auto
qed

text \<open>The second may be reached, the third may not, the fourth may not and has no block.\<close>

definition members0 :: "isolation_member list" where
  "members0 =
     [\<lparr>im_id = ''1'', im_network = ''n1'', im_block = ''10.0.0.0/24''\<rparr>, \<lparr>im_id = ''2'', im_network = ''n2'', im_block = ''10.0.1.0/24''\<rparr>,
      \<lparr>im_id = ''3'', im_network = ''n3'', im_block = ''10.0.2.0/24''\<rparr>, \<lparr>im_id = ''4'', im_network = ''n4'', im_block = []\<rparr>]"

lemma isolation_witness:
  "\<exists>peered isolated peers foreign.
     events (fst (reconcile_isolation (Some recorder_driver) members0 (\<lambda>i j. j = 1) (new_world new_recorder))) = peered \<and>
     events (fst (reconcile_isolation (Some recorder_driver) members0 (\<lambda>i j. j = 1) (new_world (new_recorder\<lparr>rc_joined := True\<rparr>)))) = isolated \<and>
     GPeerNetworks ''n1'' peers \<in> set peered \<and> GIsolateNetwork ''n1'' foreign \<in> set isolated \<and>
     ''n2'' \<in> set peers \<and> ''10.0.1.0/24'' \<notin> set foreign \<and> ''n3'' \<notin> set peers \<and> ''10.0.2.0/24'' \<in> set foreign \<and>
     ''n4'' \<notin> set peers \<and> [] \<notin> set foreign"
proof -
  let ?ovn = "new_world new_recorder" and ?bridge = "new_world (new_recorder\<lparr>rc_joined := True\<rparr>)"
  have m: "names_a_member im_network members0" "names_a_member im_block members0"
    by (simp_all add: names_a_member_def members0_def All_less_Suc)
  have h: "\<not> rc_joined (w_host ?ovn)" "rc_joined (w_host ?bridge)" "0 < length members0" "im_network (members0 ! 0) \<noteq> []"
    by (simp_all add: new_world_def new_recorder_def members0_def)
  obtain peered isolated peers foreign where
    e: "events (fst (reconcile_isolation (Some recorder_driver) members0 (\<lambda>i j. j = 1) ?ovn)) = events ?ovn @ peered"
      "events (fst (reconcile_isolation (Some recorder_driver) members0 (\<lambda>i j. j = 1) ?bridge)) = events ?bridge @ isolated" and
    g: "{ps. GPeerNetworks (im_network (members0 ! 0)) ps \<in> set peered} = {peers}"
      "{fs. GIsolateNetwork (im_network (members0 ! 0)) fs \<in> set isolated} = {foreign}" and
    l: "[] \<notin> set foreign" and
    k: "\<forall>j < length members0. j \<noteq> 0 \<longrightarrow>
      (im_network (members0 ! j) \<noteq> [] \<longrightarrow> (im_network (members0 ! j) \<in> set peers) = (j = 1)) \<and>
      (im_block (members0 ! j) \<noteq> [] \<longrightarrow> (im_block (members0 ! j) \<in> set foreign) = (j \<noteq> 1))"
    using isolation_agrees_with_peering [OF h m, of "\<lambda>i j. j = 1"] by (elim exE conjE) rule
  have "events ?ovn = []" "events ?bridge = []" by (simp_all add: events_def new_world_def new_recorder_def)
  moreover have "GPeerNetworks ''n1'' peers \<in> set peered" "GIsolateNetwork ''n1'' foreign \<in> set isolated"
    using g by (auto simp: members0_def)
  moreover have "''n2'' \<in> set peers" "''10.0.1.0/24'' \<notin> set foreign" "''n3'' \<notin> set peers" "''10.0.2.0/24'' \<in> set foreign" "''n4'' \<notin> set peers"
    using spec [OF k, of 1] spec [OF k, of 2] spec [OF k, of 3] by (simp_all add: members0_def)
  ultimately show ?thesis using e l
    by (intro exI [of _ peered] exI [of _ isolated] exI [of _ peers] exI [of _ foreign]) simp
qed

end
