(* ===== verification/Reconcile.thy ===== *)
theory Reconcile
  imports GroupSync
begin

text \<open>
  The reconciler: \<open>internal/core/machine/plan.go\<close>, with the reading half of
  \<open>readback.go\<close>, the publishing of \<open>verdicts.go\<close> and the shape before a reboot of
  \<open>restart.go\<close>. An operation takes the resource and the world and answers both; the
  pack's functions are pure functions of the resource, which is what their
  comments ask of them.
\<close>

record 'h reconciler =
  rl_groups :: "'h group_sync"
  rl_plan_of :: "(resource \<Rightarrow> plan) option"
  rl_settle :: "(resource \<Rightarrow> resource) option"
  rl_public_block :: prefix

definition rl_binding :: "'h reconciler \<Rightarrow> 'h binding" where
  "rl_binding r = gs_binding (rl_groups r)"

definition declared_plan :: "'h reconciler \<Rightarrow> resource \<Rightarrow> plan option" where
  "declared_plan r res = (case rl_plan_of r of None \<Rightarrow> None | Some plan_of \<Rightarrow> Some (plan_of res))"

definition machine_name :: "'h reconciler \<Rightarrow> resource \<Rightarrow> string" where
  "machine_name r res = rt_get res (bd_runtime_key (rl_binding r))"

definition router_of :: "'h reconciler \<Rightarrow> 'h router option" where
  "router_of r = (case bd_driver (rl_binding r) of None \<Rightarrow> None | Some d \<Rightarrow> dr_router d)"

definition observer_of :: "'h reconciler \<Rightarrow> 'h observer_half option" where
  "observer_of r = (case bd_driver (rl_binding r) of None \<Rightarrow> None | Some d \<Rightarrow> dr_observer d)"

definition dialect_of :: "'h reconciler \<Rightarrow> dialect" where
  "dialect_of r = (case bd_driver (rl_binding r) of None \<Rightarrow> zero_dialect | Some d \<Rightarrow> option_or zero_dialect (dr_dialect d))"

definition consistent :: "'h reconciler \<Rightarrow> plan \<Rightarrow> bool" where
  "consistent r p = (case expect (rl_public_block r) p (dialect_of r) of Inl e \<Rightarrow> False | Inr cs \<Rightarrow> True)"

definition driver_capabilities :: "'h reconciler \<Rightarrow> 'h \<Rightarrow> capabilities" where
  "driver_capabilities r h =
     (case bd_driver (rl_binding r) of None \<Rightarrow> no_capabilities | Some d \<Rightarrow> capabilities_of d h)"

section \<open>The steps of the replay\<close>

definition route_planned :: "'h reconciler \<Rightarrow> resource \<Rightarrow> plan \<Rightarrow> string \<Rightarrow> 'h world \<Rightarrow> 'h world" where
  "route_planned r res p address w =
     (case router_of r of
        None \<Rightarrow> w
      | Some ro \<Rightarrow>
          (if machine_name r res = [] \<or> address = [] then w
           else if \<not> emulated (rl_public_block r) address then w
           else fst (route_address (bd_provider (rl_binding r)) (Some ro)
                  \<lparr>as_machine = machine_name r res, as_address = address, as_network = pl_route_via p\<rparr> w)))"

definition replay_publics :: "'h reconciler \<Rightarrow> resource \<Rightarrow> plan \<Rightarrow> 'h world \<Rightarrow> 'h world" where
  "replay_publics r res p w = fold (route_planned r res p) (pl_publics p) w"

definition attach_membership :: "'h reconciler \<Rightarrow> resource \<Rightarrow> attachment \<Rightarrow> 'h world \<Rightarrow> 'h world \<times> string option" where
  "attach_membership r res att w =
     (case bd_driver (rl_binding r) of
        None \<Rightarrow> (w, None)
      | Some d \<Rightarrow>
          (if machine_name r res = [] \<or> at_network att = [] then (w, None)
           else on_host (dr_attach d (machine_name r res) att) w))"

definition replay_egress :: "'h reconciler \<Rightarrow> resource \<Rightarrow> 'h world \<Rightarrow> 'h world" where
  "replay_egress r res w =
     (case (case bd_driver (rl_binding r) of None \<Rightarrow> None | Some d \<Rightarrow> dr_egress d) of
        None \<Rightarrow> w
      | Some er \<Rightarrow>
          (if machine_name r res = [] then w
           else
             (case declared_plan r res of
                None \<Rightarrow> w
              | Some p \<Rightarrow>
                  (if \<not> consistent r p then w
                   else if pl_egress p = [] \<and> \<not> pl_no_egress p then w
                   else if pl_egress p = [] then fst (on_host (er_drop er (machine_name r res)) w)
                   else fst (on_host (er_route er (machine_name r res) (pl_egress p)) w)))))"

definition replay :: "'h reconciler \<Rightarrow> resource \<Rightarrow> plan \<Rightarrow> 'h world \<Rightarrow> 'h world \<times> resource" where
  "replay r res p w =
     (let w1 = replay_publics r res p w;
          w2 = fold (\<lambda>m w. fst (attach_membership r res m w)) (pl_memberships p) w1;
          w3 = replay_egress r res w2;
          (w4, res1, changed) = rescan (rl_binding r) res w3;
          res2 = (case rl_settle r of None \<Rightarrow> res1 | Some settle \<Rightarrow> settle res1)
      in (after_boot (rl_groups r) res2 w4, res2))"

section \<open>Reading back\<close>

text \<open>The rule sets a resource's groups are claimed to be worn as, in name order, each once.\<close>

definition worn_names :: "'h reconciler \<Rightarrow> resource \<Rightarrow> 'h \<Rightarrow> string list" where
  "worn_names r res h =
     sort (fold (\<lambda>i names.
         (case group_of (rl_groups r) i of
            None \<Rightarrow> names
          | Some g \<Rightarrow>
              (let spec = group_spec (rl_groups r) g (Some res) h in
               if enforces_nothing spec \<or> sname spec \<in> set names then names else names @ [sname spec])))
       (worn_ids (rl_groups r) res) [])"

fun wears_on :: "bool \<Rightarrow> string list \<Rightarrow> string list \<Rightarrow> attachment list \<Rightarrow> string list \<Rightarrow> claim list" where
  "wears_on isolated unfiltered names [] seen = []"
| "wears_on isolated unfiltered names (att # atts) seen =
     (if at_network att = [] \<or> at_network att \<in> set seen then wears_on isolated unfiltered names atts seen
      else
        (if at_network att \<in> set unfiltered then (if isolated then [] else [Wears (at_network att) []])
         else [Wears (at_network att) names])
        @ wears_on isolated unfiltered names atts (seen @ [at_network att]))"

definition wears_claims :: "'h reconciler \<Rightarrow> resource \<Rightarrow> plan \<Rightarrow> 'h \<Rightarrow> claim list" where
  "wears_claims r res p h =
     (if \<not> wired (rl_groups r) \<or> enforcer (rl_groups r) = None then []
      else if \<not> cap_firewall (driver_capabilities r h) then []
      else
        (let names = worn_names r res h in
         if length names = 0 then []
         else wears_on (cap_isolation (driver_capabilities r h)) (unfiltered_networks (rl_groups r) res) names (attachments p) []))"

definition door_asked :: "claim \<Rightarrow> (addr \<times> addr) option" where
  "door_asked c = (case c of Door src dst via dev \<Rightarrow> Some (src, dst) | _ \<Rightarrow> None)"

text \<open>Each claim in turn; one that needs a door has it read into the shape first.\<close>

fun answer_claims :: "'h observer_half \<Rightarrow> string \<Rightarrow> claim list \<Rightarrow> shape \<Rightarrow> 'h world \<Rightarrow> 'h world \<times> verdict list" where
  "answer_claims ob name [] s w = (w, [])"
| "answer_claims ob name (c # cs) s w =
     (case door_asked c of
        None \<Rightarrow> (case answer_claims ob name cs s w of (w1, vs) \<Rightarrow> (w1, check_claim c s # vs))
      | Some (src, dst) \<Rightarrow>
          (case on_host (ob_door ob name src dst) w of
             (w1, Inl e) \<Rightarrow> (case answer_claims ob name cs s w1 of (w2, vs) \<Rightarrow> (w2, unreadable c e # vs))
           | (w1, Inr route) \<Rightarrow>
               (let s1 = s\<lparr>sh_doors := AList.update src route (sh_doors s)\<rparr> in
                case answer_claims ob name cs s1 w1 of (w2, vs) \<Rightarrow> (w2, check_claim c s1 # vs))))"

text \<open>\<open>None\<close> when nobody could look.\<close>

definition verify :: "'h reconciler \<Rightarrow> resource \<Rightarrow> claim list \<Rightarrow> 'h world \<Rightarrow> 'h world \<times> verdict list option" where
  "verify r res extra w =
     (case observer_of r of
        None \<Rightarrow> (w, None)
      | Some ob \<Rightarrow>
          (if machine_name r res = [] then (w, None)
           else
             (case declared_plan r res of
                None \<Rightarrow> (w, None)
              | Some p \<Rightarrow>
                  (case expect (rl_public_block r) p (dialect_of r) of
                     Inl e \<Rightarrow> (w, None)
                   | Inr cs0 \<Rightarrow>
                       (let cs = cs0 @ wears_claims r res p (w_host w) @ extra in
                        if length cs = 0 then (w, Some [])
                        else
                          (case on_host (ob_observe ob (machine_name r res)) w of
                             (w1, Inl e) \<Rightarrow> (w1, Some (map (\<lambda>c. unreadable c e) cs))
                           | (w1, Inr s) \<Rightarrow>
                               (case answer_claims ob (machine_name r res) cs s w1 of (w2, vs) \<Rightarrow> (w2, Some vs))))))))"

definition verified_key :: string where
  "verified_key = ''verified''"

definition count_verdicts :: "verdict list \<Rightarrow> bool \<Rightarrow> 'h world \<Rightarrow> 'h world" where
  "count_verdicts vs repaired w = w\<lparr>w_tally := map_option (tally_count vs repaired) (w_tally w)\<rparr>"

definition publish :: "resource \<Rightarrow> verdict list \<Rightarrow> verdict list \<Rightarrow> 'h world \<Rightarrow> 'h world \<times> resource" where
  "publish res vs repaired_from w =
     (if length vs = 0 then (w, res)
      else (count_verdicts vs (length repaired_from > 0) w, rt_set res verified_key (summary vs)))"

definition check_machine :: "'h reconciler \<Rightarrow> resource \<Rightarrow> claim list \<Rightarrow> 'h world \<Rightarrow> 'h world \<times> resource" where
  "check_machine r res extra w =
     (case verify r res extra w of
        (w1, None) \<Rightarrow> (w1, res)
      | (w1, Some vs) \<Rightarrow>
          (if \<not> any_broken vs then publish res vs [] w1
           else
             (case declared_plan r res of
                None \<Rightarrow> publish res vs [] w1
              | Some p \<Rightarrow>
                  (case replay r res p w1 of
                     (w2, res1) \<Rightarrow>
                       (case verify r res1 extra w2 of
                          (w3, answer) \<Rightarrow>
                            (let again = option_or [] answer in
                             if any_broken again then publish res1 again [] w3
                             else publish res1 again vs w3))))))"

section \<open>Powering on, rebooting\<close>

definition power_on_plan ::
  "(string \<Rightarrow> tnode list option) \<Rightarrow> 'h reconciler \<Rightarrow> resource \<Rightarrow> boot \<Rightarrow> claim list \<Rightarrow> 'h world \<Rightarrow> 'h world \<times> resource \<times> bool" where
  "power_on_plan templates r res boot extra w =
     (case declared_plan r res of
        None \<Rightarrow> (w, res, False)
      | Some p \<Rightarrow>
          (if \<not> consistent r p then (w, res\<lparr>rstate := bd_failed (rl_binding r)\<rparr>, False)
           else
             (case power_on templates (rl_binding r) res (boot\<lparr>bo_attachments := pl_boot p, bo_publics := pl_publics p\<rparr>) w of
                (w1, res1, False) \<Rightarrow> (w1, res1, False)
              | (w1, res1, True) \<Rightarrow>
                  (case replay r res1 p w1 of
                     (w2, res2) \<Rightarrow>
                       (case check_machine r res2 extra w2 of (w3, res3) \<Rightarrow> (w3, res3, True))))))"

definition observe_machine :: "'h reconciler \<Rightarrow> resource \<Rightarrow> 'h world \<Rightarrow> 'h world \<times> (string + shape option)" where
  "observe_machine r res w =
     (case observer_of r of
        None \<Rightarrow> (w, Inr None)
      | Some ob \<Rightarrow>
          (if machine_name r res = [] then (w, Inr None)
           else
             (case on_host (ob_observe ob (machine_name r res)) w of
                (w1, Inl e) \<Rightarrow> (w1, Inl e)
              | (w1, Inr s) \<Rightarrow> (w1, Inr (Some s)))))"

definition reboot ::
  "(string \<Rightarrow> tnode list option) \<Rightarrow> 'h reconciler \<Rightarrow> resource \<Rightarrow> boot \<Rightarrow> 'h world \<Rightarrow> 'h world \<times> resource \<times> bool" where
  "reboot templates r res boot w =
     (if rstate res = bd_running (rl_binding r) then
        (case observe_machine r res w of
           (w1, before) \<Rightarrow>
             (let extra = (case before of Inr (Some s) \<Rightarrow> restart_claims s | _ \<Rightarrow> []) in
              case power_off (rl_binding r) res w1 of
                (w2, res1) \<Rightarrow> power_on_plan templates r res1 boot extra w2))
      else power_on_plan templates r res boot [] w)"

section \<open>The hot doors\<close>

definition replay_addresses :: "'h reconciler \<Rightarrow> resource \<Rightarrow> 'h world \<Rightarrow> 'h world \<times> resource" where
  "replay_addresses r res w =
     (case declared_plan r res of
        None \<Rightarrow> (w, res)
      | Some p \<Rightarrow>
          (let w1 = replay_egress r res (replay_publics r res p w) in
           if rt_get res verified_key = [] \<or> has_prefix (rt_get res verified_key) ''unreadable''
           then check_machine r res [] w1 else (w1, res)))"

definition route_one :: "'h reconciler \<Rightarrow> resource \<Rightarrow> string \<Rightarrow> 'h world \<Rightarrow> 'h world \<times> resource" where
  "route_one r res address w =
     (case declared_plan r res of
        None \<Rightarrow> (w, res)
      | Some p \<Rightarrow> check_machine r res [] (route_planned r res p address w))"

definition unroute_one :: "'h reconciler \<Rightarrow> string \<Rightarrow> string \<Rightarrow> 'h world \<Rightarrow> 'h world" where
  "unroute_one r m address w =
     (case router_of r of
        None \<Rightarrow> w
      | Some ro \<Rightarrow>
          (if \<not> emulated (rl_public_block r) address then w
           else fst (unroute_address (bd_provider (rl_binding r)) (Some ro) m address w)))"

definition public_address_of :: "'h reconciler \<Rightarrow> resource \<Rightarrow> string" where
  "public_address_of r res = option_or [] (find (emulated (rl_public_block r)) (addresses_of (rl_binding r) res))"

definition private_address_of :: "'h reconciler \<Rightarrow> resource \<Rightarrow> string" where
  "private_address_of r res =
     option_or [] (find (\<lambda>a. \<not> emulated (rl_public_block r) a) (addresses_of (rl_binding r) res))"

definition join_network :: "'h reconciler \<Rightarrow> resource \<Rightarrow> attachment \<Rightarrow> 'h world \<Rightarrow> 'h world \<times> resource \<times> string option" where
  "join_network r res att w =
     (let (w1, e) = attach_membership r res att w;
          (w2, res1) = replay_addresses r res w1;
          w3 = after_boot (rl_groups r) res1 w2;
          (w4, res2) = check_machine r res1 [] w3
      in (w4, res2, e))"

definition leave_network :: "'h reconciler \<Rightarrow> resource \<Rightarrow> string \<Rightarrow> 'h world \<Rightarrow> 'h world" where
  "leave_network r res network w =
     (case bd_driver (rl_binding r) of
        None \<Rightarrow> w
      | Some d \<Rightarrow>
          (if machine_name r res = [] \<or> network = [] then w
           else fst (on_host (dr_detach d (machine_name r res) network) w)))"

section \<open>What the steps ask of a recording host\<close>

definition says :: "(gesture \<Rightarrow> bool) \<Rightarrow> recorder world \<Rightarrow> recorder world \<Rightarrow> bool" where
  "says P w w' \<longleftrightarrow> (\<exists>new. events w' = events w @ new \<and> list_all P new)"

lemma says_refl [simp]: "says P w w"
  by (simp add: says_def)

lemma says_trans: "says P w w1 \<Longrightarrow> says P w1 w2 \<Longrightarrow> says P w w2"
  by (auto simp: says_def)

lemma says_mono: "says P w w' \<Longrightarrow> (\<And>g. P g \<Longrightarrow> Q g) \<Longrightarrow> says Q w w'"
  by (auto simp: says_def list_all_iff)

lemma says_fold: "(\<And>x w. says P w (f x w)) \<Longrightarrow> says P w (fold f xs w)"
  by (induction xs arbitrary: w) (auto intro: says_trans)

definition is_routing :: "prefix \<Rightarrow> gesture \<Rightarrow> bool" where
  "is_routing block g =
     (case g of
        GRouteAddress spec \<Rightarrow> emulated block (as_address spec)
      | GUnrouteAddress m a \<Rightarrow> emulated block a
      | _ \<Rightarrow> False)"

definition is_rules :: "gesture \<Rightarrow> bool" where
  "is_rules g = (case g of GEnsureFirewall spec \<Rightarrow> True | GApplyFirewall m fb \<Rightarrow> True | _ \<Rightarrow> False)"

lemma gesture_classes [simp]:
  "is_routing block (GRouteAddress spec) = emulated block (as_address spec)"
  "is_routing block (GUnrouteAddress m a) = emulated block a"
  "is_rules (GEnsureFirewall fspec)" "is_rules (GApplyFirewall m fb)"
  by (simp_all add: is_routing_def is_rules_def)

definition up_or_down :: "gesture \<Rightarrow> bool" where
  "up_or_down g = (gesture_kind g = ''Start'' \<or> gesture_kind g = ''Stop'')"

lemma up_or_down_classes:
  "is_routing block g \<Longrightarrow> \<not> up_or_down g" "is_rules g \<Longrightarrow> \<not> up_or_down g"
  "up_or_down (GStart spec)" "\<not> up_or_down (GAttach m att)"
  by (cases g; simp add: is_routing_def is_rules_def up_or_down_def)+

lemma emulated_Nil [simp]: "\<not> emulated block []"
  by (simp add: emulated_def parse_addr_def)

locale recording =
  fixes r :: "recorder reconciler"
  assumes driver: "bd_driver (rl_binding r) = Some recorder_driver"
begin

lemma router_of [simp]: "router_of r = Some recorder_router"
  by (simp add: router_of_def driver)

lemma observer_of [simp]: "observer_of r = None"
  by (simp add: observer_of_def driver)

lemma check_machine [simp]: "check_machine r res extra w = (w, res)"
  by (simp add: check_machine_def verify_def)

lemma replay_egress [simp]: "replay_egress r res w = w"
  by (simp add: replay_egress_def driver)

lemma observe_machine [simp]: "observe_machine r res w = (w, Inr None)"
  by (simp add: observe_machine_def)

text \<open>Routing one planned address: taken back from its holder first, then routed.\<close>

lemma route_planned_events:
  "\<exists>back. events (route_planned r res p a w) = events w @
     (if machine_name r res = [] \<or> \<not> emulated (rl_public_block r) a then []
      else back @ [GRouteAddress \<lparr>as_machine = machine_name r res, as_address = a, as_network = pl_route_via p\<rparr>]) \<and>
     set back \<subseteq> {GUnrouteAddress m a |m. True}"
proof (cases "machine_name r res = [] \<or> \<not> emulated (rl_public_block r) a")
  case True
  then show ?thesis by (auto simp: route_planned_def intro: exI [of _ "[]"])
next
  case False
  then have a: "a \<noteq> []" by auto
  let ?k = "placement_key (bd_provider (rl_binding r)) a"
  show ?thesis
  proof (cases "taken_from w ?k (machine_name r res)")
    case None
    then show ?thesis using False a
      by (auto simp: route_planned_def route_address_def recorder_router_def events_def recorded_def intro: exI [of _ "[]"])
  next
    case (Some m)
    then show ?thesis using False a
      by (auto simp: route_planned_def route_address_def recorder_router_def events_def recorded_def on_host_def
          intro: exI [of _ "[GUnrouteAddress m a]"])
  qed
qed

lemma replay_publics_events:
  "\<exists>routes. events (replay_publics r res p w) = events w @ routes \<and> list_all (is_routing (rl_public_block r)) routes \<and>
     {spec. GRouteAddress spec \<in> set routes} =
       (if machine_name r res = [] then {}
        else {\<lparr>as_machine = machine_name r res, as_address = a, as_network = pl_route_via p\<rparr> |a.
                a \<in> set (pl_publics p) \<and> emulated (rl_public_block r) a})"
proof -
  have "\<exists>routes. events (fold (route_planned r res p) xs w) = events w @ routes \<and> list_all (is_routing (rl_public_block r)) routes \<and>
     {spec. GRouteAddress spec \<in> set routes} =
       (if machine_name r res = [] then {}
        else {\<lparr>as_machine = machine_name r res, as_address = a, as_network = pl_route_via p\<rparr> |a.
                a \<in> set xs \<and> emulated (rl_public_block r) a})" for xs
  proof (induction xs arbitrary: w)
    case (Cons x xs)
    obtain taken where b: "events (route_planned r res p x w) = events w @
       (if machine_name r res = [] \<or> \<not> emulated (rl_public_block r) x then []
        else taken @ [GRouteAddress \<lparr>as_machine = machine_name r res, as_address = x, as_network = pl_route_via p\<rparr>])"
      "set taken \<subseteq> {GUnrouteAddress m x |m. True}"
      using route_planned_events by blast
    obtain routes where ih: "events (fold (route_planned r res p) xs (route_planned r res p x w)) = events (route_planned r res p x w) @ routes"
      "list_all (is_routing (rl_public_block r)) routes"
      "{spec. GRouteAddress spec \<in> set routes} =
        (if machine_name r res = [] then {}
         else {\<lparr>as_machine = machine_name r res, as_address = a, as_network = pl_route_via p\<rparr> |a.
                a \<in> set xs \<and> emulated (rl_public_block r) a})"
      using Cons.IH by blast
    let ?own = "(if machine_name r res = [] \<or> \<not> emulated (rl_public_block r) x then []
        else taken @ [GRouteAddress \<lparr>as_machine = machine_name r res, as_address = x, as_network = pl_route_via p\<rparr>])"
    have l: "list_all (is_routing (rl_public_block r)) (?own @ routes)" using b(2) ih(2) by (auto simp: list_all_iff)
    have "GRouteAddress spec \<notin> set taken" for spec using b(2) by auto
    then have "{spec. GRouteAddress spec \<in> set (?own @ routes)} =
        {spec. GRouteAddress spec \<in> set routes} \<union> (if machine_name r res = [] \<or> \<not> emulated (rl_public_block r) x then {}
          else {\<lparr>as_machine = machine_name r res, as_address = x, as_network = pl_route_via p\<rparr>})"
      by auto
    then have "{spec. GRouteAddress spec \<in> set (?own @ routes)} =
        (if machine_name r res = [] then {}
         else {\<lparr>as_machine = machine_name r res, as_address = a, as_network = pl_route_via p\<rparr> |a.
                a \<in> set (x # xs) \<and> emulated (rl_public_block r) a})"
      unfolding ih(3) by auto
    then show ?case using b(1) ih(1) l by (intro exI [of _ "?own @ routes"]) simp
  qed simp
  then show ?thesis by (simp add: replay_publics_def)
qed

lemma attach_events:
  "events (fst (attach_membership r res att w)) = events w @
     (if machine_name r res = [] \<or> at_network att = [] then [] else [GAttach (machine_name r res) att])"
  by (simp add: attach_membership_def driver)

lemma memberships_events:
  "events (fold (\<lambda>m w. fst (attach_membership r res m w)) ms w) = events w @
     (if machine_name r res = [] then [] else map (GAttach (machine_name r res)) (filter (\<lambda>a. at_network a \<noteq> []) ms))"
  by (induction ms arbitrary: w) (simp_all add: attach_events)

lemma rescan_events: "events (fst (rescan (rl_binding r) res w)) = events w"
  using addresses_events [OF driver, of "rid res" "rt_get res (bd_runtime_key (rl_binding r))" w]
  by (auto simp: rescan_def Let_def split: prod.split option.split)

lemma after_boot_says: "says is_rules w (after_boot (rl_groups r) res w)"
proof (cases "wired (rl_groups r)")
  case True
  have d: "rules.drives {} (rl_groups r)"
    using driver by (intro refusing_drives) (simp add: recorder_never_refuses rl_binding_def)
  have m: "list_all is_rules (rules.machine_gestures {} (rl_groups r) res' fresh h)" for res' fresh h
    unfolding rules.machine_gestures_def Let_def by (auto simp: list_all_iff)
  have g: "list_all is_rules (rules.group_gestures {} (rl_groups r) gr fresh h)" for gr fresh h
    unfolding rules.group_gestures_def using m by (auto simp: list_all_iff)
  show ?thesis
    using rules.after_boot_journal [OF d True, of res w] m g unfolding says_def events_def
    by (auto simp: list_all_iff split: option.splits if_splits)
qed (simp add: after_boot_def)

lemma replay_events:
  "\<exists>routes rules. events (fst (replay r res p w)) = events w @ routes @
     (if machine_name r res = [] then [] else map (GAttach (machine_name r res)) (filter (\<lambda>a. at_network a \<noteq> []) (pl_memberships p))) @ rules \<and>
     list_all (is_routing (rl_public_block r)) routes \<and> list_all is_rules rules \<and>
     {spec. GRouteAddress spec \<in> set routes} =
       (if machine_name r res = [] then {}
        else {\<lparr>as_machine = machine_name r res, as_address = a, as_network = pl_route_via p\<rparr> |a.
                a \<in> set (pl_publics p) \<and> emulated (rl_public_block r) a})"
proof -
  let ?w1 = "replay_publics r res p w"
  let ?w2 = "fold (\<lambda>m w. fst (attach_membership r res m w)) (pl_memberships p) ?w1"
  obtain w4 res1 c where sc: "rescan (rl_binding r) res ?w2 = (w4, res1, c)" by (metis prod_cases3)
  let ?res2 = "case rl_settle r of None \<Rightarrow> res1 | Some settle \<Rightarrow> settle res1"
  have e4: "events w4 = events ?w2" using rescan_events [of res ?w2] sc by simp
  obtain rules where ru: "events (after_boot (rl_groups r) ?res2 w4) = events w4 @ rules" "list_all is_rules rules"
    using after_boot_says [of w4 ?res2] by (auto simp: says_def)
  have f: "fst (replay r res p w) = after_boot (rl_groups r) ?res2 w4" by (simp add: replay_def sc Let_def)
  obtain routes where ro: "events ?w1 = events w @ routes" "list_all (is_routing (rl_public_block r)) routes"
    "{spec. GRouteAddress spec \<in> set routes} =
       (if machine_name r res = [] then {}
        else {\<lparr>as_machine = machine_name r res, as_address = a, as_network = pl_route_via p\<rparr> |a.
                a \<in> set (pl_publics p) \<and> emulated (rl_public_block r) a})"
    using replay_publics_events by blast
  show ?thesis
    by (rule exI [of _ routes], rule exI [of _ rules])
      (use ro memberships_events [of res "pl_memberships p" ?w1] ru e4 f in simp)
qed

end

section \<open>A reconciler bound to the recorder\<close>

text \<open>The pack's reconciler, handed the recorder through the one door a driver goes through.\<close>

definition on_recorder :: "recorder reconciler \<Rightarrow> recorder reconciler" where
  "on_recorder r =
     r\<lparr>rl_groups := (rl_groups r)\<lparr>gs_binding := with_runtime (gs_binding (rl_groups r)) \<lparr>rn_driver = Some recorder_driver\<rparr>\<rparr>\<rparr>"

lemma on_recorder_simps [simp]:
  "bd_driver (rl_binding (on_recorder r)) = Some recorder_driver"
  "bd_prefix (rl_binding (on_recorder r)) = bd_prefix (rl_binding r)"
  "bd_runtime_key (rl_binding (on_recorder r)) = bd_runtime_key (rl_binding r)"
  "bd_address_key (rl_binding (on_recorder r)) = bd_address_key (rl_binding r)"
  "bd_running (rl_binding (on_recorder r)) = bd_running (rl_binding r)"
  "bd_failed (rl_binding (on_recorder r)) = bd_failed (rl_binding r)"
  "bd_provider (rl_binding (on_recorder r)) = bd_provider (rl_binding r)"
  "name_of (rl_binding (on_recorder r)) = name_of (rl_binding r)"
  "rl_public_block (on_recorder r) = rl_public_block r"
  "declared_plan (on_recorder r) = declared_plan r"
  "machine_name (on_recorder r) = machine_name r"
  by (auto simp: on_recorder_def rl_binding_def with_runtime_def declared_plan_def machine_name_def name_of_def fun_eq_iff)

interpretation rcd: recording "on_recorder r" for r
  by unfold_locales simp

text \<open>What a boot may leave in the journal, in order: the start, the routes, the memberships, the rules.\<close>

definition boot_journal :: "recorder reconciler \<Rightarrow> resource \<Rightarrow> plan \<Rightarrow> gesture list \<Rightarrow> bool" where
  "boot_journal r res p new \<longleftrightarrow> (\<exists>spec routes rules.
     new = GStart spec # routes @ map (GAttach (ms_name spec)) (filter (\<lambda>a. at_network a \<noteq> []) (pl_memberships p)) @ rules \<and>
     ms_name spec = name_of (rl_binding r) (rid res) \<and> ms_attachments spec = pl_boot p \<and> ms_publics spec = pl_publics p \<and>
     list_all (is_routing (rl_public_block r)) routes \<and> list_all is_rules rules \<and>
     {aspec. GRouteAddress aspec \<in> set routes} =
       {\<lparr>as_machine = ms_name spec, as_address = a, as_network = pl_route_via p\<rparr> |a.
          a \<in> set (pl_publics p) \<and> emulated (rl_public_block r) a})"

lemma power_on_plan_events:
  assumes on: "power_on_plan templates (on_recorder r) res boot extra w = (w', res', up)"
    and prefix: "bd_prefix (rl_binding r) \<noteq> []" and keys: "bd_runtime_key (rl_binding r) \<noteq> bd_address_key (rl_binding r)"
  shows "\<exists>new. events w' = events w @ new \<and>
    (if up then \<exists>p. declared_plan r res = Some p \<and> consistent (on_recorder r) p \<and> boot_journal r res p new else new = [])"
proof -
  let ?r = "on_recorder r"
  consider (undeclared) "declared_plan r res = None"
    | (refused) p where "declared_plan r res = Some p" "\<not> consistent ?r p"
    | (accepted) p where "declared_plan r res = Some p" "consistent ?r p"
    by (cases "declared_plan r res") auto
  then show ?thesis
  proof cases
    case undeclared
    then show ?thesis using on by (auto simp: power_on_plan_def)
  next
    case (refused p)
    then show ?thesis using on by (auto simp: power_on_plan_def)
  next
    case (accepted p)
    let ?boot = "boot\<lparr>bo_attachments := pl_boot p, bo_publics := pl_publics p\<rparr>"
    obtain w1 res1 ok where po: "power_on templates (rl_binding ?r) res ?boot w = (w1, res1, ok)" by (metis prod_cases3)
    note pr = power_on_recorder [OF _ _ _ po]
    show ?thesis
    proof (cases ok)
      case False
      then have "up = False" "w' = w1" using on po accepted by (simp_all add: power_on_plan_def)
      then show ?thesis using pr prefix keys False by simp
    next
      case True
      obtain w2 res2 where re: "replay ?r res1 p w1 = (w2, res2)" by fastforce
      have up: "up" "w' = w2" using on po accepted True re by (simp_all add: power_on_plan_def)
      obtain spec where sp: "events w1 = events w @ [GStart spec]" "ms_name spec = name_of (rl_binding r) (rid res)"
        "rt_get res1 (bd_runtime_key (rl_binding r)) = ms_name spec" "ms_attachments spec = pl_boot p" "ms_publics spec = pl_publics p"
        using pr prefix keys True by auto
      have m: "machine_name r res1 = ms_name spec" "ms_name spec \<noteq> []"
        using sp(2,3) prefix by (simp_all add: machine_name_def name_of_def)
      obtain routes rules where rr: "events w2 = events w1 @ routes @
          map (GAttach (ms_name spec)) (filter (\<lambda>a. at_network a \<noteq> []) (pl_memberships p)) @ rules"
        "list_all (is_routing (rl_public_block r)) routes" "list_all is_rules rules"
        "{aspec. GRouteAddress aspec \<in> set routes} =
           {\<lparr>as_machine = ms_name spec, as_address = a, as_network = pl_route_via p\<rparr> |a.
              a \<in> set (pl_publics p) \<and> emulated (rl_public_block r) a}"
        using rcd.replay_events [of r res1 p w1] re m by auto
      let ?new = "GStart spec # routes @ map (GAttach (ms_name spec)) (filter (\<lambda>a. at_network a \<noteq> []) (pl_memberships p)) @ rules"
      have "boot_journal r res p ?new" unfolding boot_journal_def using sp rr by blast
      moreover have "events w' = events w @ ?new" using sp(1) rr(1) up by simp
      ultimately show ?thesis using up accepted by auto
    qed
  qed
qed

text \<open>
  C16. On the recorder, a reboot of a running machine stops it, once, before anything else and starts
  it again, once; and of a machine that is not up asks for no stop. A reboot that
  does not succeed leaves a machine that was running stopped and not started.
\<close>

theorem a_reboot_stops_before_it_starts:
  assumes on: "reboot templates (on_recorder r) res boot w = (w', res', up)"
    and prefix: "bd_prefix (rl_binding r) \<noteq> []" and keys: "bd_runtime_key (rl_binding r) \<noteq> bd_address_key (rl_binding r)"
  shows "\<exists>new. events w' = events w @
      (if rstate res = bd_running (rl_binding r) \<and> machine_name r res \<noteq> []
       then [GStop (own_name (rl_binding r) (rid res) (machine_name r res))] else []) @ new \<and>
    filter up_or_down new = (if up then [hd new] else []) \<and>
    (up \<longrightarrow> gesture_kind (hd new) = ''Start'' \<and> machine_of (hd new) = Some (name_of (rl_binding r) (rid res)))"
proof -
  let ?r = "on_recorder r"
  let ?stop = "(if rstate res = bd_running (rl_binding r) \<and> machine_name r res \<noteq> []
       then [GStop (own_name (rl_binding r) (rid res) (machine_name r res))] else [])"
  have "\<exists>w1 res1 extra. power_on_plan templates ?r res1 boot extra w1 = (w', res', up) \<and> events w1 = events w @ ?stop \<and> rid res1 = rid res"
  proof (cases "rstate res = bd_running (rl_binding r)")
    case False
    then show ?thesis using on by (auto simp: reboot_def)
  next
    case True
    have n: "own_name (rl_binding ?r) = own_name (rl_binding r)" by (simp add: own_name_def fun_eq_iff)
    obtain w2 res1 where off: "power_off (rl_binding ?r) res w = (w2, res1)" by fastforce
    have "power_on_plan templates ?r res1 boot [] w2 = (w', res', up)" using on True off by (simp add: reboot_def)
    moreover have "events w2 = events w @ ?stop" "rid res1 = rid res"
      using off True keys by (auto simp: power_off_def stop_def Let_def n machine_name_def)
    ultimately show ?thesis by blast
  qed
  then obtain w1 res1 extra where p: "power_on_plan templates ?r res1 boot extra w1 = (w', res', up)" "events w1 = events w @ ?stop" "rid res1 = rid res"
    by blast
  obtain new where new: "events w' = events w1 @ new"
    "if up then \<exists>p. declared_plan r res1 = Some p \<and> consistent ?r p \<and> boot_journal r res1 p new else new = []"
    using power_on_plan_events [OF p(1) prefix keys] by blast
  have "filter up_or_down new = (if up then [hd new] else []) \<and>
    (up \<longrightarrow> gesture_kind (hd new) = ''Start'' \<and> machine_of (hd new) = Some (name_of (rl_binding r) (rid res)))"
  proof (cases up)
    case True
    then obtain p where "boot_journal r res1 p new" using new(2) by auto
    then obtain spec routes rules where j:
      "new = GStart spec # routes @ map (GAttach (ms_name spec)) (filter (\<lambda>a. at_network a \<noteq> []) (pl_memberships p)) @ rules"
      "ms_name spec = name_of (rl_binding r) (rid res1)"
      "list_all (is_routing (rl_public_block r)) routes" "list_all is_rules rules"
      by (auto simp: boot_journal_def)
    have "filter up_or_down routes = []"
      using j(3) up_or_down_classes(1) by (auto simp: filter_empty_conv list_all_iff)
    moreover have "filter up_or_down rules = []"
      using j(4) up_or_down_classes(2) by (auto simp: filter_empty_conv list_all_iff)
    ultimately show ?thesis using True j(1,2) p(3) by (simp add: filter_map o_def up_or_down_classes)
  qed (use new in simp)
  then show ?thesis using new(1) p(2) by auto
qed

section \<open>What no door lets through\<close>

text \<open>
  A pack that declares no plan starts nothing, and its resource keeps the state it
  had: the failed state is published for a plan that contradicts itself, not for one
  that is missing.
\<close>

theorem a_missing_plan_publishes_nothing:
  assumes "declared_plan r res = None"
  shows "power_on_plan templates r res boot extra w = (w, res, False)"
  by (simp add: power_on_plan_def assms)

text \<open>
  The addresses that ride the launch are the plan's, all of them: the check that an
  address is the emulator's own stands on the way of the routes alone.
\<close>

theorem launch_addresses_are_not_checked:
  assumes on: "power_on_plan templates (on_recorder r) res boot extra w = (w', res', True)"
    and "bd_prefix (rl_binding r) \<noteq> []" and "bd_runtime_key (rl_binding r) \<noteq> bd_address_key (rl_binding r)"
    and "declared_plan r res = Some p"
  shows "\<exists>spec. GStart spec \<in> set (events w') \<and> ms_publics spec = pl_publics p"
  using power_on_plan_events [OF assms(1-3)] assms(4) by (auto simp: boot_journal_def)

datatype reconciler_op =
    RPowerOn boot
  | RReboot boot
  | RReplayAddresses
  | RRoute string
  | RUnroute string string
  | RJoin attachment
  | RLeave string

fun run_reconciler_op ::
  "(string \<Rightarrow> tnode list option) \<Rightarrow> 'h reconciler \<Rightarrow> reconciler_op \<Rightarrow> resource \<Rightarrow> 'h world \<Rightarrow> 'h world" where
  "run_reconciler_op templates r (RPowerOn boot) res w = fst (power_on_plan templates r res boot [] w)"
| "run_reconciler_op templates r (RReboot boot) res w = fst (reboot templates r res boot w)"
| "run_reconciler_op templates r RReplayAddresses res w = fst (replay_addresses r res w)"
| "run_reconciler_op templates r (RRoute address) res w = fst (route_one r res address w)"
| "run_reconciler_op templates r (RUnroute m address) res w = unroute_one r m address w"
| "run_reconciler_op templates r (RJoin att) res w = fst (join_network r res att w)"
| "run_reconciler_op templates r (RLeave network) res w = leave_network r res network w"

text \<open>Gestures that route no address but the block's, and what is said of the others: nothing.\<close>

definition routes_inside :: "prefix \<Rightarrow> gesture \<Rightarrow> bool" where
  "routes_inside block g =
     (case g of
        GRouteAddress spec \<Rightarrow> emulated block (as_address spec)
      | GUnrouteAddress m a \<Rightarrow> emulated block a
      | _ \<Rightarrow> True)"

lemma routes_inside_classes:
  "is_routing block g \<Longrightarrow> routes_inside block g" "is_rules g \<Longrightarrow> routes_inside block g"
  "routes_inside block (GStart spec)" "routes_inside block (GStop m)" "routes_inside block (GAttach m att)" "routes_inside block (GDetach m n)"
  by (auto simp: is_routing_def is_rules_def routes_inside_def split: gesture.splits)

lemma routes_inside_steps:
  "says (routes_inside (rl_public_block r)) w (fst (replay (on_recorder r) res p w))"
  "says (routes_inside (rl_public_block r)) w (replay_publics (on_recorder r) res p w)"
  "says (routes_inside (rl_public_block r)) w (route_planned (on_recorder r) res p a w)"
  "says (routes_inside (rl_public_block r)) w (fst (attach_membership (on_recorder r) res att w))"
  "says (routes_inside (rl_public_block r)) w (after_boot (rl_groups (on_recorder r)) res w)"
proof -
  have l: "list_all (routes_inside (rl_public_block r)) xs" if "list_all (is_routing (rl_public_block r)) xs \<or> list_all is_rules xs" for xs
    using that routes_inside_classes by (auto simp: list_all_iff)
  have a: "list_all (routes_inside (rl_public_block r)) (if c then [] else map (GAttach m) xs)" for c m xs
    by (auto simp: list_all_iff routes_inside_classes)
  obtain routes rules where rr: "events (fst (replay (on_recorder r) res p w)) = events w @ routes @
     (if machine_name r res = [] then [] else map (GAttach (machine_name r res)) (filter (\<lambda>a. at_network a \<noteq> []) (pl_memberships p))) @ rules"
     "list_all (is_routing (rl_public_block r)) routes" "list_all is_rules rules"
    using rcd.replay_events [of r res p w, unfolded on_recorder_simps] by blast
  then show "says (routes_inside (rl_public_block r)) w (fst (replay (on_recorder r) res p w))"
    unfolding says_def
    by (intro exI [of _ "routes @ (if machine_name r res = [] then [] else map (GAttach (machine_name r res))
         (filter (\<lambda>a. at_network a \<noteq> []) (pl_memberships p))) @ rules"])
      (use l a in \<open>auto simp: routes_inside_classes list_all_iff\<close>)
  show "says (routes_inside (rl_public_block r)) w (replay_publics (on_recorder r) res p w)"
    using rcd.replay_publics_events [of r res p w] l unfolding says_def by fastforce
  show "says (routes_inside (rl_public_block r)) w (route_planned (on_recorder r) res p a w)"
    using rcd.route_planned_events [of r res p a w] unfolding says_def
    by (fastforce simp: list_all_iff routes_inside_def split: if_splits)
  show "says (routes_inside (rl_public_block r)) w (fst (attach_membership (on_recorder r) res att w))"
    using rcd.attach_events [of r res att w] unfolding says_def by (auto simp: routes_inside_classes)
  show "says (routes_inside (rl_public_block r)) w (after_boot (rl_groups (on_recorder r)) res w)"
    using rcd.after_boot_says [of w r res] by (rule says_mono) (rule routes_inside_classes)
qed

lemma power_on_events:
  assumes "bd_driver b = Some recorder_driver"
  shows "says (routes_inside block) w (fst (power_on templates b res boot w))"
  using start_events [OF assms, of templates "boot\<lparr>bo_id := rid res\<rparr>" w]
  by (auto simp: power_on_driver [OF assms] Let_def says_def routes_inside_classes split: prod.split)

lemma power_on_plan_inside:
  "says (routes_inside (rl_public_block r)) w (fst (power_on_plan templates (on_recorder r) res boot extra w))"
proof (cases "declared_plan r res")
  case (Some p)
  show ?thesis
  proof (cases "consistent (on_recorder r) p")
    case True
    let ?boot = "boot\<lparr>bo_attachments := pl_boot p, bo_publics := pl_publics p\<rparr>"
    obtain w1 res1 ok where po: "power_on templates (rl_binding (on_recorder r)) res ?boot w = (w1, res1, ok)" by (metis prod_cases3)
    then have s1: "says (routes_inside (rl_public_block r)) w w1"
      using power_on_events [of "rl_binding (on_recorder r)" "rl_public_block r" w templates res ?boot] by simp
    have s2: "says (routes_inside (rl_public_block r)) w1 (fst (replay (on_recorder r) res1 p w1))" by (rule routes_inside_steps)
    obtain w2 res2 where re: "replay (on_recorder r) res1 p w1 = (w2, res2)" by fastforce
    show ?thesis
      using Some True po s1 says_trans [OF s1 s2] re by (cases ok) (simp_all add: power_on_plan_def)
  qed (simp add: power_on_plan_def Some)
qed (simp add: power_on_plan_def)

lemma run_reconciler_op_inside:
  "says (routes_inside (rl_public_block r)) w (run_reconciler_op templates (on_recorder r) op res w)"
proof (cases op)
  case (RPowerOn boot)
  then show ?thesis using power_on_plan_inside by simp
next
  case (RReboot boot)
  show ?thesis
  proof (cases "rstate res = bd_running (rl_binding r)")
    case True
    obtain w2 res1 where off: "power_off (rl_binding (on_recorder r)) res w = (w2, res1)" by fastforce
    then have "says (routes_inside (rl_public_block r)) w w2"
      by (auto simp: power_off_def stop_def Let_def says_def routes_inside_classes split: if_splits)
    from says_trans [OF this power_on_plan_inside] show ?thesis using RReboot True off by (simp add: reboot_def)
  qed (simp add: RReboot reboot_def power_on_plan_inside)
next
  case RReplayAddresses
  then show ?thesis using routes_inside_steps(2) by (simp add: replay_addresses_def Let_def split: option.split)
next
  case (RRoute address)
  then show ?thesis using routes_inside_steps(3) by (simp add: route_one_def split: option.split)
next
  case (RUnroute m address)
  show ?thesis
  proof (cases "emulated (rl_public_block r) address")
    case True
    then have ne: "address \<noteq> []" by auto
    have u: "w_host (fst (unroute_address prov (Some recorder_router) m address w)) =
        record_gesture (GUnrouteAddress m address) (w_host w)" for prov
      unfolding unroute_address_simps(1) [OF ne] by (simp add: recorder_router_def)
    show ?thesis using RUnroute True by (simp add: unroute_one_def says_def events_def u routes_inside_def)
  qed (simp add: RUnroute unroute_one_def)
next
  case (RJoin att)
  obtain w1 e where at: "attach_membership (on_recorder r) res att w = (w1, e)" by fastforce
  obtain w2 res1 where ra: "replay_addresses (on_recorder r) res w1 = (w2, res1)" by fastforce
  have a: "says (routes_inside (rl_public_block r)) w w1" using routes_inside_steps(4) [of r w res att] at by simp
  have "says (routes_inside (rl_public_block r)) w1 (fst (replay_addresses (on_recorder r) res w1))"
    using routes_inside_steps(2) by (simp add: replay_addresses_def Let_def split: option.split)
  then have b: "says (routes_inside (rl_public_block r)) w1 w2" using ra by simp
  have c: "says (routes_inside (rl_public_block r)) w2 (after_boot (rl_groups (on_recorder r)) res1 w2)"
    by (rule routes_inside_steps)
  show ?thesis using says_trans [OF says_trans [OF a b] c] RJoin by (simp add: join_network_def at ra Let_def)
next
  case (RLeave network)
  then show ?thesis by (auto simp: leave_network_def says_def recorder_driver_def routes_inside_classes)
qed

text \<open>
  An address outside the pack's public block is neither routed nor taken back:
  whatever the resources hold, restored from anywhere, and whatever runs over them,
  boots, reboots, late addresses, hot attachments and detachments, every route and
  every unroute the runtime is asked for names an address of the block.
\<close>

theorem only_the_blocks_addresses_are_routed:
  "\<exists>new. events (fold (\<lambda>(op, res) w. run_reconciler_op templates (on_recorder r) op res w) ops w) = events w @ new \<and>
    {a. \<exists>spec. GRouteAddress spec \<in> set new \<and> a = as_address spec} \<union> {a. \<exists>m. GUnrouteAddress m a \<in> set new}
      \<subseteq> Collect (emulated (rl_public_block r))"
proof -
  have "says (routes_inside (rl_public_block r)) w (fold (\<lambda>(op, res) w. run_reconciler_op templates (on_recorder r) op res w) ops w)"
    by (rule says_fold) (auto intro: run_reconciler_op_inside)
  then obtain new where "events (fold (\<lambda>(op, res) w. run_reconciler_op templates (on_recorder r) op res w) ops w) = events w @ new"
    "list_all (routes_inside (rl_public_block r)) new" by (auto simp: says_def)
  then show ?thesis by (intro exI [of _ new]) (auto simp: list_all_iff routes_inside_def split: gesture.splits)
qed

section \<open>Verdicts\<close>

lemma tally_kept [simp]:
  "w_tally (place k m w) = w_tally w"
  "w_tally (fst (route_and_place k ro spec w)) = w_tally w"
  "w_tally (fst (addresses b i m w)) = w_tally w"
  by (auto simp: place_def route_and_place_def addresses_def on_host_def split: option.split prod.split sum.split)

lemma tally_unroute_then:
  "w_tally (fst (case on_host f w of (w1, Some e) \<Rightarrow> (w1, Some e) | (w1, None) \<Rightarrow> route_and_place k r spec w1)) = w_tally w"
  by (cases "f (w_host w)"; cases "snd (f (w_host w))") (simp_all add: on_host_def)

lemma tally_route [simp]: "w_tally (fst (route_address prov ro spec w)) = w_tally w"
  by (auto simp: route_address_def tally_unroute_then Let_def split: option.split)

lemma tally_rescan [simp]: "w_tally (fst (rescan b res w)) = w_tally w"
proof -
  obtain w1 x where a: "addresses b (rid res) (rt_get res (bd_runtime_key b)) w = (w1, x)" by fastforce
  then have "w_tally w1 = w_tally w" using tally_kept(3) by (metis fst_conv)
  then show ?thesis by (cases x) (simp_all add: rescan_def a Let_def)
qed

lemma tally_fold: "(\<And>x w. w_tally (f x w) = w_tally w) \<Longrightarrow> w_tally (fold f xs w) = w_tally w"
  by (induction xs arbitrary: w) simp_all

lemma tally_rules [simp]:
  "w_tally (fst (sync_rule_set fw spec w)) = w_tally w"
  "w_tally (apply_rule_sets fw m unfiltered specs w) = w_tally w"
  by (auto simp: sync_rule_set_def apply_rule_sets_def on_host_def split: option.split prod.split)

lemma tally_write_sets [simp]: "w_tally (fst (write_sets s fresh ids specs w)) = w_tally w"
proof (induction ids arbitrary: specs w)
  case (Cons i ids)
  show ?case
  proof (cases "group_of s i")
    case (Some g)
    obtain w1 ok where r: "sync_rule_set (enforcer s) (group_spec s g fresh (w_host w)) w = (w1, ok)" by fastforce
    then have "w_tally w1 = w_tally w" using tally_rules(1) by (metis fst_conv)
    then show ?thesis using Some r Cons.IH by (cases ok) (simp_all add: Let_def)
  qed (simp add: Cons.IH)
qed simp

lemma tally_apply [simp]: "w_tally (apply_to_machine s res fresh w) = w_tally w"
proof -
  obtain w1 q where ws: "write_sets s (case fresh of None \<Rightarrow> Some res | Some f \<Rightarrow> Some f) (worn_ids s res) [] w = (w1, q)" by fastforce
  then have "w_tally w1 = w_tally w" using tally_write_sets by (metis fst_conv)
  then show ?thesis by (cases q) (simp_all add: apply_to_machine_def Let_def ws)
qed

lemma tally_sync_group [simp]: "w_tally (sync_group s g fresh w) = w_tally w"
proof -
  obtain w1 ok where r: "sync_rule_set (enforcer s) (group_spec s g fresh (w_host w)) w = (w1, ok)" by fastforce
  then have "w_tally w1 = w_tally w" using tally_rules(1) by (metis fst_conv)
  then show ?thesis by (cases ok) (simp_all add: sync_group_def r tally_fold)
qed

lemma tally_after_boot [simp]: "w_tally (after_boot s res w) = w_tally w"
  by (simp add: after_boot_def sync_referrers_def tally_fold split: option.split)

lemma tally_replay [simp]: "w_tally (fst (replay r res p w)) = w_tally w"
proof -
  have a: "w_tally (replay_publics r res p w) = w_tally w" for w
    unfolding replay_publics_def by (rule tally_fold) (simp add: route_planned_def split: option.split)
  have b: "w_tally (fst (attach_membership r res att w)) = w_tally w" for att w
    by (simp add: attach_membership_def split: option.split)
  have c: "w_tally (replay_egress r res w) = w_tally w" for w
    by (simp add: replay_egress_def split: option.split)
  let ?w3 = "replay_egress r res (fold (\<lambda>m w. fst (attach_membership r res m w)) (pl_memberships p) (replay_publics r res p w))"
  obtain w4 res1 ch where sc: "rescan (rl_binding r) res ?w3 = (w4, res1, ch)" by (metis prod_cases3)
  then have "w_tally w4 = w_tally ?w3" using tally_rescan by (metis fst_conv)
  then have "w_tally w4 = w_tally w" by (simp add: a b c tally_fold)
  then show ?thesis by (simp add: replay_def sc Let_def)
qed

lemma tally_answer_claims [simp]: "w_tally (fst (answer_claims ob name cs s w)) = w_tally w"
proof (induction cs arbitrary: s w)
  case (Cons c cs)
  have oh: "w_tally w1 = w_tally w" if "on_host f w = (w1, x)" for f w1 and x :: "string + route" and w :: "'a world"
    using on_host_simps(3) [of f w] that by simp
  show ?case
  proof (cases "door_asked c")
    case None
    then show ?thesis using Cons.IH [of s w] by (simp split: prod.split) (metis fst_conv)
  next
    case (Some d)
    obtain src dst where d: "d = (src, dst)" by fastforce
    obtain w1 q where q: "on_host (ob_door ob name src dst) w = (w1, q)" by fastforce
    show ?thesis
      using Cons.IH [of _ w1] oh [OF q] Some d q by (cases q) (auto simp: Let_def split: prod.split, (metis fst_conv)+)
  qed
qed simp

lemma tally_verify [simp]: "w_tally (fst (verify r res extra w)) = w_tally w"
proof (cases "observer_of r")
  case (Some ob)
  obtain w1 q where q: "on_host (ob_observe ob (machine_name r res)) w = (w1, q)" by fastforce
  then have w1: "w_tally w1 = w_tally w" using on_host_simps(3) [of "ob_observe ob (machine_name r res)" w] by simp
  have "w_tally w2 = w_tally w" if "answer_claims ob n cs s w1 = (w2, vs)" for n cs s w2 vs
    using tally_answer_claims [of ob n cs s w1] that w1 by simp
  then show ?thesis using Some w1
    by (auto simp: verify_def q Let_def split: option.split sum.split prod.split)
qed (simp add: verify_def)

definition tally_one :: "verdict \<Rightarrow> verification \<Rightarrow> verification" where
  "tally_one v t = (case v_outcome v of Held \<Rightarrow> t\<lparr>vf_held := vf_held t + 1\<rparr>
     | Broken \<Rightarrow> t\<lparr>vf_broken := vf_broken t + 1\<rparr> | Unreadable \<Rightarrow> t\<lparr>vf_unreadable := vf_unreadable t + 1\<rparr>)"

lemma tally_fold_one:
  "vf_repaired (fold tally_one vs t) = vf_repaired t"
  "vf_broken (fold tally_one vs t) = vf_broken t + length (filter (\<lambda>v. v_outcome v = Broken) vs)"
  by (induction vs arbitrary: t) (auto simp: tally_one_def split: outcome.split)

lemma tally_count_simps [simp]:
  "vf_repaired (tally_count vs rep t) = vf_repaired t + of_bool rep"
  "vf_broken (tally_count vs rep t) = vf_broken t + length (filter (\<lambda>v. v_outcome v = Broken) vs)"
  "tally_count [] False t = t"
  using tally_fold_one [of vs t]
  by (simp_all add: tally_count_def Let_def tally_one_def [abs_def])

section \<open>Witnesses\<close>

definition plan1 :: plan where
  "plan1 = \<lparr>pl_boot = [], pl_memberships = [nic], pl_publics = [''203.0.113.2''], pl_route_via = [], pl_egress = [], pl_no_egress = False\<rparr>"

definition reconciler0 :: "recorder reconciler" where
  "reconciler0 = \<lparr>rl_groups = sync0 {}, rl_plan_of = Some (\<lambda>res. plan1), rl_settle = None,
     rl_public_block = Prefix (V4 0xCB007100) 24\<rparr>"

lemma reconciler0_binding: "rl_binding reconciler0 = binding0\<lparr>bd_driver := Some (refusing_driver {})\<rparr>"
  by (simp add: reconciler0_def rl_binding_def sync0_def)

lemma prefix0: "bd_prefix (rl_binding reconciler0) \<noteq> []" "bd_runtime_key (rl_binding reconciler0) \<noteq> bd_address_key (rl_binding reconciler0)"
  by (simp_all add: reconciler0_binding binding0_def)

lemma reboot_witness:
  "\<exists>w' res' up new. reboot tpl0 (on_recorder reconciler0) ((rt_set res0 ''machine'' ''feint-1'')\<lparr>rstate := ''running''\<rparr>) boot0 (new_world new_recorder)
       = (w', res', up) \<and> events w' = GStop ''feint-1'' # new"
proof -
  let ?res = "(rt_set res0 ''machine'' ''feint-1'')\<lparr>rstate := ''running''\<rparr>"
  obtain w' res' up where p: "reboot tpl0 (on_recorder reconciler0) ?res boot0 (new_world new_recorder) = (w', res', up)" by (metis prod_cases3)
  have n: "rstate ?res = bd_running (rl_binding reconciler0)" "machine_name reconciler0 ?res = ''feint-1''"
    "own_name (rl_binding reconciler0) (rid ?res) ''feint-1'' = ''feint-1''"
    by (simp_all add: reconciler0_binding binding0_def machine_name_def own_name_def)
  obtain new where "events w' = events (new_world new_recorder) @
      (if rstate ?res = bd_running (rl_binding reconciler0) \<and> machine_name reconciler0 ?res \<noteq> []
       then [GStop (own_name (rl_binding reconciler0) (rid ?res) (machine_name reconciler0 ?res))] else []) @ new"
    using a_reboot_stops_before_it_starts [OF p prefix0] by blast
  then have "events w' = GStop ''feint-1'' # new" unfolding n by (simp add: events_def new_world_def new_recorder_def)
  with p show ?thesis by blast
qed

end
