(* ===== verification/CallBook.thy ===== *)
theory CallBook
  imports Reconcile
begin

text \<open>
  What the reconciler of \<open>internal/core/machine/plan.go\<close> asks of a driver, whichever
  driver it is: one that refuses to start, one that lays egress routes, one that can be
  read. Any driver is put behind a book that writes down each call that acts, with the
  driver's answer, and each reading of a machine's shape; \<open>Inspect\<close>, the image list and
  the capabilities are questions and are not written, as the table of the contract says.
  The laws say what stands in the book after a boot and after a check.
\<close>

section \<open>A driver behind a book\<close>

datatype call =
    CStart machine_spec "string option"
  | CStop string "string option"
  | CRemove string "string option"
  | CEnsureNetwork network_spec "string option"
  | CAttach string attachment "string option"
  | CDetach string string "string option"
  | CRemoveNetwork string "string option"
  | CRoute address_spec "string option"
  | CUnroute string string "string option"
  | CEgress string string "string option"
  | CNoEgress string "string option"
  | CEnsureFirewall fw_spec "string option"
  | CApplyFirewall string fw_binding "string option"
  | CRemoveFirewall string "string option"
  | CPeer string "string list" "string option"
  | CIsolate string "string list" "string option"
  | CBuild image_spec "string option"
  | CObserve string "string + shape"
  | CDoor string addr addr "string + route"

record 'h audited =
  au_host :: 'h
  au_book :: "call list"

definition booked :: "('a \<Rightarrow> call) \<Rightarrow> ('h \<Rightarrow> 'h \<times> 'a) \<Rightarrow> 'h audited \<Rightarrow> 'h audited \<times> 'a" where
  "booked c f h = (case f (au_host h) of (h1, x) \<Rightarrow> (\<lparr>au_host = h1, au_book = au_book h @ [c x]\<rparr>, x))"

definition unbooked :: "('h \<Rightarrow> 'h \<times> 'a) \<Rightarrow> 'h audited \<Rightarrow> 'h audited \<times> 'a" where
  "unbooked f h = (case f (au_host h) of (h1, x) \<Rightarrow> (h\<lparr>au_host := h1\<rparr>, x))"

definition refusal :: "string + 'a \<Rightarrow> string option" where
  "refusal x = (case x of Inl e \<Rightarrow> Some e | Inr y \<Rightarrow> None)"

definition audited :: "'h driver \<Rightarrow> 'h audited driver" where
  "audited d =
     \<lparr>dr_noop = dr_noop d,
      dr_start = (\<lambda>spec. booked (\<lambda>x. CStart spec (refusal x)) (dr_start d spec)),
      dr_stop = (\<lambda>m. booked (CStop m) (dr_stop d m)),
      dr_remove = (\<lambda>m. booked (CRemove m) (dr_remove d m)),
      dr_inspect = (\<lambda>m. unbooked (dr_inspect d m)),
      dr_ensure_network = (\<lambda>spec. booked (CEnsureNetwork spec) (dr_ensure_network d spec)),
      dr_attach = (\<lambda>m att. booked (CAttach m att) (dr_attach d m att)),
      dr_detach = (\<lambda>m n. booked (CDetach m n) (dr_detach d m n)),
      dr_remove_network = (\<lambda>n. booked (CRemoveNetwork n) (dr_remove_network d n)),
      dr_router = map_option (\<lambda>ro. \<lparr>ro_route = (\<lambda>spec. booked (CRoute spec) (ro_route ro spec)),
                                    ro_unroute = (\<lambda>m a. booked (CUnroute m a) (ro_unroute ro m a))\<rparr>) (dr_router d),
      dr_egress = map_option (\<lambda>er. \<lparr>er_route = (\<lambda>m n. booked (CEgress m n) (er_route er m n)),
                                    er_drop = (\<lambda>m. booked (CNoEgress m) (er_drop er m))\<rparr>) (dr_egress d),
      dr_firewaller = map_option (\<lambda>fw. \<lparr>fw_ensure = (\<lambda>spec. booked (CEnsureFirewall spec) (fw_ensure fw spec)),
                                        fw_apply = (\<lambda>m fb. booked (CApplyFirewall m fb) (fw_apply fw m fb)),
                                        fw_remove = (\<lambda>n. booked (CRemoveFirewall n) (fw_remove fw n))\<rparr>) (dr_firewaller d),
      dr_peerer = map_option (\<lambda>pe. \<lparr>pe_native = (\<lambda>h. pe_native pe (au_host h)),
                                    pe_peer = (\<lambda>n ps. booked (CPeer n ps) (pe_peer pe n ps))\<rparr>) (dr_peerer d),
      dr_isolator = map_option (\<lambda>isolate n fs. booked (CIsolate n fs) (isolate n fs)) (dr_isolator d),
      dr_observer = map_option (\<lambda>ob. \<lparr>ob_observe = (\<lambda>m. booked (CObserve m) (ob_observe ob m)),
                                      ob_door = (\<lambda>m src dst. booked (CDoor m src dst) (ob_door ob m src dst))\<rparr>) (dr_observer d),
      dr_lister = map_option unbooked (dr_lister d),
      dr_builder = map_option (\<lambda>build spec. booked (CBuild spec) (build spec)) (dr_builder d),
      dr_dialect = dr_dialect d,
      dr_capabilities = map_option (\<lambda>caps h. caps (au_host h)) (dr_capabilities d)\<rparr>"

definition calls :: "'h audited world \<Rightarrow> call list" where
  "calls w = au_book (w_host w)"

lemma booked_calls [simp]:
  "calls (fst (on_host (booked c f) w)) = calls w @ [c (snd (on_host (booked c f) w))]"
  "calls (fst (on_host (unbooked f) w)) = calls w"
  by (simp_all add: calls_def on_host_def booked_def unbooked_def split: prod.split)

lemma booked_runs:
  "on_host (booked c f) w = (w1, x) \<Longrightarrow> calls w1 = calls w @ [c x]"
  "on_host (unbooked f) w = (w1, x) \<Longrightarrow> calls w1 = calls w"
  using booked_calls(1) [of c f w] booked_calls(2) [of f w] by simp_all

lemma calls_place [simp]: "calls (place k m w) = calls w"
  by (simp add: calls_def)

text \<open>The pack's reconciler, handed an audited driver.\<close>

definition on_audited :: "'h driver \<Rightarrow> 'h audited reconciler \<Rightarrow> 'h audited reconciler" where
  "on_audited d r =
     r\<lparr>rl_groups := (rl_groups r)\<lparr>gs_binding := with_runtime (gs_binding (rl_groups r)) \<lparr>rn_driver = Some (audited d)\<rparr>\<rparr>\<rparr>"

lemma on_audited_simps [simp]:
  "bd_driver (rl_binding (on_audited d r)) = Some (audited d)"
  "bd_prefix (rl_binding (on_audited d r)) = bd_prefix (rl_binding r)"
  "bd_runtime_key (rl_binding (on_audited d r)) = bd_runtime_key (rl_binding r)"
  "bd_address_key (rl_binding (on_audited d r)) = bd_address_key (rl_binding r)"
  "name_of (rl_binding (on_audited d r)) = name_of (rl_binding r)"
  "rl_public_block (on_audited d r) = rl_public_block r"
  "rl_settle (on_audited d r) = rl_settle r"
  "declared_plan (on_audited d r) = declared_plan r"
  "machine_name (on_audited d r) = machine_name r"
  by (auto simp: on_audited_def rl_binding_def with_runtime_def declared_plan_def machine_name_def name_of_def fun_eq_iff)

section \<open>What a replay writes\<close>

text \<open>
  One promised address: nothing for one that is not the emulator's or a driver that
  routes none; otherwise the route, after its taking back when another machine has it,
  and no route when that was refused.
\<close>

definition routes_one :: "'h driver \<Rightarrow> prefix \<Rightarrow> string \<Rightarrow> string \<Rightarrow> string \<Rightarrow> call list \<Rightarrow> bool" where
  "routes_one d block m via a cs \<longleftrightarrow>
     (let spec = \<lparr>as_machine = m, as_address = a, as_network = via\<rparr> in
      if dr_router d = None \<or> m = [] \<or> \<not> emulated block a then cs = []
      else (\<exists>x. cs = [CRoute spec x]) \<or>
        (\<exists>holder. holder \<noteq> [] \<and> holder \<noteq> m \<and> ((\<exists>e. cs = [CUnroute holder a (Some e)]) \<or> (\<exists>x. cs = [CUnroute holder a None, CRoute spec x]))))"

definition routes_all :: "'h driver \<Rightarrow> prefix \<Rightarrow> string \<Rightarrow> plan \<Rightarrow> call list \<Rightarrow> bool" where
  "routes_all d block m p cs \<longleftrightarrow>
     (\<exists>css. cs = concat css \<and> list_all2 (routes_one d block m (pl_route_via p)) (pl_publics p) css)"

definition joins_all :: "string \<Rightarrow> plan \<Rightarrow> call list \<Rightarrow> bool" where
  "joins_all m p cs \<longleftrightarrow>
     list_all2 (\<lambda>att c. \<exists>x. c = CAttach m att x) (if m = [] then [] else filter (\<lambda>att. at_network att \<noteq> []) (pl_memberships p)) cs"

text \<open>The way out the plan declares, when the driver lays any and the plan does not contradict itself.\<close>

definition egress_one :: "'h driver \<Rightarrow> 'h audited reconciler \<Rightarrow> resource \<Rightarrow> call list \<Rightarrow> bool" where
  "egress_one d r res cs \<longleftrightarrow>
     (case declared_plan r res of
        None \<Rightarrow> cs = []
      | Some p \<Rightarrow>
          (if dr_egress d = None \<or> machine_name r res = [] \<or> \<not> consistent (on_audited d r) p then cs = []
           else if pl_egress p \<noteq> [] then \<exists>x. cs = [CEgress (machine_name r res) (pl_egress p) x]
           else if pl_no_egress p then \<exists>x. cs = [CNoEgress (machine_name r res) x]
           else cs = []))"

definition rule_call :: "call \<Rightarrow> bool" where
  "rule_call c = (case c of CEnsureFirewall spec x \<Rightarrow> True | CApplyFirewall m fb x \<Rightarrow> True | _ \<Rightarrow> False)"

definition replayed :: "'h driver \<Rightarrow> 'h audited reconciler \<Rightarrow> resource \<Rightarrow> plan \<Rightarrow> call list \<Rightarrow> bool" where
  "replayed d r res p cs \<longleftrightarrow>
     (\<exists>routes joins egress rules. cs = routes @ joins @ egress @ rules \<and>
        routes_all d (rl_public_block r) (machine_name r res) p routes \<and> joins_all (machine_name r res) p joins \<and>
        egress_one d r res egress \<and> list_all rule_call rules)"

text \<open>Adding to the book, and nothing but what \<open>P\<close> allows.\<close>

definition books :: "(call list \<Rightarrow> bool) \<Rightarrow> 'h audited world \<Rightarrow> 'h audited world \<Rightarrow> bool" where
  "books P w w' \<longleftrightarrow> (\<exists>new. calls w' = calls w @ new \<and> P new)"

lemma books_same: "calls w' = calls w \<Longrightarrow> P [] \<Longrightarrow> books P w w'"
  by (simp add: books_def)

lemma books_one: "calls w' = calls w @ [c] \<Longrightarrow> P [c] \<Longrightarrow> books P w w'"
  by (simp add: books_def)

lemma books_append: "books P w w1 \<Longrightarrow> books Q w1 w2 \<Longrightarrow> books (\<lambda>cs. \<exists>xs ys. cs = xs @ ys \<and> P xs \<and> Q ys) w w2"
  unfolding books_def by (metis append.assoc)

lemma books_mono: "books P w w' \<Longrightarrow> (\<And>cs. P cs \<Longrightarrow> Q cs) \<Longrightarrow> books Q w w'"
  by (auto simp: books_def)

lemma books_rules_trans: "books (list_all R) w w1 \<Longrightarrow> books (list_all R) w1 w2 \<Longrightarrow> books (list_all R) w w2"
  by (auto simp: books_def)

lemma books_rules_refl [simp]: "books (list_all R) w w"
  by (rule books_same) simp_all

lemma books_fold: "(\<And>x w. books (list_all R) w (f x w)) \<Longrightarrow> books (list_all R) w (fold f xs w)"
  by (induction xs arbitrary: w) (auto intro: books_rules_trans)

lemma books_each:
  assumes "\<And>x w. books (P x) w (f x w)"
  shows "books (\<lambda>cs. \<exists>css. cs = concat css \<and> list_all2 P xs css) w (fold f xs w)"
proof (induction xs arbitrary: w)
  case (Cons x xs)
  obtain a where a: "calls (f x w) = calls w @ a" "P x a" using assms by (auto simp: books_def)
  obtain css where "calls (fold f xs (f x w)) = calls (f x w) @ concat css" "list_all2 P xs css"
    using Cons.IH [of "f x w"] by (auto simp: books_def)
  with a have "calls (fold f (x # xs) w) = calls w @ concat (a # css)" "list_all2 P (x # xs) (a # css)" by simp_all
  then show ?case unfolding books_def by blast
qed (simp add: books_def)

section \<open>What a reading writes\<close>

text \<open>
  One claim of a reading: judged on the shape that was read, or, for one that needs a
  door, on the answer that door was given; never on another reading's.
\<close>

definition judged :: "string \<Rightarrow> shape \<Rightarrow> claim \<Rightarrow> call list \<times> verdict \<Rightarrow> bool" where
  "judged m s c told \<longleftrightarrow>
     (case door_asked c of
        None \<Rightarrow> told = ([], check_claim c s)
      | Some (src, dst) \<Rightarrow>
          (\<exists>x. told = ([CDoor m src dst x],
             case x of Inl e \<Rightarrow> unreadable c e | Inr route \<Rightarrow> check_claim c (s\<lparr>sh_doors := [(src, route)]\<rparr>))))"

text \<open>
  A whole reading of a machine, as the book has it, and the verdicts it gives the claims
  it was made for. A machine that could not be read makes each of them unreadable.
\<close>

definition read_once :: "string \<Rightarrow> claim list \<Rightarrow> verdict list \<Rightarrow> call list \<Rightarrow> bool" where
  "read_once m cs vs page \<longleftrightarrow>
     (\<exists>e. page = [CObserve m (Inl e)] \<and> vs = map (\<lambda>c. unreadable c e) cs) \<or>
     (\<exists>s told. page = CObserve m (Inr s) # concat (map fst told) \<and> vs = map snd told \<and> list_all2 (judged m s) cs told)"

text \<open>The claims a machine is read for: its plan's, its groups', and the ones the caller adds.\<close>

definition claimed :: "'h reconciler \<Rightarrow> resource \<Rightarrow> claim list \<Rightarrow> 'h \<Rightarrow> claim list \<Rightarrow> bool" where
  "claimed r res extra h cs \<longleftrightarrow>
     (\<exists>p own. declared_plan r res = Some p \<and> expect (rl_public_block r) p (dialect_of r) = Inr own \<and>
        cs = own @ wears_claims r res p h @ extra)"

text \<open>Whether anybody can look at all.\<close>

definition can_look :: "'h driver \<Rightarrow> 'h audited reconciler \<Rightarrow> resource \<Rightarrow> bool" where
  "can_look d r res \<longleftrightarrow> dr_observer d \<noteq> None \<and> machine_name r res \<noteq> [] \<and>
     (\<exists>p. declared_plan r res = Some p \<and> consistent (on_audited d r) p)"

text \<open>Only a door claim looks at the doors, and only at its own.\<close>

lemma check_claim_doors: "door_asked c = None \<Longrightarrow> check_claim c (s\<lparr>sh_doors := D\<rparr>) = check_claim c s"
proof -
  assume none: "door_asked c = None"
  let ?s = "s\<lparr>sh_doors := D\<rparr>"
  have n: "interface_names ?s = interface_names s" by (simp add: interface_names_def)
  have i: "iface_at ?s = iface_at s" by (simp add: fun_eq_iff iface_at_def)
  have on: "interface_on ?s = interface_on s" by (simp add: fun_eq_iff interface_on_def n i)
  have cp: "carried_part ?s = carried_part s" by (simp add: fun_eq_iff carried_part_def i)
  have cb: "carried_by ?s = carried_by s" by (simp add: fun_eq_iff carried_by_def cp)
  have r: "default_route_of ?s = default_route_of s" "other_routes ?s = other_routes s" "routes_to ?s = routes_to s"
    by (simp_all add: fun_eq_iff default_route_of_def other_routes_def routes_to_def)
  have d: "doors_of ?s = doors_of s"
  proof (intro ext)
    fix ns ds show "doors_of ?s ns ds = doors_of s ns ds"
      by (induction ns arbitrary: ds) (simp_all add: on split: option.split)
  qed
  have f: "sh_interfaces ?s = sh_interfaces s" "sh_gateways ?s = sh_gateways s" "sh_routes ?s = sh_routes s" by simp_all
  show ?thesis
    by (cases c; (use none in \<open>simp add: door_asked_def; fail\<close>)?; simp only: check_claim.simps;
        unfold check_carries_def check_leases_def check_default_route_def check_no_default_route_def check_reaches_def
        check_wears_def check_same_interface_def check_same_default_def check_same_routes_def n i on cb r d f; rule refl)
qed

lemma check_claim_door:
  "door_asked c = Some (src, dst) \<Longrightarrow> map_of D src = map_of E src \<Longrightarrow>
     check_claim c (s\<lparr>sh_doors := D\<rparr>) = check_claim c (s\<lparr>sh_doors := E\<rparr>)"
  by (cases c) (auto simp: door_asked_def check_door_def)

lemma judged_doors: "judged m (s\<lparr>sh_doors := D\<rparr>) c told = judged m s c told"
  by (cases "door_asked c") (auto simp: judged_def check_claim_doors split: sum.splits)

text \<open>
  A whole check: the page it writes, the verdicts it ends on and whether it repaired.
  Nobody can look, or there is nothing to look for, and nothing is written. One reading
  in which no claim is broken, and that is all. Or one that breaks a claim, the plan
  replayed once, and one more reading, whose verdicts are the ones the check ends on:
  a repair when it could be made and breaks nothing.
\<close>

definition last_look ::
  "'h driver \<Rightarrow> 'h audited reconciler \<Rightarrow> resource \<Rightarrow> claim list \<Rightarrow> call list \<Rightarrow> verdict list \<Rightarrow> bool" where
  "last_look d r x extra page vs \<longleftrightarrow>
     (if page = [] then vs = [] \<and> (can_look d r x \<longrightarrow> (\<exists>h. claimed (on_audited d r) x extra h []))
      else (\<exists>cs h. claimed (on_audited d r) x extra h cs \<and> read_once (machine_name r x) cs vs page))"

inductive checked ::
  "'h driver \<Rightarrow> 'h audited reconciler \<Rightarrow> resource \<Rightarrow> claim list \<Rightarrow> 'h audited \<Rightarrow> call list \<Rightarrow> verdict list \<Rightarrow> bool \<Rightarrow> bool"
  for d r res extra h where
  unseen: "\<not> can_look d r res \<or> claimed (on_audited d r) res extra h [] \<Longrightarrow> checked d r res extra h [] [] False"
| whole: "claimed (on_audited d r) res extra h cs \<Longrightarrow> cs \<noteq> [] \<Longrightarrow> read_once (machine_name r res) cs vs page \<Longrightarrow> \<not> any_broken vs \<Longrightarrow>
    checked d r res extra h page vs False"
| again: "claimed (on_audited d r) res extra h cs \<Longrightarrow> read_once (machine_name r res) cs before page1 \<Longrightarrow> any_broken before \<Longrightarrow>
    declared_plan r res = Some p \<Longrightarrow> replayed d r res p page2 \<Longrightarrow>
    rid x = rid res \<Longrightarrow> machine_name r x = machine_name r res \<Longrightarrow> last_look d r x extra page3 vs \<Longrightarrow>
    checked d r res extra h (page1 @ page2 @ page3) vs (vs \<noteq> [] \<and> \<not> any_broken vs)"

text \<open>What a pack's settling of a resource leaves alone: its state, its id, the machine it names.\<close>

definition settles_gently :: "'h reconciler \<Rightarrow> bool" where
  "settles_gently r \<longleftrightarrow> (\<forall>f x. rl_settle r = Some f \<longrightarrow>
     rstate (f x) = rstate x \<and> rid (f x) = rid x \<and> machine_name r (f x) = machine_name r x)"

lemma replay_keeps:
  assumes "settles_gently r" "bd_runtime_key (rl_binding r) \<noteq> bd_address_key (rl_binding r)"
  shows "rstate (snd (replay r res p w)) = rstate res" "rid (snd (replay r res p w)) = rid res"
    "machine_name r (snd (replay r res p w)) = machine_name r res"
proof -
  let ?kept = "\<lambda>x y. rstate y = rstate x \<and> rid y = rid x \<and> machine_name r y = machine_name r x"
  let ?w3 = "replay_egress r res (fold (\<lambda>m w. fst (attach_membership r res m w)) (pl_memberships p) (replay_publics r res p w))"
  obtain w1 q where a: "addresses (rl_binding r) (rid res) (rt_get res (bd_runtime_key (rl_binding r))) ?w3 = (w1, q)" by fastforce
  have "?kept res (fst (snd (rescan (rl_binding r) res ?w3)))"
    using assms(2) by (cases q) (simp_all add: rescan_def a Let_def machine_name_def)
  moreover obtain w4 res1 ch where sc: "rescan (rl_binding r) res ?w3 = (w4, res1, ch)" by (metis prod_cases3)
  ultimately have "?kept res (snd (replay r res p w))"
    using assms(1) by (simp add: replay_def Let_def sc settles_gently_def split: option.split)
  then show "rstate (snd (replay r res p w)) = rstate res" "rid (snd (replay r res p w)) = rid res"
    "machine_name r (snd (replay r res p w)) = machine_name r res" by blast+
qed

lemma publish_counts:
  "publish res vs from_vs w = (w', res') \<Longrightarrow>
     w_tally w' = map_option (tally_count vs (vs \<noteq> [] \<and> from_vs \<noteq> [])) (w_tally w) \<and> w_host w' = w_host w \<and> rstate res' = rstate res \<and>
     (vs \<noteq> [] \<longrightarrow> rt_get res' verified_key = summary vs)"
  by (cases "w_tally w") (auto simp: publish_def count_verdicts_def split: if_splits)

section \<open>The steps of a reconciler behind the book\<close>

locale auditing =
  fixes r :: "'h audited reconciler" and d :: "'h driver"
  assumes driver: "bd_driver (rl_binding r) = Some (audited d)"
begin

lemma halves:
  "router_of r = map_option (\<lambda>ro. \<lparr>ro_route = (\<lambda>spec. booked (CRoute spec) (ro_route ro spec)),
     ro_unroute = (\<lambda>m a. booked (CUnroute m a) (ro_unroute ro m a))\<rparr>) (dr_router d)"
  "observer_of r = map_option (\<lambda>ob. \<lparr>ob_observe = (\<lambda>m. booked (CObserve m) (ob_observe ob m)),
     ob_door = (\<lambda>m src dst. booked (CDoor m src dst) (ob_door ob m src dst))\<rparr>) (dr_observer d)"
  by (simp_all add: router_of_def observer_of_def driver audited_def)

lemma route_planned_books:
  "books (routes_one d (rl_public_block r) (machine_name r res) (pl_route_via p) a) w (route_planned r res p a w)"
proof (cases "dr_router d = None \<or> machine_name r res = [] \<or> \<not> emulated (rl_public_block r) a")
  case True
  then have "route_planned r res p a w = w" by (auto simp: route_planned_def halves split: option.split)
  then show ?thesis using True by (simp add: books_def routes_one_def Let_def)
next
  case False
  then obtain ro where ro: "dr_router d = Some ro" and m: "machine_name r res \<noteq> []" and e: "emulated (rl_public_block r) a" by auto
  then have a: "a \<noteq> []" by auto
  let ?m = "machine_name r res" and ?spec = "\<lparr>as_machine = machine_name r res, as_address = a, as_network = pl_route_via p\<rparr>"
  let ?ro = "\<lparr>ro_route = (\<lambda>spec. booked (CRoute spec) (ro_route ro spec)), ro_unroute = (\<lambda>m a. booked (CUnroute m a) (ro_unroute ro m a))\<rparr>"
  let ?k = "placement_key (bd_provider (rl_binding r)) a"
  have rp: "\<exists>x. calls (fst (route_and_place ?k ?ro ?spec v)) = calls v @ [CRoute ?spec x]" for v
  proof -
    obtain v1 q where q: "on_host (booked (CRoute ?spec) (ro_route ro ?spec)) v = (v1, q)" by fastforce
    from booked_runs(1) [OF q] show ?thesis by (cases q) (simp_all add: route_and_place_def q)
  qed
  have step: "route_planned r res p a w = fst (case taken_from w ?k ?m of
      Some previous \<Rightarrow> (case on_host (booked (CUnroute previous a) (ro_unroute ro previous a)) w of
          (w1, Some e) \<Rightarrow> (w1, Some e) | (w1, None) \<Rightarrow> route_and_place ?k ?ro ?spec w1)
      | None \<Rightarrow> route_and_place ?k ?ro ?spec w)"
    using m e a by (simp add: route_planned_def halves ro route_address_def Let_def split: option.split)
  show ?thesis
  proof (cases "taken_from w ?k ?m")
    case None
    obtain x where "calls (route_planned r res p a w) = calls w @ [CRoute ?spec x]" using rp step None by auto
    then show ?thesis using False by (auto simp: books_def routes_one_def Let_def)
  next
    case (Some holder)
    then have h: "holder \<noteq> []" "holder \<noteq> ?m" by (auto simp: taken_from_def split: option.splits if_splits)
    obtain w1 q where q: "on_host (booked (CUnroute holder a) (ro_unroute ro holder a)) w = (w1, q)" by fastforce
    note b = booked_runs(1) [OF q]
    show ?thesis
    proof (cases q)
      case None
      obtain x where "calls (route_planned r res p a w) = calls w @ [CUnroute holder a None, CRoute ?spec x]"
        using rp [of w1] step Some q b None by auto
      then show ?thesis using False h by (auto simp: books_def routes_one_def Let_def)
    next
      case err: (Some e)
      have "calls (route_planned r res p a w) = calls w @ [CUnroute holder a (Some e)]" using step Some q b err by simp
      then show ?thesis using False h by (auto simp: books_def routes_one_def Let_def)
    qed
  qed
qed

lemma replay_publics_books:
  "books (routes_all d (rl_public_block r) (machine_name r res) p) w (replay_publics r res p w)"
  unfolding replay_publics_def
  by (rule books_mono [OF books_each [OF route_planned_books]]) (auto simp: routes_all_def)

lemma replay_egress_books: "books (egress_one d r res) w (replay_egress r res w)"
  if on: "on_audited d r = r"
proof -
  have e: "replay_egress r res w = (case dr_egress d of None \<Rightarrow> w | Some er \<Rightarrow>
      (if machine_name r res = [] then w
       else (case declared_plan r res of None \<Rightarrow> w
         | Some p \<Rightarrow>
             (if \<not> consistent r p then w
              else if pl_egress p = [] \<and> \<not> pl_no_egress p then w
              else if pl_egress p = [] then fst (on_host (booked (CNoEgress (machine_name r res)) (er_drop er (machine_name r res))) w)
              else fst (on_host (booked (CEgress (machine_name r res) (pl_egress p)) (er_route er (machine_name r res) (pl_egress p))) w)))))"
    by (simp add: replay_egress_def driver audited_def split: option.split)
  show ?thesis
    unfolding e egress_one_def on
    by (auto simp: books_def split: option.split)
qed

lemma memberships_books:
  "books (joins_all (machine_name r res) p) w (fold (\<lambda>m w. fst (attach_membership r res m w)) (pl_memberships p) w)"
proof -
  let ?m = "machine_name r res"
  let ?kept = "\<lambda>ms. if ?m = [] then [] else filter (\<lambda>att. at_network att \<noteq> []) ms"
  have "books (list_all2 (\<lambda>att c. \<exists>x. c = CAttach ?m att x) (?kept ms)) w (fold (\<lambda>m w. fst (attach_membership r res m w)) ms w)" for ms w
  proof (induction ms arbitrary: w)
    case (Cons att ms)
    obtain w1 x where a: "attach_membership r res att w = (w1, x)" by fastforce
    have one: "calls w1 = calls w @ (if ?m = [] \<or> at_network att = [] then [] else [CAttach ?m att x])"
    proof (cases "?m = [] \<or> at_network att = []")
      case False
      then have "on_host (booked (CAttach ?m att) (dr_attach d ?m att)) w = (w1, x)"
        using a by (simp add: attach_membership_def driver audited_def)
      from booked_runs(1) [OF this] False show ?thesis by simp
    qed (use a in \<open>auto simp: attach_membership_def driver\<close>)
    obtain new where "calls (fold (\<lambda>m w. fst (attach_membership r res m w)) ms w1) = calls w1 @ new"
      "list_all2 (\<lambda>att c. \<exists>x. c = CAttach ?m att x) (?kept ms) new"
      using Cons.IH [of w1] by (auto simp: books_def)
    with one a show ?case by (auto simp: books_def)
  qed (simp add: books_def)
  then show ?thesis by (rule books_mono) (simp add: joins_all_def)
qed

text \<open>After the boot, rule sets and nothing else.\<close>

lemma rules_books:
  assumes "gs_binding s = rl_binding r"
  shows "books (list_all rule_call) w (fst (sync_rule_set (enforcer s) spec w))"
    "books (list_all rule_call) w (apply_rule_sets (enforcer s) m unfiltered specs w)"
proof -
  have e: "enforcer s = map_option (\<lambda>fw. \<lparr>fw_ensure = (\<lambda>spec. booked (CEnsureFirewall spec) (fw_ensure fw spec)),
      fw_apply = (\<lambda>m fb. booked (CApplyFirewall m fb) (fw_apply fw m fb)),
      fw_remove = (\<lambda>n. booked (CRemoveFirewall n) (fw_remove fw n))\<rparr>) (dr_firewaller d)"
    by (simp add: enforcer_def assms driver audited_def)
  show "books (list_all rule_call) w (apply_rule_sets (enforcer s) m unfiltered specs w)"
    by (auto simp: e apply_rule_sets_def books_def rule_call_def split: option.split)
  show "books (list_all rule_call) w (fst (sync_rule_set (enforcer s) spec w))"
  proof (cases "dr_firewaller d")
    case (Some fw)
    obtain w1 q where q: "on_host (booked (CEnsureFirewall spec) (fw_ensure fw spec)) w = (w1, q)" by fastforce
    from booked_runs(1) [OF q] show ?thesis
      by (cases q) (simp_all add: e sync_rule_set_def Some q books_def rule_call_def)
  qed (simp add: e sync_rule_set_def)
qed

lemma write_sets_books:
  assumes "gs_binding s = rl_binding r"
  shows "books (list_all rule_call) w (fst (write_sets s fresh ids specs w))"
proof (induction ids arbitrary: specs w)
  case (Cons i ids)
  show ?case
  proof (cases "group_of s i")
    case (Some g)
    obtain w1 ok where q: "sync_rule_set (enforcer s) (group_spec s g fresh (w_host w)) w = (w1, ok)" by fastforce
    then have "books (list_all rule_call) w w1" using rules_books(1) [OF assms] by (metis fst_conv)
    then show ?thesis using Some q Cons.IH by (cases ok) (auto simp: Let_def intro: books_rules_trans)
  qed (simp add: Cons.IH)
qed simp

lemma apply_books:
  assumes "gs_binding s = rl_binding r"
  shows "books (list_all rule_call) w (apply_to_machine s res fresh w)"
proof -
  obtain w1 q where ws: "write_sets s (case fresh of None \<Rightarrow> Some res | Some f \<Rightarrow> Some f) (worn_ids s res) [] w = (w1, q)" by fastforce
  then have w1: "books (list_all rule_call) w w1" using write_sets_books [OF assms] by (metis fst_conv)
  show ?thesis
    using w1 books_rules_trans [OF w1 rules_books(2) [OF assms]]
    by (cases q) (simp_all add: apply_to_machine_def Let_def ws)
qed

lemma after_boot_books:
  assumes "gs_binding s = rl_binding r"
  shows "books (list_all rule_call) w (after_boot s res w)"
proof -
  have g: "books (list_all rule_call) w (sync_group s g fresh w)" for g fresh w
  proof -
    obtain w1 ok where q: "sync_rule_set (enforcer s) (group_spec s g fresh (w_host w)) w = (w1, ok)" by fastforce
    then have w1: "books (list_all rule_call) w w1" using rules_books(1) [OF assms] by (metis fst_conv)
    have "books (list_all rule_call) w1 (fold (\<lambda>wearer w. apply_to_machine s (fresh_wearer fresh wearer) fresh w) (wearers_of s g) w1)"
      by (rule books_fold) (rule apply_books [OF assms])
    then show ?thesis using w1 q by (cases ok) (auto simp: sync_group_def intro: books_rules_trans)
  qed
  have "books (list_all rule_call) w (sync_referrers s ids fresh w)" for ids fresh w
    by (auto simp: sync_referrers_def g intro: books_fold split: option.split)
  from books_rules_trans [OF apply_books [OF assms] this] show ?thesis by (simp add: after_boot_def)
qed

lemma rescan_calls: "calls (fst (rescan (rl_binding r) res w)) = calls w"
proof -
  let ?n = "own_name (rl_binding r) (rid res) (rt_get res (bd_runtime_key (rl_binding r)))"
  have c: "calls w1 = calls w" if "addresses (rl_binding r) (rid res) (rt_get res (bd_runtime_key (rl_binding r))) w = (w1, q)" for w1 q
    using that booked_runs(2) [of "dr_inspect d ?n" w]
    by (auto simp: addresses_def driver audited_def split: if_splits prod.splits sum.splits option.splits)
  obtain w1 q where a: "addresses (rl_binding r) (rid res) (rt_get res (bd_runtime_key (rl_binding r))) w = (w1, q)" by fastforce
  then show ?thesis using c [OF a] by (cases q) (simp_all add: rescan_def Let_def)
qed

lemma replay_books:
  assumes on: "on_audited d r = r"
  shows "books (replayed d r res p) w (fst (replay r res p w))"
proof -
  let ?w1 = "replay_publics r res p w"
  let ?w2 = "fold (\<lambda>m w. fst (attach_membership r res m w)) (pl_memberships p) ?w1"
  let ?w3 = "replay_egress r res ?w2"
  obtain w4 res1 c where sc: "rescan (rl_binding r) res ?w3 = (w4, res1, c)" by (metis prod_cases3)
  let ?res2 = "case rl_settle r of None \<Rightarrow> res1 | Some settle \<Rightarrow> settle res1"
  have c4: "calls w4 = calls ?w3" using rescan_calls [of res ?w3] sc by simp
  have f: "fst (replay r res p w) = after_boot (rl_groups r) ?res2 w4" by (simp add: replay_def sc Let_def)
  obtain rules where ru: "calls (after_boot (rl_groups r) ?res2 w4) = calls w4 @ rules" "list_all rule_call rules"
    using after_boot_books [of "rl_groups r" w4 ?res2] by (auto simp: books_def rl_binding_def)
  obtain routes where ro: "calls ?w1 = calls w @ routes" "routes_all d (rl_public_block r) (machine_name r res) p routes"
    using replay_publics_books [of res p w] unfolding books_def by blast
  obtain joins where jo: "calls ?w2 = calls ?w1 @ joins" "joins_all (machine_name r res) p joins"
    using memberships_books [of res p ?w1] unfolding books_def by blast
  obtain egress where eg: "calls ?w3 = calls ?w2 @ egress" "egress_one d r res egress"
    using replay_egress_books [OF on, of res ?w2] unfolding books_def by blast
  have "calls (fst (replay r res p w)) = calls w @ routes @ joins @ egress @ rules" using f ru c4 ro jo eg by simp
  then show ?thesis unfolding books_def replayed_def using ru ro jo eg by blast
qed

section \<open>A check behind the book\<close>

lemma answer_claims_books:
  assumes "dr_observer d = Some ob0" "observer_of r = Some ob"
    and "answer_claims ob m cs s w = (w', vs)"
  shows "\<exists>told. calls w' = calls w @ concat (map fst told) \<and> vs = map snd told \<and> list_all2 (judged m s) cs told"
proof -
  have door: "ob_door ob m src dst = booked (CDoor m src dst) (ob_door ob0 m src dst)" for src dst
    using assms(1,2) by (auto simp: halves)
  have "\<exists>told. calls w' = calls w @ concat (map fst told) \<and> vs = map snd told \<and> list_all2 (judged m s) cs told"
    if "answer_claims ob m cs (s\<lparr>sh_doors := D\<rparr>) w = (w', vs)" for D
    using that
  proof (induction cs arbitrary: D w vs)
    case Nil
    then show ?case by (intro exI [of _ "[]"]) simp
  next
    case (Cons c cs)
    show ?case
    proof (cases "door_asked c")
      case None
      obtain vs1 where a: "answer_claims ob m cs (s\<lparr>sh_doors := D\<rparr>) w = (w', vs1)" "vs = check_claim c s # vs1"
        using Cons.prems None by (auto simp: check_claim_doors split: prod.splits)
      then obtain told where "calls w' = calls w @ concat (map fst told)" "vs1 = map snd told" "list_all2 (judged m s) cs told"
        using Cons.IH by blast
      moreover have "judged m s c ([], check_claim c s)" using None by (simp add: judged_def)
      ultimately show ?thesis using a(2) by (intro exI [of _ "([], check_claim c s) # told"]) simp
    next
      case (Some sd)
      obtain src dst where sd: "door_asked c = Some (src, dst)" using Some by (cases sd) simp
      obtain w1 x where x: "on_host (ob_door ob m src dst) w = (w1, x)" by fastforce
      then have w1: "calls w1 = calls w @ [CDoor m src dst x]" unfolding door by (rule booked_runs)
      obtain E vs1 where a: "answer_claims ob m cs (s\<lparr>sh_doors := E\<rparr>) w1 = (w', vs1)"
        "vs = (case x of Inl e \<Rightarrow> unreadable c e | Inr route \<Rightarrow> check_claim c (s\<lparr>sh_doors := AList.update src route D\<rparr>)) # vs1"
        using Cons.prems sd x by (cases x) (auto simp: Let_def split: prod.splits)
      obtain told where t: "calls w' = calls w1 @ concat (map fst told)" "vs1 = map snd told" "list_all2 (judged m s) cs told"
        using Cons.IH [OF a(1)] by blast
      have "check_claim c (s\<lparr>sh_doors := AList.update src route D\<rparr>) = check_claim c (s\<lparr>sh_doors := [(src, route)]\<rparr>)" for route
        by (rule check_claim_door [OF sd]) (simp add: update_conv')
      moreover have "judged m s c ([CDoor m src dst x],
             case x of Inl e \<Rightarrow> unreadable c e | Inr route \<Rightarrow> check_claim c (s\<lparr>sh_doors := [(src, route)]\<rparr>))"
        using sd by (auto simp: judged_def)
      ultimately show ?thesis using w1 a(2) t
        by (intro exI [of _ "([CDoor m src dst x],
             case x of Inl e \<Rightarrow> unreadable c e | Inr route \<Rightarrow> check_claim c (s\<lparr>sh_doors := [(src, route)]\<rparr>)) # told"])
          (simp split: sum.split)
    qed
  qed
  from this [of "sh_doors s"] assms(3) show ?thesis by simp
qed

lemma verify_books:
  assumes on: "on_audited d r = r" and v: "verify r res extra w = (w', answer)"
  shows "case answer of
      None \<Rightarrow> calls w' = calls w \<and> \<not> can_look d r res
    | Some vs \<Rightarrow> can_look d r res \<and> (\<exists>cs. claimed r res extra (w_host w) cs \<and>
        (if cs = [] then calls w' = calls w \<and> vs = []
         else \<exists>new. calls w' = calls w @ new \<and> read_once (machine_name r res) cs vs new))"
proof (cases "can_look d r res")
  case False
  then have "w' = w" "answer = None"
    using v by (auto simp: verify_def can_look_def on consistent_def halves split: option.splits if_splits sum.splits)
  then show ?thesis using False by simp
next
  case True
  then obtain ob0 p own where ob0: "dr_observer d = Some ob0" and m: "machine_name r res \<noteq> []"
    and p: "declared_plan r res = Some p" and own: "expect (rl_public_block r) p (dialect_of r) = Inr own"
    by (cases "expect (rl_public_block r) (the (declared_plan r res)) (dialect_of r)") (auto simp: can_look_def on consistent_def)
  obtain ob where ob: "observer_of r = Some ob" "ob_observe ob (machine_name r res) = booked (CObserve (machine_name r res)) (ob_observe ob0 (machine_name r res))"
    using ob0 by (simp add: halves)
  obtain cs where cs: "cs = own @ wears_claims r res p (w_host w) @ extra" by simp
  have cl: "claimed r res extra (w_host w) cs" using p own by (simp add: claimed_def cs)
  have ve: "verify r res extra w = (if length cs = 0 then (w, Some [])
      else (case on_host (ob_observe ob (machine_name r res)) w of
          (w1, Inl e) \<Rightarrow> (w1, Some (map (\<lambda>c. unreadable c e) cs))
        | (w1, Inr s) \<Rightarrow> (case answer_claims ob (machine_name r res) cs s w1 of (w2, vs) \<Rightarrow> (w2, Some vs))))"
    by (simp only: verify_def ob(1) option.case m if_False p own sum.case Let_def cs)
  show ?thesis
  proof (cases "cs = []")
    case empty: True
    then have "answer = Some []" "w' = w" using v ve by simp_all
    then show ?thesis using True cl empty by auto
  next
    case ne: False
    obtain w1 x where x: "on_host (ob_observe ob (machine_name r res)) w = (w1, x)" by fastforce
    then have w1: "calls w1 = calls w @ [CObserve (machine_name r res) x]" unfolding ob(2) by (rule booked_runs)
    have step: "(w', answer) = (case x of Inl e \<Rightarrow> (w1, Some (map (\<lambda>c. unreadable c e) cs))
        | Inr s \<Rightarrow> (case answer_claims ob (machine_name r res) cs s w1 of (w2, vs) \<Rightarrow> (w2, Some vs)))"
      using v ve ne x by simp
    show ?thesis
    proof (cases x)
      case (Inl e)
      then have "answer = Some (map (\<lambda>c. unreadable c e) cs)" "w' = w1" using step by simp_all
      then show ?thesis using True cl ne w1 Inl by (auto simp: read_once_def)
    next
      case (Inr s)
      obtain w2 vs where a: "answer_claims ob (machine_name r res) cs s w1 = (w2, vs)" by fastforce
      then have an: "answer = Some vs" "w' = w2" using step Inr by simp_all
      obtain told where "calls w2 = calls w1 @ concat (map fst told)" "vs = map snd told"
        "list_all2 (judged (machine_name r res) s) cs told"
        using answer_claims_books [OF ob0 ob(1) a] by blast
      then have "calls w' = calls w @ (CObserve (machine_name r res) (Inr s) # concat (map fst told))"
        "read_once (machine_name r res) cs vs (CObserve (machine_name r res) (Inr s) # concat (map fst told))"
        using an w1 Inr by (auto simp: read_once_def)
      then show ?thesis using True cl ne an by auto
    qed
  qed
qed

lemma check_books:
  assumes on: "on_audited d r = r" and settle: "settles_gently r" and keys: "bd_runtime_key (rl_binding r) \<noteq> bd_address_key (rl_binding r)"
    and run: "check_machine r res extra w = (w', res')"
  shows "\<exists>page vs repaired. calls w' = calls w @ page \<and> checked d r res extra (w_host w) page vs repaired \<and>
    w_tally w' = map_option (tally_count vs repaired) (w_tally w) \<and> rstate res' = rstate res \<and>
    (vs \<noteq> [] \<longrightarrow> rt_get res' verified_key = summary vs)"
proof -
  obtain w1 answer where v: "verify r res extra w = (w1, answer)" by fastforce
  have t1: "w_tally w1 = w_tally w" using tally_verify [of r res extra w] v by simp
  note vb = verify_books [OF on v]
  have idle: "map_option (tally_count [] False) t = t" for t by (cases t) simp_all
  show ?thesis
  proof (cases answer)
    case None
    then have "w' = w1" "res' = res" using run v by (simp_all add: check_machine_def)
    then show ?thesis using vb None t1 idle
      by (intro exI [of _ "[]"] exI [of _ "[]"] exI [of _ False]) (auto intro: checked.unseen)
  next
    case (Some vs)
    then obtain cs where look: "can_look d r res" and cl: "claimed r res extra (w_host w) cs"
      and page: "if cs = [] then calls w1 = calls w \<and> vs = [] else \<exists>new. calls w1 = calls w @ new \<and> read_once (machine_name r res) cs vs new"
      using vb by auto
    show ?thesis
    proof (cases "any_broken vs")
      case False
      then have "publish res vs [] w1 = (w', res')" using run v Some by (simp add: check_machine_def)
      note p = publish_counts [OF this]
      show ?thesis
      proof (cases "cs = []")
        case True
        then show ?thesis using page p t1 cl idle on
          by (intro exI [of _ "[]"] exI [of _ "[]"] exI [of _ False]) (auto simp: calls_def intro: checked.unseen)
      next
        case ne: False
        then obtain new where new: "calls w1 = calls w @ new" "read_once (machine_name r res) cs vs new" using page by auto
        have "checked d r res extra (w_host w) new vs False" by (rule checked.whole) (use cl ne new False on in simp_all)
        then show ?thesis using p t1 new(1) by (intro exI [of _ new] exI [of _ vs] exI [of _ False]) (simp add: calls_def)
      qed
    next
      case True
      then have "cs \<noteq> []" using page by (auto simp: any_broken_def)
      then obtain new where new: "calls w1 = calls w @ new" "read_once (machine_name r res) cs vs new" using page by auto
      obtain p where pl: "declared_plan r res = Some p" using look by (auto simp: can_look_def)
      obtain w2 res1 where re: "replay r res p w1 = (w2, res1)" by fastforce
      obtain steps where st: "calls w2 = calls w1 @ steps" "replayed d r res p steps"
        using replay_books [OF on, of res p w1] re by (auto simp: books_def)
      have kept: "rstate res1 = rstate res" "rid res1 = rid res" "machine_name r res1 = machine_name r res"
        using replay_keeps [OF settle keys, of res p w1] re by simp_all
      obtain w3 answer2 where v2: "verify r res1 extra w2 = (w3, answer2)" by fastforce
      let ?vs2 = "option_or [] answer2"
      have t3: "w_tally w3 = w_tally w"
        using t1 tally_replay [of r res p w1] re tally_verify [of r res1 extra w2] v2 by simp
      have "publish res1 ?vs2 (if any_broken ?vs2 then [] else vs) w3 = (w', res')"
        using run v Some True pl re v2 by (simp add: check_machine_def Let_def split: if_splits)
      note p = publish_counts [OF this]
      have "\<exists>page3. calls w3 = calls w2 @ page3 \<and> last_look d r res1 extra page3 ?vs2"
      proof (cases answer2)
        case None
        then show ?thesis using verify_books [OF on v2] by (simp add: last_look_def)
      next
        case (Some vs2)
        then obtain cs2 where cl2: "claimed r res1 extra (w_host w2) cs2"
          and page2: "if cs2 = [] then calls w3 = calls w2 \<and> vs2 = [] else \<exists>new. calls w3 = calls w2 @ new \<and> read_once (machine_name r res1) cs2 vs2 new"
          using verify_books [OF on v2] by auto
        have written: "read_once m cs vs new \<Longrightarrow> new \<noteq> []" for m cs vs new by (auto simp: read_once_def)
        show ?thesis
        proof (cases "cs2 = []")
          case True
          have "last_look d r res1 extra [] ?vs2" unfolding last_look_def on using True cl2 page2 Some by auto
          then show ?thesis using True page2 by auto
        next
          case False
          then obtain new2 where n2: "calls w3 = calls w2 @ new2" "read_once (machine_name r res1) cs2 vs2 new2" using page2 by auto
          then have "last_look d r res1 extra new2 ?vs2"
            unfolding last_look_def on option_or_simps Some using cl2 written [OF n2(2)] by auto
          then show ?thesis using n2(1) by blast
        qed
      qed
      then obtain page3 where p3: "calls w3 = calls w2 @ page3" "last_look d r res1 extra page3 ?vs2" by blast
      have "checked d r res extra (w_host w) (new @ steps @ page3) ?vs2 (?vs2 \<noteq> [] \<and> \<not> any_broken ?vs2)"
        by (rule checked.again) (use cl new True pl st kept p3 on in simp_all)
      moreover have "(?vs2 \<noteq> [] \<and> (if any_broken ?vs2 then [] else vs) \<noteq> []) = (?vs2 \<noteq> [] \<and> \<not> any_broken ?vs2)"
        using True by (auto simp: any_broken_def)
      ultimately show ?thesis using p t3 kept(1) new(1) st(1) p3(1)
        by (intro exI [of _ "new @ steps @ page3"] exI [of _ ?vs2] exI [of _ "?vs2 \<noteq> [] \<and> \<not> any_broken ?vs2"]) (simp add: calls_def)
    qed
  qed
qed

end

lemma on_audited_same [simp]: "on_audited d (on_audited d r) = on_audited d r"
  by (simp add: on_audited_def with_runtime_def)

interpretation aud: auditing "on_audited d r" d for d r
  by unfold_locales simp

text \<open>The book is told the same of the pack's reconciler and of the one on the driver.\<close>

lemma audited_egress: "egress_one d (on_audited d r) = egress_one d r"
  by (intro ext) (simp only: egress_one_def on_audited_simps on_audited_same)

lemma audited_same [simp]:
  "replayed d (on_audited d r) = replayed d r" "can_look d (on_audited d r) = can_look d r"
  "last_look d (on_audited d r) = last_look d r" "settles_gently (on_audited d r) = settles_gently r"
  by ((intro ext)?; simp only: replayed_def audited_egress can_look_def last_look_def settles_gently_def on_audited_simps on_audited_same)+

lemma checked_same: "checked d (on_audited d r) res extra h page vs repaired \<Longrightarrow> checked d r res extra h page vs repaired"
proof (induction rule: checked.induct)
  case unseen
  then show ?case by (intro checked.unseen) simp
next
  case (whole cs vs page)
  then show ?case by (intro checked.whole [of _ _ _ _ _ cs]) simp_all
next
  case (again cs before page1 p page2 x page3 vs)
  then show ?case by (intro checked.again [of _ _ _ _ _ cs before _ p _ x]) simp_all
qed

section \<open>What a boot writes\<close>

definition builds_one :: "call list \<Rightarrow> bool" where
  "builds_one page \<longleftrightarrow> page = [] \<or> (\<exists>spec x. page = [CBuild spec x])"

lemma ensure_image_calls:
  "\<exists>page. calls (fst (on_host (ensure_image (map_option unbooked lister)
      (map_option (\<lambda>build spec. booked (CBuild spec) (build spec)) builder) ref) w)) = calls w @ page \<and> builds_one page"
  by (auto simp: ensure_image_def build_if_missing_def on_host_def calls_def booked_def unbooked_def builds_one_def Let_def
      split: option.split prod.split sum.split)

lemma power_on_books:
  assumes d: "bd_driver b = Some (audited d)" and name: "name_of b (rid res) \<noteq> []"
    and keys: "bd_runtime_key b \<noteq> bd_address_key b"
    and on: "power_on templates b res boot w = (w', res', up)"
  shows "\<exists>page. builds_one page \<and>
    (if up then \<exists>spec. calls w' = calls w @ page @ [CStart spec None] \<and> ms_name spec = name_of b (rid res) \<and>
       ms_attachments spec = bo_attachments boot \<and> ms_publics spec = bo_publics boot \<and>
       rid res' = rid res \<and> attrs res' = attrs res \<and> rt_get res' (bd_runtime_key b) = ms_name spec
     else calls w' = calls w @ page \<or>
       (\<exists>spec e. calls w' = calls w @ page @ [CStart spec (Some e)] \<and> ms_name spec = name_of b (rid res)))"
proof -
  let ?boot = "boot\<lparr>bo_id := rid res\<rparr>"
  let ?s = "snd (start templates b ?boot w)"
  have p: "w' = fst (start templates b ?boot w)" "up = (st_machine ?s \<noteq> [])"
    using on by (auto simp: power_on_driver [OF d] Let_def split: prod.splits if_splits)
  have keep: "up \<Longrightarrow> rid res' = rid res \<and> attrs res' = attrs res \<and> rt_get res' (bd_runtime_key b) = st_machine ?s"
    using on keys by (auto simp: power_on_driver [OF d] Let_def rt_get_state split: prod.splits if_splits)
  have no_build: "builds_one []" by (simp add: builds_one_def)
  show ?thesis
  proof (cases rule: start_cases [of templates b ?boot w])
    case nothing
    then have "\<not> up" "calls w' = calls w" using p by (simp_all add: no_start_def)
    then show ?thesis using no_build by (intro exI [of _ "[]"]) simp
  next
    case (refused d' boot1)
    then have "d' = audited d" using d by simp
    then obtain page where "calls w' = calls w @ page" "builds_one page"
      using ensure_image_calls [of "dr_lister d" "dr_builder d" "bo_image boot1" w] p(1) refused(4) by (auto simp: audited_def)
    moreover have "\<not> up" using p(2) refused(5) by (simp add: no_start_def)
    ultimately show ?thesis by auto
  next
    case (asked d' boot1 w1 user_data)
    then have dd: "d' = audited d" using d by simp
    have same: "bo_id boot1 = rid res" "bo_attachments boot1 = bo_attachments boot" "bo_publics boot1 = bo_publics boot"
      using asked(2) by (auto simp: declared_image_def Let_def split: if_splits option.splits)
    let ?spec = "spec_of b boot1 user_data"
    obtain page where page: "calls w1 = calls w @ page" "builds_one page"
      using ensure_image_calls [of "dr_lister d" "dr_builder d" "bo_image boot1" w] asked(3) no_build
      by (cases "bo_image boot1 = []") (auto simp: dd audited_def)
    have ds: "dr_start d' ?spec = booked (\<lambda>x. CStart ?spec (refusal x)) (dr_start d ?spec)" by (simp add: dd audited_def)
    obtain w2 q where q0: "on_host (booked (\<lambda>x. CStart ?spec (refusal x)) (dr_start d ?spec)) w1 = (w2, q)" by fastforce
    then have q: "on_host (booked (\<lambda>x. CStart ?spec (refusal x)) (dr_start d ?spec)) w1 = (w', q)"
      using asked(5) p(1) by (simp only: ds fst_conv)
    note b = booked_runs(1) [OF q]
    have s: "?s = (case q of Inl e \<Rightarrow> no_start | Inr m \<Rightarrow> \<lparr>st_machine = name_of b (bo_id boot1), st_addresses = mc_addresses m\<rparr>)"
      using asked(6) by (simp only: ds q snd_conv)
    show ?thesis
    proof (cases q)
      case (Inl e)
      then have "\<not> up" using p(2) s by (simp add: no_start_def)
      then show ?thesis using b page Inl same(1) by (intro exI [of _ page]) (auto simp: refusal_def)
    next
      case (Inr m)
      then have up: up "st_machine ?s = name_of b (rid res)" using p(2) s name same(1) by simp_all
      then show ?thesis using b page Inr same keep by (intro exI [of _ page]) (auto simp: refusal_def spec_of_def)
    qed
  qed
qed

text \<open>
  A boot that went up, in order: the image built when it was missing, the machine
  started on what its plan declares, the plan replayed on it, the check.
\<close>

definition booted :: "'h driver \<Rightarrow> 'h audited reconciler \<Rightarrow> resource \<Rightarrow> claim list \<Rightarrow> plan \<Rightarrow> call list \<Rightarrow> bool" where
  "booted d r res extra p page \<longleftrightarrow>
     (\<exists>builds spec x steps y h check vs repaired.
        page = builds @ CStart spec None # steps @ check \<and> builds_one builds \<and>
        ms_name spec = name_of (rl_binding r) (rid res) \<and> ms_attachments spec = pl_boot p \<and> ms_publics spec = pl_publics p \<and>
        rid x = rid res \<and> attrs x = attrs res \<and> machine_name r x = ms_name spec \<and> replayed d r x p steps \<and>
        rid y = rid res \<and> machine_name r y = ms_name spec \<and> checked d r y extra h check vs repaired)"

definition failed_boot :: "'h audited reconciler \<Rightarrow> resource \<Rightarrow> call list \<Rightarrow> bool" where
  "failed_boot r res page \<longleftrightarrow>
     builds_one page \<or>
     (\<exists>builds spec e. page = builds @ [CStart spec (Some e)] \<and> builds_one builds \<and> ms_name spec = name_of (rl_binding r) (rid res))"


text \<open>
  C17. A check moves no state and hides nothing, whichever the driver. It writes the page
  of one of three cases: nobody could look; one reading that broke no claim; or one that
  did, one replay of the plan, and one more reading. The verdicts it ends on are those of
  the last reading in the book, each judged on what that reading answered: they, once,
  are what the counters take in and what the resource carries the summary of, and a
  repair is counted exactly when a broken reading was followed by one that broke nothing.
\<close>

theorem a_repair_is_attempted_once_and_counted:
  assumes settle: "settles_gently r" and keys: "bd_runtime_key (rl_binding r) \<noteq> bd_address_key (rl_binding r)"
    and run: "check_machine (on_audited d r) res extra w = (w', res')"
  shows "\<exists>page vs repaired. calls w' = calls w @ page \<and> checked d r res extra (w_host w) page vs repaired \<and>
    w_tally w' = map_option (tally_count vs repaired) (w_tally w) \<and> rstate res' = rstate res \<and>
    (vs \<noteq> [] \<longrightarrow> rt_get res' verified_key = summary vs)"
proof -
  have "settles_gently (on_audited d r)" "bd_runtime_key (rl_binding (on_audited d r)) \<noteq> bd_address_key (rl_binding (on_audited d r))"
    using assms(1,2) by simp_all
  from aud.check_books [OF on_audited_same this run] show ?thesis using checked_same by blast
qed

section \<open>Witnesses\<close>

text \<open>
  A recording host that can be read: a machine carries its interface once it was
  attached to its network, and the host notes the ways out it is asked for. The plan
  wants the machine on its network at an address, and out through it.
\<close>

definition eth0 :: iface where
  "eth0 = \<lparr>if_network = ''n'', if_routed = False, if_addresses = [Prefix (V4 0x0A000005) 24], if_rulesets = []\<rparr>"

definition shape_read :: "recorder \<Rightarrow> shape" where
  "shape_read h = \<lparr>sh_interfaces = (if list_ex (\<lambda>g. gesture_kind g = ''Attach'') (rc_events h) then [(''eth0'', eth0)] else []),
     sh_routes = [], sh_doors = [], sh_gateways = []\<rparr>"

definition watched_driver :: "recorder driver" where
  "watched_driver = recorder_driver
     \<lparr>dr_observer := Some \<lparr>ob_observe = (\<lambda>m h. (h, Inr (shape_read h))), ob_door = (\<lambda>m src dst h. (h, Inl ''no door''))\<rparr>,
      dr_egress := Some \<lparr>er_route = (\<lambda>m n. recorded (GPlanted ''EgressRoute'')), er_drop = (\<lambda>m. recorded (GPlanted ''EgressDrop''))\<rparr>\<rparr>"

definition member1 :: attachment where
  "member1 = \<lparr>at_network = ''n'', at_address = ''10.0.0.5'', at_prefix_len = 24, at_secondary = [], at_unfiltered = False\<rparr>"

definition plan2 :: plan where
  "plan2 = \<lparr>pl_boot = [], pl_memberships = [member1], pl_publics = [], pl_route_via = [], pl_egress = ''n'', pl_no_egress = False\<rparr>"

definition binding1 :: "recorder audited binding" where
  "binding1 = \<lparr>bd_driver = None, bd_provider = ''scw'', bd_prefix = ''feint-'', bd_user = ''root'',
     bd_runtime_key = ''machine'', bd_address_key = ''address'', bd_running = ''running'', bd_failed = ''stopped'',
     bd_declared = Map.empty\<rparr>"

definition reconciler1 :: "recorder audited reconciler" where
  "reconciler1 = \<lparr>rl_groups = \<lparr>gs_binding = binding1, gs_spec_of = None, gs_foreign_blocks = None, gs_wearers = None,
        gs_worn_ids = None, gs_group = None, gs_plan_of = None, gs_referrers = None, gs_enforces_nothing = True\<rparr>,
     rl_plan_of = Some (\<lambda>res. plan2), rl_settle = None, rl_public_block = Prefix (V4 0xCB007100) 24\<rparr>"

definition book0 :: "recorder audited world" where
  "book0 = (new_world \<lparr>au_host = new_recorder, au_book = []\<rparr>)
     \<lparr>w_tally := Some \<lparr>vf_held = 0, vf_broken = 0, vf_unreadable = 0, vf_repaired = 0\<rparr>\<rparr>"

definition claim1 :: claim where
  "claim1 = Carries ''n'' (V4 0x0A000005) 24"

lemma gentle1: "settles_gently reconciler1" "bd_runtime_key (rl_binding reconciler1) \<noteq> bd_address_key (rl_binding reconciler1)"
  "bd_prefix (rl_binding reconciler1) \<noteq> []" "declared_plan reconciler1 res = Some plan2" "rl_public_block reconciler1 = Prefix (V4 0xCB007100) 24"
  by (simp_all add: settles_gently_def reconciler1_def rl_binding_def binding1_def declared_plan_def)

lemma expect1: "expect (Prefix (V4 0xCB007100) 24) plan2 zero_dialect = Inr [claim1]"
  by (simp add: expect_def attachments_def plan2_def member1_def own_claims_def egress_claims_def default_owners_def
      zero_dialect_def ledger_claim_def claimants_def contradiction_def describe_attachment_def interface_property_def property_default_route_def
      claim1_def Let_def netip_eval)

lemma dialect1: "dialect_of (on_audited watched_driver reconciler1) = zero_dialect"
  by (simp add: dialect_of_def audited_def watched_driver_def recorder_driver_def)

lemma consistent1: "consistent (on_audited watched_driver reconciler1) plan2"
  by (simp add: consistent_def dialect1 gentle1 expect1)

lemma boots1: "\<exists>w' res'. power_on_plan tpl0 (on_audited watched_driver reconciler1) res0 boot0 [] book0 = (w', res', True)"
proof -
  let ?r = "on_audited watched_driver reconciler1"
  let ?boot = "boot0\<lparr>bo_attachments := pl_boot plan2, bo_publics := pl_publics plan2\<rparr>"
  have "\<exists>w x. power_on tpl0 (rl_binding ?r) res0 ?boot book0 = (w, x, True)"
    by (simp add: power_on_def start_def boot0_def res0_def new_resource_def declared_image_def on_host_def ensure_image_def
        user_data_of_def recorder_start_def spec_of_def name_of_def audited_def watched_driver_def recorder_driver_def booked_def
        reconciler1_def binding1_def rl_binding_def on_audited_def with_runtime_def Let_def split: option.split)
  then show ?thesis using consistent1 gentle1(4) by (auto simp: power_on_plan_def split: prod.split)
qed


text \<open>A machine that lost its interface: read, joined and let out again, read once more.\<close>

definition member0 :: resource where
  "member0 = rt_set res0 ''machine'' ''feint-1''"

lemma member0_simps: "machine_name reconciler1 member0 = ''feint-1''" "machine_name (on_audited watched_driver reconciler1) member0 = ''feint-1''"
  by (simp_all add: machine_name_def reconciler1_def rl_binding_def binding1_def member0_def)

lemma verify1:
  "verify (on_audited watched_driver reconciler1) member0 [] w =
     (w\<lparr>w_host := \<lparr>au_host = au_host (w_host w), au_book = au_book (w_host w) @ [CObserve ''feint-1'' (Inr (shape_read (au_host (w_host w))))]\<rparr>\<rparr>,
      Some [check_claim claim1 (shape_read (au_host (w_host w)))])"
proof -
  let ?r = "on_audited watched_driver reconciler1"
  have o: "observer_of ?r = Some \<lparr>ob_observe = (\<lambda>m. booked (CObserve m) (\<lambda>h. (h, Inr (shape_read h)))),
      ob_door = (\<lambda>m src dst. booked (CDoor m src dst) (\<lambda>h. (h, Inl ''no door'')))\<rparr>"
    by (simp add: observer_of_def audited_def watched_driver_def recorder_driver_def)
  have we: "wears_claims ?r member0 plan2 h = []" for h
    by (simp add: wears_claims_def on_audited_def reconciler1_def wired_def)
  show ?thesis
    by (simp add: verify_def o gentle1 dialect1 expect1 we member0_simps on_host_def booked_def claim1_def door_asked_def)
qed

lemma steps1:
  "fst (attach_membership (on_audited watched_driver reconciler1) member0 member1 w) =
     w\<lparr>w_host := \<lparr>au_host = record_gesture (GAttach ''feint-1'' member1) (au_host (w_host w)),
       au_book = au_book (w_host w) @ [CAttach ''feint-1'' member1 None]\<rparr>\<rparr>"
  "replay_egress (on_audited watched_driver reconciler1) member0 w =
     w\<lparr>w_host := \<lparr>au_host = record_gesture (GPlanted ''EgressRoute'') (au_host (w_host w)),
       au_book = au_book (w_host w) @ [CEgress ''feint-1'' ''n'' None]\<rparr>\<rparr>"
  "rc_machines (au_host (w_host w)) = [] \<Longrightarrow> rescan (rl_binding (on_audited watched_driver reconciler1)) member0 w = (w, member0, False)"
  "after_boot (rl_groups (on_audited watched_driver reconciler1)) res w = w"
proof -
  let ?r = "on_audited watched_driver reconciler1"
  show "fst (attach_membership ?r member0 member1 w) =
     w\<lparr>w_host := \<lparr>au_host = record_gesture (GAttach ''feint-1'' member1) (au_host (w_host w)),
       au_book = au_book (w_host w) @ [CAttach ''feint-1'' member1 None]\<rparr>\<rparr>"
    by (simp add: attach_membership_def member0_simps member1_def audited_def watched_driver_def recorder_driver_def on_host_def booked_def recorded_def)
  show "replay_egress ?r member0 w =
     w\<lparr>w_host := \<lparr>au_host = record_gesture (GPlanted ''EgressRoute'') (au_host (w_host w)),
       au_book = au_book (w_host w) @ [CEgress ''feint-1'' ''n'' None]\<rparr>\<rparr>"
    using consistent1
    by (simp add: replay_egress_def member0_simps gentle1 audited_def watched_driver_def recorder_driver_def on_host_def booked_def recorded_def plan2_def)
  show "after_boot (rl_groups ?r) res w = w" by (simp add: after_boot_def wired_def on_audited_def reconciler1_def)
  assume "rc_machines (au_host (w_host w)) = []"
  then show "rescan (rl_binding ?r) member0 w = (w, member0, False)"
    by (simp add: rescan_def addresses_def audited_def watched_driver_def recorder_driver_def on_host_def unbooked_def recorder_inspect_def
        split: prod.split)
qed

lemma replay1:
  assumes "rc_machines (au_host (w_host w)) = []"
  shows "replay (on_audited watched_driver reconciler1) member0 plan2 w =
     (w\<lparr>w_host := \<lparr>au_host = record_gesture (GPlanted ''EgressRoute'') (record_gesture (GAttach ''feint-1'' member1) (au_host (w_host w))),
         au_book = au_book (w_host w) @ [CAttach ''feint-1'' member1 None, CEgress ''feint-1'' ''n'' None]\<rparr>\<rparr>, member0)"
proof -
  have m: "pl_memberships plan2 = [member1]" "pl_publics plan2 = []" "rl_settle reconciler1 = None"
    by (simp_all add: plan2_def reconciler1_def)
  show ?thesis using assms by (simp add: replay_def replay_publics_def m steps1 Let_def)
qed

lemma verdicts1:
  "any_broken [check_claim claim1 (shape_read new_recorder)]"
  "check_claim claim1 (shape_read (record_gesture (GPlanted x) (record_gesture (GAttach m att) new_recorder))) = held claim1"
  by (simp_all add: claim1_def shape_read_def new_recorder_def check_carries_def interface_names_def iface_at_def eth0_def carries_match_def
      any_broken_def)

lemma repair_witness:
  "\<exists>w' res' page vs. check_machine (on_audited watched_driver reconciler1) member0 [] book0 = (w', res') \<and> calls w' = page \<and>
     checked watched_driver reconciler1 member0 [] (w_host book0) page vs True \<and>
     w_tally w' = Some \<lparr>vf_held = 1, vf_broken = 0, vf_unreadable = 0, vf_repaired = 1\<rparr> \<and> rt_get res' verified_key = ''held''"
proof -
  obtain w' res' where c: "check_machine (on_audited watched_driver reconciler1) member0 [] book0 = (w', res')" by fastforce
  have t: "w_tally w' = Some \<lparr>vf_held = 1, vf_broken = 0, vf_unreadable = 0, vf_repaired = 1\<rparr>" and h: "rt_get res' verified_key = ''held''"
    using c verdicts1
    by (auto simp: check_machine_def verify1 replay1 gentle1 book0_def new_world_def new_recorder_def publish_def count_verdicts_def
        tally_count_def any_broken_def summary_def Let_def)
  obtain page vs repaired where p: "calls w' = calls book0 @ page" "checked watched_driver reconciler1 member0 [] (w_host book0) page vs repaired"
    "w_tally w' = map_option (tally_count vs repaired) (w_tally book0)"
    using a_repair_is_attempted_once_and_counted [OF gentle1(1,2) c] by blast
  have "repaired" using p(3) t by (cases repaired) (auto simp: book0_def dest: arg_cong [of _ _ vf_repaired])
  moreover have "calls book0 = []" by (simp add: calls_def book0_def new_world_def)
  ultimately show ?thesis using c p(1,2) t h by auto
qed

end
