(* ===== verification/Requests.thy ===== *)
theory Requests
  imports Prelude
begin

text \<open>
  Requests in flight. A handler is a tree of atomic steps over the state the packs
  share: a method of the store is one step, and so is a call of the machine layer;
  between two steps of one handler any step of another may come. One lock is named
  (a pack's addressing lock, \<open>serialise.Lock\<close> of \<open>internal/core/serialise\<close>); a
  handler that wants it while somebody holds it waits. Then the rule that carries an
  invariant from the handlers to every interleaving of them, and the rule that such
  handlers can always be answered.
\<close>

section \<open>Handlers\<close>

datatype ('s, 'a) handler =
    Done 'a
  | Act "'s \<Rightarrow> ('s, 'a) handler \<times> 's"
  | Acquire "('s, 'a) handler"
  | Release "('s, 'a) handler"

text \<open>A handler nobody disturbs.\<close>

primrec run :: "('s, 'a) handler \<Rightarrow> 's \<Rightarrow> 's \<times> 'a" where
  "run (Done a) = (\<lambda>s. (s, a))"
| "run (Act g) = (\<lambda>s. let x = (map_prod run id \<circ> g) s in fst x (snd x))"
| "run (Acquire p) = run p"
| "run (Release p) = run p"

lemma run_Act: "run (Act g) s = (case g s of (p, s') \<Rightarrow> run p s')"
  by (simp split: prod.split)

lemmas run_simps [simp] = run.simps(1) run_Act run.simps(3,4)
declare run.simps(2) [simp del]

text \<open>\<open>defer unlock()\<close>: the lock is given back when the handler is through, answer included.\<close>

primrec deferred :: "('s, 'a) handler \<Rightarrow> ('s, 'a) handler" where
  "deferred (Done a) = Release (Done a)"
| "deferred (Act g) = Act (map_prod deferred id \<circ> g)"
| "deferred (Acquire p) = Acquire (deferred p)"
| "deferred (Release p) = Release (deferred p)"

text \<open>
  The requests in flight, each with whether it holds the lock, over one state; a turn
  is the next step of one of them, if it can take it.
\<close>

type_synonym ('s, 'a) pool = "(('s, 'a) handler \<times> bool) list \<times> 's"

definition lock_taken :: "(('s, 'a) handler \<times> bool) list \<Rightarrow> bool" where
  "lock_taken ts = list_ex snd ts"

definition turn :: "nat \<Rightarrow> ('s, 'a) pool \<Rightarrow> ('s, 'a) pool" where
  "turn i x =
     (case x of (ts, s) \<Rightarrow>
        (if i \<ge> length ts then (ts, s)
         else
           (case ts ! i of
              (Done a, h) \<Rightarrow> (ts, s)
            | (Act g, h) \<Rightarrow> (case g s of (p, s') \<Rightarrow> (ts[i := (p, h)], s'))
            | (Acquire p, h) \<Rightarrow> (if lock_taken ts then (ts, s) else (ts[i := (p, True)], s))
            | (Release p, h) \<Rightarrow> (ts[i := (p, False)], s))))"

definition turns :: "nat list \<Rightarrow> ('s, 'a) pool \<Rightarrow> ('s, 'a) pool" where
  "turns schedule x = fold turn schedule x"

definition in_flight :: "('s, 'a) handler list \<Rightarrow> 's \<Rightarrow> ('s, 'a) pool" where
  "in_flight hs s = (map (\<lambda>p. (p, False)) hs, s)"

definition answers :: "('s, 'a) pool \<Rightarrow> 'a option list" where
  "answers x = map (\<lambda>(p, h). case p of Done a \<Rightarrow> Some a | _ \<Rightarrow> None) (fst x)"

section \<open>What a handler keeps\<close>

text \<open>
  \<open>keeps Inv Env z p h s\<close>: from \<open>s\<close> on, whatever the others do in between, every step
  of \<open>p\<close> keeps \<open>Inv\<close>, and a step taken without the lock is one of \<open>Env\<close>, which is all
  a holder of the lock has to expect of the others; the lock is taken and given back
  in turn, and \<open>z\<close> says whether \<open>p\<close> ends with it: no whole handler does, the body of
  a \<open>defer unlock()\<close> does.
\<close>

primrec keeps :: "('s \<Rightarrow> bool) \<Rightarrow> ('s \<Rightarrow> 's \<Rightarrow> bool) \<Rightarrow> bool \<Rightarrow> ('s, 'a) handler \<Rightarrow> bool \<Rightarrow> 's \<Rightarrow> bool" where
  "keeps Inv Env z (Done a) = (\<lambda>h s. h = z)"
| "keeps Inv Env z (Act g) = (\<lambda>h s. \<forall>s'. Inv s' \<and> (h \<longrightarrow> Env s s') \<longrightarrow>
     (let x = (map_prod (keeps Inv Env z) id \<circ> g) s'
      in Inv (snd x) \<and> (h \<or> Env s' (snd x)) \<and> fst x h (snd x)))"
| "keeps Inv Env z (Acquire p) = (\<lambda>h s. \<not> h \<and> (\<forall>s'. Inv s' \<longrightarrow> keeps Inv Env z p True s'))"
| "keeps Inv Env z (Release p) = (\<lambda>h s. h \<and> keeps Inv Env z p False s)"

lemma keeps_Act:
  "keeps Inv Env z (Act g) h s \<longleftrightarrow>
     (\<forall>s'. Inv s' \<and> (h \<longrightarrow> Env s s') \<longrightarrow>
        Inv (snd (g s')) \<and> (h \<or> Env s' (snd (g s'))) \<and> keeps Inv Env z (fst (g s')) h (snd (g s')))"
  by (simp add: Let_def)

lemmas keeps_simps [simp] = keeps.simps(1) keeps_Act keeps.simps(3,4)
declare keeps.simps(2) [simp del]

text \<open>The same without the two arguments a handler outside the lock does not look at.\<close>

lemma keeps_free: "keeps Inv Env z p False s \<longleftrightarrow> keeps Inv Env z p False s'"
  by (cases p) simp_all

lemma keeps_deferred: "keeps Inv Env True p h s \<Longrightarrow> keeps Inv Env False (deferred p) h s"
proof (induction p arbitrary: h s)
  case (Act g)
  then show ?case by (simp add: keeps_Act) (metis fsts.intros prod.collapse rangeI)
qed auto

text \<open>The lock has at most one holder.\<close>

lemma one_holder_update:
  assumes "length (filter snd ts) \<le> 1" "i < length ts" "h' \<longrightarrow> snd (ts ! i) \<or> \<not> lock_taken ts"
  shows "length (filter snd (ts[i := (p, h')])) \<le> 1"
proof -
  have "\<not> lock_taken ts \<Longrightarrow> filter snd ts = []"
    by (auto simp: lock_taken_def list_ex_iff filter_empty_conv)
  then show ?thesis using assms length_filter_update [of i ts snd "(p, h')"] by (cases h'; cases "snd (ts ! i)") auto
qed

lemma holder_alone:
  assumes "length (filter snd ts) \<le> 1" "i < length ts" "snd (ts ! i)" "j < length ts" "snd (ts ! j)"
  shows "i = j"
proof (rule ccontr)
  assume "i \<noteq> j"
  then have "{i, j} \<subseteq> {k. k < length ts \<and> snd (ts ! k)}" "card {i, j} = 2" using assms by auto
  then have "2 \<le> card {k. k < length ts \<and> snd (ts ! k)}" by (metis card_mono finite_Collect_conjI finite_Collect_less_nat)
  then show False using assms(1) by (simp add: length_filter_conv_card)
qed

locale shared_plane =
  fixes Inv :: "'a \<Rightarrow> bool" and Env :: "'a \<Rightarrow> 'a \<Rightarrow> bool"
  assumes env_refl: "Env s s"
    and env_trans: "Env s t \<Longrightarrow> Env t u \<Longrightarrow> Env s u"
begin

lemma keeps_later: "keeps Inv Env z p h s \<Longrightarrow> (h \<Longrightarrow> Env s t) \<Longrightarrow> keeps Inv Env z p h t"
proof (induction p arbitrary: h s t)
  case (Act g)
  then show ?case using env_trans by (simp add: keeps_Act) blast
qed auto

text \<open>At most one request holds the lock, and every one keeps its word from here on.\<close>

definition orderly :: "('a, 'b) pool \<Rightarrow> bool" where
  "orderly x \<longleftrightarrow> (case x of (ts, s) \<Rightarrow>
     Inv s \<and> length (filter snd ts) \<le> 1 \<and> (\<forall>(p, h)\<in>set ts. keeps Inv Env False p h s))"

lemma orderly_step:
  assumes o: "orderly (ts, s)" and i: "i < length ts" "ts ! i = (p, h)"
    and inv: "Inv s'" and mine: "keeps Inv Env False p' h' s'" and env: "\<not> h \<Longrightarrow> Env s s'"
    and lock: "h' \<longrightarrow> h \<or> \<not> lock_taken ts"
  shows "orderly (ts[i := (p', h')], s')"
proof -
  have one: "length (filter snd ts) \<le> 1" using o by (simp add: orderly_def)
  have "keeps Inv Env False q k s'" if "j < length ts" "j \<noteq> i" "ts ! j = (q, k)" for j q k
  proof -
    have "keeps Inv Env False q k s" using o that by (force simp: orderly_def dest: nth_mem)
    then show ?thesis
    proof (rule keeps_later)
      assume k
      then have "\<not> h" using holder_alone [OF one, of i j] i that by auto
      then show "Env s s'" by (rule env)
    qed
  qed
  then have "\<forall>(q, k)\<in>set (ts[i := (p', h')]). keeps Inv Env False q k s'"
    using mine i by (auto simp: in_set_conv_nth nth_list_update split: if_splits)
  then show ?thesis using inv one_holder_update [OF one i(1), of h' p'] lock i by (simp add: orderly_def)
qed

lemma orderly_turn: "orderly x \<Longrightarrow> orderly (turn i x)"
proof (cases x)
  case (Pair ts s)
  assume x: "orderly x"
  show ?thesis
  proof (cases "i < length ts")
    case True
    obtain p h where i: "ts ! i = (p, h)" by fastforce
    have k: "keeps Inv Env False p h s" using x True i Pair by (force simp: orderly_def dest: nth_mem)
    note step = orderly_step [OF x [unfolded Pair] True i]
    have inv: "Inv s" using x Pair by (simp add: orderly_def)
    show ?thesis
    proof (cases p)
      case (Act g)
      obtain p' s' where g: "g s = (p', s')" by fastforce
      have "Inv s' \<and> (h \<or> Env s s') \<and> keeps Inv Env False p' h s'"
        using k Act g inv env_refl by (auto simp: keeps_Act)
      then show ?thesis using step [of s' p' h] x Pair True i Act g by (auto simp: turn_def)
    next
      case (Acquire q)
      then show ?thesis using step [of s q True] x Pair True i k inv env_refl by (auto simp: turn_def)
    next
      case (Release q)
      then show ?thesis using step [of s q False] x Pair True i k inv env_refl by (auto simp: turn_def)
    qed (use x Pair True i in \<open>simp add: turn_def\<close>)
  qed (use x Pair in \<open>simp add: turn_def\<close>)
qed

lemma orderly_turns: "orderly x \<Longrightarrow> orderly (turns schedule x)"
  by (induction schedule arbitrary: x) (simp_all add: turns_def orderly_turn)

text \<open>What every handler keeps, every interleaving of them keeps.\<close>

lemma plane_holds:
  assumes "Inv s" and "\<And>p. p \<in> set hs \<Longrightarrow> keeps Inv Env False p False s"
  shows "Inv (snd (turns schedule (in_flight hs s)))"
proof -
  have "orderly (in_flight hs s)" using assms by (auto simp: orderly_def in_flight_def)
  then have "orderly (turns schedule (in_flight hs s))" by (rule orderly_turns)
  then show ?thesis by (auto simp: orderly_def split: prod.splits)
qed

text \<open>
  Nobody waits for ever: whatever has happened, the holder of the lock can finish, and
  after it every other request in turn.
\<close>

lemma finish_one:
  assumes "orderly (ts, s)" "i < length ts" "ts ! i = (p, h)" "\<And>j. j < length ts \<Longrightarrow> j \<noteq> i \<Longrightarrow> \<not> snd (ts ! j)"
  shows "\<exists>n b s'. turns (replicate n i) (ts, s) = (ts[i := (Done b, False)], s')"
  using assms
proof (induction p arbitrary: ts s h)
  case (Done b)
  then have "\<not> h" by (force simp: orderly_def dest: nth_mem)
  with Done have "ts[i := (Done b, False)] = ts" by (metis list_update_id)
  then show ?case by (intro exI [of _ 0] exI [of _ b] exI [of _ s]) (simp add: turns_def)
next
  case (Act g)
  obtain p' s' where g: "g s = (p', s')" by fastforce
  have t: "turn i (ts, s) = (ts[i := (p', h)], s')" using Act.prems g by (simp add: turn_def)
  have "\<exists>n b u. turns (replicate n i) (ts[i := (p', h)], s') = ((ts[i := (p', h)])[i := (Done b, False)], u)"
    by (rule Act.IH [of "g s" p', OF rangeI]) (use g Act.prems orderly_turn [of "(ts, s)" i] t in \<open>auto simp: nth_list_update\<close>)
  then obtain n b u where "turns (replicate n i) (ts[i := (p', h)], s') = (ts[i := (Done b, False)], u)" by auto
  then have "turns (replicate (Suc n) i) (ts, s) = (ts[i := (Done b, False)], u)" by (simp add: turns_def t)
  then show ?case by blast
next
  case (Acquire q)
  have "\<not> h" using Acquire.prems by (force simp: orderly_def dest: nth_mem)
  then have "\<not> lock_taken ts"
    using Acquire.prems by (auto simp: lock_taken_def list_ex_iff in_set_conv_nth) (metis snd_conv)
  then have t: "turn i (ts, s) = (ts[i := (q, True)], s)" using Acquire.prems by (simp add: turn_def)
  have "\<exists>n b u. turns (replicate n i) (ts[i := (q, True)], s) = ((ts[i := (q, True)])[i := (Done b, False)], u)"
    by (rule Acquire.IH) (use Acquire.prems orderly_turn [of "(ts, s)" i] t in \<open>auto simp: nth_list_update\<close>)
  then obtain n b u where "turns (replicate n i) (ts[i := (q, True)], s) = (ts[i := (Done b, False)], u)" by auto
  then have "turns (replicate (Suc n) i) (ts, s) = (ts[i := (Done b, False)], u)" by (simp add: turns_def t)
  then show ?case by blast
next
  case (Release q)
  have t: "turn i (ts, s) = (ts[i := (q, False)], s)" using Release.prems by (simp add: turn_def)
  have "\<exists>n b u. turns (replicate n i) (ts[i := (q, False)], s) = ((ts[i := (q, False)])[i := (Done b, False)], u)"
    by (rule Release.IH) (use Release.prems orderly_turn [of "(ts, s)" i] t in \<open>auto simp: nth_list_update\<close>)
  then obtain n b u where "turns (replicate n i) (ts[i := (q, False)], s) = (ts[i := (Done b, False)], u)" by auto
  then have "turns (replicate (Suc n) i) (ts, s) = (ts[i := (Done b, False)], u)" by (simp add: turns_def t)
  then show ?case by blast
qed

lemma turns_append: "turns (xs @ ys) x = turns ys (turns xs x)"
  by (simp add: turns_def)

lemma finish_all: "orderly (ts, s) \<Longrightarrow> \<exists>schedule. None \<notin> set (answers (turns schedule (ts, s)))"
proof (induction "length (filter (\<lambda>b. b = None) (answers (ts, s)))" arbitrary: ts s rule: less_induct)
  case less
  show ?case
  proof (cases "None \<in> set (answers (ts, s))")
    case False
    then show ?thesis by (intro exI [of _ "[]"]) (simp add: turns_def)
  next
    case some: True
    let ?busy = "\<lambda>i. i < length ts \<and> answers (ts, s) ! i = None"
    have done_free: "\<not> snd (ts ! j)" if "j < length ts" "\<not> ?busy j" for j
      using that less.prems by (cases "ts ! j"; cases "fst (ts ! j)"; force simp: orderly_def answers_def dest: nth_mem)
    obtain i where i: "?busy i" and alone: "\<And>j. j < length ts \<Longrightarrow> j \<noteq> i \<Longrightarrow> \<not> snd (ts ! j)"
    proof (cases "lock_taken ts")
      case True
      then obtain i where h: "i < length ts" "snd (ts ! i)" by (auto simp: lock_taken_def list_ex_iff in_set_conv_nth)
      with done_free have "?busy i" by blast
      moreover have "\<not> snd (ts ! j)" if "j < length ts" "j \<noteq> i" for j
        using holder_alone [of ts i j] less.prems h that by (auto simp: orderly_def)
      ultimately show ?thesis using that by blast
    next
      case False
      have "length (answers (ts, s)) = length ts" by (simp add: answers_def)
      then obtain i where "?busy i" using some by (metis in_set_conv_nth)
      with False that show ?thesis by (auto simp: lock_taken_def list_ex_iff)
    qed
    obtain p h where ph: "ts ! i = (p, h)" by fastforce
    obtain n b s' where t: "turns (replicate n i) (ts, s) = (ts[i := (Done b, False)], s')"
      using finish_one [OF less.prems _ ph alone] i by blast
    let ?as = "answers (ts, s)" and ?bs = "answers (ts[i := (Done b, False)], s')"
    have bs: "?bs = ?as[i := Some b]" by (simp add: answers_def map_update)
    have "length (filter (\<lambda>b. b = None) ?bs) < length (filter (\<lambda>b. b = None) ?as)"
    proof -
      have "length ?as = length ts" by (simp add: answers_def)
      with length_filter_update [of i ?as "\<lambda>b. b = None" "Some b"] i show ?thesis unfolding bs by simp
    qed
    moreover have "orderly (ts[i := (Done b, False)], s')" using orderly_turns [OF less.prems, of "replicate n i"] t by simp
    ultimately obtain schedule where "None \<notin> set (answers (turns schedule (ts[i := (Done b, False)], s')))"
      using less.hyps by blast
    then show ?thesis using t turns_append by metis
  qed
qed

lemma plane_answers:
  assumes "Inv s" and "\<And>p. p \<in> set hs \<Longrightarrow> keeps Inv Env False p False s"
  shows "\<exists>more. None \<notin> set (answers (turns (schedule @ more) (in_flight hs s)))"
proof -
  have "orderly (in_flight hs s)" using assms by (auto simp: orderly_def in_flight_def)
  from orderly_turns [OF this, of schedule] finish_all show ?thesis
    by (metis prod.collapse turns_append)
qed

end

end
