(* ===== verification/Outscale.thy ===== *)
theory Outscale
  imports Requests StoreSpec Ipam GroupSync Json
begin

text \<open>
  The ground of the Outscale pack (\<open>internal/providers/outscale\<close>): what a handler of
  it reads and writes, the answers, the filters and the page bounds every \<open>Read\<close>
  action shares, tags, identifiers, and the allocator of a Subnet. A handler is a
  tree of atomic steps (Requests.thy): one per call of the store, of the clock, of
  the identifier source and of the machine layer. Answers keep their status, the code
  and type of an error and the fields of the body; the human text of an error is not
  modelled.
\<close>

section \<open>The pack and its state\<close>

record 'h osc_env =
  oe_seed :: "nat \<Rightarrow> string"
  oe_binding :: "'h binding"
  oe_digest :: "string \<Rightarrow> string"
  oe_date :: "int \<Rightarrow> string"
  oe_region :: string
  oe_subregions :: "string list"
  oe_default_subregion :: string

record 'h osc =
  os_store :: store
  os_world :: "'h world"
  os_drawn :: nat
  os_clock :: int

record answer =
  an_status :: nat
  an_error :: "(string \<times> string) option"
  an_fields :: "string \<rightharpoonup> attr"

type_synonym 'h reply = "('h osc, answer) handler"

definition pack_name :: string where
  "pack_name = ''outscale''"

definition osc_tenant :: tenant where
  "osc_tenant = \<lparr>provider = pack_name, project = [], zone = []\<rparr>"

definition kindVM :: string where "kindVM = ''vm''"
definition kindNet :: string where "kindNet = ''net''"
definition kindSubnet :: string where "kindSubnet = ''subnet''"
definition kindNic :: string where "kindNic = ''nic''"
definition kindLoadBalancer :: string where "kindLoadBalancer = ''loadbalancer''"
definition kindNatService :: string where "kindNatService = ''natservice''"
definition kindInternetService :: string where "kindInternetService = ''internetservice''"
definition kindRouteTable :: string where "kindRouteTable = ''routetable''"
definition kindSecurityGroup :: string where "kindSecurityGroup = ''securitygroup''"
definition kindNetPeering :: string where "kindNetPeering = ''netpeering''"
definition kindDhcpOptions :: string where "kindDhcpOptions = ''dhcpoptions''"

lemmas kinds = kindVM_def kindNet_def kindSubnet_def kindNic_def kindLoadBalancer_def kindNatService_def
  kindInternetService_def kindRouteTable_def kindSecurityGroup_def kindNetPeering_def kindDhcpOptions_def pack_name_def

definition account_id :: string where
  "account_id = ''000000000001''"

section \<open>Reading attributes\<close>

definition string_of :: "attr option \<Rightarrow> string" where
  "string_of v = (case v of Some (AString s) \<Rightarrow> s | _ \<Rightarrow> [])"

definition list_of :: "attr option \<Rightarrow> attr list" where
  "list_of v = (case v of Some (AList xs) \<Rightarrow> xs | _ \<Rightarrow> [])"

definition fields_of :: "attr \<Rightarrow> string \<Rightarrow> attr option" where
  "fields_of v = (case v of AMap m \<Rightarrow> m | _ \<Rightarrow> Map.empty)"

definition bool_of :: "attr option \<Rightarrow> bool" where
  "bool_of v = (case v of Some (ABool b) \<Rightarrow> b | _ \<Rightarrow> False)"

definition strings_of :: "attr option \<Rightarrow> string list" where
  "strings_of v = List.map_filter (\<lambda>x. case x of AString s \<Rightarrow> Some s | _ \<Rightarrow> None) (list_of v)"

definition or_default :: "string \<Rightarrow> string \<Rightarrow> string" where
  "or_default v fallback = (if v = [] then fallback else v)"

definition bool_or :: "bool option \<Rightarrow> bool \<Rightarrow> bool" where
  "bool_or v fallback = option_or fallback v"

definition prefix_of :: "resource \<Rightarrow> string \<Rightarrow> cidr_error + prefix" where
  "prefix_of res k = parse_cidr (string_of (attrs res k))"

lemma reading_simps [simp]:
  "string_of (Some (AString s)) = s" "string_of None = []" "list_of (Some (AList xs)) = xs" "list_of None = []"
  "fields_of (AMap m) = m" "bool_of (Some (ABool b)) = b" "bool_of None = False"
  by (simp_all add: string_of_def list_of_def fields_of_def bool_of_def)

section \<open>Identifiers\<close>

definition id_len :: nat where
  "id_len = 8"

definition hex_of :: "string \<Rightarrow> nat \<Rightarrow> string" where
  "hex_of seed n =
     (let trimmed = filter (\<lambda>c. c \<noteq> CHR ''-'') seed in
      if length trimmed < n then trimmed @ replicate (n - length trimmed) CHR ''0'' else take n trimmed)"

definition new_id :: "string \<Rightarrow> string \<Rightarrow> string" where
  "new_id pre seed = pre @ ''-'' @ hex_of seed id_len"

lemma length_hex_of [simp]: "length (hex_of seed n) = n"
  by (simp add: hex_of_def Let_def)

section \<open>The steps of a handler\<close>

definition do_get :: "string \<Rightarrow> string \<Rightarrow> (resource option \<Rightarrow> 'h reply) \<Rightarrow> 'h reply" where
  "do_get k i f = Act (\<lambda>x. case get (os_store x) pack_name k i of (s, r) \<Rightarrow> (f r, x\<lparr>os_store := s\<rparr>))"

definition do_list :: "string \<Rightarrow> (resource list \<Rightarrow> 'h reply) \<Rightarrow> 'h reply" where
  "do_list k f = Act (\<lambda>x. case list_res (os_store x) k osc_tenant of (s, rs) \<Rightarrow> (f rs, x\<lparr>os_store := s\<rparr>))"

definition do_put :: "resource \<Rightarrow> 'h reply \<Rightarrow> 'h reply" where
  "do_put r p = Act (\<lambda>x. (p, x\<lparr>os_store := put (os_store x) r\<rparr>))"

definition do_delete :: "string \<Rightarrow> string \<Rightarrow> 'h reply \<Rightarrow> 'h reply" where
  "do_delete k i p = Act (\<lambda>x. (p, x\<lparr>os_store := fst (delete (os_store x) pack_name k i)\<rparr>))"

text \<open>
  \<open>Store.Update\<close>: the change runs under the store's lock, on the stored resource and
  at the moment the clock shows; the handler goes on with the refusal the change
  answered, or with the resource as written.
\<close>

definition do_update ::
  "string \<Rightarrow> string \<Rightarrow> (int \<Rightarrow> resource \<Rightarrow> 'e + resource) \<Rightarrow> ('e store_error + resource \<Rightarrow> 'h reply) \<Rightarrow> 'h reply" where
  "do_update k i change f = Act (\<lambda>x.
     case update_res (os_store x) pack_name k i (change (os_clock x)) of
       (s, Some e) \<Rightarrow> (f (Inl e), x\<lparr>os_store := s\<rparr>)
     | (s, None) \<Rightarrow>
         (f (case map_of (items s) (key pack_name k i) of None \<Rightarrow> Inl ErrNotFound | Some r \<Rightarrow> Inr r), x\<lparr>os_store := s\<rparr>))"

definition do_commit :: "resource \<Rightarrow> resource \<Rightarrow> (bool \<Rightarrow> 'h reply) \<Rightarrow> 'h reply" where
  "do_commit base res f = Act (\<lambda>x. case commit (os_store x) base res (os_clock x) of (s, ok) \<Rightarrow> (f ok, x\<lparr>os_store := s\<rparr>))"

definition do_now :: "(int \<Rightarrow> 'h reply) \<Rightarrow> 'h reply" where
  "do_now f = Act (\<lambda>x. (f (os_clock x), x))"

definition do_seed :: "'h osc_env \<Rightarrow> (string \<Rightarrow> 'h reply) \<Rightarrow> 'h reply" where
  "do_seed e f = Act (\<lambda>x. (f (oe_seed e (os_drawn x)), x\<lparr>os_drawn := os_drawn x + 1\<rparr>))"

definition do_world :: "('h world \<Rightarrow> 'h world \<times> 'b) \<Rightarrow> ('b \<Rightarrow> 'h reply) \<Rightarrow> 'h reply" where
  "do_world g f = Act (\<lambda>x. case g (os_world x) of (w, b) \<Rightarrow> (f b, x\<lparr>os_world := w\<rparr>))"

lemmas steps = do_get_def do_list_def do_put_def do_delete_def do_update_def do_commit_def do_now_def do_seed_def do_world_def

section \<open>Answers\<close>

definition osc_context :: "string \<Rightarrow> attr" where
  "osc_context seed = AMap [''RequestId'' \<mapsto> AString seed]"

definition answer_with :: "'h osc_env \<Rightarrow> nat \<Rightarrow> (string \<times> string) option \<Rightarrow> (string \<rightharpoonup> attr) \<Rightarrow> 'h reply" where
  "answer_with e status err body =
     do_seed e (\<lambda>seed. Done \<lparr>an_status = status, an_error = err, an_fields = body(''ResponseContext'' \<mapsto> osc_context seed)\<rparr>)"

definition ok :: "'h osc_env \<Rightarrow> (string \<rightharpoonup> attr) \<Rightarrow> 'h reply" where
  "ok e body = answer_with e 200 None body"

definition bad_request :: "'h osc_env \<Rightarrow> 'h reply" where
  "bad_request e = answer_with e 400 (Some (''4001'', ''InvalidParameterValue'')) Map.empty"

definition not_found :: "'h osc_env \<Rightarrow> 'h reply" where
  "not_found e = answer_with e 400 (Some (''5063'', ''InvalidResource'')) Map.empty"

definition conflict :: "'h osc_env \<Rightarrow> 'h reply" where
  "conflict e = answer_with e 409 (Some (''9029'', ''ResourceConflict'')) Map.empty"

text \<open>A body that does not decode is refused before anything else is done.\<close>

definition decoded :: "'h osc_env \<Rightarrow> 'r option \<Rightarrow> ('r \<Rightarrow> 'h reply) \<Rightarrow> 'h reply" where
  "decoded e req h = (case req of None \<Rightarrow> bad_request e | Some r \<Rightarrow> h r)"

text \<open>A dry run is answered where the route is mounted and reaches no handler.\<close>

definition dry_runnable :: "'h osc_env \<Rightarrow> bool option \<Rightarrow> 'h reply \<Rightarrow> 'h reply" where
  "dry_runnable e dry h = (if dry \<noteq> Some True then h else ok e Map.empty)"

section \<open>Filters\<close>

text \<open>The filters of a request as decoded, a value each; only reading one gives it a type.\<close>

type_synonym filter_set = "(string \<times> json) list"

datatype filter_kind = StringList | IntList | Boolean

record filter_spec =
  fs_name :: string
  fs_kind :: filter_kind

definition specs_of_kind :: "filter_kind \<Rightarrow> string list \<Rightarrow> filter_spec list" where
  "specs_of_kind k names = map (\<lambda>n. \<lparr>fs_name = n, fs_kind = k\<rparr>) names"

definition string_filters :: "string list \<Rightarrow> filter_spec list" where
  "string_filters names = specs_of_kind StringList names"

definition int_filters :: "string list \<Rightarrow> filter_spec list" where
  "int_filters names = specs_of_kind IntList names"

definition bool_filters :: "string list \<Rightarrow> filter_spec list" where
  "bool_filters names = specs_of_kind Boolean names"

definition taggable_filters :: "filter_spec list" where
  "taggable_filters = string_filters [''Tags'', ''TagKeys'', ''TagValues'']"

text \<open>What \<open>json.Unmarshal\<close> makes of a value for the three destinations; null is the zero value.\<close>

definition int_literal :: "string \<Rightarrow> int option" where
  "int_literal t =
     (let (sign, digits) = (case t of CHR ''-'' # r \<Rightarrow> (- 1, r) | _ \<Rightarrow> (1, t)) in
      if digits = [] \<or> \<not> list_all is_digit digits then None
      else
        (let v = sign * int (dec_val digits)
         in if v < - (2 ^ 63) \<or> v > 2 ^ 63 - 1 then None else Some v))"

definition decode_string :: "json \<Rightarrow> string option" where
  "decode_string j = (case j of JString s \<Rightarrow> Some s | JNull \<Rightarrow> Some [] | _ \<Rightarrow> None)"

definition decode_int :: "json \<Rightarrow> int option" where
  "decode_int j = (case j of JNumber t \<Rightarrow> int_literal t | JNull \<Rightarrow> Some 0 | _ \<Rightarrow> None)"

definition decode_list :: "(json \<Rightarrow> 'b option) \<Rightarrow> json \<Rightarrow> 'b list option" where
  "decode_list f j =
     (case j of
        JArray xs \<Rightarrow> (if list_all (\<lambda>x. f x \<noteq> None) xs then Some (List.map_filter f xs) else None)
      | JNull \<Rightarrow> Some []
      | _ \<Rightarrow> None)"

definition decode_bool :: "json \<Rightarrow> bool option" where
  "decode_bool j = (case j of JBool b \<Rightarrow> Some b | JNull \<Rightarrow> Some False | _ \<Rightarrow> None)"

text \<open>The three answers of reading a filter.\<close>

datatype 'b reading = NotSent | Unreadable_filter | Sent 'b

definition read_as :: "(json \<Rightarrow> 'b option) \<Rightarrow> filter_set \<Rightarrow> string \<Rightarrow> 'b reading" where
  "read_as f fs name =
     (case map_of fs name of
        None \<Rightarrow> NotSent
      | Some raw \<Rightarrow> (case f raw of None \<Rightarrow> Unreadable_filter | Some v \<Rightarrow> Sent v))"

definition filter_strings :: "filter_set \<Rightarrow> string \<Rightarrow> string list reading" where
  "filter_strings fs name = read_as (decode_list decode_string) fs name"

definition filter_ints :: "filter_set \<Rightarrow> string \<Rightarrow> int list reading" where
  "filter_ints fs name = read_as (decode_list decode_int) fs name"

definition filter_boolean :: "filter_set \<Rightarrow> string \<Rightarrow> bool reading" where
  "filter_boolean fs name = read_as decode_bool fs name"

definition filter_read :: "filter_set \<Rightarrow> filter_spec \<Rightarrow> unit reading" where
  "filter_read fs spec =
     (case fs_kind spec of
        IntList \<Rightarrow> (case filter_ints fs (fs_name spec) of NotSent \<Rightarrow> NotSent | Unreadable_filter \<Rightarrow> Unreadable_filter | Sent v \<Rightarrow> Sent ())
      | Boolean \<Rightarrow> (case filter_boolean fs (fs_name spec) of NotSent \<Rightarrow> NotSent | Unreadable_filter \<Rightarrow> Unreadable_filter | Sent v \<Rightarrow> Sent ())
      | StringList \<Rightarrow> (case filter_strings fs (fs_name spec) of NotSent \<Rightarrow> NotSent | Unreadable_filter \<Rightarrow> Unreadable_filter | Sent v \<Rightarrow> Sent ()))"

definition unsupported :: "filter_set \<Rightarrow> filter_spec list \<Rightarrow> string list" where
  "unsupported fs specs = sort (filter (\<lambda>n. n \<notin> set (map fs_name specs)) (map fst fs))"

definition unreadable_filters :: "filter_set \<Rightarrow> filter_spec list \<Rightarrow> filter_spec list" where
  "unreadable_filters fs specs = sort_key fs_name (filter (\<lambda>s. filter_read fs s = Unreadable_filter) specs)"

definition refuse_filters :: "filter_set \<Rightarrow> filter_spec list \<Rightarrow> bool" where
  "refuse_filters fs specs =
     (if unsupported fs specs \<noteq> [] then True
      else if unreadable_filters fs specs \<noteq> [] then True
      else False)"

definition matches_any :: "filter_set \<Rightarrow> string \<Rightarrow> string list \<Rightarrow> bool" where
  "matches_any fs name vals =
     (case filter_strings fs name of
        Unreadable_filter \<Rightarrow> False
      | NotSent \<Rightarrow> True
      | Sent wanted \<Rightarrow> list_ex (\<lambda>c. list_ex (\<lambda>v. c = v) vals) wanted)"

definition matches_string :: "filter_set \<Rightarrow> string \<Rightarrow> string \<Rightarrow> bool" where
  "matches_string fs name v = matches_any fs name [v]"

definition matches_ints :: "filter_set \<Rightarrow> string \<Rightarrow> int list \<Rightarrow> bool" where
  "matches_ints fs name vals =
     (case filter_ints fs name of
        Unreadable_filter \<Rightarrow> False
      | NotSent \<Rightarrow> True
      | Sent wanted \<Rightarrow> list_ex (\<lambda>c. list_ex (\<lambda>v. c = v) vals) wanted)"

definition matches_bool :: "filter_set \<Rightarrow> string \<Rightarrow> bool \<Rightarrow> bool" where
  "matches_bool fs name v =
     (case filter_boolean fs name of
        Unreadable_filter \<Rightarrow> False
      | NotSent \<Rightarrow> True
      | Sent wanted \<Rightarrow> wanted = v)"

section \<open>Tags\<close>

text \<open>A Go map from key to value; the order it is walked in shows in no answer.\<close>

definition tags_of :: "resource \<Rightarrow> (string \<times> string) list" where
  "tags_of res =
     fold (\<lambda>entry out.
         (let k = string_of (fields_of entry ''Key''); v = string_of (fields_of entry ''Value'')
          in if k \<noteq> [] then AList.update k v out else out))
       (list_of (attrs res ''Tags'')) []"

definition tags_list :: "(string \<times> string) list \<Rightarrow> attr list" where
  "tags_list tags =
     map (\<lambda>k. AMap [''Key'' \<mapsto> AString k, ''Value'' \<mapsto> AString (option_or [] (map_of tags k))]) (sort (map fst tags))"

definition any_of :: "string list \<Rightarrow> string list \<Rightarrow> bool" where
  "any_of wanted carried = list_ex (\<lambda>w. list_ex (\<lambda>g. g = w) carried) wanted"

definition matches_tags_of :: "filter_set \<Rightarrow> (string \<times> string) list \<Rightarrow> bool" where
  "matches_tags_of fs tags =
     ((case filter_strings fs ''Tags'' of Sent wanted \<Rightarrow> any_of wanted (map (\<lambda>(k, v). k @ ''='' @ v) tags) | _ \<Rightarrow> True) \<and>
      (case filter_strings fs ''TagKeys'' of Sent wanted \<Rightarrow> any_of wanted (map fst tags) | _ \<Rightarrow> True) \<and>
      (case filter_strings fs ''TagValues'' of Sent wanted \<Rightarrow> any_of wanted (map snd tags) | _ \<Rightarrow> True))"

definition matches_tags :: "filter_set \<Rightarrow> resource \<Rightarrow> bool" where
  "matches_tags fs res = matches_tags_of fs (tags_of res)"

section \<open>Pages\<close>

definition results_per_page_min :: int where "results_per_page_min = 1"
definition results_per_page_max :: int where "results_per_page_max = 1000"

definition refuse_page_size :: "int option \<Rightarrow> bool" where
  "refuse_page_size asked =
     (case asked of None \<Rightarrow> False | Some n \<Rightarrow> \<not> (n \<ge> results_per_page_min \<and> n \<le> results_per_page_max))"

definition page_size :: "int option \<Rightarrow> int" where
  "page_size asked = option_or 0 asked"

definition page :: "'b list \<Rightarrow> int \<Rightarrow> 'b list" where
  "page rows n = (if n \<le> 0 \<or> int (length rows) \<le> n then rows else take (nat n) rows)"

record read_request =
  rr_filters :: filter_set
  rr_per_page :: "int option"

text \<open>What every \<open>Read\<close> action does around its own list: the two refusals, then the page.\<close>

definition read_page ::
  "'h osc_env \<Rightarrow> filter_spec list \<Rightarrow> string \<Rightarrow> read_request option \<Rightarrow> (filter_set \<Rightarrow> (attr list \<Rightarrow> 'h reply) \<Rightarrow> 'h reply) \<Rightarrow> 'h reply" where
  "read_page e specs name req rows =
     decoded e req (\<lambda>r.
       if refuse_page_size (rr_per_page r) then bad_request e
       else if refuse_filters (rr_filters r) specs then bad_request e
       else rows (rr_filters r) (\<lambda>views. ok e [name \<mapsto> AList (page views (page_size (rr_per_page r)))]))"

section \<open>The allocator of a Subnet\<close>

definition reserved_per_subnet :: int where
  "reserved_per_subnet = 4"

definition state_terminated :: string where
  "state_terminated = ''terminated''"

definition gone :: "resource \<Rightarrow> bool" where
  "gone res \<longleftrightarrow> kind res = kindVM \<and> rstate res = state_terminated"

text \<open>\<open>_ = allocator.Reserve(taken)\<close> on a text that parses as an address.\<close>

definition reserve_text :: "string \<Rightarrow> allocator \<Rightarrow> allocator" where
  "reserve_text text a = (case parse_addr text of None \<Rightarrow> a | Some x \<Rightarrow> fst (reserve a x))"

definition secondary_addresses :: "resource \<Rightarrow> string list" where
  "secondary_addresses eni =
     sort (filter (\<lambda>a. a \<noteq> [])
       (map (\<lambda>entry. string_of (fields_of entry ''PrivateIp''))
         (filter (\<lambda>entry. (case entry of AMap m \<Rightarrow> \<not> bool_of (m ''IsPrimary'') | _ \<Rightarrow> False)) (list_of (attrs eni ''PrivateIps'')))))"

definition reserve_vms :: "string \<Rightarrow> resource list \<Rightarrow> allocator \<Rightarrow> allocator" where
  "reserve_vms subnet vms a =
     fold (\<lambda>vm a. if gone vm \<or> string_of (attrs vm ''SubnetId'') \<noteq> subnet then a
                  else reserve_text (string_of (attrs vm ''PrivateIp'')) a) vms a"

definition reserve_nics :: "string \<Rightarrow> resource list \<Rightarrow> allocator \<Rightarrow> allocator" where
  "reserve_nics subnet nics a =
     fold (\<lambda>eni a. if string_of (attrs eni ''SubnetId'') \<noteq> subnet then a
                   else fold reserve_text (string_of (attrs eni ''PrivateIp'') # secondary_addresses eni) a) nics a"

definition reserve_balancers :: "string \<Rightarrow> resource list \<Rightarrow> allocator \<Rightarrow> allocator" where
  "reserve_balancers subnet lbs a =
     fold (\<lambda>lb a. if subnet \<notin> set (strings_of (attrs lb ''Subnets'')) then a
                  else reserve_text (string_of (attrs lb ''PrivateIp'')) a) lbs a"

definition subnet_allocator :: "string \<Rightarrow> (allocator option \<Rightarrow> 'h reply) \<Rightarrow> 'h reply" where
  "subnet_allocator i f =
     do_get kindSubnet i (\<lambda>found.
       case found of
         None \<Rightarrow> f None
       | Some subnet \<Rightarrow>
           (case prefix_of subnet ''IpRange'' of
              Inl e \<Rightarrow> f None
            | Inr p \<Rightarrow>
                (case new_allocator p reserved_per_subnet of
                   Inl e \<Rightarrow> f None
                 | Inr a \<Rightarrow>
                     do_list kindVM (\<lambda>vms. do_list kindNic (\<lambda>nics. do_list kindLoadBalancer (\<lambda>lbs.
                       f (Some (reserve_balancers i lbs (reserve_nics i nics (reserve_vms i vms a))))))))))"

end
