(* ===== verification/OscNets.thy ===== *)
theory OscNets
  imports Outscale
begin

text \<open>
  Nets and Subnets of the Outscale pack: \<open>nets.go\<close>, the first two operations of
  \<open>updates.go\<close>, the isolation of \<open>isolate.go\<close>, and what a Net is born with
  (\<open>defaultSecurityGroup\<close> of \<open>securitygroups.go\<close>, \<open>mainRouteTable\<close> of
  \<open>routetables.go\<close>, \<open>defaultDhcpOptions\<close> of \<open>dhcpoptions.go\<close>). The passes of
  \<open>isolateNetworks\<close> are coalesced in the code (Coalesce.thy); here each call runs the
  pass it is promised, one that starts after the call.
\<close>

definition min_net_bits :: int where "min_net_bits = 16"
definition max_net_bits :: int where "max_net_bits = 28"
definition min_subnet_bits :: int where "min_subnet_bits = 16"
definition max_subnet_bits :: int where "max_subnet_bits = 29"

definition state_available :: string where "state_available = ''available''"

definition go_int :: "int \<Rightarrow> attr" where
  "go_int n = ANumber GoInt (rat_of_int n)"

section \<open>Blocks and memberships read off the store\<close>

text \<open>The blocks of a list of resources that parse.\<close>

definition blocks_of :: "resource list \<Rightarrow> prefix list" where
  "blocks_of rs = List.map_filter (\<lambda>r. case prefix_of r ''IpRange'' of Inl e \<Rightarrow> None | Inr p \<Rightarrow> Some p) rs"

definition of_net :: "string \<Rightarrow> resource list \<Rightarrow> resource list" where
  "of_net net rs = filter (\<lambda>r. string_of (attrs r ''NetId'') = net) rs"

definition net_prefixes :: "(prefix list \<Rightarrow> 'h reply) \<Rightarrow> 'h reply" where
  "net_prefixes f = do_list kindNet (\<lambda>nets. f (blocks_of nets))"

definition subnets_of :: "string \<Rightarrow> (resource list \<Rightarrow> 'h reply) \<Rightarrow> 'h reply" where
  "subnets_of net f = do_list kindSubnet (\<lambda>rs. f (of_net net rs))"

definition subnet_prefixes :: "string \<Rightarrow> (prefix list \<Rightarrow> 'h reply) \<Rightarrow> 'h reply" where
  "subnet_prefixes net f = subnets_of net (\<lambda>rs. f (blocks_of rs))"

definition route_tables_of :: "string \<Rightarrow> (resource list \<Rightarrow> 'h reply) \<Rightarrow> 'h reply" where
  "route_tables_of net f = do_list kindRouteTable (\<lambda>rs. f (of_net net rs))"

definition security_groups_of :: "string \<Rightarrow> (resource list \<Rightarrow> 'h reply) \<Rightarrow> 'h reply" where
  "security_groups_of net f = do_list kindSecurityGroup (\<lambda>rs. f (of_net net rs))"

definition linked_internet_service_of :: "string \<Rightarrow> (resource option \<Rightarrow> 'h reply) \<Rightarrow> 'h reply" where
  "linked_internet_service_of net f =
     do_list kindInternetService (\<lambda>rs. f (find (\<lambda>r. string_of (attrs r ''NetId'') = net) rs))"

definition nat_services_of :: "string \<Rightarrow> (resource list \<Rightarrow> 'h reply) \<Rightarrow> 'h reply" where
  "nat_services_of subnet f = do_list kindNatService (\<lambda>rs. f (filter (\<lambda>r. string_of (attrs r ''SubnetId'') = subnet) rs))"

definition load_balancers_on :: "string \<Rightarrow> string \<Rightarrow> (string list \<Rightarrow> 'h reply) \<Rightarrow> 'h reply" where
  "load_balancers_on k i f =
     do_list kindLoadBalancer (\<lambda>rs. f (map rid (filter (\<lambda>r. i \<in> set (strings_of (attrs r k))) rs)))"

text \<open>The table a Net was born with is the one with the Main link.\<close>

definition is_main_link :: "attr \<Rightarrow> bool" where
  "is_main_link link = bool_of (fields_of link ''Main'')"

definition is_main_table :: "resource \<Rightarrow> bool" where
  "is_main_table res = list_ex is_main_link (list_of (attrs res ''LinkRouteTables''))"

section \<open>What a Net is born with\<close>

definition default_dhcp_options :: "'h osc_env \<Rightarrow> (resource \<Rightarrow> 'h reply) \<Rightarrow> 'h reply" where
  "default_dhcp_options e f =
     do_list kindDhcpOptions (\<lambda>sets.
       case find (\<lambda>r. bool_of (attrs r ''Default'')) sets of
         Some res \<Rightarrow> f res
       | None \<Rightarrow>
           do_now (\<lambda>now. do_seed e (\<lambda>seed.
             let res = (new_resource (new_id ''dopt'' seed) kindDhcpOptions osc_tenant state_available now)
                   \<lparr>attrs := [''Default'' \<mapsto> ABool True,
                              ''DomainName'' \<mapsto> AString (oe_region e @ ''.compute.internal''),
                              ''DomainNameServers'' \<mapsto> AList [AString ''OutscaleProvidedDNS''],
                              ''Tags'' \<mapsto> AList []]\<rparr>
             in do_put res (f res))))"

definition default_security_group :: "'h osc_env \<Rightarrow> string \<Rightarrow> (resource \<Rightarrow> 'h reply) \<Rightarrow> 'h reply" where
  "default_security_group e net f =
     do_now (\<lambda>now. do_seed e (\<lambda>s1. do_seed e (\<lambda>s2. do_seed e (\<lambda>s3.
       let sg = new_id ''sg'' s1;
           every = [''FromPortRange'' \<mapsto> go_int (- 1), ''ToPortRange'' \<mapsto> go_int (- 1), ''IpProtocol'' \<mapsto> AString ''-1''];
           inbound = AMap (every(''SecurityGroupRuleId'' \<mapsto> AString (new_id ''sgr'' s2),
             ''SecurityGroupsMembers'' \<mapsto> AList [AMap [''AccountId'' \<mapsto> AString account_id, ''SecurityGroupId'' \<mapsto> AString sg]]));
           outbound = AMap (every(''SecurityGroupRuleId'' \<mapsto> AString (new_id ''sgr'' s3),
             ''IpRanges'' \<mapsto> AList [AString ''0.0.0.0/0'']))
       in f ((new_resource sg kindSecurityGroup osc_tenant state_available now)
               \<lparr>attrs := [''NetId'' \<mapsto> AString net, ''SecurityGroupName'' \<mapsto> AString ''default'',
                          ''Description'' \<mapsto> AString ''default security group'',
                          ''InboundRules'' \<mapsto> AList [inbound], ''OutboundRules'' \<mapsto> AList [outbound],
                          ''Tags'' \<mapsto> AList []]\<rparr>)))))"

definition table_attrs :: "string \<Rightarrow> string \<Rightarrow> attr list \<Rightarrow> string \<rightharpoonup> attr" where
  "table_attrs net block links =
     [''NetId'' \<mapsto> AString net,
      ''Routes'' \<mapsto> AList [AMap [''CreationMethod'' \<mapsto> AString ''CreateRouteTable'', ''DestinationIpRange'' \<mapsto> AString block,
                               ''GatewayId'' \<mapsto> AString ''local'', ''State'' \<mapsto> AString ''active'']],
      ''LinkRouteTables'' \<mapsto> AList links, ''RoutePropagatingVirtualGateways'' \<mapsto> AList [], ''Tags'' \<mapsto> AList []]"

definition new_route_table :: "'h osc_env \<Rightarrow> string \<Rightarrow> string \<Rightarrow> bool \<Rightarrow> (resource \<Rightarrow> 'h reply) \<Rightarrow> 'h reply" where
  "new_route_table e net block main f =
     do_now (\<lambda>now. do_seed e (\<lambda>s1.
       let i = new_id ''rtb'' s1;
           build = (\<lambda>links. f ((new_resource i kindRouteTable osc_tenant state_available now)\<lparr>attrs := table_attrs net block links\<rparr>))
       in if main then
            do_seed e (\<lambda>s2. build [AMap [''LinkRouteTableId'' \<mapsto> AString (new_id ''rtbassoc'' s2), ''Main'' \<mapsto> ABool True,
                                         ''NetId'' \<mapsto> AString net, ''RouteTableId'' \<mapsto> AString i]])
          else build []))"

section \<open>Isolation\<close>

definition state_peering_active :: string where "state_peering_active = ''active''"

text \<open>Which Nets reach which through the active peerings, both ways.\<close>

definition active_peering_reaches :: "resource list \<Rightarrow> string \<Rightarrow> string \<Rightarrow> bool" where
  "active_peering_reaches pcxs a b =
     list_ex (\<lambda>pcx. rstate pcx = state_peering_active \<and>
         (let source = string_of (attrs pcx ''SourceNetId''); accepter = string_of (attrs pcx ''AccepterNetId'')
          in a = source \<and> b = accepter \<or> a = accepter \<and> b = source)) pcxs"

definition reachable_from :: "(string \<Rightarrow> string \<Rightarrow> bool) \<Rightarrow> resource \<Rightarrow> resource \<Rightarrow> bool" where
  "reachable_from peered subnet other =
     (let a = string_of (attrs subnet ''NetId''); b = string_of (attrs other ''NetId'') in a = b \<or> peered a b)"

definition runtime_network_key :: string where "runtime_network_key = ''network''"

definition member_of :: "resource \<Rightarrow> isolation_member" where
  "member_of subnet = \<lparr>im_id = rid subnet, im_network = rt_get subnet runtime_network_key,
     im_block = string_of (attrs subnet ''IpRange'')\<rparr>"

definition isolate_networks :: "'h osc_env \<Rightarrow> 'h reply \<Rightarrow> 'h reply" where
  "isolate_networks e p =
     do_list kindSubnet (\<lambda>everyone. do_list kindNetPeering (\<lambda>pcxs.
       do_world (reconcile_isolation (bd_driver (oe_binding e)) (map member_of everyone)
           (\<lambda>i j. reachable_from (active_peering_reaches pcxs) (everyone ! i) (everyone ! j)))
         (\<lambda>told. p)))"

section \<open>Views\<close>

definition net_view :: "resource \<Rightarrow> attr" where
  "net_view res = AMap ((attrs res)(''NetId'' \<mapsto> AString (rid res), ''State'' \<mapsto> AString (rstate res)))"

definition subnet_view :: "resource \<Rightarrow> (attr \<Rightarrow> 'h reply) \<Rightarrow> 'h reply" where
  "subnet_view res f =
     (let out = (attrs res)(''SubnetId'' \<mapsto> AString (rid res), ''State'' \<mapsto> AString (rstate res))
      in subnet_allocator (rid res) (\<lambda>allocator.
           case allocator of
             None \<Rightarrow> f (AMap out)
           | Some a \<Rightarrow> f (AMap (out(''AvailableIpsCount'' \<mapsto> go_int (available a))))))"

definition subnet_subregion :: "'h osc_env \<Rightarrow> string \<Rightarrow> (string \<Rightarrow> 'h reply) \<Rightarrow> 'h reply" where
  "subnet_subregion e i f =
     do_get kindSubnet i (\<lambda>found.
       case found of
         Some subnet \<Rightarrow> f (or_default (string_of (attrs subnet ''SubregionName'')) (oe_default_subregion e))
       | None \<Rightarrow> f (oe_default_subregion e))"

section \<open>Nets\<close>

record create_net_request =
  cn_ip_range :: string
  cn_tenancy :: string

text \<open>The addressing lock is held from the check to the answer.\<close>

definition create_net :: "'h osc_env \<Rightarrow> create_net_request option \<Rightarrow> 'h reply" where
  "create_net e req = decoded e req (\<lambda>r.
     case parse_cidr (cn_ip_range r) of
       Inl err \<Rightarrow> bad_request e
     | Inr p \<Rightarrow>
         (if check_mask p min_net_bits max_net_bits \<noteq> None then bad_request e
          else Acquire (deferred (net_prefixes (\<lambda>ps.
            if snd (first_overlap p ps) then conflict e
            else
              do_now (\<lambda>now. do_seed e (\<lambda>seed. default_dhcp_options e (\<lambda>dhcp.
                let res = (new_resource (new_id ''vpc'' seed) kindNet osc_tenant state_available now)
                      \<lparr>attrs := [''IpRange'' \<mapsto> AString (prefix_string p),
                                 ''Tenancy'' \<mapsto> AString (or_default (cn_tenancy r) ''default''),
                                 ''DhcpOptionsSetId'' \<mapsto> AString (rid dhcp), ''Tags'' \<mapsto> AList []]\<rparr>
                in do_put res
                     (default_security_group e (rid res) (\<lambda>sg. do_put sg
                       (new_route_table e (rid res) (prefix_string p) True (\<lambda>rtb. do_put rtb
                         (ok e [''Net'' \<mapsto> net_view res])))))))))))))"

definition net_filters :: "filter_spec list" where
  "net_filters = string_filters [''NetIds'', ''IpRanges'', ''States'', ''DhcpOptionsSetIds''] @ taggable_filters"

definition net_matches :: "filter_set \<Rightarrow> resource \<Rightarrow> bool" where
  "net_matches fs res =
     (matches_string fs ''NetIds'' (rid res) \<and> matches_string fs ''IpRanges'' (string_of (attrs res ''IpRange'')) \<and>
      matches_string fs ''States'' (rstate res) \<and>
      matches_string fs ''DhcpOptionsSetIds'' (string_of (attrs res ''DhcpOptionsSetId'')) \<and> matches_tags fs res)"

definition read_nets :: "'h osc_env \<Rightarrow> read_request option \<Rightarrow> 'h reply" where
  "read_nets e req = read_page e net_filters ''Nets'' req
     (\<lambda>fs f. do_list kindNet (\<lambda>rs. f (map net_view (filter (net_matches fs) rs))))"

text \<open>
  A Net that still holds something a client made in it stays; what it was born with
  goes with it.
\<close>

definition delete_net :: "'h osc_env \<Rightarrow> string option \<Rightarrow> 'h reply" where
  "delete_net e req = decoded e req (\<lambda>net.
     do_get kindNet net (\<lambda>found.
       case found of
         None \<Rightarrow> not_found e
       | Some res \<Rightarrow>
           Acquire (subnets_of net (\<lambda>subnets.
             if subnets \<noteq> [] then Release (conflict e)
             else linked_internet_service_of net (\<lambda>gw.
               if gw \<noteq> None then Release (conflict e)
               else route_tables_of net (\<lambda>rtbs.
                 if list_ex (\<lambda>rtb. \<not> is_main_table rtb) rtbs then Release (conflict e)
                 else security_groups_of net (\<lambda>sgs.
                   if list_ex (\<lambda>sg. string_of (attrs sg ''SecurityGroupName'') \<noteq> ''default'') sgs then Release (conflict e)
                   else
                     do_delete kindNet net
                       (security_groups_of net (\<lambda>born_with.
                         foldr (\<lambda>sg. do_delete kindSecurityGroup (rid sg)) born_with
                           (route_tables_of net (\<lambda>tables.
                             foldr (\<lambda>rtb. do_delete kindRouteTable (rid rtb)) tables
                               (Release
                                 (foldr (\<lambda>sg p. do_world (\<lambda>w. (drop_rule_set
                                        (case bd_driver (oe_binding e) of None \<Rightarrow> None | Some d \<Rightarrow> dr_firewaller d)
                                        (network_name (oe_digest e) ''osc'' (rid sg)) w, ())) (\<lambda>gone_now. p)) born_with
                                   (ok e Map.empty))))))))))))))"

record update_net_request =
  un_net :: string
  un_dhcp :: string

definition update_net :: "'h osc_env \<Rightarrow> update_net_request option \<Rightarrow> 'h reply" where
  "update_net e req = decoded e req (\<lambda>r.
     if un_net r = [] then bad_request e
     else if un_dhcp r = [] then bad_request e
     else do_get kindNet (un_net r) (\<lambda>found.
       case found of
         None \<Rightarrow> not_found e
       | Some res \<Rightarrow>
           Acquire (deferred
             (let write = (\<lambda>dhcp.
                    do_update kindNet (un_net r)
                      (\<lambda>now stored. Inr (stored\<lparr>attrs := (attrs stored)(''DhcpOptionsSetId'' \<mapsto> AString dhcp), updated := now\<rparr>) :: unit + resource)
                      (\<lambda>written. case written of Inl err \<Rightarrow> not_found e | Inr stored \<Rightarrow> ok e [''Net'' \<mapsto> net_view stored]))
              in if un_dhcp r = ''default'' then default_dhcp_options e (\<lambda>set_found. write (rid set_found))
                 else do_get kindDhcpOptions (un_dhcp r) (\<lambda>found.
                   case found of None \<Rightarrow> not_found e | Some set_found \<Rightarrow> write (un_dhcp r))))))"

section \<open>Subnets\<close>

record create_subnet_request =
  cs_ip_range :: string
  cs_net :: string
  cs_subregion :: string

definition known_subregion :: "'h osc_env \<Rightarrow> string \<Rightarrow> bool" where
  "known_subregion e name = list_ex (\<lambda>s. s = name) (oe_subregions e)"

definition subnet_backing :: "prefix \<Rightarrow> backing_network" where
  "subnet_backing p = \<lparr>bn_key = runtime_network_key, bn_cidr = p, bn_gateway = False, bn_nat = False, bn_marker = ''feint.subnet''\<rparr>"

text \<open>
  The block is reserved under the addressing lock; the network of the runtime is made
  outside it, and the reservation is withdrawn when there is none to be had.
\<close>

definition create_subnet :: "'h osc_env \<Rightarrow> create_subnet_request option \<Rightarrow> 'h reply" where
  "create_subnet e req = decoded e req (\<lambda>r.
     do_get kindNet (cs_net r) (\<lambda>found.
       case found of
         None \<Rightarrow> not_found e
       | Some net \<Rightarrow>
           (if cs_subregion r \<noteq> [] \<and> \<not> known_subregion e (cs_subregion r) then bad_request e
            else
              (case parse_cidr (cs_ip_range r) of
                 Inl err \<Rightarrow> bad_request e
               | Inr p \<Rightarrow>
                   (if check_mask p min_subnet_bits max_subnet_bits \<noteq> None then bad_request e
                    else
                      (case prefix_of net ''IpRange'' of
                         Inl err \<Rightarrow> bad_request e
                       | Inr net_range \<Rightarrow>
                           (if \<not> net_contains net_range p then bad_request e
                            else
                              Acquire (subnet_prefixes (cs_net r) (\<lambda>ps.
                                if snd (first_overlap p ps) then Release (conflict e)
                                else
                                  do_now (\<lambda>now. do_seed e (\<lambda>seed.
                                    let res = (new_resource (new_id ''subnet'' seed) kindSubnet osc_tenant state_available now)
                                          \<lparr>attrs := [''IpRange'' \<mapsto> AString (prefix_string p), ''NetId'' \<mapsto> AString (cs_net r),
                                                     ''SubregionName'' \<mapsto> AString (or_default (cs_subregion r) (oe_default_subregion e)),
                                                     ''MapPublicIpOnLaunch'' \<mapsto> ABool False, ''Tags'' \<mapsto> AList []]\<rparr>;
                                        base = clone res
                                    in do_put res (Release
                                      (do_world (ensure_backing_network (oe_digest e) (oe_binding e) res (subnet_backing p)) (\<lambda>(res1, err).
                                        if err \<noteq> None then do_delete kindSubnet (rid res1) (conflict e)
                                        else
                                          do_commit base res1 (\<lambda>still_there.
                                            if \<not> still_there then
                                              do_world (remove_backing_network (oe_binding e) res1 runtime_network_key) (\<lambda>removed. not_found e)
                                            else
                                              isolate_networks e
                                                (subnet_view res1 (\<lambda>v. ok e [''Subnet'' \<mapsto> v])))))))))))))))))"

definition subnet_filters :: "filter_spec list" where
  "subnet_filters = string_filters [''SubnetIds'', ''NetIds'', ''IpRanges'', ''States'', ''SubregionNames''] @ taggable_filters"

definition subnet_matches :: "filter_set \<Rightarrow> resource \<Rightarrow> bool" where
  "subnet_matches fs res =
     (matches_string fs ''SubnetIds'' (rid res) \<and> matches_string fs ''NetIds'' (string_of (attrs res ''NetId'')) \<and>
      matches_string fs ''IpRanges'' (string_of (attrs res ''IpRange'')) \<and> matches_string fs ''States'' (rstate res))"

text \<open>The zone is looked up only for a Subnet the cheaper filters let through.\<close>

fun subnet_rows :: "'h osc_env \<Rightarrow> filter_set \<Rightarrow> resource list \<Rightarrow> attr list \<Rightarrow> (attr list \<Rightarrow> 'h reply) \<Rightarrow> 'h reply" where
  "subnet_rows e fs [] views f = f views"
| "subnet_rows e fs (res # rs) views f =
     (if \<not> subnet_matches fs res then subnet_rows e fs rs views f
      else subnet_subregion e (rid res) (\<lambda>subregion.
        if \<not> (matches_string fs ''SubregionNames'' subregion \<and> matches_tags fs res) then subnet_rows e fs rs views f
        else subnet_view res (\<lambda>v. subnet_rows e fs rs (views @ [v]) f)))"

definition read_subnets :: "'h osc_env \<Rightarrow> read_request option \<Rightarrow> 'h reply" where
  "read_subnets e req = read_page e subnet_filters ''Subnets'' req
     (\<lambda>fs f. do_list kindSubnet (\<lambda>rs. subnet_rows e fs rs [] f))"

definition delete_subnet :: "'h osc_env \<Rightarrow> string option \<Rightarrow> 'h reply" where
  "delete_subnet e req = decoded e req (\<lambda>i.
     do_get kindSubnet i (\<lambda>found.
       case found of
         None \<Rightarrow> not_found e
       | Some subnet \<Rightarrow>
           Acquire (do_list kindVM (\<lambda>vms.
             if list_ex (\<lambda>vm. rstate vm \<noteq> state_terminated \<and> string_of (attrs vm ''SubnetId'') = i) vms then Release (conflict e)
             else nat_services_of i (\<lambda>nats.
               if nats \<noteq> [] then Release (conflict e)
               else load_balancers_on ''Subnets'' i (\<lambda>holders.
                 if holders \<noteq> [] then Release (conflict e)
                 else
                   do_delete kindSubnet i (Release
                     (do_world (remove_backing_network (oe_binding e) subnet runtime_network_key) (\<lambda>removed.
                       isolate_networks e (ok e Map.empty))))))))))"

record update_subnet_request =
  us_subnet :: string
  us_public :: "bool option"

definition update_subnet :: "'h osc_env \<Rightarrow> update_subnet_request option \<Rightarrow> 'h reply" where
  "update_subnet e req = decoded e req (\<lambda>r.
     if us_subnet r = [] then bad_request e
     else
       (case us_public r of
          None \<Rightarrow> bad_request e
        | Some on \<Rightarrow>
            do_update kindSubnet (us_subnet r)
              (\<lambda>now stored. Inr (stored\<lparr>attrs := (attrs stored)(''MapPublicIpOnLaunch'' \<mapsto> ABool on), updated := now\<rparr>) :: unit + resource)
              (\<lambda>written. case written of Inl err \<Rightarrow> not_found e
                 | Inr stored \<Rightarrow> subnet_view stored (\<lambda>v. ok e [''Subnet'' \<mapsto> v]))))"

end
