(* ===== verification/OscRoutes.thy ===== *)
theory OscRoutes
  imports OscNets
begin

text \<open>
  Route tables and internet services of the Outscale pack: \<open>routetables.go\<close>,
  \<open>updateRouteTableLink\<close> of \<open>updates.go\<close> and \<open>internetservices.go\<close>. Each check that
  decides a write runs inside the change of \<open>Store.Update\<close> where the code has it
  there, and before it where the code has it before.
\<close>

datatype route_refusal =
    AlreadyLinked | MainLink | LinkMissing | RouteExists | RouteMissing | LocalRoute | RouteLinkMoved
  | GatewayLinked | GatewayElsewhere

text \<open>The same as \<open>do_update\<close>, for a handler that also keeps something of the resource as it was.\<close>

definition do_update_from ::
  "string \<Rightarrow> string \<Rightarrow> (int \<Rightarrow> resource \<Rightarrow> 'e + resource) \<Rightarrow> ('e store_error + resource \<Rightarrow> 'h reply) \<Rightarrow> 'h reply" where
  "do_update_from k i change f = Act (\<lambda>x.
     case update_res (os_store x) pack_name k i (change (os_clock x)) of
       (s, Some e) \<Rightarrow> (f (Inl e), x\<lparr>os_store := s\<rparr>)
     | (s, None) \<Rightarrow>
         (f (case map_of (items (os_store x)) (key pack_name k i) of None \<Rightarrow> Inl ErrNotFound | Some r \<Rightarrow> Inr r), x\<lparr>os_store := s\<rparr>))"

definition set_attr :: "int \<Rightarrow> string \<Rightarrow> attr \<Rightarrow> resource \<Rightarrow> resource" where
  "set_attr now k v stored = stored\<lparr>attrs := (attrs stored)(k \<mapsto> v), updated := now\<rparr>"

section \<open>Reading route tables\<close>

definition route_table_filters :: "filter_spec list" where
  "route_table_filters =
     string_filters [''RouteTableIds'', ''NetIds'', ''LinkRouteTableIds'', ''LinkSubnetIds'', ''RouteDestinationIpRanges'',
       ''RouteGatewayIds'', ''RouteNatServiceIds'', ''RouteCreationMethods'', ''RouteStates''] @
     bool_filters [''LinkRouteTableMain''] @ taggable_filters"

definition said :: "string \<Rightarrow> attr list \<Rightarrow> string list" where
  "said k entries = map (\<lambda>x. string_of (fields_of x k)) entries"

definition said_some :: "string \<Rightarrow> attr list \<Rightarrow> string list" where
  "said_some k entries = filter (\<lambda>v. v \<noteq> []) (said k entries)"

definition route_table_matches :: "filter_set \<Rightarrow> resource \<Rightarrow> bool" where
  "route_table_matches fs res =
     (if \<not> matches_tags fs res then False
      else if \<not> matches_string fs ''RouteTableIds'' (rid res) \<or> \<not> matches_string fs ''NetIds'' (string_of (attrs res ''NetId'')) then False
      else
        (let links = list_of (attrs res ''LinkRouteTables''); routes = list_of (attrs res ''Routes'') in
         if \<not> matches_any fs ''LinkRouteTableIds'' (said ''LinkRouteTableId'' links)
           \<or> \<not> matches_any fs ''LinkSubnetIds'' (said_some ''SubnetId'' links)
           \<or> \<not> matches_bool fs ''LinkRouteTableMain'' (is_main_table res) then False
         else matches_any fs ''RouteDestinationIpRanges'' (said ''DestinationIpRange'' routes)
           \<and> matches_any fs ''RouteGatewayIds'' (said_some ''GatewayId'' routes)
           \<and> matches_any fs ''RouteNatServiceIds'' (said_some ''NatServiceId'' routes)
           \<and> matches_any fs ''RouteCreationMethods'' (said ''CreationMethod'' routes)
           \<and> matches_any fs ''RouteStates'' (said ''State'' routes)))"

definition route_table_view :: "resource \<Rightarrow> attr" where
  "route_table_view res = AMap ((attrs res)(''RouteTableId'' \<mapsto> AString (rid res)))"

text \<open>A read answers the routes by destination; a create answers them as they were added.\<close>

definition route_table_read_view :: "resource \<Rightarrow> attr" where
  "route_table_read_view res =
     (let routes = list_of (attrs res ''Routes'') in
      if length routes < 2 then route_table_view res
      else AMap ((attrs res)(''RouteTableId'' \<mapsto> AString (rid res),
                   ''Routes'' \<mapsto> AList (sort_key (\<lambda>r. string_of (fields_of r ''DestinationIpRange'')) routes))))"

definition read_route_tables :: "'h osc_env \<Rightarrow> read_request option \<Rightarrow> 'h reply" where
  "read_route_tables e req = read_page e route_table_filters ''RouteTables'' req
     (\<lambda>fs f. do_list kindRouteTable (\<lambda>rs. f (map route_table_read_view (filter (route_table_matches fs) rs))))"

section \<open>Tables\<close>

definition create_route_table :: "'h osc_env \<Rightarrow> string option \<Rightarrow> 'h reply" where
  "create_route_table e req = decoded e req (\<lambda>net.
     do_get kindNet net (\<lambda>found.
       case found of
         None \<Rightarrow> not_found e
       | Some n \<Rightarrow>
           new_route_table e net (string_of (attrs n ''IpRange'')) False (\<lambda>res.
             do_put res (ok e [''RouteTable'' \<mapsto> route_table_view res]))))"

definition delete_route_table :: "'h osc_env \<Rightarrow> string option \<Rightarrow> 'h reply" where
  "delete_route_table e req = decoded e req (\<lambda>i.
     do_get kindRouteTable i (\<lambda>found.
       case found of
         None \<Rightarrow> not_found e
       | Some res \<Rightarrow>
           (if is_main_table res then conflict e
            else if length (list_of (attrs res ''LinkRouteTables'')) > 0 then conflict e
            else do_delete kindRouteTable i (ok e Map.empty))))"

section \<open>Links\<close>

record link_request =
  lq_table :: string
  lq_subnet :: string

definition names_subnet :: "string \<Rightarrow> attr \<Rightarrow> bool" where
  "names_subnet subnet link \<longleftrightarrow> string_of (fields_of link ''SubnetId'') = subnet"

definition links_subnet :: "string \<Rightarrow> resource \<Rightarrow> bool" where
  "links_subnet subnet res = list_ex (names_subnet subnet) (list_of (attrs res ''LinkRouteTables''))"

definition add_link :: "string \<Rightarrow> string \<Rightarrow> int \<Rightarrow> resource \<Rightarrow> route_refusal + resource" where
  "add_link link subnet now stored =
     (let links = list_of (attrs stored ''LinkRouteTables'') in
      if list_ex (names_subnet subnet) links then Inl AlreadyLinked
      else Inr (set_attr now ''LinkRouteTables''
             (AList (links @ [AMap [''LinkRouteTableId'' \<mapsto> AString link, ''Main'' \<mapsto> ABool False,
                                    ''NetId'' \<mapsto> AString (string_of (attrs stored ''NetId'')),
                                    ''RouteTableId'' \<mapsto> AString (rid stored), ''SubnetId'' \<mapsto> AString subnet]])) stored))"

definition link_route_table :: "'h osc_env \<Rightarrow> link_request option \<Rightarrow> 'h reply" where
  "link_route_table e req = decoded e req (\<lambda>r.
     do_get kindRouteTable (lq_table r) (\<lambda>found.
       case found of
         None \<Rightarrow> not_found e
       | Some res \<Rightarrow>
           do_get kindSubnet (lq_subnet r) (\<lambda>found_subnet.
             case found_subnet of
               None \<Rightarrow> not_found e
             | Some subnet \<Rightarrow>
                 (if string_of (attrs subnet ''NetId'') \<noteq> string_of (attrs res ''NetId'') then bad_request e
                  else do_list kindRouteTable (\<lambda>tables.
                    if list_ex (links_subnet (lq_subnet r)) tables then conflict e
                    else do_seed e (\<lambda>seed.
                      let link = new_id ''rtbassoc'' seed in
                      do_update kindRouteTable (rid res) (add_link link (lq_subnet r)) (\<lambda>written.
                        case written of
                          Inl (ChangeFailed AlreadyLinked) \<Rightarrow> conflict e
                        | Inl err \<Rightarrow> not_found e
                        | Inr stored \<Rightarrow> ok e [''LinkRouteTableId'' \<mapsto> AString link])))))))"

definition is_link :: "string \<Rightarrow> attr \<Rightarrow> bool" where
  "is_link i link \<longleftrightarrow> string_of (fields_of link ''LinkRouteTableId'') = i"

definition holds_link :: "string \<Rightarrow> resource \<Rightarrow> bool" where
  "holds_link i res = list_ex (is_link i) (list_of (attrs res ''LinkRouteTables''))"

definition drop_link :: "string \<Rightarrow> int \<Rightarrow> resource \<Rightarrow> route_refusal + resource" where
  "drop_link i now stored =
     (let links = list_of (attrs stored ''LinkRouteTables'') in
      if list_ex (\<lambda>l. is_link i l \<and> is_main_link l) links then Inl MainLink
      else if \<not> list_ex (is_link i) links then Inl LinkMissing
      else Inr (set_attr now ''LinkRouteTables'' (AList (filter (\<lambda>l. \<not> is_link i l) links)) stored))"

definition unlink_route_table :: "'h osc_env \<Rightarrow> string option \<Rightarrow> 'h reply" where
  "unlink_route_table e req = decoded e req (\<lambda>i.
     do_list kindRouteTable (\<lambda>tables.
       case find (holds_link i) tables of
         None \<Rightarrow> not_found e
       | Some res \<Rightarrow>
           do_update kindRouteTable (rid res) (drop_link i) (\<lambda>written.
             case written of
               Inl (ChangeFailed MainLink) \<Rightarrow> conflict e
             | Inl err \<Rightarrow> not_found e
             | Inr stored \<Rightarrow> ok e Map.empty)))"

text \<open>The link moves whole: taken off one table under the lock, then put on the other under the lock.\<close>

fun remove_first :: "('b \<Rightarrow> bool) \<Rightarrow> 'b list \<Rightarrow> 'b list" where
  "remove_first P [] = []"
| "remove_first P (x # xs) = (if P x then xs else x # remove_first P xs)"

definition take_link :: "string \<Rightarrow> int \<Rightarrow> resource \<Rightarrow> route_refusal + resource" where
  "take_link i now stored =
     (let held = list_of (attrs stored ''LinkRouteTables'') in
      if list_ex (is_link i) held
      then Inr (set_attr now ''LinkRouteTables'' (AList (remove_first (is_link i) held)) stored)
      else Inl RouteLinkMoved)"

definition grow_links :: "attr \<Rightarrow> int \<Rightarrow> resource \<Rightarrow> route_refusal + resource" where
  "grow_links link now stored =
     Inr (set_attr now ''LinkRouteTables'' (AList (list_of (attrs stored ''LinkRouteTables'') @ [link])) stored)"

record move_request =
  mq_link :: string
  mq_table :: string

definition update_route_table_link :: "'h osc_env \<Rightarrow> move_request option \<Rightarrow> 'h reply" where
  "update_route_table_link e req = decoded e req (\<lambda>r.
     if mq_link r = [] \<or> mq_table r = [] then bad_request e
     else do_get kindRouteTable (mq_table r) (\<lambda>found.
       case found of
         None \<Rightarrow> not_found e
       | Some target \<Rightarrow>
           do_list kindRouteTable (\<lambda>tables.
             case find (holds_link (mq_link r)) tables of
               None \<Rightarrow> not_found e
             | Some table \<Rightarrow>
                 (if rid table = mq_table r then ok e [''LinkRouteTableId'' \<mapsto> AString (mq_link r)]
                  else if string_of (attrs target ''NetId'') \<noteq> string_of (attrs table ''NetId'') then conflict e
                  else
                    do_update_from kindRouteTable (rid table) (take_link (mq_link r)) (\<lambda>was.
                      case was of
                        Inl err \<Rightarrow> not_found e
                      | Inr before \<Rightarrow>
                          (let link = hd (filter (is_link (mq_link r)) (list_of (attrs before ''LinkRouteTables'')));
                               moved = AMap ((fields_of link)(''RouteTableId'' \<mapsto> AString (mq_table r)))
                           in do_update kindRouteTable (mq_table r) (grow_links moved) (\<lambda>written.
                             case written of
                               Inl err \<Rightarrow> not_found e
                             | Inr stored \<Rightarrow> ok e [''LinkRouteTableId'' \<mapsto> AString (mq_link r)])))))))"

section \<open>Routes\<close>

record route_request =
  rq_table :: string
  rq_destination :: string
  rq_gateway :: string
  rq_nat :: string
  rq_peering :: string
  rq_nic :: string
  rq_vm :: string

text \<open>The target of a route and the key it is stored under; a request without one is answered here.\<close>

definition route_target :: "'h osc_env \<Rightarrow> route_request \<Rightarrow> string \<Rightarrow> (string \<Rightarrow> string \<Rightarrow> 'h reply) \<Rightarrow> 'h reply" where
  "route_target e r net f =
     (if rq_gateway r \<noteq> [] then
        do_get kindInternetService (rq_gateway r) (\<lambda>found.
          case found of None \<Rightarrow> not_found e
          | Some gw \<Rightarrow> (if string_of (attrs gw ''NetId'') \<noteq> net then bad_request e else f ''GatewayId'' (rq_gateway r)))
      else if rq_nat r \<noteq> [] then
        do_get kindNatService (rq_nat r) (\<lambda>found.
          case found of None \<Rightarrow> not_found e
          | Some service \<Rightarrow> (if string_of (attrs service ''NetId'') \<noteq> net then bad_request e else f ''NatServiceId'' (rq_nat r)))
      else if rq_peering r \<noteq> [] then
        do_get kindNetPeering (rq_peering r) (\<lambda>found.
          case found of None \<Rightarrow> not_found e
          | Some p \<Rightarrow>
              (if net \<noteq> string_of (attrs p ''SourceNetId'') \<and> net \<noteq> string_of (attrs p ''AccepterNetId'') then bad_request e
               else f ''NetPeeringId'' (rq_peering r)))
      else if rq_nic r \<noteq> [] then f ''NicId'' (rq_nic r)
      else if rq_vm r \<noteq> [] then
        do_get kindVM (rq_vm r) (\<lambda>found. case found of None \<Rightarrow> not_found e | Some vm \<Rightarrow> f ''VmId'' (rq_vm r))
      else bad_request e)"

definition route_to :: "string \<Rightarrow> attr \<Rightarrow> bool" where
  "route_to destination route \<longleftrightarrow> string_of (fields_of route ''DestinationIpRange'') = destination"

definition is_local_route :: "attr \<Rightarrow> bool" where
  "is_local_route route \<longleftrightarrow> string_of (fields_of route ''GatewayId'') = ''local''"

definition route_entry :: "string \<Rightarrow> string \<Rightarrow> string \<Rightarrow> string \<Rightarrow> attr" where
  "route_entry how destination k v =
     AMap [''CreationMethod'' \<mapsto> AString how, ''DestinationIpRange'' \<mapsto> AString destination, k \<mapsto> AString v, ''State'' \<mapsto> AString ''active'']"

definition add_route :: "string \<Rightarrow> string \<Rightarrow> string \<Rightarrow> int \<Rightarrow> resource \<Rightarrow> route_refusal + resource" where
  "add_route destination k v now stored =
     (let routes = list_of (attrs stored ''Routes'') in
      if list_ex (route_to destination) routes then Inl RouteExists
      else Inr (set_attr now ''Routes'' (AList (routes @ [route_entry ''CreateRoute'' destination k v])) stored))"

definition drop_route :: "string \<Rightarrow> int \<Rightarrow> resource \<Rightarrow> route_refusal + resource" where
  "drop_route destination now stored =
     (let routes = list_of (attrs stored ''Routes'') in
      if list_ex (\<lambda>r. route_to destination r \<and> is_local_route r) routes then Inl LocalRoute
      else if \<not> list_ex (route_to destination) routes then Inl RouteMissing
      else Inr (set_attr now ''Routes'' (AList (filter (\<lambda>r. \<not> route_to destination r) routes)) stored))"

definition redirect_route :: "string \<Rightarrow> string \<Rightarrow> string \<Rightarrow> int \<Rightarrow> resource \<Rightarrow> route_refusal + resource" where
  "redirect_route destination k v now stored =
     (let routes = list_of (attrs stored ''Routes'') in
      if list_ex (\<lambda>r. route_to destination r \<and> is_local_route r) routes then Inl LocalRoute
      else if \<not> list_ex (route_to destination) routes then Inl RouteMissing
      else Inr (set_attr now ''Routes''
             (AList (map (\<lambda>r. if \<not> route_to destination r then r
                              else route_entry (string_of (fields_of r ''CreationMethod'')) destination k v) routes)) stored))"

definition routed :: "'h osc_env \<Rightarrow> route_refusal store_error + resource \<Rightarrow> 'h reply" where
  "routed e written =
     (case written of
        Inl (ChangeFailed RouteExists) \<Rightarrow> conflict e
      | Inl (ChangeFailed LocalRoute) \<Rightarrow> conflict e
      | Inl err \<Rightarrow> not_found e
      | Inr stored \<Rightarrow> ok e [''RouteTable'' \<mapsto> route_table_view stored])"

definition create_route :: "'h osc_env \<Rightarrow> route_request option \<Rightarrow> 'h reply" where
  "create_route e req = decoded e req (\<lambda>r.
     do_get kindRouteTable (rq_table r) (\<lambda>found.
       case found of
         None \<Rightarrow> not_found e
       | Some res \<Rightarrow>
           (case parse_cidr (rq_destination r) of
              Inl err \<Rightarrow> bad_request e
            | Inr p \<Rightarrow>
                route_target e r (string_of (attrs res ''NetId'')) (\<lambda>k v.
                  do_update kindRouteTable (rid res) (add_route (rq_destination r) k v) (routed e)))))"

definition delete_route :: "'h osc_env \<Rightarrow> route_request option \<Rightarrow> 'h reply" where
  "delete_route e req = decoded e req (\<lambda>r.
     do_get kindRouteTable (rq_table r) (\<lambda>found.
       case found of
         None \<Rightarrow> not_found e
       | Some res \<Rightarrow> do_update kindRouteTable (rid res) (drop_route (rq_destination r)) (routed e)))"

definition update_route :: "'h osc_env \<Rightarrow> route_request option \<Rightarrow> 'h reply" where
  "update_route e req = decoded e req (\<lambda>r.
     do_get kindRouteTable (rq_table r) (\<lambda>found.
       case found of
         None \<Rightarrow> not_found e
       | Some res \<Rightarrow>
           route_target e r (string_of (attrs res ''NetId'')) (\<lambda>k v.
             do_update kindRouteTable (rid res) (redirect_route (rq_destination r) k v) (routed e))))"

section \<open>Internet services\<close>

definition internet_service_view :: "resource \<Rightarrow> attr" where
  "internet_service_view res =
     (let out = [''InternetServiceId'' \<mapsto> AString (rid res), ''Tags'' \<mapsto> option_or ANil (attrs res ''Tags'')];
          net = string_of (attrs res ''NetId'')
      in if net \<noteq> [] then AMap (out(''NetId'' \<mapsto> AString net, ''State'' \<mapsto> AString ''available'')) else AMap out)"

definition create_internet_service :: "'h osc_env \<Rightarrow> unit option \<Rightarrow> 'h reply" where
  "create_internet_service e req = decoded e req (\<lambda>r.
     do_now (\<lambda>now. do_seed e (\<lambda>seed.
       let res = (new_resource (new_id ''igw'' seed) kindInternetService osc_tenant state_available now)
             \<lparr>attrs := [''Tags'' \<mapsto> AList []]\<rparr>
       in do_put res (ok e [''InternetService'' \<mapsto> internet_service_view res]))))"

definition internet_service_filters :: "filter_spec list" where
  "internet_service_filters = string_filters [''InternetServiceIds'', ''LinkNetIds'']"

definition read_internet_services :: "'h osc_env \<Rightarrow> read_request option \<Rightarrow> 'h reply" where
  "read_internet_services e req = read_page e internet_service_filters ''InternetServices'' req
     (\<lambda>fs f. do_list kindInternetService (\<lambda>rs.
        f (map internet_service_view
             (filter (\<lambda>r. matches_string fs ''InternetServiceIds'' (rid r) \<and>
                          matches_string fs ''LinkNetIds'' (string_of (attrs r ''NetId''))) rs))))"

record gateway_request =
  gq_gateway :: string
  gq_net :: string

definition link_gateway :: "string \<Rightarrow> int \<Rightarrow> resource \<Rightarrow> route_refusal + resource" where
  "link_gateway net now stored =
     (let held = string_of (attrs stored ''NetId'') in
      if held \<noteq> [] \<and> held \<noteq> net then Inl GatewayLinked
      else Inr (set_attr now ''NetId'' (AString net) stored))"

definition link_internet_service :: "'h osc_env \<Rightarrow> gateway_request option \<Rightarrow> 'h reply" where
  "link_internet_service e req = decoded e req (\<lambda>r.
     do_get kindInternetService (gq_gateway r) (\<lambda>found.
       case found of
         None \<Rightarrow> not_found e
       | Some res \<Rightarrow>
           do_get kindNet (gq_net r) (\<lambda>found_net.
             case found_net of
               None \<Rightarrow> not_found e
             | Some net \<Rightarrow>
                 do_list kindInternetService (\<lambda>others.
                   if list_ex (\<lambda>other. rid other \<noteq> rid res \<and> string_of (attrs other ''NetId'') = gq_net r) others then conflict e
                   else do_update kindInternetService (gq_gateway r) (link_gateway (gq_net r)) (\<lambda>written.
                     case written of
                       Inl (ChangeFailed GatewayLinked) \<Rightarrow> conflict e
                     | Inl err \<Rightarrow> not_found e
                     | Inr stored \<Rightarrow> ok e Map.empty)))))"

definition unlink_gateway :: "string \<Rightarrow> int \<Rightarrow> resource \<Rightarrow> route_refusal + resource" where
  "unlink_gateway net now stored =
     (if string_of (attrs stored ''NetId'') \<noteq> net then Inl GatewayElsewhere
      else Inr (stored\<lparr>attrs := (attrs stored)(''NetId'' := None), updated := now\<rparr>))"

definition unlink_internet_service :: "'h osc_env \<Rightarrow> gateway_request option \<Rightarrow> 'h reply" where
  "unlink_internet_service e req = decoded e req (\<lambda>r.
     do_update kindInternetService (gq_gateway r) (unlink_gateway (gq_net r)) (\<lambda>written.
       case written of
         Inl (ChangeFailed GatewayElsewhere) \<Rightarrow> bad_request e
       | Inl err \<Rightarrow> not_found e
       | Inr stored \<Rightarrow> ok e Map.empty))"

definition delete_internet_service :: "'h osc_env \<Rightarrow> string option \<Rightarrow> 'h reply" where
  "delete_internet_service e req = decoded e req (\<lambda>i.
     do_get kindInternetService i (\<lambda>found.
       case found of
         None \<Rightarrow> not_found e
       | Some res \<Rightarrow>
           (if string_of (attrs res ''NetId'') \<noteq> [] then conflict e
            else do_delete kindInternetService i (ok e Map.empty))))"

end
