(* ===== verification/OscPeerings.thy ===== *)
theory OscPeerings
  imports OscRoutes
begin

text \<open>
  Net peerings of the Outscale pack (\<open>netpeerings.go\<close>), and the tags a client puts on
  any taggable resource (\<open>tags.go\<close>). The states are the constants of the SDK; a date
  is the text \<open>time.Format\<close> makes of a moment, a parameter of the environment.
\<close>

definition state_pending :: string where "state_pending = ''pending-acceptance''"
definition state_rejected :: string where "state_rejected = ''rejected''"
definition state_failed :: string where "state_failed = ''failed''"
definition state_expired :: string where "state_expired = ''expired''"
definition state_deleted :: string where "state_deleted = ''deleted''"

lemmas peering_states = state_pending_def state_rejected_def state_failed_def state_expired_def state_deleted_def state_peering_active_def

datatype peering_refusal = NotPending string

definition peering_message :: "string \<Rightarrow> string" where
  "peering_message state =
     (if state = state_pending then ''Pending acceptance by '' @ account_id
      else if state = state_peering_active then ''Active''
      else if state = state_rejected then ''Rejected''
      else if state = state_failed then ''Failed: the IP ranges of the two Nets overlap''
      else if state = state_deleted then ''Deleted''
      else [])"

definition peering_expiry :: int where
  "peering_expiry = 7 * 24 * 3600 * 1000000000"

definition net_peering_view :: "resource \<Rightarrow> attr" where
  "net_peering_view res =
     (let end_of = (\<lambda>range_key net_key. AMap [''AccountId'' \<mapsto> AString account_id,
             ''IpRange'' \<mapsto> AString (string_of (attrs res range_key)), ''NetId'' \<mapsto> AString (string_of (attrs res net_key))]);
          out = [''NetPeeringId'' \<mapsto> AString (rid res),
                 ''SourceNet'' \<mapsto> end_of ''SourceIpRange'' ''SourceNetId'',
                 ''AccepterNet'' \<mapsto> end_of ''AccepterIpRange'' ''AccepterNetId'',
                 ''State'' \<mapsto> AMap [''Name'' \<mapsto> AString (rstate res), ''Message'' \<mapsto> AString (peering_message (rstate res))],
                 ''Tags'' \<mapsto> option_or ANil (attrs res ''Tags'')];
          date = string_of (attrs res ''ExpirationDate'')
      in AMap (if date \<noteq> [] then out(''ExpirationDate'' \<mapsto> AString date) else out))"

section \<open>Creating\<close>

record create_peering_request =
  pq_accepter :: string
  pq_owner :: string
  pq_source :: string

definition active_peering_between :: "string \<Rightarrow> string \<Rightarrow> (bool \<Rightarrow> 'h reply) \<Rightarrow> 'h reply" where
  "active_peering_between source accepter f =
     do_list kindNetPeering (\<lambda>rs. f (list_ex (\<lambda>r. rstate r = state_peering_active \<and>
       string_of (attrs r ''SourceNetId'') = source \<and> string_of (attrs r ''AccepterNetId'') = accepter) rs))"

definition blocks_clash :: "resource \<Rightarrow> resource \<Rightarrow> bool" where
  "blocks_clash a b =
     (case (prefix_of a ''IpRange'', prefix_of b ''IpRange'') of
        (Inr p, Inr q) \<Rightarrow> overlaps p q
      | _ \<Rightarrow> False)"

definition create_net_peering :: "'h osc_env \<Rightarrow> create_peering_request option \<Rightarrow> 'h reply" where
  "create_net_peering e req = decoded e req (\<lambda>r.
     if pq_source r = [] \<or> pq_accepter r = [] then bad_request e
     else if pq_owner r \<noteq> [] \<and> pq_owner r \<noteq> account_id then not_found e
     else do_get kindNet (pq_source r) (\<lambda>found.
       case found of
         None \<Rightarrow> not_found e
       | Some source \<Rightarrow>
           do_get kindNet (pq_accepter r) (\<lambda>found_accepter.
             case found_accepter of
               None \<Rightarrow> not_found e
             | Some accepter \<Rightarrow>
                 (let state = (if blocks_clash source accepter then state_failed else state_pending);
                      born = (\<lambda>state. do_now (\<lambda>now. do_seed e (\<lambda>seed.
                        let res = (new_resource (new_id ''pcx'' seed) kindNetPeering osc_tenant state now)
                              \<lparr>attrs := [''SourceNetId'' \<mapsto> AString (pq_source r),
                                         ''SourceIpRange'' \<mapsto> AString (string_of (attrs source ''IpRange'')),
                                         ''AccepterNetId'' \<mapsto> AString (pq_accepter r),
                                         ''AccepterIpRange'' \<mapsto> AString (string_of (attrs accepter ''IpRange'')),
                                         ''ExpirationDate'' \<mapsto> AString (oe_date e (now + peering_expiry)), ''Tags'' \<mapsto> AList []]\<rparr>
                        in do_put res (ok e [''NetPeering'' \<mapsto> net_peering_view res]))))
                  in if state = state_pending
                     then active_peering_between (pq_accepter r) (pq_source r) (\<lambda>redundant.
                       born (if redundant then state_rejected else state))
                     else born state))))"

section \<open>Transitions\<close>

definition move_pending :: "string \<Rightarrow> int \<Rightarrow> resource \<Rightarrow> peering_refusal + resource" where
  "move_pending state now stored =
     (if rstate stored \<noteq> state_pending then Inl (NotPending (rstate stored))
      else Inr (stored\<lparr>rstate := state, updated := now\<rparr>))"

definition end_peering :: "int \<Rightarrow> resource \<Rightarrow> peering_refusal + resource" where
  "end_peering now stored =
     (if rstate stored \<in> {state_rejected, state_failed, state_expired, state_deleted} then Inl (NotPending (rstate stored))
      else Inr (stored\<lparr>rstate := state_deleted, updated := now\<rparr>))"

text \<open>The counterparts still pending when they were listed; each is looked at again under the lock.\<close>

definition is_counterpart :: "string \<Rightarrow> string \<Rightarrow> resource \<Rightarrow> bool" where
  "is_counterpart source accepter other \<longleftrightarrow>
     rstate other = state_pending \<and> string_of (attrs other ''SourceNetId'') = accepter \<and>
     string_of (attrs other ''AccepterNetId'') = source"

definition accept_net_peering :: "'h osc_env \<Rightarrow> string option \<Rightarrow> 'h reply" where
  "accept_net_peering e req = decoded e req (\<lambda>i.
     do_update kindNetPeering i (move_pending state_peering_active) (\<lambda>written.
       case written of
         Inl (ChangeFailed refusal) \<Rightarrow> conflict e
       | Inl ErrNotFound \<Rightarrow> not_found e
       | Inr res \<Rightarrow>
           do_list kindNetPeering (\<lambda>others.
             foldr (\<lambda>other p. do_update kindNetPeering (rid other) (move_pending state_rejected) (\<lambda>done. p))
               (filter (is_counterpart (string_of (attrs res ''SourceNetId'')) (string_of (attrs res ''AccepterNetId''))) others)
               (isolate_networks e (ok e [''NetPeering'' \<mapsto> net_peering_view res])))))"

definition reject_net_peering :: "'h osc_env \<Rightarrow> string option \<Rightarrow> 'h reply" where
  "reject_net_peering e req = decoded e req (\<lambda>i.
     do_update kindNetPeering i (move_pending state_rejected) (\<lambda>written.
       case written of
         Inl (ChangeFailed refusal) \<Rightarrow> conflict e
       | Inl ErrNotFound \<Rightarrow> not_found e
       | Inr res \<Rightarrow> ok e Map.empty))"

definition delete_net_peering :: "'h osc_env \<Rightarrow> string option \<Rightarrow> 'h reply" where
  "delete_net_peering e req = decoded e req (\<lambda>i.
     do_update kindNetPeering i end_peering (\<lambda>written.
       case written of
         Inl (ChangeFailed refusal) \<Rightarrow> conflict e
       | Inl ErrNotFound \<Rightarrow> not_found e
       | Inr res \<Rightarrow> isolate_networks e (ok e Map.empty)))"

definition net_peering_filters :: "filter_spec list" where
  "net_peering_filters =
     string_filters [''NetPeeringIds'', ''AccepterNetAccountIds'', ''AccepterNetIpRanges'', ''AccepterNetNetIds'',
       ''SourceNetAccountIds'', ''SourceNetIpRanges'', ''SourceNetNetIds'', ''StateMessages'', ''StateNames''] @ taggable_filters"

definition net_peering_matches :: "filter_set \<Rightarrow> resource \<Rightarrow> bool" where
  "net_peering_matches fs res =
     (matches_string fs ''NetPeeringIds'' (rid res) \<and> matches_string fs ''AccepterNetAccountIds'' account_id \<and>
      matches_string fs ''AccepterNetIpRanges'' (string_of (attrs res ''AccepterIpRange'')) \<and>
      matches_string fs ''AccepterNetNetIds'' (string_of (attrs res ''AccepterNetId'')) \<and>
      matches_string fs ''SourceNetAccountIds'' account_id \<and>
      matches_string fs ''SourceNetIpRanges'' (string_of (attrs res ''SourceIpRange'')) \<and>
      matches_string fs ''SourceNetNetIds'' (string_of (attrs res ''SourceNetId'')) \<and>
      matches_string fs ''StateMessages'' (peering_message (rstate res)) \<and> matches_string fs ''StateNames'' (rstate res) \<and>
      matches_tags fs res)"

definition read_net_peerings :: "'h osc_env \<Rightarrow> read_request option \<Rightarrow> 'h reply" where
  "read_net_peerings e req = read_page e net_peering_filters ''NetPeerings'' req
     (\<lambda>fs f. do_list kindNetPeering (\<lambda>rs. f (map net_peering_view (filter (net_peering_matches fs) rs))))"

section \<open>Tags\<close>

text \<open>
  The prefixes of the identifiers that carry tags, the kind each one names, and the
  type a flat read publishes; an empty type is left out of it.
\<close>

definition taggable :: "(string \<times> string \<times> string) list" where
  "taggable =
     [(''vpc-'', kindNet, ''vpc''), (''subnet-'', kindSubnet, ''subnet''), (''i-'', kindVM, ''instance''),
      (''key-'', ''keypair'', ''keypair''), (''vol-'', ''volume'', ''volume''), (''snap-'', ''snapshot'', ''snapshot''),
      (''ami-'', ''image'', ''image''), (''sg-'', kindSecurityGroup, ''security-group''), (''rtb-'', kindRouteTable, ''route-table''),
      (''eipalloc-'', ''publicip'', ''public-ip''), (''eni-'', kindNic, ''network-interface''),
      (''dopt-'', kindDhcpOptions, ''dhcpoptions''), (''nat-'', kindNatService, ''natgateway''),
      (''pcx-'', kindNetPeering, ''vpc-peering-connection''), (''fgpu-'', ''flexiblegpu'', ''flexible-gpu''),
      (''igw-'', kindInternetService, [])]"

definition resource_of :: "string \<Rightarrow> (resource option \<Rightarrow> 'h reply) \<Rightarrow> 'h reply" where
  "resource_of i f =
     (case find (\<lambda>(pre, k, t). has_prefix i pre) taggable of
        None \<Rightarrow> f None
      | Some (pre, k, t) \<Rightarrow> do_get k i f)"

record tags_request =
  tq_ids :: "string list"
  tq_tags :: "(string \<times> string) list"

fun resources_of :: "'h osc_env \<Rightarrow> string list \<Rightarrow> resource list \<Rightarrow> (resource list \<Rightarrow> 'h reply) \<Rightarrow> 'h reply" where
  "resources_of e [] targets f = f targets"
| "resources_of e (i # ids) targets f =
     resource_of i (\<lambda>found. case found of None \<Rightarrow> not_found e | Some res \<Rightarrow> resources_of e ids (targets @ [res]) f)"

definition put_tags :: "(string \<times> string) list \<Rightarrow> int \<Rightarrow> resource \<Rightarrow> unit + resource" where
  "put_tags wanted now stored =
     Inr (set_attr now ''Tags'' (AList (tags_list (fold (\<lambda>(k, v) tags. AList.update k v tags) wanted (tags_of stored)))) stored)"

definition drop_tags :: "(string \<times> string) list \<Rightarrow> int \<Rightarrow> resource \<Rightarrow> unit + resource" where
  "drop_tags wanted now stored =
     Inr (set_attr now ''Tags'' (AList (tags_list
       (fold (\<lambda>(k, v) tags. if v \<noteq> [] \<and> option_or [] (map_of tags k) \<noteq> v then tags else AList.delete k tags)
         wanted (tags_of stored)))) stored)"

fun tag_all :: "'h osc_env \<Rightarrow> (string \<times> string) list \<Rightarrow> resource list \<Rightarrow> 'h reply" where
  "tag_all e wanted [] = ok e Map.empty"
| "tag_all e wanted (res # targets) =
     do_update (kind res) (rid res) (put_tags wanted) (\<lambda>written.
       case written of Inl err \<Rightarrow> not_found e | Inr stored \<Rightarrow> tag_all e wanted targets)"

text \<open>Every identifier is resolved before anything is written.\<close>

definition create_tags :: "'h osc_env \<Rightarrow> tags_request option \<Rightarrow> 'h reply" where
  "create_tags e req = decoded e req (\<lambda>r.
     if length (tq_ids r) = 0 \<or> length (tq_tags r) = 0 then bad_request e
     else resources_of e (tq_ids r) [] (tag_all e (tq_tags r)))"

fun untag_all :: "'h osc_env \<Rightarrow> (string \<times> string) list \<Rightarrow> string list \<Rightarrow> 'h reply" where
  "untag_all e wanted [] = ok e Map.empty"
| "untag_all e wanted (i # ids) =
     resource_of i (\<lambda>found.
       case found of
         None \<Rightarrow> not_found e
       | Some res \<Rightarrow>
           do_update (kind res) (rid res) (drop_tags wanted) (\<lambda>written.
             case written of Inl err \<Rightarrow> not_found e | Inr stored \<Rightarrow> untag_all e wanted ids))"

definition delete_tags :: "'h osc_env \<Rightarrow> tags_request option \<Rightarrow> 'h reply" where
  "delete_tags e req = decoded e req (\<lambda>r. untag_all e (tq_tags r) (tq_ids r))"

definition tag_filters :: "filter_spec list" where
  "tag_filters = string_filters [''ResourceIds'', ''Keys'', ''Values'', ''ResourceTypes'']"

text \<open>The rows of one resource, in the order Go happens to walk its map of tags.\<close>

definition tag_rows :: "filter_set \<Rightarrow> string \<Rightarrow> resource \<Rightarrow> attr list" where
  "tag_rows fs t res =
     map (\<lambda>(k, v). AMap [''Key'' \<mapsto> AString k, ''Value'' \<mapsto> AString v, ''ResourceId'' \<mapsto> AString (rid res), ''ResourceType'' \<mapsto> AString t])
       (filter (\<lambda>(k, v). matches_string fs ''ResourceIds'' (rid res) \<and> matches_string fs ''Keys'' k \<and>
                         matches_string fs ''Values'' v \<and> matches_string fs ''ResourceTypes'' t) (tags_of res))"

fun tag_table :: "filter_set \<Rightarrow> (string \<times> string \<times> string) list \<Rightarrow> attr list \<Rightarrow> (attr list \<Rightarrow> 'h reply) \<Rightarrow> 'h reply" where
  "tag_table fs [] out f = f out"
| "tag_table fs ((pre, k, t) # rest) out f =
     (if t = [] then tag_table fs rest out f
      else do_list k (\<lambda>rs. tag_table fs rest (out @ concat (map (tag_rows fs t) rs)) f))"

definition read_tags :: "'h osc_env \<Rightarrow> read_request option \<Rightarrow> 'h reply" where
  "read_tags e req = read_page e tag_filters ''Tags'' req (\<lambda>fs f. tag_table fs taggable [] f)"

end
