(* ===== verification/NetipText.thy ===== *)
theory NetipText
  imports Network
begin

text \<open>
  What \<open>net/netip\<close> prints it reads back: IPv6 groups with the longest run of zeros
  folded into an ellipsis, IPv4 in IPv6, zones, and prefixes. The packs store the
  text of a block and parse it again at every check, so the checks on what is
  stored speak of the block that was accepted only because of this.
\<close>

section \<open>Hexadecimal groups\<close>

lemma hex_val_digit_char: "d < 16 \<Longrightarrow> hex_val (digit_char d) = Some d"
proof -
  assume "d < 16"
  then have "d \<in> {0, 1, 2, 3, 4, 5, 6, 7, 8, 9, 10, 11, 12, 13, 14, 15}" by simp arith
  then show ?thesis by (auto simp: digit_char_def hex_val_def is_digit_def digit_val_def less_eq_char_def)
qed

lemma hex_digits_all: "\<forall>c\<in>set (hex_digits n). hex_val c \<noteq> None"
proof (induction n rule: hex_digits.induct)
  case (1 n)
  then show ?case by (subst hex_digits.simps) (auto simp: hex_val_digit_char)
qed

lemma hex_digits_not_Nil [simp]: "hex_digits n \<noteq> []"
  by (subst hex_digits.simps) simp

lemma hex_separators [simp]:
  "hex_val CHR '':'' = None" "hex_val CHR ''.'' = None" "hex_val CHR ''%'' = None" "hex_val CHR ''/'' = None"
  by (simp_all add: hex_val_def is_digit_def less_eq_char_def)

lemma hex_digits_free: "hex_val c = None \<Longrightarrow> c \<notin> set (hex_digits n)"
  using hex_digits_all [of n] by auto

lemma hex_number_snoc: "hex_number (s @ [c]) = hex_number s * 16 + option_or 0 (hex_val c)"
  by (simp add: hex_number_def)

lemma hex_number_digits [simp]: "hex_number (hex_digits n) = n"
proof (induction n rule: hex_digits.induct)
  case (1 n)
  show ?case
  proof (cases "n < 16")
    case True
    then show ?thesis by (subst hex_digits.simps) (simp add: hex_number_def hex_val_digit_char)
  next
    case False
    then show ?thesis using 1 by (subst hex_digits.simps) (simp add: hex_number_snoc hex_val_digit_char)
  qed
qed

lemma length_hex_digits: "n < 16 ^ Suc k \<Longrightarrow> length (hex_digits n) \<le> Suc k"
proof (induction k arbitrary: n)
  case 0
  then show ?case by (subst hex_digits.simps) simp
next
  case (Suc k)
  then have "n div 16 < 16 ^ Suc k" by (simp add: less_mult_imp_div_less)
  with Suc.IH [of "n div 16"] show ?case by (subst hex_digits.simps) simp
qed

lemma short_group: "n < 65536 \<Longrightarrow> \<not> 4 < length (hex_digits n)"
  using length_hex_digits [of n 3] by simp

lemma hex_run_digits:
  "s = [] \<or> hex_val (hd s) = None \<Longrightarrow> hex_run (hex_digits n @ s) = hex_digits n \<and> hex_rest (hex_digits n @ s) = s"
  using hex_digits_all [of n] by (cases s) (auto simp: hex_run_def hex_rest_def takeWhile_append dropWhile_append)

section \<open>The loop over the groups\<close>

definition groups_text :: "nat list \<Rightarrow> string" where
  "groups_text hs = str_join '':'' (map hex_digits hs)"

lemma groups_text_simps [simp]: "groups_text [] = []" "groups_text [g] = hex_digits g"
  by (simp_all add: groups_text_def)

lemma groups_text_Cons: "hs \<noteq> [] \<Longrightarrow> groups_text (g # hs) = hex_digits g @ CHR '':'' # groups_text hs"
  by (cases hs) (simp_all add: groups_text_def)

lemma groups_text_start: "hs \<noteq> [] \<Longrightarrow> \<exists>c r. groups_text hs @ t = c # r \<and> hex_val c \<noteq> None"
proof (cases hs)
  case (Cons g gs)
  obtain c r where "hex_digits g = c # r" "hex_val c \<noteq> None"
    using hex_digits_all [of g] by (cases "hex_digits g") auto
  then show ?thesis using Cons by (cases "gs = []") (auto simp: groups_text_Cons)
qed simp

text \<open>One group, followed by the end, by one more group or by the ellipsis.\<close>

lemma v6_group_end:
  "g < 65536 \<Longrightarrow> length gs < 8 \<Longrightarrow> v6_loop gs ell (hex_digits g) = Some (gs @ [g], ell)"
  using hex_run_digits [of "[]" g] by (subst v6_loop.simps) (simp add: Let_def short_group)

lemma v6_group_more:
  assumes "g < 65536" "length gs < 8" "s = c # r" "c \<noteq> CHR '':''"
  shows "v6_loop gs ell (hex_digits g @ CHR '':'' # s) = v6_loop (gs @ [g]) ell s"
  using hex_run_digits [of "CHR '':'' # s" g] assms by (subst v6_loop.simps) (simp add: Let_def short_group)

lemma v6_group_ellipsis:
  assumes "g < 65536" "length gs < 8"
  shows "v6_loop gs None (hex_digits g @ CHR '':'' # CHR '':'' # t) =
    (if t = [] then Some (gs @ [g], Some (Suc (length gs))) else v6_loop (gs @ [g]) (Some (Suc (length gs))) t)"
  using hex_run_digits [of "CHR '':'' # CHR '':'' # t" g] assms by (subst v6_loop.simps) (simp add: Let_def short_group)

lemma v6_loop_all:
  "hs \<noteq> [] \<Longrightarrow> \<forall>h\<in>set hs. h < 65536 \<Longrightarrow> length gs + length hs \<le> 8 \<Longrightarrow> v6_loop gs ell (groups_text hs) = Some (gs @ hs, ell)"
proof (induction hs arbitrary: gs)
  case (Cons h hs)
  show ?case
  proof (cases "hs = []")
    case True
    then show ?thesis using Cons.prems by (simp add: v6_group_end)
  next
    case False
    then obtain c r where cr: "groups_text hs = c # r" "hex_val c \<noteq> None" using groups_text_start [of hs "[]"] by auto
    then have "c \<noteq> CHR '':''" by auto
    with cr have "v6_loop gs ell (groups_text (h # hs)) = v6_loop (gs @ [h]) ell (groups_text hs)"
      using Cons.prems False v6_group_more [of h gs "groups_text hs" c r ell] by (simp add: groups_text_Cons)
    then show ?thesis using Cons.IH [of "gs @ [h]"] Cons.prems False by simp
  qed
qed simp

lemma v6_loop_until_ellipsis:
  "hs \<noteq> [] \<Longrightarrow> \<forall>h\<in>set hs. h < 65536 \<Longrightarrow> length gs + length hs \<le> 8 \<Longrightarrow>
     v6_loop gs None (groups_text hs @ ''::'' @ t) =
       (if t = [] then Some (gs @ hs, Some (length (gs @ hs))) else v6_loop (gs @ hs) (Some (length (gs @ hs))) t)"
proof (induction hs arbitrary: gs)
  case (Cons h hs)
  show ?case
  proof (cases "hs = []")
    case True
    then show ?thesis using Cons.prems by (simp add: v6_group_ellipsis)
  next
    case False
    then obtain c r where cr: "groups_text hs @ ''::'' @ t = c # r" "hex_val c \<noteq> None"
      using groups_text_start [of hs "''::'' @ t"] by auto
    then have "c \<noteq> CHR '':''" by auto
    with cr have "v6_loop gs None (groups_text (h # hs) @ ''::'' @ t) = v6_loop (gs @ [h]) None (groups_text hs @ ''::'' @ t)"
      using Cons.prems False v6_group_more [of h gs "groups_text hs @ ''::'' @ t" c r None] by (simp add: groups_text_Cons)
    then show ?thesis using Cons.IH [of "gs @ [h]"] Cons.prems False by simp
  qed
qed simp

section \<open>The run of zeros\<close>

lemma takeWhile_zeros: "takeWhile (\<lambda>g. g = 0) gs = replicate (length (takeWhile (\<lambda>g. g = 0) gs)) (0 :: nat)"
  by (induction gs) auto

lemma zero_run_cases:
  obtains "zero_run gs = (255, 255)"
  | zs ze where "zero_run gs = (zs, ze)" "zs < ze" "ze \<le> length gs" "gs = take zs gs @ replicate (ze - zs) 0 @ drop ze gs"
proof -
  let ?ok = "\<lambda>(zs, ze). (zs, ze) = (255, 255) \<or>
      zs < ze \<and> ze \<le> length gs \<and> gs = take zs gs @ replicate (ze - zs) (0 :: nat) @ drop ze gs"
  let ?step = "\<lambda>(zs, ze) i. let j = i + length (takeWhile (\<lambda>g. g = 0) (drop i gs)) in
       if j - i \<ge> 2 \<and> j - i > ze - zs then (i, j) else (zs, ze)"
  have "?ok (?step x i)" if x: "?ok x" and i: "i < length gs" for x i
  proof -
    let ?n = "length (takeWhile (\<lambda>g. g = 0) (drop i gs))"
    have le: "i + ?n \<le> length gs" using i length_takeWhile_le [of "\<lambda>g. g = 0" "drop i gs"] by simp
    have "gs = take i gs @ takeWhile (\<lambda>g. g = 0) (drop i gs) @ dropWhile (\<lambda>g. g = 0) (drop i gs)" by simp
    also have "\<dots> = take i gs @ replicate ?n 0 @ drop (i + ?n) gs"
      using takeWhile_zeros [of "drop i gs"] by (simp add: dropWhile_eq_drop add.commute)
    finally have "gs = take i gs @ replicate (i + ?n - i) 0 @ drop (i + ?n) gs" by simp
    moreover have "?step x i = x \<or> ?step x i = (i, i + ?n) \<and> 0 < ?n" by (auto simp: Let_def split: prod.split)
    ultimately show ?thesis using x le by auto
  qed
  then have "?ok (foldl ?step x is)" if "?ok x" "\<forall>i\<in>set is. i < length gs" for x "is"
    using that by (induction "is" arbitrary: x) (simp_all del: split_paired_All)
  from this [of "(255, 255)" "[0 ..< length gs]"] that show ?thesis
    unfolding zero_run_def [symmetric] by (cases "zero_run gs") auto
qed

section \<open>Addresses\<close>

lemma group_less: "group w i < 65536"
  by (simp add: group_def)

definition groups_of :: "128 word \<Rightarrow> nat list" where
  "groups_of w = map (group w) [0, 1, 2, 3, 4, 5, 6, 7]"

lemma groups_of_props: "length (groups_of w) = 8" "\<forall>h\<in>set (groups_of w). h < 65536" "groups_of w \<noteq> []"
  by (simp_all add: groups_of_def group_less)

lemma v6_string_groups: "v6_string w =
  (let (zs, ze) = zero_run (groups_of w) in
   if zs = 255 then groups_text (groups_of w)
   else groups_text (take zs (groups_of w)) @ ''::'' @ groups_text (drop ze (groups_of w)))"
  unfolding v6_string_def groups_of_def groups_text_def take_map [symmetric] drop_map [symmetric] Let_def by (rule refl)

lemma word_of_groups_groups: "word_of_groups (groups_of w) = w"
proof -
  have step: "n div 65536 ^ Suc k * 65536 + n div 65536 ^ k mod 65536 = n div 65536 ^ k" for n k :: nat
    by (simp add: div_mult2_eq mult.commute [of 65536] div_mult_mod_eq)
  let ?u = "unat w"
  have "?u < 65536 ^ 8" using unsigned_less [of w] by simp
  then have top: "?u div 65536 ^ 8 = 0" by simp
  have "foldl (\<lambda>n g. n * 65536 + g) 0 (groups_of w) = ?u"
    using step [of ?u 7] step [of ?u 6] step [of ?u 5] step [of ?u 4] step [of ?u 3] step [of ?u 2] step [of ?u 1] step [of ?u 0] top
    by (simp add: group_def groups_of_def)
  then show ?thesis by (simp add: word_of_groups_def)
qed

lemma word_of_groups_zeros: "word_of_groups (replicate n 0) = 0"
  by (induction n) (simp_all add: word_of_groups_def)

lemma colon_first: "hs \<noteq> [] \<Longrightarrow>
  find (\<lambda>c. c \<in> {CHR ''.'', CHR '':'', CHR ''%''}) (groups_text hs @ CHR '':'' # t) = Some CHR '':''"
proof (cases hs)
  case (Cons g gs)
  have "\<forall>c\<in>set (hex_digits g). \<not> c \<in> {CHR ''.'', CHR '':'', CHR ''%''}" using hex_digits_all [of g] by auto
  from find_append [OF this] show ?thesis using Cons by (cases "gs = []") (simp_all add: groups_text_Cons)
qed simp

lemma parse_v6_body:
  assumes "CHR ''%'' \<notin> set s" "r = (if z = [] then [] else CHR ''%'' # z)"
  shows "parse_v6 (s @ r) =
    (if s = ''::'' then Some (V6 0 z)
     else (case v6_loop [] (if has_prefix s ''::'' then Some 0 else None) (if has_prefix s ''::'' then drop 2 s else s) of
             None \<Rightarrow> None | Some (gs, ell) \<Rightarrow> map_option (\<lambda>fs. V6 (word_of_groups fs) z) (expand_groups gs ell)))"
proof -
  have cut: "cut_on CHR ''%'' (s @ r) = (s, z, z \<noteq> [])"
    using assms by (cases "z = []") (auto simp: cut_on_free cut_on_append)
  have "has_prefix s ''::'' \<and> drop 2 s = [] \<longleftrightarrow> s = ''::''"
    by (auto simp: has_prefix_iff)
  then show ?thesis unfolding parse_v6_def cut by (auto simp: Let_def split: option.split prod.split)
qed

lemma v6_text_free: "CHR ''%'' \<notin> set (groups_text hs)"
  using set_str_join [of "'':''" "map hex_digits hs"] hex_digits_free [of "CHR ''%''"] unfolding groups_text_def by fastforce

lemma not_double_colon: "hs \<noteq> [] \<Longrightarrow> \<not> has_prefix (groups_text hs @ t) ''::''"
  using groups_text_start [of hs t] by (auto simp: has_prefix_iff)

lemma parse_v6_groups:
  assumes "r = (if z = [] then [] else CHR ''%'' # z)"
  shows "parse_v6 (v6_string w @ r) = Some (V6 w z)"
proof -
  note small = groups_of_props(2) [of w] and eight = groups_of_props(1) [of w] and ne = groups_of_props(3) [of w]
  show ?thesis
  proof (cases rule: zero_run_cases [of "groups_of w"])
    case 1
    then have s: "v6_string w = groups_text (groups_of w)" by (simp add: v6_string_groups)
    have "v6_loop [] None (groups_text (groups_of w)) = Some (groups_of w, None)"
      using v6_loop_all [OF ne small, of "[]" None] eight by simp
    moreover have "groups_text (groups_of w) \<noteq> ''::''" "\<not> has_prefix (groups_text (groups_of w)) ''::''"
      using not_double_colon [OF ne, of "[]"] by auto
    ultimately show ?thesis
      unfolding s parse_v6_body [OF v6_text_free assms] by (simp add: expand_groups_def word_of_groups_groups eight)
  next
    case (2 zs ze)
    let ?a = "take zs (groups_of w)" and ?b = "drop ze (groups_of w)"
    have len: "length ?a = zs" "length ?b = 8 - ze" "ze \<le> 8" using 2 eight by simp_all
    have ne255: "zs \<noteq> 255" using 2 eight by simp
    have s: "v6_string w = groups_text ?a @ ''::'' @ groups_text ?b"
      using ne255 2(1) by (simp add: v6_string_groups)
    have free: "CHR ''%'' \<notin> set (v6_string w)" unfolding s using v6_text_free by auto
    have small': "\<forall>h\<in>set ?a. h < 65536" "\<forall>h\<in>set ?b. h < 65536"
      using small by (meson in_set_takeD in_set_dropD)+
    have whole: "expand_groups (?a @ ?b) (Some zs) = Some (groups_of w)"
    proof -
      have "8 - length (?a @ ?b) = ze - zs" "length (?a @ ?b) < 8" using len 2 by simp_all
      then show ?thesis unfolding expand_groups_def using 2(4) len by simp
    qed
    show ?thesis
    proof (cases "?a = []")
      case a: True
      then have zs: "zs = 0" using ne by simp
      show ?thesis
      proof (cases "?b = []")
        case b: True
        then have "groups_of w = replicate 8 0" using 2(4) zs len by simp
        then have "word_of_groups (replicate 8 0) = w" using word_of_groups_groups [of w] by simp
        then have "w = 0" by (simp add: word_of_groups_zeros)
        with a b s zs show ?thesis using parse_v6_body [of "''::''" r z] assms by simp
      next
        case b: False
        have sp: "has_prefix (v6_string w) ''::''" "drop 2 (v6_string w) = groups_text ?b" "v6_string w \<noteq> ''::''"
          using a b groups_text_start [OF b, of "[]"] unfolding s by auto
        have "v6_loop [] (Some 0) (groups_text ?b) = Some (?b, Some 0)"
          using v6_loop_all [OF b small'(2), of "[]"] len by simp
        with sp whole a zs show ?thesis
          unfolding parse_v6_body [OF free assms] by (simp add: word_of_groups_groups)
      qed
    next
      case a: False
      have sp: "\<not> has_prefix (v6_string w) ''::''" "v6_string w \<noteq> ''::''"
        using not_double_colon [OF a, of "''::'' @ groups_text ?b"] unfolding s by auto
      have "v6_loop [] None (v6_string w) = Some (?a @ ?b, Some zs)"
      proof (cases "?b = []")
        case True
        then show ?thesis unfolding s using v6_loop_until_ellipsis [OF a small'(1), of "[]" "[]"] len by simp
      next
        case b: False
        then have "groups_text ?b \<noteq> []" using groups_text_start [OF b, of "[]"] by auto
        moreover have "v6_loop ?a (Some zs) (groups_text ?b) = Some (?a @ ?b, Some zs)"
          using v6_loop_all [OF b small'(2), of ?a "Some zs"] len 2 by simp
        ultimately show ?thesis unfolding s using v6_loop_until_ellipsis [OF a small'(1), of "[]" "groups_text ?b"] len by simp
      qed
      with sp whole show ?thesis
        unfolding parse_v6_body [OF free assms] by (simp add: word_of_groups_groups)
    qed
  qed
qed

lemma v4_text_hex_run:
  "\<exists>d t. v4_string v = nat_digits d @ CHR ''.'' # t \<and> d < 256"
  by (intro exI [of _ "octet v 0"]) (simp add: v4_string_def octet_less)

lemma digit_hex: "is_digit c \<Longrightarrow> hex_val c \<noteq> None"
  by (simp add: hex_val_def)

lemma hex_run_nat:
  "hex_run (nat_digits d @ CHR ''.'' # t) = nat_digits d \<and> hex_rest (nat_digits d @ CHR ''.'' # t) = CHR ''.'' # t"
  using nat_digits_all_digits [of d] digit_hex by (auto simp: hex_run_def hex_rest_def takeWhile_append dropWhile_append)

lemma nat_digits_bounded: "n < 10 ^ Suc k \<Longrightarrow> length (nat_digits n) \<le> Suc k"
proof (induction k arbitrary: n)
  case 0
  then show ?case by (subst nat_digits.simps) simp
next
  case (Suc k)
  then have "n div 10 < 10 ^ Suc k" by (simp add: less_mult_imp_div_less)
  with Suc.IH [of "n div 10"] show ?case by (subst nat_digits.simps) simp
qed

lemma parse_v4_octets: "parse_v4 (v4_string v) = Some (octet v 0, octet v 1, octet v 2, octet v 3)"
  by (simp add: parse_v4_def split_v4_string parse_octet_nat_digits octet_less)

lemma v6_loop_v4_tail: "v6_loop [65535] (Some 0) (v4_string v) =
  Some ([65535, octet v 0 * 256 + octet v 1, octet v 2 * 256 + octet v 3], Some 0)"
proof -
  obtain d t where v: "v4_string v = nat_digits d @ CHR ''.'' # t" "d < 256" using v4_text_hex_run by blast
  then have "length (nat_digits d) \<le> 3" using nat_digits_bounded [of d 2] by simp
  then show ?thesis
    using hex_run_nat [of d t] parse_v4_octets [of v]
    by (subst v6_loop.simps) (simp add: v(1) Let_def)
qed

lemma octets_value: "(((octet v 0 * 256 + octet v 1) * 256 + octet v 2) * 256 + octet v 3) = unat v"
proof -
  let ?n = "((octet v 0 * 256 + octet v 1) * 256 + octet v 2) * 256 + octet v 3"
  have "?n < 2 ^ 32" using octet_less [of v 0] octet_less [of v 1] octet_less [of v 2] octet_less [of v 3] by simp
  then have "unat (of_nat ?n :: 32 word) = ?n" by (simp only: unat_of_nat take_bit_nat_eq_self len_num1 len_bit0) simp
  with word_of_octets_octet [of v] show ?thesis unfolding word_of_octets_def by simp
qed

lemma word_of_mapped:
  assumes "is4in6 (V6 w z)"
  shows "word_of_groups [0, 0, 0, 0, 0, 65535, octet (ucast w) 0 * 256 + octet (ucast w) 1, octet (ucast w) 2 * 256 + octet (ucast w) 3] = w"
proof -
  let ?v = "ucast w :: 32 word"
  have "drop_bit 32 w = 65535" using assms by simp
  from arg_cong [OF this, of unat] have "drop_bit 32 (unat w) = 65535" by (simp only: unat_drop_bit_eq unsigned_numeral) simp
  then have hi: "unat w div 2 ^ 32 = 65535" by (simp only: drop_bit_eq_div)
  have lo: "unat ?v = unat w mod 2 ^ 32" by (simp add: unsigned_ucast_eq take_bit_eq_mod)
  have "65535 * 4294967296 + ((octet ?v 0 * 256 + octet ?v 1) * 65536 + (octet ?v 2 * 256 + octet ?v 3)) = unat w"
    using octets_value [of ?v] hi lo div_mult_mod_eq [of "unat w" "2 ^ 32"] by simp
  then show ?thesis by (simp add: word_of_groups_def algebra_simps)
qed

lemma v4_text_free: "CHR ''%'' \<notin> set (v4_string v)" "CHR '':'' \<notin> set (v4_string v)" "CHR ''/'' \<notin> set (v4_string v)"
  by (auto simp: v4_string_def nat_digits_free)

lemma parse_v6_mapped:
  assumes "is4in6 (V6 w z)" "r = (if z = [] then [] else CHR ''%'' # z)"
  shows "parse_v6 ((''::ffff:'' @ v4_string (ucast w)) @ r) = Some (V6 w z)"
proof -
  let ?v = "ucast w :: 32 word" and ?t = "''::ffff:'' @ v4_string (ucast w)"
  obtain d t where "v4_string ?v = nat_digits d @ CHR ''.'' # t" "d < 256" using v4_text_hex_run by blast
  moreover obtain c u where "nat_digits d = c # u" "is_digit c" using nat_digits_all_digits [of d] by (cases "nat_digits d") auto
  ultimately obtain y where v: "v4_string ?v = c # y" "c \<noteq> CHR '':''" using is_digit_simps(3) by fastforce
  have "hex_digits 65535 = ''ffff''" by (simp add: hex_digits.simps digit_char_def)
  then have "v6_loop [] (Some 0) (''ffff:'' @ v4_string ?v) = v6_loop [65535] (Some 0) (v4_string ?v)"
    using v6_group_more [of 65535 "[]" "v4_string ?v" c y "Some 0"] v by simp
  then have "v6_loop [] (Some 0) (''ffff:'' @ v4_string ?v) =
      Some ([65535, octet ?v 0 * 256 + octet ?v 1, octet ?v 2 * 256 + octet ?v 3], Some 0)"
    by (simp only: v6_loop_v4_tail)
  moreover have five: "replicate 5 0 = [0, 0, 0, 0, 0 :: nat]" by (simp add: numeral_eq_Suc)
  moreover have "CHR ''%'' \<notin> set ?t" by (simp add: v4_text_free)
  note parse_v6_body [OF this assms(2)]
  ultimately show ?thesis
    using word_of_mapped [OF assms(1)] five by (simp add: expand_groups_def)
qed

text \<open>An address read back from its own text is the address.\<close>

lemma parse_addr_string: "a \<noteq> NoAddr \<Longrightarrow> parse_addr (addr_string a) = Some a"
proof (cases a)
  case (V6 w z)
  let ?r = "if z = [] then [] else CHR ''%'' # z"
  show ?thesis
  proof (cases "is4in6 (V6 w z)")
    case True
    then show ?thesis using parse_v6_mapped [OF True refl] V6 by (simp add: parse_addr_def del: is4in6.simps)
  next
    case False
    have "find (\<lambda>c. c \<in> {CHR ''.'', CHR '':'', CHR ''%''}) (v6_string w @ ?r) = Some CHR '':''"
    proof (cases rule: zero_run_cases [of "groups_of w"])
      case 1
      obtain g gs where g: "groups_of w = g # gs" "gs \<noteq> []" using groups_of_props(1) [of w] by (cases "groups_of w"; cases "tl (groups_of w)") auto
      have "v6_string w @ ?r = groups_text [g] @ CHR '':'' # groups_text gs @ ?r"
        using 1 g by (simp add: v6_string_groups groups_text_Cons)
      then show ?thesis using colon_first [of "[g]"] by simp
    next
      case (2 zs ze)
      then have "zs \<noteq> 255" using groups_of_props(1) [of w] by simp
      then have s: "v6_string w @ ?r = groups_text (take zs (groups_of w)) @ CHR '':'' # CHR '':'' # groups_text (drop ze (groups_of w)) @ ?r"
        using 2(1) by (simp add: v6_string_groups)
      show ?thesis
      proof (cases "take zs (groups_of w) = []")
        case True
        then show ?thesis unfolding s True by simp
      next
        case False
        then show ?thesis unfolding s by (rule colon_first)
      qed
    qed
    then show ?thesis
      using False V6 parse_v6_groups [OF refl, of w z] by (simp add: parse_addr_def del: is4in6.simps)
  qed
qed (simp_all add: parse_v4_string)

section \<open>Prefixes\<close>

lemma addr_text_free: "\<not> has_zone a \<Longrightarrow> CHR ''/'' \<notin> set (addr_string a)"
proof (cases a)
  case (V6 w z)
  have "CHR ''/'' \<notin> set (groups_text hs)" for hs
    using set_str_join [of "'':''" "map hex_digits hs"] hex_digits_free [of "CHR ''/''"] unfolding groups_text_def by fastforce
  then have "CHR ''/'' \<notin> set (v6_string w)" by (auto simp: v6_string_groups split: prod.split)
  moreover assume "\<not> has_zone a"
  ultimately show ?thesis using V6 by (simp add: v4_text_free)
qed (simp_all add: v4_text_free)

lemma parse_prefix_string:
  assumes wf: "wf_prefix p" and valid: "prefix_valid p"
  shows "parse_prefix (prefix_string p) = Some p"
proof -
  obtain a b where p: "p = Prefix a b" by (cases p)
  have a: "a \<noteq> NoAddr" "\<not> has_zone a" "0 \<le> b" "b \<le> bit_len a" using wf valid by (auto simp: p prefix_valid_def)
  let ?n = "nat b"
  have printed: "prefix_string p = addr_string a @ CHR ''/'' # nat_digits ?n"
    using a by (simp add: p prefix_string_def prefix_valid_def itoa_def)
  have "CHR ''/'' \<notin> set (rev (nat_digits ?n))" by (simp add: nat_digits_free)
  from cut_on_append [OF this, of "rev (addr_string a)"]
  have cut: "cut_on CHR ''/'' (rev (prefix_string p)) = (rev (nat_digits ?n), rev (addr_string a), True)"
    by (simp add: printed)
  have digits: "list_all is_digit (nat_digits ?n)" using nat_digits_all_digits [of ?n] by (simp add: list_all_iff)
  have "\<not> (length (nat_digits ?n) > 1 \<and> hd (nat_digits ?n) = CHR ''0'')"
    using hd_nat_digits [of ?n] by (cases "?n = 0") (simp_all add: nat_digits.simps [of 0])
  moreover have "prefix_from a b = p" using a by (cases a) (simp_all add: prefix_from_def p)
  ultimately show ?thesis
    unfolding parse_prefix_def cut using digits a by (simp add: parse_addr_string Let_def)
qed

lemma parse_cidr_Inr: "parse_cidr s = Inr p \<Longrightarrow> wf_prefix p \<and> prefix_valid p \<and> masked p = p"
  by (auto simp: parse_cidr_def wf_parse_prefix parse_prefix_valid split: option.splits if_splits)

text \<open>
  A block that was accepted is stored as text and read back at every later check
  as the very same block, whatever way the client had spelled it: IPv4 or IPv6, with
  or without an ellipsis, and IPv4 in IPv6.
\<close>

theorem accepted_blocks_read_back:
  assumes "parse_cidr s = Inr p"
  shows "parse_cidr (prefix_string p) = Inr p"
  using parse_cidr_Inr [OF assms] parse_prefix_string [of p] by (simp add: parse_cidr_def)

lemma read_back_again: "parse_cidr s = Inr p \<Longrightarrow> parse_cidr (prefix_string p) = Inr p"
  using parse_cidr_Inr [of s p] parse_prefix_string [of p] by (simp add: parse_cidr_def)

lemma blocks_read_back_witness: "parse_cidr (prefix_string (Prefix (V4 0x0A010000) 16)) = Inr (Prefix (V4 0x0A010000) 16)"
proof (rule accepted_blocks_read_back)
  show "parse_cidr ''10.1.0.0/16'' = Inr (Prefix (V4 0x0A010000) 16)" by (simp add: parse_cidr_def netip_eval)
qed

end
