(* ===== verification/OscPlane.thy ===== *)
theory OscPlane
  imports OscPeerings NetipText
begin

text \<open>
  Requests of the Outscale pack in flight together: thirty of the routes the pack mounts
  (\<open>Routes\<close> of \<open>pack.go\<close>; the others, on machines, volumes, addresses, security groups,
  load balancers and DHCP options, are not among the calls), the abstract machine whose atomic steps are all they do to
  the store, and the proof that whatever the order their steps come in, a run of the
  handlers is a run of that machine. The invariants of the pack are proved on the
  machine (OscInvariants.thy).
\<close>

section \<open>The routes\<close>

datatype osc_call =
    CreateNet "create_net_request option" | ReadNets "read_request option"
  | UpdateNet "update_net_request option" | DeleteNet "string option"
  | CreateSubnet "create_subnet_request option" | ReadSubnets "read_request option"
  | UpdateSubnet "update_subnet_request option" | DeleteSubnet "string option"
  | CreateRouteTable "string option" | ReadRouteTables "read_request option" | DeleteRouteTable "string option"
  | LinkRouteTable "link_request option" | UnlinkRouteTable "string option" | UpdateRouteTableLink "move_request option"
  | CreateRoute "route_request option" | DeleteRoute "route_request option" | UpdateRoute "route_request option"
  | CreateInternetService "unit option" | ReadInternetServices "read_request option"
  | LinkInternetService "gateway_request option" | UnlinkInternetService "gateway_request option"
  | DeleteInternetService "string option"
  | CreateNetPeering "create_peering_request option" | AcceptNetPeering "string option"
  | RejectNetPeering "string option" | DeleteNetPeering "string option" | ReadNetPeerings "read_request option"
  | CreateTags "tags_request option" | DeleteTags "tags_request option" | ReadTags "read_request option"

fun serve :: "'h osc_env \<Rightarrow> osc_call \<Rightarrow> 'h reply" where
  "serve e (CreateNet r) = create_net e r"
| "serve e (ReadNets r) = read_nets e r"
| "serve e (UpdateNet r) = update_net e r"
| "serve e (DeleteNet r) = delete_net e r"
| "serve e (CreateSubnet r) = create_subnet e r"
| "serve e (ReadSubnets r) = read_subnets e r"
| "serve e (UpdateSubnet r) = update_subnet e r"
| "serve e (DeleteSubnet r) = delete_subnet e r"
| "serve e (CreateRouteTable r) = create_route_table e r"
| "serve e (ReadRouteTables r) = read_route_tables e r"
| "serve e (DeleteRouteTable r) = delete_route_table e r"
| "serve e (LinkRouteTable r) = link_route_table e r"
| "serve e (UnlinkRouteTable r) = unlink_route_table e r"
| "serve e (UpdateRouteTableLink r) = update_route_table_link e r"
| "serve e (CreateRoute r) = create_route e r"
| "serve e (DeleteRoute r) = delete_route e r"
| "serve e (UpdateRoute r) = update_route e r"
| "serve e (CreateInternetService r) = create_internet_service e r"
| "serve e (ReadInternetServices r) = read_internet_services e r"
| "serve e (LinkInternetService r) = link_internet_service e r"
| "serve e (UnlinkInternetService r) = unlink_internet_service e r"
| "serve e (DeleteInternetService r) = delete_internet_service e r"
| "serve e (CreateNetPeering r) = create_net_peering e r"
| "serve e (AcceptNetPeering r) = accept_net_peering e r"
| "serve e (RejectNetPeering r) = reject_net_peering e r"
| "serve e (DeleteNetPeering r) = delete_net_peering e r"
| "serve e (ReadNetPeerings r) = read_net_peerings e r"
| "serve e (CreateTags r) = create_tags e r"
| "serve e (DeleteTags r) = delete_tags e r"
| "serve e (ReadTags r) = read_tags e r"

text \<open>A request is a route and what the body says of \<open>DryRun\<close>.\<close>

definition mounted :: "'h osc_env \<Rightarrow> bool option \<times> osc_call \<Rightarrow> 'h reply" where
  "mounted e c = (case c of (dry, call) \<Rightarrow> dry_runnable e dry (serve e call))"

section \<open>The machine\<close>

text \<open>What the store holds, by key; the blocks Nets and Subnets take, and where.\<close>

type_synonym cells = "string \<rightharpoonup> resource"

definition cells_of :: "'h osc \<Rightarrow> cells" where
  "cells_of x = map_of (items (os_store x))"

definition plot_of :: "resource \<Rightarrow> (string \<times> string \<times> prefix) option" where
  "plot_of r =
     (if provider (tenant r) = pack_name \<and> kind r \<in> {kindNet, kindSubnet} then
        (case prefix_of r ''IpRange'' of
           Inl e \<Rightarrow> None
         | Inr p \<Rightarrow> Some (kind r, if kind r = kindNet then [] else string_of (attrs r ''NetId''), p))
      else None)"

definition plots :: "cells \<Rightarrow> (string \<times> string \<times> prefix) set" where
  "plots c = {t. \<exists>n r. c n = Some r \<and> plot_of r = Some t}"

text \<open>The DHCP options sets the account treats as its default.\<close>

definition default_set :: "resource \<Rightarrow> bool" where
  "default_set r \<longleftrightarrow> provider (tenant r) = pack_name \<and> kind r = kindDhcpOptions \<and> bool_of (attrs r ''Default'')"

definition defaults :: "cells \<Rightarrow> string set" where
  "defaults c = {n. \<exists>r. c n = Some r \<and> default_set r}"

definition vacant :: "string \<Rightarrow> string \<Rightarrow> prefix \<Rightarrow> cells \<Rightarrow> bool" where
  "vacant k home p c \<longleftrightarrow> (\<forall>q. (k, home, q) \<in> plots c \<longrightarrow> \<not> overlaps p q)"

text \<open>A resource a handler makes: one of the pack's kinds, under an identifier drawn since \<open>d\<close>.\<close>

inductive born :: "'h osc_env \<Rightarrow> nat \<Rightarrow> resource \<Rightarrow> bool" for e d where
  plain: "born e d r"
    if "kind r \<in> {kindSecurityGroup, kindInternetService}" "tenant r = osc_tenant"
      "rid r = new_id pre (oe_seed e m)" "d \<le> m"
| table: "born e d r"
    if "kind r = kindRouteTable" "tenant r = osc_tenant" "rid r = new_id ''rtb'' (oe_seed e m)" "d \<le> m"
      "attrs r = table_attrs net block links" "links = [] \<or> (\<exists>l. links = [l] \<and> is_main_link l)"
| peering: "born e d r"
    if "kind r = kindNetPeering" "tenant r = osc_tenant" "rid r = new_id ''pcx'' (oe_seed e m)" "d \<le> m"
      "rstate r \<in> {state_pending, state_rejected, state_failed}" "pending r = []"

text \<open>The keys a route may keep its target under.\<close>

definition route_keys :: "string list" where
  "route_keys = [''GatewayId'', ''NatServiceId'', ''NetPeeringId'', ''NicId'', ''VmId'']"

text \<open>What an action of the pack makes of a stored resource of each kind.\<close>

inductive rewritten :: "string \<Rightarrow> resource \<Rightarrow> resource \<Rightarrow> bool" where
  moved: "move_pending st now r = Inr r' \<Longrightarrow> st \<in> {state_peering_active, state_rejected} \<Longrightarrow> rewritten kindNetPeering r r'"
| ended: "end_peering now r = Inr r' \<Longrightarrow> rewritten kindNetPeering r r'"
| route_added: "add_route dest k v now r = Inr r' \<Longrightarrow> k \<in> set route_keys \<Longrightarrow> rewritten kindRouteTable r r'"
| route_dropped: "drop_route dest now r = Inr r' \<Longrightarrow> rewritten kindRouteTable r r'"
| route_moved: "redirect_route dest k v now r = Inr r' \<Longrightarrow> k \<in> set route_keys \<Longrightarrow> rewritten kindRouteTable r r'"
| link_added: "add_link link subnet now r = Inr r' \<Longrightarrow> rewritten kindRouteTable r r'"
| link_dropped: "drop_link link now r = Inr r' \<Longrightarrow> rewritten kindRouteTable r r'"
| link_taken: "take_link link now r = Inr r' \<Longrightarrow> rewritten kindRouteTable r r'"
| link_grown: "grow_links l now r = Inr r' \<Longrightarrow> rewritten kindRouteTable r r'"
| gateway_linked: "link_gateway net now r = Inr r' \<Longrightarrow> rewritten kindInternetService r r'"
| gateway_freed: "unlink_gateway net now r = Inr r' \<Longrightarrow> rewritten kindInternetService r r'"
| dhcp_changed: "rewritten kindNet r (set_attr now ''DhcpOptionsSetId'' v r)"
| public_changed: "rewritten kindSubnet r (set_attr now ''MapPublicIpOnLaunch'' v r)"
| tagged: "rewritten k r (set_attr now ''Tags'' v r)"
| backed: "rewritten kindSubnet r (r\<lparr>runtime := m, updated := now\<rparr>)"

text \<open>
  One atomic step on the store. A Net or a Subnet is only ever placed on a block that
  is vacant at that very moment, and a default set only when there is none; a peering
  and a set of DHCP options are never removed.
\<close>

definition removable :: "string list" where
  "removable = [kindNet, kindSubnet, kindSecurityGroup, kindRouteTable, kindInternetService]"

inductive pack_step :: "'h osc_env \<Rightarrow> nat \<Rightarrow> cells \<Rightarrow> cells \<Rightarrow> bool" for e d where
  read: "pack_step e d c c'"
    if "\<forall>n. c' n = c n \<or> (\<exists>ev r. c n = Some r \<and> c' n = Some (fst (advance ev r)))"
| birth: "pack_step e d c (c(key_of r \<mapsto> r))" if "born e d r"
| placed_net: "pack_step e d c (c(key_of r \<mapsto> r))"
    if "kind r = kindNet" "tenant r = osc_tenant" "prefix_of r ''IpRange'' = Inr p" "vacant kindNet [] p c"
| placed_subnet: "pack_step e d c (c(key_of r \<mapsto> r))"
    if "kind r = kindSubnet" "tenant r = osc_tenant" "prefix_of r ''IpRange'' = Inr p"
      "attrs r ''NetId'' = Some (AString net)" "vacant kindSubnet net p c"
| rewrite: "pack_step e d c (c(key pack_name k i \<mapsto> r'))"
    if "c (key pack_name k i) = Some r" "rewritten k r r'"
| placed_default: "pack_step e d c (c(key_of r \<mapsto> r))"
    if "kind r = kindDhcpOptions" "tenant r = osc_tenant" "defaults c = {}"
| removal: "pack_step e d c (c(key pack_name k i := None))"
    if "k \<in> set removable"

definition pack_run :: "'h osc_env \<Rightarrow> nat \<Rightarrow> cells \<Rightarrow> cells \<Rightarrow> bool" where
  "pack_run e d = (pack_step e d)\<^sup>*\<^sup>*"

section \<open>What a step keeps\<close>

lemma no_bars [simp]: "CHR ''|'' \<notin> set pack_name" "CHR ''|'' \<notin> set kindNet" "CHR ''|'' \<notin> set kindSubnet"
  "CHR ''|'' \<notin> set kindNetPeering" "CHR ''|'' \<notin> set kindRouteTable" "CHR ''|'' \<notin> set kindInternetService"
  by (simp_all add: kinds)

lemma kinds_distinct [simp]:
  "kindNet \<noteq> kindSubnet" "kindSubnet \<noteq> kindNet" "kindNet \<noteq> kindNetPeering" "kindNetPeering \<noteq> kindNet" "kindNet \<noteq> kindRouteTable" "kindRouteTable \<noteq> kindNet"
  "kindNet \<noteq> kindInternetService" "kindInternetService \<noteq> kindNet" "kindSubnet \<noteq> kindNetPeering" "kindNetPeering \<noteq> kindSubnet"
  "kindSubnet \<noteq> kindRouteTable" "kindRouteTable \<noteq> kindSubnet" "kindSubnet \<noteq> kindInternetService" "kindInternetService \<noteq> kindSubnet"
  "kindNetPeering \<noteq> kindRouteTable" "kindRouteTable \<noteq> kindNetPeering" "kindNetPeering \<noteq> kindInternetService" "kindInternetService \<noteq> kindNetPeering"
  "kindRouteTable \<noteq> kindInternetService" "kindInternetService \<noteq> kindRouteTable"
  "kindDhcpOptions \<noteq> kindNet" "kindDhcpOptions \<noteq> kindSubnet" "kindDhcpOptions \<noteq> kindNetPeering" "kindDhcpOptions \<noteq> kindRouteTable"
  "kindSecurityGroup \<noteq> kindNet" "kindSecurityGroup \<noteq> kindSubnet" "kindSecurityGroup \<noteq> kindNetPeering" "kindSecurityGroup \<noteq> kindRouteTable"
  by (simp_all add: kinds)

lemma set_attr_fields [simp]:
  "attrs (set_attr now k v r) = (attrs r)(k \<mapsto> v)" "kind (set_attr now k v r) = kind r" "rid (set_attr now k v r) = rid r"
  "tenant (set_attr now k v r) = tenant r" "rstate (set_attr now k v r) = rstate r" "pending (set_attr now k v r) = pending r"
  by (simp_all add: set_attr_def)

lemmas changes = move_pending_def end_peering_def add_route_def drop_route_def redirect_route_def add_link_def
  drop_link_def take_link_def grow_links_def link_gateway_def unlink_gateway_def

text \<open>An action keeps the identity, and the block and the Net of a Net or a Subnet.\<close>

lemma rewritten_identity: "rewritten k r r' \<Longrightarrow> kind r' = kind r \<and> rid r' = rid r \<and> tenant r' = tenant r"
  by (induction rule: rewritten.induct) (auto simp: changes Let_def split: if_splits)

lemma rewritten_place:
  "rewritten k r r' \<Longrightarrow> k \<noteq> kindInternetService \<Longrightarrow> attrs r' ''IpRange'' = attrs r ''IpRange'' \<and> attrs r' ''NetId'' = attrs r ''NetId''"
  by (induction rule: rewritten.induct) (auto simp: changes Let_def split: if_splits)

lemma rewritten_default: "rewritten k r r' \<Longrightarrow> attrs r' ''Default'' = attrs r ''Default''"
  by (induction rule: rewritten.induct) (auto simp: changes Let_def split: if_splits)

lemma rewritten_plot:
  assumes "rewritten k r r'" "key pack_name k i = key_of r"
  shows "plot_of r' = plot_of r"
proof (cases "k = kindInternetService")
  case True
  have "plot_of s = None" if "kind s = kind r" "tenant s = tenant r" for s
    using key_inject [of pack_name k "provider (tenant r)" "kind r" i "rid r"] assms(2) True that
    by (auto simp: plot_of_def key_of_def)
  then show ?thesis using rewritten_identity [OF assms(1)] by auto
next
  case False
  then show ?thesis
    using rewritten_identity [OF assms(1)] rewritten_place [OF assms(1)] by (simp add: plot_of_def prefix_of_def split: sum.split)
qed

lemma advance_fields [simp]:
  "kind (fst (advance ev r)) = kind r" "rid (fst (advance ev r)) = rid r" "tenant (fst (advance ev r)) = tenant r"
  "attrs (fst (advance ev r)) = attrs r"
  by (simp_all add: advance_def Let_def split: list.split)

lemma plot_advance [simp]: "plot_of (fst (advance ev r)) = plot_of r"
  by (simp add: plot_of_def prefix_of_def split: sum.split)

lemma default_advance [simp]: "default_set (fst (advance ev r)) = default_set r"
  by (simp add: default_set_def)

lemma born_plot: "born e d r \<Longrightarrow> plot_of r = None \<and> \<not> default_set r"
  by (induction rule: born.induct) (auto simp: plot_of_def default_set_def kinds)

definition keyed_cells :: "cells \<Rightarrow> bool" where
  "keyed_cells c \<longleftrightarrow> (\<forall>n r. c n = Some r \<longrightarrow> n = key_of r)"

lemma keyed_cellsD: "keyed_cells c \<Longrightarrow> c n = Some r \<Longrightarrow> key_of r = n"
  by (simp add: keyed_cells_def)

lemma keyed_step: "pack_step e d c c' \<Longrightarrow> keyed_cells c \<Longrightarrow> keyed_cells c'"
proof (induction rule: pack_step.induct)
  case (read c' c)
  then show ?case by (auto simp: keyed_cells_def key_of_def) (metis advance_fields(1-3) option.inject)
next
  case (rewrite c k i r r')
  then show ?case using rewritten_identity [of k r r'] by (auto simp: keyed_cells_def key_of_def)
qed (auto simp: keyed_cells_def key_of_def)

text \<open>Only a placement takes a block.\<close>

definition shrinks :: "cells \<Rightarrow> cells \<Rightarrow> bool" where
  "shrinks c c' \<longleftrightarrow> plots c' \<subseteq> plots c \<and> defaults c' \<subseteq> defaults c"

lemma shrinks_refl [simp]: "shrinks c c"
  by (simp add: shrinks_def)

lemma shrinks_trans: "shrinks c c' \<Longrightarrow> shrinks c' c'' \<Longrightarrow> shrinks c c''"
  by (auto simp: shrinks_def)

lemma vacant_plots: "vacant k home p c \<Longrightarrow> plots c' \<subseteq> plots c \<Longrightarrow> vacant k home p c'"
  by (auto simp: vacant_def)

lemma vacant_shrinks: "vacant k home p c \<Longrightarrow> shrinks c c' \<Longrightarrow> vacant k home p c'"
  by (auto simp: vacant_def shrinks_def)

text \<open>Cell by cell: whatever is there in the end was there, with the same claim.\<close>

lemma shrinks_cells:
  assumes "\<And>n r. c' n = Some r \<Longrightarrow>
      (plot_of r = None \<and> \<not> default_set r) \<or> (\<exists>q. c n = Some q \<and> plot_of q = plot_of r \<and> default_set q = default_set r)"
  shows "shrinks c c'"
proof -
  have "\<exists>n r. c n = Some r \<and> plot_of r = Some t" if "c' n = Some r" "plot_of r = Some t" for n r t
    using that assms [of n r] by force
  moreover have "\<exists>q. c n = Some q \<and> default_set q" if "c' n = Some r" "default_set r" for n r
    using that assms [of n r] by force
  ultimately show ?thesis by (auto simp: shrinks_def plots_def defaults_def)
qed

lemma shrinks_read:
  assumes "\<forall>n. c' n = c n \<or> (\<exists>ev r. c n = Some r \<and> c' n = Some (fst (advance ev r)))"
  shows "shrinks c c'"
proof (rule shrinks_cells)
  fix n r assume r: "c' n = Some r"
  have "\<exists>q. c n = Some q \<and> plot_of q = plot_of r \<and> default_set q = default_set r"
    using assms [rule_format, of n] r by (metis default_advance option.inject plot_advance)
  then show "(plot_of r = None \<and> \<not> default_set r) \<or> (\<exists>q. c n = Some q \<and> plot_of q = plot_of r \<and> default_set q = default_set r)" ..
qed

lemma shrinks_birth: "born e d r \<Longrightarrow> shrinks c (c(key_of r \<mapsto> r))"
  using born_plot [of e d r] by (intro shrinks_cells) (auto split: if_splits)

lemma shrinks_rewrite:
  assumes "keyed_cells c" "c (key pack_name k i) = Some r" "rewritten k r r'"
  shows "shrinks c (c(key pack_name k i \<mapsto> r'))"
proof (rule shrinks_cells)
  have "plot_of r' = plot_of r"
    using assms rewritten_plot [of k r r' i] keyed_cellsD [of c "key pack_name k i" r] by simp
  moreover have "default_set r' = default_set r"
    using rewritten_identity [OF assms(3)] rewritten_default [OF assms(3)] by (simp add: default_set_def)
  moreover fix n q assume "(c(key pack_name k i \<mapsto> r')) n = Some q"
  ultimately show "(plot_of q = None \<and> \<not> default_set q) \<or> (\<exists>p. c n = Some p \<and> plot_of p = plot_of q \<and> default_set p = default_set q)"
    using assms(2) by (auto split: if_splits)
qed

lemma shrinks_removal: "shrinks c (c(n := None))"
  by (auto simp: shrinks_def plots_def defaults_def)

section \<open>The steps of a handler are steps of the machine\<close>

text \<open>
  What holds between any two steps of the requests: the store is sound, identifiers
  are drawn in order, and what is stored came about by steps of the machine.
\<close>

definition kept :: "'h osc_env \<Rightarrow> nat \<Rightarrow> cells \<Rightarrow> 'h osc \<Rightarrow> bool" where
  "kept e d c0 x \<longleftrightarrow> store_wf (os_store x) \<and> d \<le> os_drawn x \<and> pack_run e d c0 (cells_of x)"

definition yields :: "'h osc \<Rightarrow> 'h osc \<Rightarrow> bool" where
  "yields x y \<longleftrightarrow> shrinks (cells_of x) (cells_of y)"

interpretation plane: shared_plane "kept e d c0" yields for e d c0
  by unfold_locales (auto simp: yields_def intro: shrinks_trans)

abbreviation sound :: "'h osc_env \<Rightarrow> nat \<Rightarrow> cells \<Rightarrow> bool \<Rightarrow> 'h reply \<Rightarrow> bool \<Rightarrow> 'h osc \<Rightarrow> bool" where
  "sound e d c0 \<equiv> keeps (kept e d c0) yields"

named_theorems sound_rules \<open>what a handler's piece has to do\<close>

lemma keyed_cells_of: "store_wf (os_store x) \<Longrightarrow> keyed_cells (cells_of x)"
  by (auto simp: keyed_cells_def cells_of_def store_wf_def keyed_iff)

lemma kept_step:
  assumes "kept e d c0 x" "store_wf (os_store y)" "os_drawn x \<le> os_drawn y" "pack_step e d (cells_of x) (cells_of y)"
  shows "kept e d c0 y"
  using assms by (auto simp: kept_def pack_run_def intro: rtranclp.rtrancl_into_rtrancl)

text \<open>One step, given what it does to the state it is taken in.\<close>

lemma sound_Act:
  assumes "\<And>x p y. g x = (p, y) \<Longrightarrow> kept e d c0 x \<Longrightarrow> (h \<Longrightarrow> yields s x) \<Longrightarrow>
      store_wf (os_store y) \<and> os_drawn x \<le> os_drawn y \<and> pack_step e d (cells_of x) (cells_of y) \<and>
      (h \<or> yields x y) \<and> sound e d c0 z p h y"
  shows "sound e d c0 z (Act g) h s"
  unfolding keeps_Act
proof (intro allI impI)
  fix x assume x: "kept e d c0 x \<and> (h \<longrightarrow> yields s x)"
  obtain p y where g: "g x = (p, y)" by fastforce
  from assms [OF g] x kept_step [of e d c0 x y]
  show "kept e d c0 (snd (g x)) \<and> (h \<or> yields x (snd (g x))) \<and> sound e d c0 z (fst (g x)) h (snd (g x))"
    by (simp add: g)
qed

text \<open>The steps that leave the store alone.\<close>

lemma pack_step_refl [simp]: "pack_step e d c c"
  by (rule pack_step.read) simp

lemma sound_world [sound_rules]:
  "(\<And>w w' b t. g w = (w', b) \<Longrightarrow> (h \<Longrightarrow> yields s t) \<Longrightarrow> sound e d c0 z (f b) h t) \<Longrightarrow> sound e d c0 z (do_world g f) h s"
  unfolding do_world_def
  by (rule sound_Act) (auto simp: kept_def cells_of_def yields_def split: prod.splits)

lemma sound_now [sound_rules]:
  "(\<And>now t. (h \<Longrightarrow> yields s t) \<Longrightarrow> sound e d c0 z (f now) h t) \<Longrightarrow> sound e d c0 z (do_now f) h s"
  unfolding do_now_def by (rule sound_Act) (auto simp: kept_def yields_def)

lemma sound_seed [sound_rules]:
  "(\<And>m t. d \<le> m \<Longrightarrow> (h \<Longrightarrow> yields s t) \<Longrightarrow> sound e d c0 z (f (oe_seed e m)) h t) \<Longrightarrow> sound e d c0 z (do_seed e f) h s"
  unfolding do_seed_def by (rule sound_Act) (auto simp: kept_def cells_of_def yields_def)

text \<open>Reading.\<close>

definition listed :: "string \<Rightarrow> resource list \<Rightarrow> cells \<Rightarrow> bool" where
  "listed k rs c \<longleftrightarrow> (\<forall>n r. c n = Some r \<and> kind r = k \<and> provider (tenant r) = pack_name \<longrightarrow> r \<in> set rs)"

lemma read_get:
  assumes "store_wf s" "get s p k i = (t, r)"
  shows "map_of (items t) n = map_of (items s) n \<or>
    (\<exists>ev r. map_of (items s) n = Some r \<and> map_of (items t) n = Some (fst (advance ev r)))"
  using assms by (auto simp: read_lock_get get_locked_def split: option.splits prod.splits) (metis fst_conv)

lemma list_advancing_cells:
  "distinct (map fst xs) \<Longrightarrow> map_of (fst (list_advancing ev k t xs)) n =
     map_option (\<lambda>r. if kind r = k \<and> matches r t then fst (advance ev r) else r) (map_of xs n)"
  by (induction xs) (auto simp: Let_def split: prod.splits)

lemma read_list:
  assumes "store_wf s" "list_res s k t = (s', rs)"
  shows "map_of (items s') n = map_option (\<lambda>r. if kind r = k \<and> matches r t then fst (advance (eventual s) r) else r) (map_of (items s) n)"
    and "r \<in> set rs \<longleftrightarrow> (\<exists>n q. map_of (items s) n = Some q \<and> kind q = k \<and> matches q t \<and> r = fst (advance (eventual s) q))"
proof -
  have d: "distinct (map fst (items s))" using assms(1) by (simp add: store_wf_def keyed_def)
  show "map_of (items s') n = map_option (\<lambda>r. if kind r = k \<and> matches r t then fst (advance (eventual s) r) else r) (map_of (items s) n)"
    using assms list_advancing_cells [OF d, of "eventual s" k t n]
    by (auto simp: read_lock_list list_locked_def Let_def split: prod.splits)
  have "r \<in> set rs \<longleftrightarrow> (\<exists>q\<in>set (map snd (items s)). kind q = k \<and> matches q t \<and> r = fst (advance (eventual s) q))"
    using list_out [OF assms(1), of k t] assms(2) by auto
  also have "\<dots> \<longleftrightarrow> (\<exists>n q. map_of (items s) n = Some q \<and> kind q = k \<and> matches q t \<and> r = fst (advance (eventual s) q))"
    using map_of_eq_Some_iff [OF d] by force
  finally show "r \<in> set rs \<longleftrightarrow> (\<exists>n q. map_of (items s) n = Some q \<and> kind q = k \<and> matches q t \<and> r = fst (advance (eventual s) q))" .
qed

lemma matches_pack [simp]: "matches r osc_tenant \<longleftrightarrow> provider (tenant r) = pack_name"
  by (auto simp: matches_def osc_tenant_def pack_name_def)

text \<open>
  A call of the store: it may only do what the machine does, and take no block; the
  holder of the lock may go on believing what it read.
\<close>

abbreviation cells_in :: "store \<Rightarrow> cells" where
  "cells_in u \<equiv> map_of (items u)"

lemma sound_store:
  assumes step: "\<And>u now t a. g now u = (t, a) \<Longrightarrow> store_wf u \<Longrightarrow>
      store_wf t \<and> pack_step e d (cells_in u) (cells_in t) \<and> shrinks (cells_in u) (cells_in t)"
    and rest: "\<And>x t a. g (os_clock x) (os_store x) = (t, a) \<Longrightarrow> store_wf (os_store x) \<Longrightarrow> (h \<Longrightarrow> yields s (x\<lparr>os_store := t\<rparr>)) \<Longrightarrow>
      sound e d c0 z (f a) h (x\<lparr>os_store := t\<rparr>)"
  shows "sound e d c0 z (Act (\<lambda>x. case g (os_clock x) (os_store x) of (t, a) \<Rightarrow> (f a, x\<lparr>os_store := t\<rparr>))) h s"
proof (rule sound_Act)
  fix x p y
  assume g: "(case g (os_clock x) (os_store x) of (t, a) \<Rightarrow> (f a, x\<lparr>os_store := t\<rparr>)) = (p, y)"
    and x: "kept e d c0 x" "h \<Longrightarrow> yields s x"
  obtain t a where t: "g (os_clock x) (os_store x) = (t, a)" "p = f a" "y = x\<lparr>os_store := t\<rparr>" using g by (auto split: prod.splits)
  have wf: "store_wf (os_store x)" using x by (simp add: kept_def)
  note st = step [OF t(1) wf]
  have xy: "yields x y" using st by (simp add: yields_def cells_of_def t(3))
  then have "h \<Longrightarrow> yields s (x\<lparr>os_store := t\<rparr>)" using x plane.env_trans [of s x y] t(3) by blast
  from rest [OF t(1) wf this] st xy show "store_wf (os_store y) \<and> os_drawn x \<le> os_drawn y \<and>
      pack_step e d (cells_of x) (cells_of y) \<and> (h \<or> yields x y) \<and> sound e d c0 z p h y"
    by (simp add: t(2,3) cells_of_def)
qed

lemma sound_get [sound_rules]:
  assumes "\<And>r t. (h \<Longrightarrow> yields s t) \<Longrightarrow> sound e d c0 z (f r) h t"
  shows "sound e d c0 z (do_get k i f) h s"
  unfolding do_get_def
proof (rule sound_store [where g = "\<lambda>now u. get u pack_name k i"])
  fix u t r assume g: "get u pack_name k i = (t, r)" and wf: "store_wf u"
  have "\<forall>n. cells_in t n = cells_in u n \<or> (\<exists>ev r. cells_in u n = Some r \<and> cells_in t n = Some (fst (advance ev r)))"
    using read_get [OF wf g] by blast
  from pack_step.read [OF this] shrinks_read [OF this] wf_get [OF wf, of pack_name k i] g
  show "store_wf t \<and> pack_step e d (cells_in u) (cells_in t) \<and> shrinks (cells_in u) (cells_in t)" by simp
qed (rule assms)

lemma listed_after:
  assumes "store_wf s" "list_res s k osc_tenant = (t, rs)"
  shows "listed k rs (cells_in t)"
  unfolding listed_def
proof (intro allI impI)
  fix n r assume r: "cells_in t n = Some r \<and> kind r = k \<and> provider (tenant r) = pack_name"
  then obtain q where q: "cells_in s n = Some q"
    "r = (if kind q = k \<and> matches q osc_tenant then fst (advance (eventual s) q) else q)"
    unfolding read_list(1) [OF assms] by auto
  then have "kind q = k" "matches q osc_tenant" using r by (auto split: if_splits)
  with q show "r \<in> set rs" unfolding read_list(2) [OF assms] by auto
qed

lemma sound_list [sound_rules]:
  assumes "\<And>rs t. (h \<Longrightarrow> yields s t) \<Longrightarrow> listed k rs (cells_of t) \<Longrightarrow> sound e d c0 z (f rs) h t"
  shows "sound e d c0 z (do_list k f) h s"
  unfolding do_list_def
proof (rule sound_store [where g = "\<lambda>now u. list_res u k osc_tenant"])
  fix u r t assume l: "list_res u k osc_tenant = (t, r)" and wf: "store_wf u"
  have "\<forall>n. cells_in t n = cells_in u n \<or> (\<exists>ev r. cells_in u n = Some r \<and> cells_in t n = Some (fst (advance ev r)))"
  proof
    fix n show "cells_in t n = cells_in u n \<or> (\<exists>ev r. cells_in u n = Some r \<and> cells_in t n = Some (fst (advance ev r)))"
      unfolding read_list(1) [OF wf l] by (cases "cells_in u n") auto
  qed
  from pack_step.read [OF this] shrinks_read [OF this] wf_list [OF wf, of k osc_tenant] l
  show "store_wf t \<and> pack_step e d (cells_in u) (cells_in t) \<and> shrinks (cells_in u) (cells_in t)" by simp
next
  fix x :: "'a osc" and r t assume "list_res (os_store x) k osc_tenant = (t, r)" "store_wf (os_store x)"
    and "h \<Longrightarrow> yields s (x\<lparr>os_store := t\<rparr>)"
  then show "sound e d c0 z (f r) h (x\<lparr>os_store := t\<rparr>)" using assms listed_after by (simp add: cells_of_def)
qed

section \<open>Writing\<close>

lemma cells_put: "cells_in (put u r) = (cells_in u)(key_of r \<mapsto> r)"
  by (auto simp: put_def Let_def key_of_def)

lemma cells_delete: "cells_in (fst (delete u pack_name k i)) = (cells_in u)(key pack_name k i := None)"
  by (auto simp: delete_def Let_def)

lemma sound_birth [sound_rules]:
  assumes "born e d r" and "\<And>t. (h \<Longrightarrow> yields s t) \<Longrightarrow> sound e d c0 z p h t"
  shows "sound e d c0 z (do_put r p) h s"
proof -
  have "sound e d c0 z (Act (\<lambda>x. case (put (os_store x) r, ()) of (t, a) \<Rightarrow> ((\<lambda>_. p) a, x\<lparr>os_store := t\<rparr>))) h s"
    by (rule sound_store [where g = "\<lambda>now u. (put u r, ())" and f = "\<lambda>_. p"])
      (use assms shrinks_birth pack_step.birth in \<open>auto simp: cells_put wf_put\<close>)
  then show ?thesis by (simp add: do_put_def)
qed

lemma sound_delete [sound_rules]:
  assumes "k \<in> set removable" and "\<And>t. (h \<Longrightarrow> yields s t) \<Longrightarrow> sound e d c0 z p h t"
  shows "sound e d c0 z (do_delete k i p) h s"
proof -
  have "sound e d c0 z (Act (\<lambda>x. case (fst (delete (os_store x) pack_name k i), ()) of (t, a) \<Rightarrow> ((\<lambda>_. p) a, x\<lparr>os_store := t\<rparr>))) h s"
    by (rule sound_store [where g = "\<lambda>now u. (fst (delete u pack_name k i), ())" and f = "\<lambda>_. p"])
      (use assms in \<open>auto simp: cells_delete wf_delete shrinks_removal pack_step.removal\<close>)
  then show ?thesis by (simp add: do_delete_def)
qed

text \<open>A change under the store's lock, as the machine's rewriting of one cell.\<close>

lemma written:
  assumes "update_res u pack_name k i change = (t, err)" "store_wf u" "\<And>r r'. change r = Inr r' \<Longrightarrow> rewritten k r r'"
  shows "store_wf t \<and> pack_step e d (cells_in u) (cells_in t) \<and> shrinks (cells_in u) (cells_in t)"
proof -
  have same: "key_of r' = key_of r" if "change r = Inr r'" for r r'
    using rewritten_identity [OF assms(3) [OF that]] by (simp add: key_of_def)
  have "store_wf (fst (update_res u pack_name k i change))" by (rule wf_update [OF assms(2)]) (rule same)
  then have wf: "store_wf t" using assms(1) by simp
  have "cells_in t = cells_in u \<or>
      (\<exists>r r'. cells_in u (key pack_name k i) = Some r \<and> change r = Inr r' \<and> cells_in t = (cells_in u)(key pack_name k i \<mapsto> r'))"
    using assms(1) by (auto simp: update_res_def Let_def split: option.splits sum.splits)
  then show ?thesis
  proof
    assume "\<exists>r r'. cells_in u (key pack_name k i) = Some r \<and> change r = Inr r' \<and> cells_in t = (cells_in u)(key pack_name k i \<mapsto> r')"
    then obtain r r' where r: "cells_in u (key pack_name k i) = Some r" "change r = Inr r'"
      "cells_in t = (cells_in u)(key pack_name k i \<mapsto> r')" by blast
    have "keyed_cells (cells_in u)" using assms(2) by (auto simp: keyed_cells_def store_wf_def keyed_iff)
    with r wf assms(3) show ?thesis by (auto intro: pack_step.rewrite shrinks_rewrite)
  qed (use wf in simp)
qed

lemma do_update_steps:
  "do_update k i change f = Act (\<lambda>x.
     case (case update_res (os_store x) pack_name k i (change (os_clock x)) of
             (t, Some er) \<Rightarrow> (t, Inl er)
           | (t, None) \<Rightarrow> (t, case cells_in t (key pack_name k i) of None \<Rightarrow> Inl ErrNotFound | Some r \<Rightarrow> Inr r))
     of (t, a) \<Rightarrow> (f a, x\<lparr>os_store := t\<rparr>))"
  unfolding do_update_def by (rule arg_cong [of _ _ Act], rule ext) (simp split: prod.split option.split)

lemma sound_update [sound_rules]:
  assumes "\<And>now r r'. change now r = Inr r' \<Longrightarrow> rewritten k r r'"
    and "\<And>w t. (h \<Longrightarrow> yields s t) \<Longrightarrow> sound e d c0 z (f w) h t"
  shows "sound e d c0 z (do_update k i change f) h s"
proof -
  let ?g = "\<lambda>now u. (case update_res u pack_name k i (change now) of
      (t, Some er) \<Rightarrow> (t, Inl er)
    | (t, None) \<Rightarrow> (t, case cells_in t (key pack_name k i) of None \<Rightarrow> Inl ErrNotFound | Some r \<Rightarrow> Inr r))"
  have "sound e d c0 z (Act (\<lambda>x. case ?g (os_clock x) (os_store x) of (t, a) \<Rightarrow> (f a, x\<lparr>os_store := t\<rparr>))) h s"
  proof (rule sound_store [where g = ?g])
    fix u now t a assume "?g now u = (t, a)" and wf: "store_wf u"
    then obtain err where "update_res u pack_name k i (change now) = (t, err)" by (auto split: prod.splits option.splits)
    from written [OF this wf assms(1) [of now]] show "store_wf t \<and> pack_step e d (cells_in u) (cells_in t) \<and> shrinks (cells_in u) (cells_in t)" by blast
  qed (use assms(2) in blast)
  then show ?thesis by (simp only: do_update_steps)
qed

lemma sound_update_from [sound_rules]:
  assumes "\<And>now r r'. change now r = Inr r' \<Longrightarrow> rewritten k r r'"
    and "\<And>w t. (h \<Longrightarrow> yields s t) \<Longrightarrow> sound e d c0 z (f w) h t"
  shows "sound e d c0 z (do_update_from k i change f) h s"
proof -
  let ?g = "\<lambda>now u. (case update_res u pack_name k i (change now) of
      (t, Some er) \<Rightarrow> (t, Inl er)
    | (t, None) \<Rightarrow> (t, case cells_in u (key pack_name k i) of None \<Rightarrow> Inl ErrNotFound | Some r \<Rightarrow> Inr r))"
  have "sound e d c0 z (Act (\<lambda>x. case ?g (os_clock x) (os_store x) of (t, a) \<Rightarrow> (f a, x\<lparr>os_store := t\<rparr>))) h s"
  proof (rule sound_store [where g = ?g])
    fix u now t a assume "?g now u = (t, a)" and wf: "store_wf u"
    then obtain err where "update_res u pack_name k i (change now) = (t, err)" by (auto split: prod.splits option.splits)
    from written [OF this wf assms(1) [of now]] show "store_wf t \<and> pack_step e d (cells_in u) (cells_in t) \<and> shrinks (cells_in u) (cells_in t)" by blast
  qed (use assms(2) in blast)
  also have "Act (\<lambda>x. case ?g (os_clock x) (os_store x) of (t, a) \<Rightarrow> (f a, x\<lparr>os_store := t\<rparr>)) = do_update_from k i change f"
    unfolding do_update_from_def by (rule arg_cong [of _ _ Act], rule ext) (simp split: prod.split option.split)
  finally show ?thesis .
qed

text \<open>The merge of what the runtime made of a new Subnet: nothing else of it moves.\<close>

lemma sound_commit [sound_rules]:
  assumes "\<exists>m. res = base\<lparr>runtime := m\<rparr>" "kind base = kindSubnet" "tenant base = osc_tenant"
    and "\<And>b t. (h \<Longrightarrow> yields s t) \<Longrightarrow> sound e d c0 z (f b) h t"
  shows "sound e d c0 z (do_commit base res f) h s"
  unfolding do_commit_def
proof (rule sound_store [where g = "\<lambda>now u. commit u base res now"])
  obtain m where res: "res = base\<lparr>runtime := m\<rparr>" using assms(1) by blast
  fix u now t b assume c: "commit u base res now = (t, b)" and wf: "store_wf u"
  obtain err where e: "update_res u pack_name kindSubnet (rid base)
      (\<lambda>st. Inr (commit_change base res now st) :: unit + resource) = (t, err)"
    using c assms(2,3) res by (auto simp: commit_def osc_tenant_def split: prod.splits)
  have "mergeMap a (attrs base) (attrs base) = a" for a by (rule ext) (simp add: mergeMap_cell)
  then have "\<exists>m. commit_change base res now r = r\<lparr>runtime := m, updated := now\<rparr>" for r
    by (auto simp: commit_change_def res Let_def)
  then have "rewritten kindSubnet r (commit_change base res now r)" for r by (metis rewritten.backed)
  from written [OF e wf, of e d] this
  show "store_wf t \<and> pack_step e d (cells_in u) (cells_in t) \<and> shrinks (cells_in u) (cells_in t)" by blast
qed (rule assms(4))

text \<open>A placement, under the lock and where nobody was found to be in the way since it was taken.\<close>

lemma sound_place:
  assumes "\<And>c. K c \<Longrightarrow> pack_step e d c (c(key_of r \<mapsto> r))" "K (cells_of s)" "\<And>c c'. K c \<Longrightarrow> shrinks c c' \<Longrightarrow> K c'"
    and "\<And>x t. yields s x \<Longrightarrow> cells_of t = (cells_of x)(key_of r \<mapsto> r) \<Longrightarrow> sound e d c0 z q True t"
  shows "sound e d c0 z (do_put r q) True s"
  unfolding do_put_def
proof (rule sound_Act)
  fix x p' y assume g: "(q, x\<lparr>os_store := put (os_store x) r\<rparr>) = (p', y)" and x: "kept e d c0 x" "True \<Longrightarrow> yields s x"
  have "K (cells_of x)" using assms(2,3) x(2) by (auto simp: yields_def)
  moreover have "cells_of y = (cells_of x)(key_of r \<mapsto> r)" using g by (auto simp: cells_of_def cells_put)
  ultimately show "store_wf (os_store y) \<and> os_drawn x \<le> os_drawn y \<and>
      pack_step e d (cells_of x) (cells_of y) \<and> (True \<or> yields x y) \<and> sound e d c0 z p' True y"
    using assms(1) assms(4) [of x y] g x by (auto simp: kept_def wf_put)
qed

text \<open>What was listed under the lock, and none of it in the way, is a vacancy.\<close>

lemma blocks_of_set: "p \<in> set (blocks_of rs) \<longleftrightarrow> (\<exists>r\<in>set rs. prefix_of r ''IpRange'' = Inr p)"
  by (induction rs) (auto simp: blocks_of_def List.map_filter_simps split: sum.splits option.splits)

lemma listed_net_vacant:
  assumes "listed kindNet rs c" "\<not> snd (first_overlap p (blocks_of rs))"
  shows "vacant kindNet [] p c"
  unfolding vacant_def
proof (intro allI impI)
  fix q assume "(kindNet, [], q) \<in> plots c"
  then obtain n r where "c n = Some r" "kind r = kindNet" "provider (tenant r) = pack_name" "prefix_of r ''IpRange'' = Inr q"
    by (auto simp: plots_def plot_of_def split: if_splits sum.splits)
  then have "q \<in> set (blocks_of rs)" using assms(1) by (auto simp: listed_def blocks_of_set)
  then show "\<not> overlaps p q" using assms(2) by (simp add: first_overlap_None)
qed

lemma listed_subnet_vacant:
  assumes "listed kindSubnet rs c" "\<not> snd (first_overlap p (blocks_of (of_net net rs)))"
  shows "vacant kindSubnet net p c"
  unfolding vacant_def
proof (intro allI impI)
  fix q assume "(kindSubnet, net, q) \<in> plots c"
  then obtain n r where "c n = Some r" "kind r = kindSubnet" "provider (tenant r) = pack_name" "prefix_of r ''IpRange'' = Inr q"
    "string_of (attrs r ''NetId'') = net"
    by (auto simp: plots_def plot_of_def split: if_splits sum.splits)
  then have "q \<in> set (blocks_of (of_net net rs))" using assms(1) by (auto simp: listed_def blocks_of_set of_net_def)
  then show "\<not> overlaps p q" using assms(2) by (simp add: first_overlap_None)
qed

lemma listed_no_default:
  assumes "listed kindDhcpOptions rs c" "find (\<lambda>r. bool_of (attrs r ''Default'')) rs = None"
  shows "defaults c = {}"
  using assms by (auto simp: listed_def defaults_def default_set_def find_None_iff)

section \<open>Control\<close>

lemma sound_answer [sound_rules]:
  "h = z \<Longrightarrow> sound e d c0 z (answer_with e status err body) h s"
  unfolding answer_with_def by (rule sound_seed) simp

lemma sound_answers [sound_rules]:
  "h = z \<Longrightarrow> sound e d c0 z (ok e body) h s" "h = z \<Longrightarrow> sound e d c0 z (bad_request e) h s"
  "h = z \<Longrightarrow> sound e d c0 z (not_found e) h s" "h = z \<Longrightarrow> sound e d c0 z (conflict e) h s"
  unfolding ok_def bad_request_def not_found_def conflict_def by (simp_all only: sound_answer)

lemma sound_acquire [sound_rules]: "(\<And>t. sound e d c0 z p True t) \<Longrightarrow> sound e d c0 z (Acquire p) False s"
  by simp

lemma sound_release [sound_rules]: "(\<And>t. sound e d c0 z p False t) \<Longrightarrow> sound e d c0 z (Release p) True s"
  by simp

lemma sound_deferred [sound_rules]: "sound e d c0 True p h s \<Longrightarrow> sound e d c0 False (deferred p) h s"
  by (rule keeps_deferred)

lemma sound_decoded [sound_rules]:
  "h = z \<Longrightarrow> (\<And>r. sound e d c0 z (f r) h s) \<Longrightarrow> sound e d c0 z (decoded e req f) h s"
  unfolding decoded_def by (auto split: option.split intro: sound_answers)

lemma sound_if [sound_rules]:
  "(b \<Longrightarrow> sound e d c0 z p h s) \<Longrightarrow> (\<not> b \<Longrightarrow> sound e d c0 z q h s) \<Longrightarrow> sound e d c0 z (if b then p else q) h s"
  by simp

lemma sound_option [sound_rules]:
  "(x = None \<Longrightarrow> sound e d c0 z p h s) \<Longrightarrow> (\<And>r. x = Some r \<Longrightarrow> sound e d c0 z (f r) h s) \<Longrightarrow>
     sound e d c0 z (case x of None \<Rightarrow> p | Some r \<Rightarrow> f r) h s"
  by (cases x) simp_all

lemma sound_sum [sound_rules]:
  "(\<And>l. x = Inl l \<Longrightarrow> sound e d c0 z (f l) h s) \<Longrightarrow> (\<And>r. x = Inr r \<Longrightarrow> sound e d c0 z (g r) h s) \<Longrightarrow>
     sound e d c0 z (case x of Inl l \<Rightarrow> f l | Inr r \<Rightarrow> g r) h s"
  by (cases x) simp_all

lemma sound_prod [sound_rules]:
  "(\<And>a b. x = (a, b) \<Longrightarrow> sound e d c0 z (f a b) h s) \<Longrightarrow> sound e d c0 z (case x of (a, b) \<Rightarrow> f a b) h s"
  by (cases x) simp_all

lemma sound_error [sound_rules]:
  "(x = ErrNotFound \<Longrightarrow> sound e d c0 z p h s) \<Longrightarrow> (\<And>r. x = ChangeFailed r \<Longrightarrow> sound e d c0 z (f r) h s) \<Longrightarrow>
     sound e d c0 z (case x of ErrNotFound \<Rightarrow> p | ChangeFailed r \<Rightarrow> f r) h s"
  by (cases x) simp_all

lemma sound_let [sound_rules]: "(\<And>v. v = t \<Longrightarrow> sound e d c0 z (f v) h s) \<Longrightarrow> sound e d c0 z (let v = t in f v) h s"
  by simp

lemma sound_foldr [sound_rules]:
  "(\<And>t. sound e d c0 z q h t) \<Longrightarrow> (\<And>x p t. (\<And>u. sound e d c0 z p h u) \<Longrightarrow> sound e d c0 z (f x p) h t) \<Longrightarrow>
     sound e d c0 z (foldr f xs q) h s"
  by (induction xs arbitrary: s) simp_all

end
