(* ===== verification/OscServe.thy ===== *)
theory OscServe
  imports OscPlane
begin

text \<open>
  Every handler of the pack, piece by piece: whatever the other requests do between
  its steps, each step it takes is a step of the machine of OscPlane.thy, it holds the
  addressing lock where it must and gives it back. Then the refinement for any number
  of requests in flight, and that each of them is answered.
\<close>

section \<open>Pieces\<close>

lemma sound_refusal [sound_rules]:
  assumes "\<And>q. q \<in> {a, b, c, i, j, k, l, m, n} \<Longrightarrow> sound e d c0 z q h s"
  shows "sound e d c0 z (case x of AlreadyLinked \<Rightarrow> a | MainLink \<Rightarrow> b | LinkMissing \<Rightarrow> c | RouteExists \<Rightarrow> i | RouteMissing \<Rightarrow> j
     | LocalRoute \<Rightarrow> k | RouteLinkMoved \<Rightarrow> l | GatewayLinked \<Rightarrow> m | GatewayElsewhere \<Rightarrow> n) h s"
  using assms by (cases x) simp_all

lemma sound_not_pending [sound_rules]:
  "(\<And>st. sound e d c0 z (f st) h s) \<Longrightarrow> sound e d c0 z (case x of NotPending st \<Rightarrow> f st) h s"
  by (cases x) simp

lemma sound_read_page [sound_rules]:
  assumes "\<And>fs f. (\<And>views t. sound e d c0 z (f views) h t) \<Longrightarrow> sound e d c0 z (rows fs f) h s" "h = z"
  shows "sound e d c0 z (read_page e specs name req rows) h s"
  unfolding read_page_def by (intro sound_rules assms)

lemma sound_dry_runnable [sound_rules]:
  "sound e d c0 z p h s \<Longrightarrow> h = z \<Longrightarrow> sound e d c0 z (dry_runnable e dry p) h s"
  unfolding dry_runnable_def by (intro sound_rules)

lemma sound_readers [sound_rules]:
  assumes "\<And>rs t. (h \<Longrightarrow> yields s t) \<Longrightarrow> sound e d c0 z (f rs) h t"
  shows "sound e d c0 z (subnets_of net f) h s" "sound e d c0 z (route_tables_of net f) h s"
    "sound e d c0 z (security_groups_of net f) h s" "sound e d c0 z (nat_services_of net f) h s"
  unfolding subnets_of_def route_tables_of_def security_groups_of_def nat_services_of_def
  by (rule sound_list; rule assms; assumption)+

lemma sound_gateway [sound_rules]:
  assumes "\<And>r t. (h \<Longrightarrow> yields s t) \<Longrightarrow> sound e d c0 z (f r) h t"
  shows "sound e d c0 z (linked_internet_service_of net f) h s"
  unfolding linked_internet_service_of_def by (rule sound_list; rule assms; assumption)

lemma sound_balancers [sound_rules]:
  assumes "\<And>r t. (h \<Longrightarrow> yields s t) \<Longrightarrow> sound e d c0 z (f r) h t"
  shows "sound e d c0 z (load_balancers_on k i f) h s"
  unfolding load_balancers_on_def by (rule sound_list; rule assms; assumption)

lemma sound_peered [sound_rules]:
  assumes "\<And>r t. (h \<Longrightarrow> yields s t) \<Longrightarrow> sound e d c0 z (f r) h t"
  shows "sound e d c0 z (active_peering_between a b f) h s"
  unfolding active_peering_between_def by (rule sound_list; rule assms; assumption)

lemma sound_net_prefixes [sound_rules]:
  assumes "\<And>ps t. \<lbrakk>\<And>p. \<not> snd (first_overlap p ps) \<Longrightarrow> vacant kindNet [] p (cells_of t)\<rbrakk> \<Longrightarrow> sound e d c0 z (f ps) h t"
  shows "sound e d c0 z (net_prefixes f) h s"
  unfolding net_prefixes_def by (rule sound_list, rule assms) (rule listed_net_vacant)

lemma sound_subnet_prefixes [sound_rules]:
  assumes "\<And>ps t. \<lbrakk>\<And>p. \<not> snd (first_overlap p ps) \<Longrightarrow> vacant kindSubnet net p (cells_of t)\<rbrakk> \<Longrightarrow> sound e d c0 z (f ps) h t"
  shows "sound e d c0 z (subnet_prefixes net f) h s"
  unfolding subnet_prefixes_def subnets_of_def by (rule sound_list, rule assms) (rule listed_subnet_vacant)

lemma sound_allocator [sound_rules]:
  "(\<And>a t. sound e d c0 z (f a) h t) \<Longrightarrow> sound e d c0 z (subnet_allocator i f) h s"
  unfolding subnet_allocator_def by (intro sound_rules)

lemma sound_subnet_view [sound_rules]:
  "(\<And>v t. sound e d c0 z (f v) h t) \<Longrightarrow> sound e d c0 z (subnet_view res f) h s"
  unfolding subnet_view_def by (intro sound_rules)

lemma sound_subregion [sound_rules]:
  "(\<And>v t. sound e d c0 z (f v) h t) \<Longrightarrow> sound e d c0 z (subnet_subregion e i f) h s"
  unfolding subnet_subregion_def by (intro sound_rules)

lemma sound_isolate [sound_rules]:
  "(\<And>t. sound e d c0 z p h t) \<Longrightarrow> sound e d c0 z (isolate_networks e p) h s"
  unfolding isolate_networks_def by (intro sound_rules)

lemma sound_subnet_rows [sound_rules]:
  "(\<And>v t. sound e d c0 z (f v) h t) \<Longrightarrow> sound e d c0 z (subnet_rows e fs rs views f) h s"
  by (induction rs arbitrary: views s) (simp_all, intro conjI impI sound_rules)

lemma sound_resource_of [sound_rules]:
  "(\<And>r t. sound e d c0 z (f r) h t) \<Longrightarrow> sound e d c0 z (resource_of i f) h s"
  unfolding resource_of_def by (intro sound_rules)

lemma sound_resources_of [sound_rules]:
  "h = z \<Longrightarrow> (\<And>rs t. sound e d c0 z (f rs) h t) \<Longrightarrow> sound e d c0 z (resources_of e ids targets f) h s"
  by (induction ids arbitrary: targets s) (simp_all, intro sound_rules, simp_all)

lemma sound_tag_all [sound_rules]: "h = z \<Longrightarrow> sound e d c0 z (tag_all e tags rs) h s"
proof (induction rs arbitrary: s)
  case (Cons r rs)
  then show ?case by (simp, intro sound_rules) (auto simp: put_tags_def intro: rewritten.tagged)
qed (simp add: sound_answers)

lemma sound_untag_all [sound_rules]: "h = z \<Longrightarrow> sound e d c0 z (untag_all e tags ids) h s"
proof (induction ids arbitrary: s)
  case (Cons i ids)
  then show ?case by (simp, intro sound_rules) (auto simp: drop_tags_def intro: rewritten.tagged)
qed (simp add: sound_answers)

lemma sound_tag_table [sound_rules]:
  "(\<And>v t. sound e d c0 z (f v) h t) \<Longrightarrow> sound e d c0 z (tag_table fs ts out f) h s"
  by (induction fs ts out f arbitrary: s rule: tag_table.induct) (simp_all, intro conjI impI sound_rules)

text \<open>What a Net is born with.\<close>

text \<open>
  The default set of DHCP options is made under the addressing lock, and only when there
  is none; what the holder knew of the blocks still stands after it.
\<close>

lemma sound_put_default:
  assumes "defaults (cells_of s) = {}" "\<And>t. plots (cells_of t) \<subseteq> plots (cells_of s) \<Longrightarrow> sound e d c0 z q True t"
  shows "sound e d c0 z (do_put ((new_resource i kindDhcpOptions osc_tenant st now)\<lparr>attrs := a\<rparr>) q) True s"
proof (rule sound_place [where K = "\<lambda>c. defaults c = {}", OF pack_step.placed_default])
  let ?r = "(new_resource i kindDhcpOptions osc_tenant st now)\<lparr>attrs := a\<rparr>"
  fix x t :: "'a osc" assume x: "yields s x" "cells_of t = (cells_of x)(key_of ?r \<mapsto> ?r)"
  have "plot_of ?r = None" by (simp add: plot_of_def new_resource_def kinds)
  then have "plots (cells_of t) \<subseteq> plots (cells_of x)" unfolding x(2) by (auto simp: plots_def)
  also have "\<dots> \<subseteq> plots (cells_of s)" using x(1) by (simp add: yields_def shrinks_def)
  finally show "sound e d c0 z q True t" by (rule assms(2))
qed (use assms(1) in \<open>auto simp: shrinks_def new_resource_def\<close>)

lemma no_default_yields: "defaults (cells_of s) = {} \<Longrightarrow> yields s t \<Longrightarrow> defaults (cells_of t) = {}"
  by (auto simp: yields_def shrinks_def)

lemma plots_yields: "plots (cells_of s) \<subseteq> P \<Longrightarrow> yields s t \<Longrightarrow> plots (cells_of t) \<subseteq> P"
  by (auto simp: yields_def shrinks_def)

lemma sound_dhcp [sound_rules]:
  assumes "\<And>r t. plots (cells_of t) \<subseteq> plots (cells_of s) \<Longrightarrow> sound e d c0 z (f r) True t"
  shows "sound e d c0 z (default_dhcp_options e f) True s"
  unfolding default_dhcp_options_def Let_def
proof (intro sound_put_default sound_rules assms, goal_cases)
  case (1 rs t now ta m tb)
  then have "defaults (cells_of t) = {}" by (intro listed_no_default)
  with 1 show ?case using no_default_yields by blast
next
  case (2 rs t now ta m tb tc)
  have "plots (cells_of tb) \<subseteq> plots (cells_of s)" using 2 plots_yields [OF order_refl] plots_yields by blast
  with 2 show ?case by blast
next
  case (3 rs t r)
  then show ?case using plots_yields [OF order_refl] by blast
qed

lemma sound_default_group [sound_rules]:
  assumes "\<And>r t. born e d r \<Longrightarrow> sound e d c0 z (f r) h t"
  shows "sound e d c0 z (default_security_group e net f) h s"
  unfolding default_security_group_def Let_def
  by (intro sound_rules assms born.plain [where pre = "''sg''"]) (auto simp: new_resource_def)

lemma sound_new_table [sound_rules]:
  assumes "\<And>r t. born e d r \<Longrightarrow> sound e d c0 z (f r) h t"
  shows "sound e d c0 z (new_route_table e net block main f) h s"
  unfolding new_route_table_def Let_def
  by (intro sound_rules assms born.table) (auto simp: new_resource_def is_main_link_def)

section \<open>Handlers\<close>

lemma backed_subnet:
  assumes "ensure_backing_network dig b res spec w = (w', res', err)"
  shows "\<exists>m. res' = res\<lparr>runtime := m\<rparr>"
proof -
  have "\<exists>m. res = res\<lparr>runtime := m\<rparr>" by (rule exI [of _ "runtime res"]) simp
  with assms show ?thesis
    by (auto simp: ensure_backing_network_def rt_set_def split: option.splits prod.splits)
qed

text \<open>The two placements: the block asked for is what the stored text is read back as.\<close>

lemma sound_put_net:
  assumes "parse_cidr txt = Inr p" "a ''IpRange'' = Some (AString (prefix_string p))" "vacant kindNet [] p (cells_of s)"
    and "\<And>t. sound e d c0 z q True t"
  shows "sound e d c0 z (do_put ((new_resource i kindNet osc_tenant st now)\<lparr>attrs := a\<rparr>) q) True s"
  by (rule sound_place [where K = "vacant kindNet [] p", OF _ assms(3) vacant_shrinks assms(4)], rule pack_step.placed_net)
    (simp_all add: new_resource_def prefix_of_def assms(2) read_back_again [OF assms(1)])

lemma sound_put_subnet:
  assumes "parse_cidr txt = Inr p" "a ''IpRange'' = Some (AString (prefix_string p))" "a ''NetId'' = Some (AString net)"
    "vacant kindSubnet net p (cells_of s)" and "\<And>t. sound e d c0 z q True t"
  shows "sound e d c0 z (do_put ((new_resource i kindSubnet osc_tenant st now)\<lparr>attrs := a\<rparr>) q) True s"
  by (rule sound_place [where K = "vacant kindSubnet net p", OF _ assms(4) vacant_shrinks assms(5)], rule pack_step.placed_subnet)
    (simp_all add: new_resource_def prefix_of_def assms(2,3) read_back_again [OF assms(1)])

lemma vacant_yields: "vacant k home p (cells_of s) \<Longrightarrow> yields s t \<Longrightarrow> vacant k home p (cells_of t)"
  by (auto simp: yields_def intro: vacant_shrinks)

lemma sound_create_net: "sound e d c0 False (create_net e r) False s"
  unfolding create_net_def Let_def
  by (intro sound_put_net sound_rules) (simp_all, meson vacant_yields vacant_plots)

lemma kind_born [simp]: "kind (new_resource i k t st now) = k" "tenant (new_resource i k t st now) = t"
  by (simp_all add: new_resource_def)

lemma sound_create_subnet: "sound e d c0 False (create_subnet e r) False s"
  unfolding create_subnet_def Let_def
  by (intro sound_put_subnet sound_rules)
    (simp_all add: removable_def, (meson vacant_yields | erule backed_subnet)+)

lemma sound_delete_net: "sound e d c0 False (delete_net e r) False s"
  unfolding delete_net_def by (intro sound_rules refl) (simp_all add: removable_def)

lemma sound_update_net: "sound e d c0 False (update_net e r) False s"
  unfolding update_net_def Let_def
  by (intro sound_rules) (auto intro: rewritten.dhcp_changed [unfolded set_attr_def])

lemma sound_delete_subnet: "sound e d c0 False (delete_subnet e r) False s"
  unfolding delete_subnet_def by (intro sound_rules refl) (simp_all add: removable_def)

lemma sound_update_subnet: "sound e d c0 False (update_subnet e r) False s"
  unfolding update_subnet_def
  by (intro sound_rules) (auto intro: rewritten.public_changed [unfolded set_attr_def])

lemma sound_reads:
  "sound e d c0 False (read_nets e r) False s" "sound e d c0 False (read_subnets e r) False s"
  "sound e d c0 False (read_route_tables e r) False s" "sound e d c0 False (read_internet_services e r) False s"
  "sound e d c0 False (read_net_peerings e r) False s" "sound e d c0 False (read_tags e r) False s"
  unfolding read_nets_def read_subnets_def read_route_tables_def read_internet_services_def read_net_peerings_def read_tags_def
  by (intro sound_rules; blast)+

lemma sound_tables:
  "sound e d c0 False (create_route_table e n) False s" "sound e d c0 False (delete_route_table e n) False s"
  "sound e d c0 False (link_route_table e l) False s" "sound e d c0 False (unlink_route_table e n) False s"
  "sound e d c0 False (update_route_table_link e v) False s"
  unfolding create_route_table_def delete_route_table_def link_route_table_def unlink_route_table_def
    update_route_table_link_def Let_def
  by (intro sound_rules; (auto simp: removable_def intro: rewritten.intros sound_answers)?)+

lemma sound_routed: "sound e d c0 False (routed e w) False s"
  unfolding routed_def by (intro sound_rules) (auto intro: sound_answers)

lemma sound_target:
  "(\<And>k v t. k \<in> set route_keys \<Longrightarrow> sound e d c0 False (f k v) False t) \<Longrightarrow> sound e d c0 False (route_target e r net f) False s"
  unfolding route_target_def by (intro sound_rules) (simp_all add: route_keys_def)

lemma sound_routes:
  "sound e d c0 False (create_route e r) False s" "sound e d c0 False (delete_route e r) False s"
  "sound e d c0 False (update_route e r) False s"
  unfolding create_route_def delete_route_def update_route_def
  by (intro sound_target sound_rules; (auto intro: rewritten.intros sound_routed)?)+

lemma sound_gateways:
  "sound e d c0 False (create_internet_service e u) False s" "sound e d c0 False (link_internet_service e g) False s"
  "sound e d c0 False (unlink_internet_service e g) False s" "sound e d c0 False (delete_internet_service e n) False s"
  unfolding create_internet_service_def link_internet_service_def unlink_internet_service_def delete_internet_service_def Let_def
  by (intro sound_rules born.plain [where pre = "''igw''"]; (auto simp: new_resource_def removable_def intro: rewritten.intros sound_answers)?)+

lemma sound_peerings:
  "sound e d c0 False (create_net_peering e p) False s" "sound e d c0 False (accept_net_peering e n) False s"
  "sound e d c0 False (reject_net_peering e n) False s" "sound e d c0 False (delete_net_peering e n) False s"
  unfolding create_net_peering_def accept_net_peering_def reject_net_peering_def delete_net_peering_def Let_def
  by (intro sound_rules born.peering; (auto simp: new_resource_def peering_states intro: rewritten.intros sound_answers split: if_splits)?)+

lemma sound_tags:
  "sound e d c0 False (create_tags e t) False s" "sound e d c0 False (delete_tags e t) False s"
  unfolding create_tags_def delete_tags_def by (intro sound_rules; simp)+

lemma sound_serve: "sound e d c0 False (serve e c) False s"
  by (cases c) (simp_all add: sound_create_net sound_create_subnet sound_delete_net sound_update_net sound_delete_subnet
      sound_update_subnet sound_reads sound_tables sound_routes sound_gateways sound_peerings sound_tags)

lemma sound_route: "sound e d c0 False (mounted e c) False s"
  unfolding mounted_def by (intro sound_rules sound_serve) simp

section \<open>Requests in flight\<close>

definition serve_all :: "'h osc_env \<Rightarrow> (bool option \<times> osc_call) list \<Rightarrow> nat list \<Rightarrow> 'h osc \<Rightarrow> ('h osc, answer) pool" where
  "serve_all e calls schedule x = turns schedule (in_flight (map (mounted e) calls) x)"

lemma all_sound: "p \<in> set (map (mounted e) calls) \<Longrightarrow> sound e d c0 False p False s"
  by (auto simp: sound_route)

lemma kept_start: "store_wf (os_store x) \<Longrightarrow> kept e (os_drawn x) (cells_of x) x"
  by (simp add: kept_def pack_run_def)

lemma serve_all_kept: "store_wf (os_store x) \<Longrightarrow> kept e (os_drawn x) (cells_of x) (snd (serve_all e calls schedule x))"
  unfolding serve_all_def by (rule plane.plane_holds) (simp_all only: kept_start all_sound)

text \<open>
  C2. However the steps of the modelled requests interleave (the calls of \<open>osc_call\<close>: Nets,
  Subnets, route tables and their links, internet services, Net peerings, tags, and the
  reads of these; no request on machines, volumes, addresses or DHCP options of its own),
  what they do to the store is a run of the abstract machine: atomic steps with their
  guards, a Net or a Subnet placed only on a block vacant at that moment.
\<close>

theorem requests_refine_the_machine:
  assumes "store_wf (os_store x)"
  shows "pack_run e (os_drawn x) (cells_of x) (cells_of (snd (serve_all e calls schedule x)))"
  using serve_all_kept [OF assms] unfolding kept_def by blast

text \<open>
  C6. Nobody waits for ever: after any interleaving of modelled requests there is a
  continuation that answers every one of them, so the addressing lock is always given
  back.
\<close>

theorem every_request_can_be_answered:
  assumes "store_wf (os_store x)"
  shows "\<exists>more. None \<notin> set (answers (serve_all e calls (schedule @ more) x))"
  unfolding serve_all_def
  by (rule plane.plane_answers [OF kept_start [OF assms, of e]]) (simp only: all_sound)

text \<open>What every step of the machine keeps holds after every interleaving of requests.\<close>

locale machine_invariant =
  fixes e :: "'h osc_env" and d :: nat and I :: "cells \<Rightarrow> bool"
  assumes step: "pack_step e d c c' \<Longrightarrow> keyed_cells c \<Longrightarrow> I c \<Longrightarrow> I c'"
begin

lemma along: "pack_run e d c c' \<Longrightarrow> keyed_cells c \<Longrightarrow> I c \<Longrightarrow> keyed_cells c' \<and> I c'"
  unfolding pack_run_def by (induction rule: rtranclp_induct) (auto intro: step keyed_step)

lemma always:
  assumes "store_wf (os_store x)" "os_drawn x = d" "I (cells_of x)"
  shows "I (cells_of (snd (serve_all e calls schedule x)))"
  using serve_all_kept [OF assms(1), of e calls schedule] assms along [of "cells_of x"] keyed_cells_of [OF assms(1)]
  by (auto simp: kept_def)

end

section \<open>Witnesses\<close>

text \<open>A deployment without a runtime, and a store holding given resources.\<close>

definition env0 :: "recorder osc_env" where
  "env0 = \<lparr>oe_seed = nat_digits, oe_binding = binding0\<lparr>bd_driver := None\<rparr>, oe_digest = (\<lambda>s. s), oe_date = itoa,
     oe_region = ''eu-west-2'', oe_subregions = [''eu-west-2a'', ''eu-west-2b''], oe_default_subregion = ''eu-west-2a''\<rparr>"

definition made :: "string \<Rightarrow> string \<Rightarrow> string \<Rightarrow> (string \<rightharpoonup> attr) \<Rightarrow> resource" where
  "made i k st a = (new_resource i k osc_tenant st 0)\<lparr>attrs := a\<rparr>"

definition holding :: "resource list \<Rightarrow> recorder osc" where
  "holding rs = \<lparr>os_store = fold (\<lambda>r s. put s r) rs new_store, os_world = new_world new_recorder, os_drawn = 0, os_clock = 0\<rparr>"

lemma wf_holding: "store_wf (os_store (holding rs))"
proof -
  have "store_wf (fold (\<lambda>r s. put s r) rs s)" if "store_wf s" for s
    using that by (induction rs arbitrary: s) (simp_all add: wf_put)
  then show ?thesis by (simp add: holding_def wf_new)
qed

lemma cells_holding: "cells_of (holding rs) n = map_of (rev (map (\<lambda>r. (key_of r, r)) rs)) n"
proof -
  have "cells_in (fold (\<lambda>r s. put s r) rs u) n =
      (case map_of (rev (map (\<lambda>r. (key_of r, r)) rs)) n of None \<Rightarrow> cells_in u n | Some r \<Rightarrow> Some r)" for u
    by (induction rs arbitrary: u) (auto simp: cells_put map_add_def split: option.split)
  then show ?thesis by (simp add: cells_of_def holding_def new_store_def split: option.split)
qed

definition net0 :: resource where
  "net0 = made ''vpc-1'' kindNet state_available [''IpRange'' \<mapsto> AString ''10.0.0.0/16'']"

definition net1 :: resource where
  "net1 = made ''vpc-2'' kindNet state_available [''IpRange'' \<mapsto> AString ''10.1.0.0/16'']"

definition calls0 :: "(bool option \<times> osc_call) list" where
  "calls0 =
     [(None, CreateNet (Some \<lparr>cn_ip_range = ''10.2.0.0/16'', cn_tenancy = []\<rparr>)),
      (Some False, CreateSubnet (Some \<lparr>cs_ip_range = ''10.0.1.0/24'', cs_net = ''vpc-1'', cs_subregion = []\<rparr>)),
      (None, CreateNetPeering (Some \<lparr>pq_accepter = ''vpc-2'', pq_owner = [], pq_source = ''vpc-1''\<rparr>)),
      (Some True, DeleteNet (Some ''vpc-2''))]"

lemma refine_witness:
  "pack_run env0 (os_drawn (holding [net0, net1])) (cells_of (holding [net0, net1]))
     (cells_of (snd (serve_all env0 calls0 [0, 1, 0, 2, 1, 0, 0, 2, 1, 3, 1] (holding [net0, net1]))))"
  by (rule requests_refine_the_machine [OF wf_holding])

lemma answered_witness:
  "\<exists>more. None \<notin> set (answers (serve_all env0 calls0 ([0, 1, 0, 2, 1, 0] @ more) (holding [net0, net1])))"
  by (rule every_request_can_be_answered [OF wf_holding])

end
