(* ===== verification/OscInvariants.thy ===== *)
theory OscInvariants
  imports OscServe "HOL-Library.Code_Target_Nat"
begin

text \<open>
  What holds of the Outscale pack whatever requests are in flight: the blocks of Nets
  and Subnets, the default set of DHCP options, the state machine of peerings, and the
  routes of a table. Each is an invariant of the machine of OscPlane.thy, carried to the
  handlers by the refinement of OscServe.thy. Then what interleavings do break.
\<close>

section \<open>Blocks\<close>

definition apart :: "cells \<Rightarrow> bool" where
  "apart c \<longleftrightarrow> (\<forall>n m r s k home p q. c n = Some r \<and> c m = Some s \<and> n \<noteq> m \<and>
     plot_of r = Some (k, home, p) \<and> plot_of s = Some (k, home, q) \<longrightarrow> \<not> overlaps p q)"

lemma apartD:
  "apart c \<Longrightarrow> c n = Some r \<Longrightarrow> c m = Some s \<Longrightarrow> n \<noteq> m \<Longrightarrow> plot_of r = Some (k, home, p) \<Longrightarrow>
     plot_of s = Some (k, home, q) \<Longrightarrow> \<not> overlaps p q"
  unfolding apart_def by blast

lemma plot_wf: "plot_of r = Some (k, home, p) \<Longrightarrow> wf_prefix p \<and> prefix_valid p"
  by (auto simp: plot_of_def prefix_of_def dest: parse_cidr_Inr split: if_splits sum.splits)

lemma overlaps_commute: "wf_prefix p \<Longrightarrow> wf_prefix q \<Longrightarrow> overlaps p q \<longleftrightarrow> overlaps q p"
  by (auto simp: overlaps_iff)

lemma apart_claims:
  assumes "apart c" "\<And>n r. c' n = Some r \<Longrightarrow> plot_of r = None \<or> (\<exists>q. c n = Some q \<and> plot_of q = plot_of r)"
  shows "apart c'"
  unfolding apart_def
proof (intro allI impI, elim conjE)
  fix n m r s k home p q
  assume rs: "c' n = Some r" "c' m = Some s" "n \<noteq> m" "plot_of r = Some (k, home, p)" "plot_of s = Some (k, home, q)"
  obtain u where u: "c n = Some u" "plot_of u = Some (k, home, p)" using assms(2) [OF rs(1)] rs(4) by auto
  obtain v where v: "c m = Some v" "plot_of v = Some (k, home, q)" using assms(2) [OF rs(2)] rs(5) by auto
  show "\<not> overlaps p q" by (rule apartD [OF assms(1) u(1) v(1) rs(3) u(2) v(2)])
qed

lemma apart_place:
  assumes a: "apart c" and r: "plot_of r = Some (k, home, p)" "vacant k home p c"
  shows "apart (c(n \<mapsto> r))"
  unfolding apart_def
proof (intro allI impI, elim conjE)
  fix i j s t k' home' p' q'
  assume st: "(c(n \<mapsto> r)) i = Some s" "(c(n \<mapsto> r)) j = Some t" "i \<noteq> j"
    "plot_of s = Some (k', home', p')" "plot_of t = Some (k', home', q')"
  have others: "\<not> overlaps p q" if "c m = Some u" "plot_of u = Some (k, home, q)" for m u q
    using r(2) that by (auto simp: vacant_def plots_def)
  consider "i = n" "c j = Some t" "s = r" | "j = n" "c i = Some s" "t = r" | "c i = Some s" "c j = Some t"
    using st(1-3) by (cases "i = n"; cases "j = n") simp_all
  then show "\<not> overlaps p' q'"
  proof cases
    case 1
    then show ?thesis using others [of j t q'] st r by auto
  next
    case 2
    then have "\<not> overlaps q' p'" using others [of i s p'] st r by auto
    then show ?thesis using overlaps_commute plot_wf [OF st(4)] plot_wf [OF st(5)] by blast
  next
    case 3
    from apartD [OF a 3 st(3-5)] show ?thesis .
  qed
qed

lemma read_cell:
  assumes "\<forall>n. c' n = c n \<or> (\<exists>ev r. c n = Some r \<and> c' n = Some (fst (advance ev r)))" "c' n = Some r"
  obtains q where "c n = Some q" "r = q" | q ev where "c n = Some q" "r = fst (advance ev q)"
  using assms(1) [rule_format, of n] assms(2) by force

lemma apart_step: "pack_step e d c c' \<Longrightarrow> keyed_cells c \<Longrightarrow> apart c \<Longrightarrow> apart c'"
proof (induction rule: pack_step.induct)
  case (read c' c)
  have "\<exists>q. c n = Some q \<and> plot_of q = plot_of r" if "c' n = Some r" for n r
    by (rule read_cell [OF read(1) that]) simp_all
  then show ?case by (intro apart_claims [OF read(3)] disjI2)
next
  case (birth r c)
  show ?case by (rule apart_claims [OF birth(3)]) (use born_plot [OF birth(1)] in \<open>auto split: if_splits\<close>)
next
  case (placed_net r p c)
  have "plot_of r = Some (kindNet, [], p)" using placed_net by (simp add: plot_of_def osc_tenant_def)
  then show ?case using placed_net by (intro apart_place)
next
  case (placed_subnet r p net c)
  have "plot_of r = Some (kindSubnet, net, p)" using placed_subnet by (simp add: plot_of_def osc_tenant_def)
  then show ?case using placed_subnet by (intro apart_place)
next
  case (rewrite c k i r r')
  have "plot_of r' = plot_of r"
    using rewrite rewritten_plot [of k r r' i] keyed_cellsD [of c "key pack_name k i" r] by simp
  then show ?case by (intro apart_claims [OF rewrite(4)]) (use rewrite(1) in \<open>auto split: if_splits\<close>)
next
  case (placed_default r c)
  then have "plot_of r = None" by (simp add: plot_of_def kinds)
  then show ?case by (intro apart_claims [OF placed_default(5)]) (auto split: if_splits)
next
  case (removal k c i)
  show ?case by (rule apart_claims [OF removal(3)]) (auto split: if_splits)
qed

interpretation blocks: machine_invariant e d apart for e d
  by unfold_locales (rule apart_step)

text \<open>The same in terms of addresses.\<close>

definition blocks_disjoint :: "cells \<Rightarrow> bool" where
  "blocks_disjoint c \<longleftrightarrow> (\<forall>n m r s k home p q. c n = Some r \<and> c m = Some s \<and> n \<noteq> m \<and>
     plot_of r = Some (k, home, p) \<and> plot_of s = Some (k, home, q) \<longrightarrow>
     {a. prefix_contains p a} \<inter> {a. prefix_contains q a} = {})"

lemma overlaps_disjoint:
  assumes "plot_of r = Some (k, home, p)" "plot_of s = Some (k', home', q)"
  shows "\<not> overlaps p q \<longleftrightarrow> {a. prefix_contains p a} \<inter> {a. prefix_contains q a} = {}"
  using plot_wf [OF assms(1)] plot_wf [OF assms(2)] by (auto simp: overlaps_iff)

lemma blocks_disjoint_apart: "blocks_disjoint c \<longleftrightarrow> apart c"
  unfolding blocks_disjoint_def apart_def using overlaps_disjoint by (intro iffI allI impI) blast+

text \<open>
  C3. No address is given twice: however creates, deletes, moves and reads of Nets and
  Subnets interleave, no two Nets of the account and no two Subnets of one Net ever
  hold an address in common.
\<close>

theorem no_address_in_two_blocks:
  assumes "store_wf (os_store x)" "blocks_disjoint (cells_of x)"
  shows "blocks_disjoint (cells_of (snd (serve_all e calls schedule x)))"
  using blocks.always [OF assms(1) refl, of e calls schedule] assms(2) by (simp only: blocks_disjoint_apart)

section \<open>The default set of DHCP options\<close>

definition one_default :: "cells \<Rightarrow> bool" where
  "one_default c \<longleftrightarrow> (\<forall>n\<in>defaults c. \<forall>m\<in>defaults c. n = m)"

lemma one_default_sub: "one_default c \<Longrightarrow> shrinks c c' \<Longrightarrow> one_default c'"
  by (auto simp: one_default_def shrinks_def)

lemma one_default_defaults: "one_default c \<Longrightarrow> defaults c' \<subseteq> defaults c \<Longrightarrow> one_default c'"
  by (auto simp: one_default_def)

lemma one_default_single: "defaults c \<subseteq> {n} \<Longrightarrow> one_default c"
  by (auto simp: one_default_def)

lemma placed_no_default: "kind r \<in> {kindNet, kindSubnet} \<Longrightarrow> defaults (c(n \<mapsto> r)) \<subseteq> defaults c"
  by (auto simp: defaults_def default_set_def kinds)

lemma one_default_step: "pack_step e d c c' \<Longrightarrow> keyed_cells c \<Longrightarrow> one_default c \<Longrightarrow> one_default c'"
proof (induction rule: pack_step.induct)
  case (placed_net r p c)
  then show ?case using placed_no_default [of r c "key_of r"] one_default_defaults by blast
next
  case (placed_subnet r p net c)
  then show ?case using placed_no_default [of r c "key_of r"] one_default_defaults by blast
next
  case (placed_default r c)
  then have "defaults (c(key_of r \<mapsto> r)) \<subseteq> {key_of r}" by (auto simp: defaults_def split: if_splits)
  then show ?case by (rule one_default_single)
qed (auto intro: one_default_sub shrinks_read shrinks_birth shrinks_rewrite shrinks_removal)

interpretation default_options: machine_invariant e d one_default for e d
  by unfold_locales (rule one_default_step)

text \<open>
  The account has one default set of DHCP options, however many Nets are created or
  moved back to it at the same time.
\<close>

theorem one_default_options_set:
  assumes "store_wf (os_store x)" "one_default (cells_of x)"
  shows "one_default (cells_of (snd (serve_all e calls schedule x)))"
  by (rule default_options.always [OF assms(1) refl assms(2)])

section \<open>Peerings\<close>

definition leads :: "string \<Rightarrow> string \<Rightarrow> bool" where
  "leads s t \<longleftrightarrow> t = s \<or> s = state_pending \<and> t \<in> {state_peering_active, state_rejected} \<or>
     s \<notin> {state_rejected, state_failed, state_expired, state_deleted} \<and> t = state_deleted"

lemma leads_refl [simp]: "leads s s"
  by (simp add: leads_def)

lemma peering_states_distinct [simp]:
  "state_pending \<noteq> state_peering_active" "state_pending \<noteq> state_rejected" "state_pending \<noteq> state_deleted" "state_pending \<noteq> state_failed"
  "state_pending \<noteq> state_expired" "state_peering_active \<noteq> state_pending" "state_peering_active \<noteq> state_rejected" "state_peering_active \<noteq> state_deleted"
  "state_peering_active \<noteq> state_failed" "state_peering_active \<noteq> state_expired" "state_deleted \<noteq> state_pending" "state_rejected \<noteq> state_pending"
  "state_failed \<noteq> state_pending"
  by (simp_all add: peering_states)

lemma leads_trans: "leads s t \<Longrightarrow> leads t u \<Longrightarrow> leads s u"
  by (auto simp: leads_def)

definition peering_ends :: "string list" where
  "peering_ends = [''SourceNetId'', ''SourceIpRange'', ''AccepterNetId'', ''AccepterIpRange'']"

definition same_ends :: "resource \<Rightarrow> resource \<Rightarrow> bool" where
  "same_ends r r' \<longleftrightarrow> map (attrs r') peering_ends = map (attrs r) peering_ends"

text \<open>What has become of a peering whose identifier is not drawn again.\<close>

definition follows :: "'h osc_env \<Rightarrow> nat \<Rightarrow> string \<Rightarrow> resource \<Rightarrow> cells \<Rightarrow> bool" where
  "follows e d i r c \<longleftrightarrow> (\<forall>m\<ge>d. new_id ''pcx'' (oe_seed e m) \<noteq> i) \<longrightarrow>
     (\<exists>s. c (key pack_name kindNetPeering i) = Some s \<and> leads (rstate r) (rstate s) \<and> pending s = [] \<and> same_ends r s)"

lemma rewritten_peering: "rewritten k r r' \<Longrightarrow> leads (rstate r) (rstate r') \<and> pending r' = pending r \<and> same_ends r r'"
  by (induction rule: rewritten.induct)
    (auto simp: changes Let_def same_ends_def peering_ends_def leads_def split: if_splits)

lemma born_elsewhere:
  assumes "born e d r" "\<forall>m\<ge>d. new_id ''pcx'' (oe_seed e m) \<noteq> i"
  shows "key_of r \<noteq> key pack_name kindNetPeering i"
  using assms by (induction rule: born.induct) (auto simp: key_of_def osc_tenant_def kinds key_def)

lemma follows_away: "follows e d i r c \<Longrightarrow> n \<noteq> key pack_name kindNetPeering i \<Longrightarrow> follows e d i r (c(n := v))"
  by (simp add: follows_def)

lemma placed_elsewhere:
  "kind s \<in> {kindNet, kindSubnet, kindDhcpOptions} \<Longrightarrow> tenant s = osc_tenant \<Longrightarrow> key_of s \<noteq> key pack_name kindNetPeering i"
  by (auto simp: key_of_def osc_tenant_def kinds key_def)

lemma follows_step: "pack_step e d c c' \<Longrightarrow> keyed_cells c \<Longrightarrow> follows e d i r c \<Longrightarrow> follows e d i r c'"
proof (induction rule: pack_step.induct)
  case (read c' c)
  have "c' n = Some s" if "c n = Some s" "pending s = []" for n s
    using read(1) [rule_format, of n] that advance_done [of s] by auto
  with read(3) show ?case unfolding follows_def by blast
next
  case (birth s c)
  then show ?case using born_elsewhere [OF birth(1), of i] by (auto simp: follows_def)
next
  case (rewrite c k j s s')
  then show ?case using rewritten_peering [of k s s'] leads_trans
    by (auto simp: follows_def same_ends_def)
next
  case (removal k c j)
  then have "key pack_name k j \<noteq> key pack_name kindNetPeering i"
    by (auto simp: removable_def kinds key_def)
  with removal show ?case by (intro follows_away)
qed (intro follows_away placed_elsewhere; simp)+

interpretation peerings: machine_invariant e d "follows e d i r" for e d i r
  by unfold_locales (rule follows_step)

text \<open>
  C5. A peering only moves forward: whatever requests are in flight, it goes from
  pending to active or rejected and from a state that is not final to deleted, it keeps
  both ends, and it is never forgotten.
\<close>

theorem peerings_only_move_forward:
  assumes "store_wf (os_store x)" "cells_of x (key pack_name kindNetPeering i) = Some r" "pending r = []"
    and "\<And>m. os_drawn x \<le> m \<Longrightarrow> new_id ''pcx'' (oe_seed e m) \<noteq> i"
  shows "\<exists>s. cells_of (snd (serve_all e calls schedule x)) (key pack_name kindNetPeering i) = Some s \<and>
    leads (rstate r) (rstate s) \<and> same_ends r s"
proof -
  have "follows e (os_drawn x) i r (cells_of x)" using assms(2,3) by (simp add: follows_def same_ends_def)
  from peerings.always [OF assms(1) refl this, of calls schedule] assms(4) show ?thesis by (auto simp: follows_def)
qed

section \<open>Routes\<close>

text \<open>A table reaches each destination by one route, and its own Net by the local one.\<close>

definition destinations :: "attr list \<Rightarrow> string list" where
  "destinations routes = said ''DestinationIpRange'' routes"

definition routes_of :: "resource \<Rightarrow> attr list" where
  "routes_of r = list_of (attrs r ''Routes'')"

definition table_ok :: "resource \<Rightarrow> bool" where
  "table_ok r \<longleftrightarrow> distinct (destinations (routes_of r)) \<and> list_ex is_local_route (routes_of r)"

definition tables_ok :: "cells \<Rightarrow> bool" where
  "tables_ok c \<longleftrightarrow> (\<forall>n r. c n = Some r \<and> kind r = kindRouteTable \<longrightarrow> table_ok r)"

lemma routes_of_set [simp]: "routes_of (set_attr now k v r) = (if k = ''Routes'' then list_of (Some v) else routes_of r)"
  by (simp add: routes_of_def)

lemma born_ok: "born e d r \<Longrightarrow> kind r = kindRouteTable \<Longrightarrow> table_ok r"
  by (induction rule: born.induct)
    (auto simp: table_ok_def destinations_def routes_of_def kinds table_attrs_def said_def is_local_route_def)

lemma entry_destination:
  "k \<in> set route_keys \<Longrightarrow> string_of (fields_of (route_entry how dest k v) ''DestinationIpRange'') = dest"
  by (auto simp: route_entry_def route_keys_def)

lemma added_ok:
  assumes "add_route dest k v now r = Inr r'" "k \<in> set route_keys" "table_ok r"
  shows "table_ok r'"
  using assms entry_destination [OF assms(2), of "''CreateRoute''" dest v]
  by (auto simp: add_route_def table_ok_def destinations_def said_def list_ex_iff route_to_def routes_of_def [symmetric] Let_def
      split: if_splits)

lemma dropped_ok:
  assumes "drop_route dest now r = Inr r'" "table_ok r"
  shows "table_ok r'"
proof -
  have r': "r' = set_attr now ''Routes'' (AList (filter (\<lambda>q. \<not> route_to dest q) (routes_of r))) r"
    and no: "\<not> list_ex (\<lambda>q. route_to dest q \<and> is_local_route q) (routes_of r)"
    using assms(1) by (auto simp: drop_route_def routes_of_def Let_def split: if_splits)
  have "list_ex is_local_route (filter (\<lambda>q. \<not> route_to dest q) (routes_of r))"
    using assms(2) no by (auto simp: table_ok_def list_ex_iff)
  then show ?thesis using assms(2) by (simp add: table_ok_def r' destinations_def said_def distinct_map_filter)
qed

lemma redirected_ok:
  assumes "redirect_route dest k v now r = Inr r'" "k \<in> set route_keys" "table_ok r"
  shows "table_ok r'"
proof -
  let ?f = "\<lambda>q. if \<not> route_to dest q then q else route_entry (string_of (fields_of q ''CreationMethod'')) dest k v"
  have r': "r' = set_attr now ''Routes'' (AList (map ?f (routes_of r))) r"
    and no: "\<not> list_ex (\<lambda>q. route_to dest q \<and> is_local_route q) (routes_of r)"
    using assms(1) by (auto simp: redirect_route_def routes_of_def Let_def split: if_splits)
  have "string_of (fields_of (?f q) ''DestinationIpRange'') = string_of (fields_of q ''DestinationIpRange'')" for q
    using entry_destination [OF assms(2)] by (simp add: route_to_def)
  then have "destinations (map ?f (routes_of r)) = destinations (routes_of r)" by (simp add: destinations_def said_def)
  moreover have "list_ex is_local_route (map ?f (routes_of r))"
    using assms(3) no by (fastforce simp: table_ok_def list_ex_iff)
  ultimately show ?thesis using assms(3) by (simp add: table_ok_def r')
qed

lemma rewritten_ok: "rewritten k r r' \<Longrightarrow> table_ok r \<Longrightarrow> table_ok r'"
proof (induction rule: rewritten.induct)
  case (route_added dest k v now r r')
  then show ?case by (rule added_ok)
next
  case (route_dropped dest now r r')
  then show ?case by (rule dropped_ok)
next
  case (route_moved dest k v now r r')
  then show ?case by (rule redirected_ok)
qed (auto simp: changes table_ok_def Let_def routes_of_def split: if_splits)

lemma tables_ok_put: "tables_ok c \<Longrightarrow> (kind r = kindRouteTable \<Longrightarrow> table_ok r) \<Longrightarrow> tables_ok (c(n \<mapsto> r))"
  by (auto simp: tables_ok_def)

lemma tables_ok_step: "pack_step e d c c' \<Longrightarrow> keyed_cells c \<Longrightarrow> tables_ok c \<Longrightarrow> tables_ok c'"
proof (induction rule: pack_step.induct)
  case (read c' c)
  show ?case unfolding tables_ok_def
  proof (intro allI impI, elim conjE)
    fix n r assume r: "c' n = Some r" "kind r = kindRouteTable"
    show "table_ok r"
      by (rule read_cell [OF read(1) r(1)]) (use read(3) r(2) in \<open>auto simp: tables_ok_def table_ok_def routes_of_def\<close>)
  qed
next
  case (birth r c)
  then show ?case by (intro tables_ok_put born_ok)
next
  case (rewrite c k i r r')
  have "table_ok r'" if "kind r' = kindRouteTable"
    using rewritten_ok [OF rewrite(2)] rewritten_identity [OF rewrite(2)] rewrite that by (auto simp: tables_ok_def)
  then show ?case by (rule tables_ok_put [OF rewrite(4)])
next
  case (removal k c i)
  then show ?case by (auto simp: tables_ok_def)
qed (rule tables_ok_put; simp add: kinds)+

interpretation tables: machine_invariant e d tables_ok for e d
  by unfold_locales (rule tables_ok_step)

text \<open>
  C4. A route table says one thing of each destination and never loses the route to its
  own Net: whatever creates, redirections and deletes of routes race, no destination is
  routed twice and the local route stays.
\<close>

theorem routes_stay_unambiguous:
  assumes "store_wf (os_store x)" "tables_ok (cells_of x)"
  shows "tables_ok (cells_of (snd (serve_all e calls schedule x)))"
  by (rule tables.always [OF assms(1) refl assms(2)])

section \<open>What interleavings do break\<close>

text \<open>
  The checks a handler makes before its critical section are not made again inside it.
  Each schedule below is one order of the handlers' own steps. Merging is not reached by
  any of them, and its comparison of attributes has no code: \<open>code_simp\<close> need not look.
\<close>

declare commit_change_def [code del]

definition attr_text :: "cells \<Rightarrow> string \<Rightarrow> string \<Rightarrow> string \<Rightarrow> string option" where
  "attr_text c k i a = map_option (\<lambda>r. string_of (attrs r a)) (c (key pack_name k i))"

definition statuses :: "('h osc, answer) pool \<Rightarrow> nat option list" where
  "statuses x = map (map_option an_status) (answers x)"

definition table0 :: "string \<Rightarrow> attr list \<Rightarrow> resource" where
  "table0 i links = made i kindRouteTable state_available (table_attrs ''vpc-1'' ''10.0.0.0/16'' links)"

definition subnet0 :: resource where
  "subnet0 = made ''subnet-1'' kindSubnet state_available [''IpRange'' \<mapsto> AString ''10.0.1.0/24'', ''NetId'' \<mapsto> AString ''vpc-1'']"

definition links_in :: "cells \<Rightarrow> string \<Rightarrow> string list option" where
  "links_in c i = map_option (\<lambda>r. said ''SubnetId'' (list_of (attrs r ''LinkRouteTables''))) (c (key pack_name kindRouteTable i))"

definition peering0 :: "string \<Rightarrow> string \<Rightarrow> string \<Rightarrow> resource" where
  "peering0 i source accepter = made i kindNetPeering state_pending [''SourceNetId'' \<mapsto> AString source, ''AccepterNetId'' \<mapsto> AString accepter]"

text \<open>A Net is deleted while a Subnet is created in it: both are accepted, and the Subnet names a Net that is gone.\<close>

lemma subnet_outlives_its_net:
  "let x = turns ([0] @ replicate 13 1 @ replicate 6 0)
         (in_flight [create_subnet env0 (Some \<lparr>cs_ip_range = ''10.0.1.0/24'', cs_net = ''vpc-1'', cs_subregion = []\<rparr>),
                     delete_net env0 (Some ''vpc-1'')] (holding [net0]))
   in statuses x ! 1 = Some 200 \<and> map_option rid (cells_of (snd x) (key pack_name kindNet ''vpc-1'')) = None \<and>
      attr_text (cells_of (snd x)) kindSubnet ''subnet-10000000'' ''NetId'' = Some ''vpc-1''"
  by code_simp

text \<open>Two gateways are linked to one Net.\<close>

lemma two_gateways_for_one_net:
  "let x = turns [0, 0, 0, 1, 1, 1, 0, 1, 0, 1]
         (in_flight [link_internet_service env0 (Some \<lparr>gq_gateway = ''igw-1'', gq_net = ''vpc-1''\<rparr>),
                     link_internet_service env0 (Some \<lparr>gq_gateway = ''igw-2'', gq_net = ''vpc-1''\<rparr>)]
           (holding [net0, made ''igw-1'' kindInternetService state_available Map.empty,
                     made ''igw-2'' kindInternetService state_available Map.empty]))
   in statuses x = [Some 200, Some 200] \<and>
      map (\<lambda>i. attr_text (cells_of (snd x)) kindInternetService i ''NetId'') [''igw-1'', ''igw-2''] = [Some ''vpc-1'', Some ''vpc-1'']"
  by code_simp

text \<open>One Subnet is linked to two tables.\<close>

lemma two_tables_for_one_subnet:
  "let x = turns [0, 0, 0, 1, 1, 1, 0, 0, 1, 1, 0, 1]
         (in_flight [link_route_table env0 (Some \<lparr>lq_table = ''rtb-1'', lq_subnet = ''subnet-1''\<rparr>),
                     link_route_table env0 (Some \<lparr>lq_table = ''rtb-2'', lq_subnet = ''subnet-1''\<rparr>)]
           (holding [net0, subnet0, table0 ''rtb-1'' [], table0 ''rtb-2'' []]))
   in statuses x = [Some 200, Some 200] \<and>
      map (links_in (cells_of (snd x))) [''rtb-1'', ''rtb-2''] = [Some [''subnet-1''], Some [''subnet-1'']]"
  by code_simp

text \<open>A table is deleted with the link it was just given.\<close>

lemma linked_table_is_deleted:
  "let x = turns ([1] @ replicate 6 0 @ [1, 1])
         (in_flight [link_route_table env0 (Some \<lparr>lq_table = ''rtb-1'', lq_subnet = ''subnet-1''\<rparr>),
                     delete_route_table env0 (Some ''rtb-1'')]
           (holding [net0, subnet0, table0 ''rtb-1'' []]))
   in statuses x = [Some 200, Some 200] \<and> links_in (cells_of (snd x)) ''rtb-1'' = None"
  by code_simp

text \<open>A Net is left without a main table: the link was taken off one and the other is gone.\<close>

lemma main_link_is_lost:
  "let main = AMap [''LinkRouteTableId'' \<mapsto> AString ''rtbassoc-1'', ''Main'' \<mapsto> ABool True, ''RouteTableId'' \<mapsto> AString ''rtb-1''];
       x = turns ([0, 0, 0] @ replicate 3 1 @ [0, 0])
         (in_flight [update_route_table_link env0 (Some \<lparr>mq_link = ''rtbassoc-1'', mq_table = ''rtb-2''\<rparr>),
                     delete_route_table env0 (Some ''rtb-2'')]
           (holding [net0, table0 ''rtb-1'' [main], table0 ''rtb-2'' []]))
   in statuses x = [Some 400, Some 200] \<and> links_in (cells_of (snd x)) ''rtb-1'' = Some [] \<and>
      links_in (cells_of (snd x)) ''rtb-2'' = None"
  by code_simp

text \<open>Two opposite peerings become active, neither is rejected as redundant.\<close>

lemma opposite_peerings_both_active:
  "let x = turns ([0, 1] @ replicate 6 0 @ replicate 6 1)
         (in_flight [accept_net_peering env0 (Some ''pcx-1''), accept_net_peering env0 (Some ''pcx-2'')]
           (holding [peering0 ''pcx-1'' ''vpc-1'' ''vpc-2'', peering0 ''pcx-2'' ''vpc-2'' ''vpc-1'']))
   in statuses x = [Some 200, Some 200] \<and>
      map (\<lambda>i. map_option rstate (cells_of (snd x) (key pack_name kindNetPeering i))) [''pcx-1'', ''pcx-2''] =
        [Some state_peering_active, Some state_peering_active]"
  by code_simp

section \<open>Witnesses\<close>

lemma plots0: "plot_of net0 = Some (kindNet, [], Prefix (V4 0x0A000000) 16)"
  "plot_of net1 = Some (kindNet, [], Prefix (V4 0x0A010000) 16)"
  by (code_simp, code_simp)

lemma apart0: "blocks_disjoint (cells_of (holding [net0, net1]))"
proof -
  have cells: "cells_of (holding [net0, net1]) n = (if n = key_of net1 then Some net1 else if n = key_of net0 then Some net0 else None)" for n
    by (simp add: cells_holding)
  have "\<not> overlaps (Prefix (V4 0x0A000000) 16) (Prefix (V4 0x0A010000) 16)" "\<not> overlaps (Prefix (V4 0x0A010000) 16) (Prefix (V4 0x0A000000) 16)"
    by (code_simp, code_simp)
  then show ?thesis unfolding blocks_disjoint_apart apart_def cells using plots0 by (auto split: if_splits)
qed

lemma blocks_witness:
  "blocks_disjoint (cells_of (snd (serve_all env0 calls0 [0, 1, 0, 2, 1, 0, 0, 2, 1, 3, 1] (holding [net0, net1]))))"
  by (rule no_address_in_two_blocks [OF wf_holding apart0])

lemma default_witness:
  "one_default (cells_of (snd (serve_all env0 calls0 [0, 1, 0, 2, 1, 0, 0, 2, 1, 3, 1] (holding [net0, net1]))))"
proof -
  have "default_set net0 = False" "default_set net1 = False" by (code_simp, code_simp)
  then have "one_default (cells_of (holding [net0, net1]))"
    by (simp add: one_default_def defaults_def cells_holding)
  from one_default_options_set [OF wf_holding this] show ?thesis .
qed

definition peering_calls0 :: "(bool option \<times> osc_call) list" where
  "peering_calls0 = [(None, AcceptNetPeering (Some ''pcx-9'')), (None, RejectNetPeering (Some ''pcx-9'')),
     (None, DeleteNetPeering (Some ''pcx-9''))]"

lemma length_new_id: "length (new_id pre seed) = length pre + 9"
  by (simp add: new_id_def id_len_def)

lemma peering_witness:
  "\<exists>s. cells_of (snd (serve_all env0 peering_calls0 [1, 0, 2, 0, 1, 2] (holding [peering0 ''pcx-9'' ''vpc-1'' ''vpc-2''])))
       (key pack_name kindNetPeering ''pcx-9'') = Some s \<and>
     leads state_pending (rstate s) \<and> same_ends (peering0 ''pcx-9'' ''vpc-1'' ''vpc-2'') s"
proof -
  let ?p = "peering0 ''pcx-9'' ''vpc-1'' ''vpc-2''"
  have st: "rstate ?p = state_pending" "pending ?p = []" "key_of ?p = key pack_name kindNetPeering ''pcx-9''"
    by (simp_all add: peering0_def made_def new_resource_def key_of_def osc_tenant_def)
  then have here: "cells_of (holding [?p]) (key pack_name kindNetPeering ''pcx-9'') = Some ?p" by (simp add: cells_holding)
  have fresh: "new_id ''pcx'' (oe_seed env0 m) \<noteq> ''pcx-9''" for m
    using length_new_id [of "''pcx''" "oe_seed env0 m"] by auto
  show ?thesis using peerings_only_move_forward [OF wf_holding here st(2) fresh] unfolding st(1) .
qed

lemma routes_witness:
  "tables_ok (cells_of (snd (serve_all env0 calls0 [0, 1, 0, 2, 1, 0, 0, 2, 1, 3, 1] (holding [net0, table0 ''rtb-1'' []]))))"
proof -
  have "table_ok (table0 ''rtb-1'' [])" by code_simp
  moreover have "kind net0 \<noteq> kindRouteTable" by (simp add: net0_def made_def)
  ultimately have "tables_ok (cells_of (holding [net0, table0 ''rtb-1'' []]))" by (simp add: tables_ok_def cells_holding)
  from routes_stay_unambiguous [OF wf_holding this] show ?thesis .
qed

end
