(* ===== verification/OscReads.thy ===== *)
theory OscReads
  imports OscServe
begin

text \<open>
  What the \<open>Read\<close> actions of the Outscale pack promise whatever they list
  (\<open>filters.go\<close>, \<open>paging.go\<close>): a filter is applied or refused, and a page keeps the
  bound it was asked for.
\<close>

section \<open>A request no read may answer\<close>

text \<open>The filters each read implements, and the request it was sent.\<close>

fun reading :: "osc_call \<Rightarrow> (filter_spec list \<times> string \<times> read_request option) option" where
  "reading (ReadNets r) = Some (net_filters, ''Nets'', r)"
| "reading (ReadSubnets r) = Some (subnet_filters, ''Subnets'', r)"
| "reading (ReadRouteTables r) = Some (route_table_filters, ''RouteTables'', r)"
| "reading (ReadInternetServices r) = Some (internet_service_filters, ''InternetServices'', r)"
| "reading (ReadNetPeerings r) = Some (net_peering_filters, ''NetPeerings'', r)"
| "reading (ReadTags r) = Some (tag_filters, ''Tags'', r)"
| "reading c = None"

lemma reading_page: "reading c = Some (specs, name, req) \<Longrightarrow> \<exists>rows. serve e c = read_page e specs name req rows"
  by (cases c) (auto simp: read_nets_def read_subnets_def read_route_tables_def read_internet_services_def
      read_net_peerings_def read_tags_def)

lemma run_answer: "run (answer_with e st err body) x =
    (x\<lparr>os_drawn := os_drawn x + 1\<rparr>,
     \<lparr>an_status = st, an_error = err, an_fields = body(''ResponseContext'' \<mapsto> osc_context (oe_seed e (os_drawn x)))\<rparr>)"
  by (simp add: answer_with_def do_seed_def)

lemmas run_answers = ok_def bad_request_def not_found_def conflict_def run_answer

lemma sort_key_Nil: "sort_key f xs = [] \<longleftrightarrow> xs = []"
  by (metis set_empty set_sort)

lemma refuse_filters_iff:
  "refuse_filters fs specs \<longleftrightarrow>
     (\<exists>n\<in>set (map fst fs). n \<notin> set (map fs_name specs)) \<or> (\<exists>s\<in>set specs. filter_read fs s = Unreadable_filter)"
  by (auto simp: refuse_filters_def unsupported_def unreadable_filters_def sort_key_Nil filter_empty_conv)

text \<open>A filter the read does not implement, one its kind cannot read, or a page size outside 1 to 1000.\<close>

definition unreadable_request :: "filter_spec list \<Rightarrow> read_request \<Rightarrow> bool" where
  "unreadable_request specs r \<longleftrightarrow>
     (\<exists>n\<in>set (map fst (rr_filters r)). n \<notin> set (map fs_name specs)) \<or>
     (\<exists>s\<in>set specs. filter_read (rr_filters r) s = Unreadable_filter) \<or>
     (\<exists>n. rr_per_page r = Some n \<and> \<not> (1 \<le> n \<and> n \<le> 1000))"

text \<open>
  C26. A filter is applied or refused: a read that is sent a filter it does not implement,
  a value the filter cannot read or a page size out of bounds answers 400 with nothing of
  the inventory in it, and looks nothing up.
\<close>

theorem no_filter_is_ignored:
  assumes "reading c = Some (specs, name, Some r)" "unreadable_request specs r"
  shows "an_status (snd (run (serve e c) x)) = 400 \<and> dom (an_fields (snd (run (serve e c) x))) = {''ResponseContext''} \<and>
    os_store (fst (run (serve e c) x)) = os_store x"
proof -
  obtain rows where c: "serve e c = read_page e specs name (Some r) rows" using reading_page [OF assms(1)] by blast
  have "refuse_page_size (rr_per_page r) \<or> refuse_filters (rr_filters r) specs"
    using assms(2) by (auto simp: unreadable_request_def refuse_filters_iff refuse_page_size_def
        results_per_page_min_def results_per_page_max_def)
  then have "run (serve e c) x = run (bad_request e) x" unfolding c by (auto simp: read_page_def decoded_def)
  then show ?thesis by (simp add: run_answers)
qed

section \<open>Pages\<close>

text \<open>A handler that answers the page of some views, whatever it does before.\<close>

definition pages :: "'h osc_env \<Rightarrow> string \<Rightarrow> int \<Rightarrow> 'h reply \<Rightarrow> bool" where
  "pages e name n p \<longleftrightarrow> (\<forall>x. \<exists>views. an_status (snd (run p x)) = 200 \<and>
     an_fields (snd (run p x)) name = Some (AList (page views n)))"

lemma pages_step: "(\<And>a x. pages e name n (fst (g x))) \<Longrightarrow> pages e name n (Act g)"
  unfolding pages_def run_Act by (metis (mono_tags, lifting) case_prod_beta)

lemma pages_get: "(\<And>r. pages e name n (f r)) \<Longrightarrow> pages e name n (do_get k i f)"
  unfolding do_get_def by (rule pages_step) (simp split: prod.split)

lemma pages_list: "(\<And>r. pages e name n (f r)) \<Longrightarrow> pages e name n (do_list k f)"
  unfolding do_list_def by (rule pages_step) (simp split: prod.split)

lemma pages_allocator: "(\<And>r. pages e name n (f r)) \<Longrightarrow> pages e name n (subnet_allocator i f)"
  unfolding subnet_allocator_def by (intro pages_get) (auto split: option.split sum.split intro!: pages_list)

lemma pages_subnet_view: "(\<And>r. pages e name n (f r)) \<Longrightarrow> pages e name n (subnet_view res f)"
  unfolding subnet_view_def Let_def by (intro pages_allocator) (auto split: option.split)

lemma pages_subregion: "(\<And>r. pages e name n (f r)) \<Longrightarrow> pages e name n (subnet_subregion e i f)"
  unfolding subnet_subregion_def by (intro pages_get) (auto split: option.split)

lemma pages_rows: "(\<And>r. pages e name n (f r)) \<Longrightarrow> pages e name n (subnet_rows e fs rs views f)"
  by (induction rs arbitrary: views) (auto intro!: pages_subregion pages_subnet_view)

lemma pages_tags: "(\<And>r. pages e name n (f r)) \<Longrightarrow> pages e name n (tag_table fs ts out f)"
  by (induction fs ts out f rule: tag_table.induct) (auto intro!: pages_list)

lemma pages_answer: "name \<noteq> ''ResponseContext'' \<Longrightarrow> pages e name n (ok e [name \<mapsto> AList (page views n)])"
  by (auto simp: pages_def run_answers)

lemma page_length: "1 \<le> n \<Longrightarrow> int (length (page views n)) \<le> n"
  by (auto simp: page_def)

text \<open>
  C27. A page is bounded by what was asked for: a read with a page size it accepts answers
  200 with at most that many entries.
\<close>

theorem pages_are_bounded:
  assumes "reading c = Some (specs, name, Some r)" "\<not> unreadable_request specs r" "rr_per_page r = Some n"
  shows "\<exists>views. an_status (snd (run (serve e c) x)) = 200 \<and>
    an_fields (snd (run (serve e c) x)) name = Some (AList views) \<and> int (length views) \<le> n"
proof -
  have n: "1 \<le> n" using assms(2,3) by (auto simp: unreadable_request_def)
  have "pages e name n (serve e c)"
    using assms by (cases c)
      (auto simp: read_nets_def read_subnets_def read_route_tables_def read_internet_services_def read_net_peerings_def
        read_tags_def read_page_def decoded_def unreadable_request_def refuse_filters_iff refuse_page_size_def page_size_def
        results_per_page_min_def results_per_page_max_def intro!: pages_list pages_rows pages_tags pages_answer)
  then show ?thesis using page_length [OF n] unfolding pages_def by blast
qed

section \<open>Witnesses\<close>

definition read0 :: read_request where
  "read0 = \<lparr>rr_filters = [(''NetIds'', JArray [JString ''vpc-1'']), (''Sate'', JArray [])], rr_per_page = Some 2\<rparr>"

definition read1 :: read_request where
  "read1 = \<lparr>rr_filters = [(''NetIds'', JArray [JString ''vpc-1''])], rr_per_page = Some 2\<rparr>"

lemma refused_filter_witness:
  "an_status (snd (run (serve env0 (ReadNets (Some read0))) (holding [net0, net1]))) = 400"
  using no_filter_is_ignored [of "ReadNets (Some read0)" net_filters "''Nets''" read0 env0 "holding [net0, net1]"]
  by (auto simp: unreadable_request_def read0_def net_filters_def string_filters_def specs_of_kind_def taggable_filters_def)

lemma bounded_page_witness:
  "\<exists>views. an_fields (snd (run (serve env0 (ReadNets (Some read1))) (holding [net0, net1]))) ''Nets'' = Some (AList views) \<and>
     int (length views) \<le> 2"
proof -
  have "\<not> unreadable_request net_filters read1"
    by (simp add: unreadable_request_def read1_def net_filters_def string_filters_def specs_of_kind_def taggable_filters_def
        filter_read_def filter_strings_def read_as_def decode_list_def decode_string_def)
  with pages_are_bounded [of "ReadNets (Some read1)" net_filters "''Nets''" read1 2 env0 "holding [net0, net1]"]
  show ?thesis by (auto simp: read1_def)
qed

end
