(* ===== verification/OscSeq.thy ===== *)
theory OscSeq
  imports OscServe
begin

text \<open>
  What single requests of the Outscale pack do when nobody disturbs them: a small calculus
  of postconditions over the steps of a handler, and with it the whole of what deleting
  and creating a Net promise.
\<close>

section \<open>Postconditions\<close>

definition wp :: "'h reply \<Rightarrow> ('h osc \<Rightarrow> answer \<Rightarrow> bool) \<Rightarrow> 'h osc \<Rightarrow> bool" where
  "wp p Q x = (case run p x of (y, a) \<Rightarrow> Q y a)"

text \<open>
  What a read may do to a resource: walk its chain one state on, and nothing else. So a
  store that was only read differs from what it was in chains that moved.
\<close>

definition alike :: "resource \<Rightarrow> resource \<Rightarrow> bool" where
  "alike = (\<lambda>r s. \<exists>ev. s = fst (advance ev r))\<^sup>*\<^sup>*"

definition stirred :: "cells \<Rightarrow> cells \<Rightarrow> bool" where
  "stirred c c' \<longleftrightarrow> (\<forall>n. rel_option alike (c n) (c' n))"

lemma alike_refl [simp]: "alike r r"
  by (simp add: alike_def)

lemma alike_trans: "alike r s \<Longrightarrow> alike s t \<Longrightarrow> alike r t"
  by (simp add: alike_def)

lemma alike_advance [simp]: "alike r (fst (advance ev r))"
  by (auto simp: alike_def)

lemma alike_same:
  "alike r s \<Longrightarrow> kind s = kind r \<and> rid s = rid r \<and> tenant s = tenant r \<and> attrs s = attrs r \<and> runtime s = runtime r"
  unfolding alike_def by (induction rule: rtranclp_induct) (auto simp: advance_def Let_def split: list.splits)

lemma stirred_refl [simp]: "stirred c c"
  by (simp add: stirred_def option.rel_refl)

lemma stirred_trans: "stirred c c' \<Longrightarrow> stirred c' c'' \<Longrightarrow> stirred c c''"
  unfolding stirred_def by (metis (no_types, lifting) alike_trans option.rel_sel)

lemma stirred_read:
  "\<forall>n. c' n = c n \<or> (\<exists>ev r. c n = Some r \<and> c' n = Some (fst (advance ev r))) \<Longrightarrow> stirred c c'"
  unfolding stirred_def
proof (intro allI)
  fix n assume "\<forall>n. c' n = c n \<or> (\<exists>ev r. c n = Some r \<and> c' n = Some (fst (advance ev r)))"
  then consider "c' n = c n" | ev r where "c n = Some r" "c' n = Some (fst (advance ev r))" by blast
  then show "rel_option alike (c n) (c' n)" by cases (auto simp: option.rel_refl)
qed

lemma stirredD: "stirred c c' \<Longrightarrow> c' n = Some r \<Longrightarrow> \<exists>q. c n = Some q \<and> alike q r"
  unfolding stirred_def by (metis option_rel_Some2)

lemma stirredD2: "stirred c c' \<Longrightarrow> c n = Some r \<Longrightarrow> \<exists>q. c' n = Some q \<and> alike r q"
  unfolding stirred_def by (metis option_rel_Some1)

lemma stirred_None: "stirred c c' \<Longrightarrow> c' n = None \<longleftrightarrow> c n = None"
  by (metis not_None_eq stirredD stirredD2)

text \<open>Exactly what the store holds of a kind.\<close>

definition exactly :: "string \<Rightarrow> resource list \<Rightarrow> cells \<Rightarrow> bool" where
  "exactly k rs c \<longleftrightarrow> (\<forall>r. r \<in> set rs \<longleftrightarrow> (\<exists>n. c n = Some r \<and> kind r = k \<and> provider (tenant r) = pack_name))"

named_theorems wp_rules \<open>postconditions of the steps\<close>

lemma wp_Act: "(\<And>p y. g x = (p, y) \<Longrightarrow> wp p Q y) \<Longrightarrow> wp (Act g) Q x"
  by (cases "g x") (simp add: wp_def)

lemma wp_lock [wp_rules]: "wp p Q x \<Longrightarrow> wp (Acquire p) Q x" "wp p Q x \<Longrightarrow> wp (Release p) Q x"
  by (simp_all add: wp_def)

lemma run_deferred: "run (deferred p) x = run p x"
proof (induction p arbitrary: x)
  case (Act g)
  show ?case by (cases "g x") (simp add: Act [OF rangeI, of _ x, unfolded fsts.simps] fsts.intros)
qed simp_all

lemma wp_deferred [wp_rules]: "wp p Q x \<Longrightarrow> wp (deferred p) Q x"
  by (simp add: wp_def run_deferred)

lemma wp_now [wp_rules]: "(\<And>now. wp (f now) Q x) \<Longrightarrow> wp (do_now f) Q x"
  unfolding do_now_def by (rule wp_Act) auto

lemma wp_seed [wp_rules]:
  "(\<And>m y. os_store y = os_store x \<Longrightarrow> wp (f (oe_seed e m)) Q y) \<Longrightarrow> wp (do_seed e f) Q x"
  unfolding do_seed_def by (rule wp_Act) auto

lemma wp_world [wp_rules]: "(\<And>b y. os_store y = os_store x \<Longrightarrow> wp (f b) Q y) \<Longrightarrow> wp (do_world g f) Q x"
  unfolding do_world_def by (rule wp_Act) (auto split: prod.splits)

lemma wp_get [wp_rules]:
  assumes "store_wf (os_store x)"
    and "\<And>y r. store_wf (os_store y) \<Longrightarrow> stirred (cells_of x) (cells_of y) \<Longrightarrow> cells_of y (key pack_name k i) = r \<Longrightarrow> wp (f r) Q y"
  shows "wp (do_get k i f) Q x"
  unfolding do_get_def
proof (rule wp_Act)
  fix p y assume g: "(case get (os_store x) pack_name k i of (s, r) \<Rightarrow> (f r, x\<lparr>os_store := s\<rparr>)) = (p, y)"
  obtain s r where s: "get (os_store x) pack_name k i = (s, r)" by fastforce
  have "cells_in s (key pack_name k i) = r"
    using s assms(1) by (auto simp: read_lock_get get_locked_def split: option.splits prod.splits)
  moreover have "stirred (cells_of x) (cells_in s)"
    using read_get [OF assms(1) s] by (intro stirred_read) (auto simp: cells_of_def)
  moreover have "store_wf s" using wf_get [OF assms(1), of pack_name k i] s by simp
  ultimately show "wp p Q y" using assms(2) [of y r] g s by (auto simp: cells_of_def)
qed

lemma wp_list [wp_rules]:
  assumes "store_wf (os_store x)"
    and "\<And>y rs. store_wf (os_store y) \<Longrightarrow> stirred (cells_of x) (cells_of y) \<Longrightarrow> exactly k rs (cells_of y) \<Longrightarrow> wp (f rs) Q y"
  shows "wp (do_list k f) Q x"
  unfolding do_list_def
proof (rule wp_Act)
  fix p y assume g: "(case list_res (os_store x) k osc_tenant of (s, rs) \<Rightarrow> (f rs, x\<lparr>os_store := s\<rparr>)) = (p, y)"
  obtain s rs where s: "list_res (os_store x) k osc_tenant = (s, rs)" by fastforce
  note cells = read_list(1) [OF assms(1) s] and listed = read_list(2) [OF assms(1) s]
  have "exactly k rs (cells_in s)"
    unfolding exactly_def
  proof
    fix r
    show "r \<in> set rs \<longleftrightarrow> (\<exists>n. cells_in s n = Some r \<and> kind r = k \<and> provider (tenant r) = pack_name)"
    proof
      assume "r \<in> set rs"
      then obtain n q where q: "cells_in (os_store x) n = Some q" "kind q = k" "matches q osc_tenant"
        "r = fst (advance (eventual (os_store x)) q)"
        unfolding listed by blast
      then have "cells_in s n = Some r" by (simp add: cells)
      with q show "\<exists>n. cells_in s n = Some r \<and> kind r = k \<and> provider (tenant r) = pack_name" by auto
    next
      assume "\<exists>n. cells_in s n = Some r \<and> kind r = k \<and> provider (tenant r) = pack_name"
      with listed_after [OF assms(1) s] show "r \<in> set rs" by (auto simp: listed_def)
    qed
  qed
  moreover have "stirred (cells_of x) (cells_in s)"
  proof (rule stirred_read, rule allI)
    fix n show "cells_in s n = cells_of x n \<or> (\<exists>ev r. cells_of x n = Some r \<and> cells_in s n = Some (fst (advance ev r)))"
      unfolding cells cells_of_def by (cases "cells_in (os_store x) n") auto
  qed
  moreover have "store_wf s" using wf_list [OF assms(1), of k osc_tenant] s by simp
  ultimately show "wp p Q y" using assms(2) [of y rs] g s by (auto simp: cells_of_def)
qed

lemma wp_put [wp_rules]:
  assumes "store_wf (os_store x)"
    and "\<And>y. store_wf (os_store y) \<Longrightarrow> cells_of y = (cells_of x)(key_of r \<mapsto> r) \<Longrightarrow> wp p Q y"
  shows "wp (do_put r p) Q x"
  unfolding do_put_def by (rule wp_Act) (use assms in \<open>auto simp: cells_of_def cells_put wf_put\<close>)

lemma wp_delete [wp_rules]:
  assumes "store_wf (os_store x)"
    and "\<And>y. store_wf (os_store y) \<Longrightarrow> cells_of y = (cells_of x)(key pack_name k i := None) \<Longrightarrow> wp p Q y"
  shows "wp (do_delete k i p) Q x"
  unfolding do_delete_def by (rule wp_Act) (use assms in \<open>auto simp: cells_of_def cells_delete wf_delete\<close>)

lemma wp_answer [wp_rules]:
  "(\<And>a y. os_store y = os_store x \<Longrightarrow> an_status a = st \<Longrightarrow> (\<And>k. k \<noteq> ''ResponseContext'' \<Longrightarrow> an_fields a k = body k) \<Longrightarrow> Q y a) \<Longrightarrow>
     wp (answer_with e st err body) Q x"
  unfolding answer_with_def by (rule wp_seed) (simp add: wp_def)

lemma wp_answers [wp_rules]:
  "(\<And>a y. os_store y = os_store x \<Longrightarrow> an_status a = 200 \<Longrightarrow> (\<And>k. k \<noteq> ''ResponseContext'' \<Longrightarrow> an_fields a k = body k) \<Longrightarrow> Q y a) \<Longrightarrow> wp (ok e body) Q x"
  "(\<And>a y. os_store y = os_store x \<Longrightarrow> an_status a = 400 \<Longrightarrow> Q y a) \<Longrightarrow> wp (bad_request e) Q x"
  "(\<And>a y. os_store y = os_store x \<Longrightarrow> an_status a = 400 \<Longrightarrow> Q y a) \<Longrightarrow> wp (not_found e) Q x"
  "(\<And>a y. os_store y = os_store x \<Longrightarrow> an_status a = 409 \<Longrightarrow> Q y a) \<Longrightarrow> wp (conflict e) Q x"
  unfolding ok_def bad_request_def not_found_def conflict_def by (rule wp_answer; simp)+

lemma wp_if [wp_rules]: "(b \<Longrightarrow> wp p Q x) \<Longrightarrow> (\<not> b \<Longrightarrow> wp q Q x) \<Longrightarrow> wp (if b then p else q) Q x"
  by simp

lemma wp_option [wp_rules]:
  "(x = None \<Longrightarrow> wp p Q s) \<Longrightarrow> (\<And>r. x = Some r \<Longrightarrow> wp (f r) Q s) \<Longrightarrow> wp (case x of None \<Rightarrow> p | Some r \<Rightarrow> f r) Q s"
  by (cases x) simp_all

lemma wp_sum [wp_rules]:
  "(\<And>l. x = Inl l \<Longrightarrow> wp (f l) Q s) \<Longrightarrow> (\<And>r. x = Inr r \<Longrightarrow> wp (g r) Q s) \<Longrightarrow> wp (case x of Inl l \<Rightarrow> f l | Inr r \<Rightarrow> g r) Q s"
  by (cases x) simp_all

text \<open>Deleting what was listed, and dropping its rule sets.\<close>

lemma wp_deletes [wp_rules]:
  assumes "store_wf (os_store x)"
    and "\<And>y. store_wf (os_store y) \<Longrightarrow>
        (\<And>n. cells_of y n = (if n \<in> (\<lambda>r. key pack_name k (rid r)) ` set rs then None else cells_of x n)) \<Longrightarrow> wp p Q y"
  shows "wp (foldr (\<lambda>r. do_delete k (rid r)) rs p) Q x"
  using assms
proof (induction rs arbitrary: x)
  case (Cons r rs)
  show ?case unfolding foldr.simps o_apply
  proof (rule wp_delete [OF Cons.prems(1)], rule Cons.IH)
    fix y z :: "'a osc" assume y: "store_wf (os_store z)" "cells_of y = (cells_of x)(key pack_name k (rid r) := None)"
      "\<And>n. cells_of z n = (if n \<in> (\<lambda>r. key pack_name k (rid r)) ` set rs then None else cells_of y n)"
    show "wp p Q z" by (rule Cons.prems(2) [OF y(1)]) (simp add: y(2,3))
  qed
qed simp

lemma wp_worlds [wp_rules]:
  "(\<And>y. os_store y = os_store x \<Longrightarrow> wp p Q y) \<Longrightarrow> wp (foldr (\<lambda>r p. do_world (g r) (\<lambda>b. p)) rs p) Q x"
proof (induction rs arbitrary: x)
  case (Cons r rs)
  show ?case unfolding foldr.simps o_apply by (rule wp_world, rule Cons.IH) (simp add: Cons.prems)
qed simp

section \<open>Deleting a Net\<close>

text \<open>Nothing of a kind that says it is in the Net.\<close>

definition none_in :: "string \<Rightarrow> string \<Rightarrow> cells \<Rightarrow> bool" where
  "none_in k net c \<longleftrightarrow> (\<forall>n r. c n = Some r \<and> kind r = k \<and> provider (tenant r) = pack_name \<longrightarrow> string_of (attrs r ''NetId'') \<noteq> net)"

text \<open>What is there was there.\<close>

definition fades :: "cells \<Rightarrow> cells \<Rightarrow> bool" where
  "fades c c' \<longleftrightarrow> (\<forall>n r. c' n = Some r \<longrightarrow> (\<exists>q. c n = Some q \<and> alike q r))"

text \<open>
  What is neither the Net nor one of the route tables and security groups in it is still
  there, as it was: network interfaces and whatever else names the Net included.
\<close>

definition born_with :: "string \<Rightarrow> resource \<Rightarrow> bool" where
  "born_with net r \<longleftrightarrow>
     provider (tenant r) = pack_name \<and> kind r \<in> {kindRouteTable, kindSecurityGroup} \<and> string_of (attrs r ''NetId'') = net"

definition spares :: "string \<Rightarrow> cells \<Rightarrow> cells \<Rightarrow> bool" where
  "spares net c c' \<longleftrightarrow> (\<forall>n r. c n = Some r \<and> n \<noteq> key pack_name kindNet net \<and> \<not> born_with net r \<longrightarrow>
     (\<exists>q. c' n = Some q \<and> alike r q))"

lemma spares_stirred: "stirred c c' \<Longrightarrow> spares net c c'"
  using stirredD2 by (auto simp: spares_def)

lemma alike_born_with: "alike r q \<Longrightarrow> born_with net q = born_with net r"
  using alike_same [of r q] by (simp add: born_with_def)

lemma spares_trans:
  assumes "spares net c c'" "spares net c' c''"
  shows "spares net c c''"
  unfolding spares_def
proof (intro allI impI, elim conjE)
  fix n r assume r: "c n = Some r" "n \<noteq> key pack_name kindNet net" "\<not> born_with net r"
  obtain q where q: "c' n = Some q" "alike r q" using assms(1) r unfolding spares_def by blast
  then have "\<not> born_with net q" using r(3) alike_born_with by blast
  then obtain t where "c'' n = Some t" "alike q t" using assms(2) q(1) r(2) unfolding spares_def by blast
  then show "\<exists>q. c'' n = Some q \<and> alike r q" using alike_trans [OF q(2)] by blast
qed

lemma spares_net: "spares net c (c(key pack_name kindNet net := None))"
  by (auto simp: spares_def)

lemma fades_stirred: "stirred c c' \<Longrightarrow> fades c c'"
  using stirredD by (auto simp: fades_def)

lemma fades_trans: "fades c c' \<Longrightarrow> fades c' c'' \<Longrightarrow> fades c c''"
  unfolding fades_def by (meson alike_trans)

lemma none_in_fades: "none_in k net c \<Longrightarrow> fades c c' \<Longrightarrow> none_in k net c'"
  unfolding none_in_def fades_def by (force dest: alike_same)

lemma fades_removed: "(\<And>n. c' n = None \<or> c' n = c n) \<Longrightarrow> fades c c'"
  unfolding fades_def by (metis alike_refl option.distinct(1))

lemma exactly_none: "exactly k rs c \<Longrightarrow> of_net net rs = [] \<Longrightarrow> none_in k net c"
  by (auto simp: exactly_def none_in_def of_net_def filter_empty_conv)

text \<open>Deleting exactly what was listed in the Net leaves none of it there.\<close>

lemma deleted_none:
  assumes "exactly k rs c" "keyed_cells c" "k \<in> {kindRouteTable, kindSecurityGroup}"
    and "\<And>n. c' n = (if n \<in> (\<lambda>r. key pack_name k (rid r)) ` set (of_net net rs) then None else c n)"
  shows "none_in k net c' \<and> fades c c' \<and> spares net c c'"
proof (intro conjI)
  show "fades c c'" by (rule fades_removed) (simp add: assms(4))
  show "spares net c c'"
    unfolding spares_def
  proof (intro allI impI, elim conjE)
    fix n r assume r: "c n = Some r" "\<not> born_with net r"
    have "n \<noteq> key pack_name k (rid q)" if "q \<in> set (of_net net rs)" for q
    proof
      assume n: "n = key pack_name k (rid q)"
      have q: "q \<in> set rs" "string_of (attrs q ''NetId'') = net" using that by (simp_all add: of_net_def)
      from q(1) obtain m where m: "c m = Some q" "kind q = k" "provider (tenant q) = pack_name"
        using assms(1) unfolding exactly_def by blast
      then have "m = n" using keyed_cellsD [OF assms(2) m(1)] n by (simp add: key_of_def)
      with m q r assms(3) show False by (auto simp: born_with_def)
    qed
    then have "c' n = c n" unfolding assms(4) by auto
    then show "\<exists>q. c' n = Some q \<and> alike r q" using r(1) by simp
  qed
  show "none_in k net c'"
    unfolding none_in_def
  proof (intro allI impI notI, elim conjE)
    fix n r assume r: "c' n = Some r" "kind r = k" "provider (tenant r) = pack_name" "string_of (attrs r ''NetId'') = net"
    then have c: "c n = Some r" "n \<notin> (\<lambda>r. key pack_name k (rid r)) ` set (of_net net rs)" by (auto simp: assms(4) split: if_splits)
    then have "r \<in> set (of_net net rs)" using assms(1) r by (auto simp: exactly_def of_net_def)
    moreover have "n = key pack_name k (rid r)" using keyed_cellsD [OF assms(2) c(1)] r by (simp add: key_of_def)
    ultimately show False using c(2) by blast
  qed
qed

lemma wp_subnets_of [wp_rules]:
  assumes "store_wf (os_store x)"
    and "\<And>y rs. store_wf (os_store y) \<Longrightarrow> stirred (cells_of x) (cells_of y) \<Longrightarrow> exactly kindSubnet rs (cells_of y) \<Longrightarrow> wp (f (of_net net rs)) Q y"
  shows "wp (subnets_of net f) Q x"
  unfolding subnets_of_def by (rule wp_list; fact assms)

lemma wp_route_tables_of [wp_rules]:
  assumes "store_wf (os_store x)"
    and "\<And>y rs. store_wf (os_store y) \<Longrightarrow> stirred (cells_of x) (cells_of y) \<Longrightarrow> exactly kindRouteTable rs (cells_of y) \<Longrightarrow> wp (f (of_net net rs)) Q y"
  shows "wp (route_tables_of net f) Q x"
  unfolding route_tables_of_def by (rule wp_list; fact assms)

lemma wp_groups_of [wp_rules]:
  assumes "store_wf (os_store x)"
    and "\<And>y rs. store_wf (os_store y) \<Longrightarrow> stirred (cells_of x) (cells_of y) \<Longrightarrow> exactly kindSecurityGroup rs (cells_of y) \<Longrightarrow> wp (f (of_net net rs)) Q y"
  shows "wp (security_groups_of net f) Q x"
  unfolding security_groups_of_def by (rule wp_list; fact assms)

lemma wp_gateway_of [wp_rules]:
  assumes "store_wf (os_store x)"
    and "\<And>y rs. store_wf (os_store y) \<Longrightarrow> stirred (cells_of x) (cells_of y) \<Longrightarrow> exactly kindInternetService rs (cells_of y) \<Longrightarrow>
        wp (f (find (\<lambda>r. string_of (attrs r ''NetId'') = net) rs)) Q y"
  shows "wp (linked_internet_service_of net f) Q x"
  unfolding linked_internet_service_of_def by (rule wp_list; fact assms)

lemma cells_same: "os_store y = os_store x \<Longrightarrow> cells_of y = cells_of x"
  by (simp add: cells_of_def)

text \<open>The second half: what the Net was born with goes after it.\<close>

lemma wp_born_with:
  assumes wf: "store_wf (os_store x)"
    and post: "\<And>y a. an_status a = 200 \<Longrightarrow> fades (cells_of x) (cells_of y) \<Longrightarrow> none_in kindRouteTable net (cells_of y) \<Longrightarrow>
        none_in kindSecurityGroup net (cells_of y) \<Longrightarrow> spares net (cells_of x) (cells_of y) \<Longrightarrow> Q y a"
  shows "wp (security_groups_of net (\<lambda>born_with.
      foldr (\<lambda>sg. do_delete kindSecurityGroup (rid sg)) born_with
        (route_tables_of net (\<lambda>tables.
          foldr (\<lambda>rtb. do_delete kindRouteTable (rid rtb)) tables
            (Release (foldr (\<lambda>sg p. do_world (g sg) (\<lambda>gone_now. p)) born_with (ok e Map.empty))))))) Q x"
proof (intro wp_rules wf; (simp; fail)?, goal_cases)
  case (1 y sgs z t ts u v a w)
  have sg: "none_in kindSecurityGroup net (cells_of z) \<and> fades (cells_of y) (cells_of z) \<and> spares net (cells_of y) (cells_of z)"
    by (rule deleted_none [OF 1(3) keyed_cells_of [OF 1(1)] _ 1(5)]) simp
  have rt: "none_in kindRouteTable net (cells_of u) \<and> fades (cells_of t) (cells_of u) \<and> spares net (cells_of t) (cells_of u)"
    by (rule deleted_none [OF 1(8) keyed_cells_of [OF 1(6)] _ 1(10)]) simp
  have w: "cells_of w = cells_of u" using 1 by (simp add: cells_of_def)
  have zu: "fades (cells_of z) (cells_of u)" by (rule fades_trans [OF fades_stirred [OF 1(7)]]) (use rt in blast)
  have xz: "fades (cells_of x) (cells_of z)" by (rule fades_trans [OF fades_stirred [OF 1(2)]]) (use sg in blast)
  have szu: "spares net (cells_of z) (cells_of u)" by (rule spares_trans [OF spares_stirred [OF 1(7)]]) (use rt in blast)
  have sxz: "spares net (cells_of x) (cells_of z)" by (rule spares_trans [OF spares_stirred [OF 1(2)]]) (use sg in blast)
  show ?case
  proof (rule post, unfold w)
    show "an_status a = 200" by (rule 1)
    show "fades (cells_of x) (cells_of u)" by (rule fades_trans [OF xz zu])
    show "none_in kindRouteTable net (cells_of u)" using rt by blast
    show "none_in kindSecurityGroup net (cells_of u)" by (rule none_in_fades [OF _ zu]) (use sg in blast)
    show "spares net (cells_of x) (cells_of u)" by (rule spares_trans [OF sxz szu])
  qed
qed

lemma gone_for_good:
  assumes "exactly kindSubnet rs c" "of_net net rs = []" "stirred c0 c" "stirred c c1" "stirred c1 c2" "stirred c2 c3"
    and "fades (c3(key pack_name kindNet net := None)) c'" "spares net (c3(key pack_name kindNet net := None)) c'"
  shows "c' (key pack_name kindNet net) = None \<and> none_in kindSubnet net c' \<and> spares net c0 c'"
proof (intro conjI)
  have s: "stirred c c3" "stirred c0 c3" using assms(3-6) stirred_trans by blast+
  have "fades c3 (c3(key pack_name kindNet net := None))" by (rule fades_removed) simp
  then have "fades c c'" using fades_stirred [OF s(1)] assms(7) fades_trans by blast
  then show "none_in kindSubnet net c'" using none_in_fades [OF exactly_none [OF assms(1,2)]] by blast
  show "c' (key pack_name kindNet net) = None"
    using assms(7) unfolding fades_def by (metis fun_upd_same not_None_eq)
  show "spares net c0 c'"
    by (rule spares_trans [OF spares_stirred [OF s(2)] spares_trans [OF spares_net assms(8)]])
qed

text \<open>When a Net may go: it is there, and all that is in it is what it was born with.\<close>

definition all_in :: "string \<Rightarrow> string \<Rightarrow> (resource \<Rightarrow> bool) \<Rightarrow> cells \<Rightarrow> bool" where
  "all_in k net P c \<longleftrightarrow>
     (\<forall>n r. c n = Some r \<and> kind r = k \<and> provider (tenant r) = pack_name \<and> string_of (attrs r ''NetId'') = net \<longrightarrow> P r)"

definition deletable :: "string \<Rightarrow> cells \<Rightarrow> bool" where
  "deletable net c \<longleftrightarrow>
     c (key pack_name kindNet net) \<noteq> None \<and> none_in kindSubnet net c \<and> none_in kindInternetService net c \<and>
     all_in kindRouteTable net is_main_table c \<and> all_in kindSecurityGroup net (\<lambda>sg. string_of (attrs sg ''SecurityGroupName'') = ''default'') c"

lemma none_in_all: "none_in k net c \<longleftrightarrow> all_in k net (\<lambda>r. False) c"
  by (auto simp: none_in_def all_in_def)

lemma all_in_stirred:
  assumes "stirred c c'" "\<And>r s. attrs s = attrs r \<Longrightarrow> P s = P r"
  shows "all_in k net P c' = all_in k net P c"
  unfolding all_in_def
proof (intro iffI allI impI; elim conjE)
  fix n r assume a: "\<forall>n r. c' n = Some r \<and> kind r = k \<and> provider (tenant r) = pack_name \<and> string_of (attrs r ''NetId'') = net \<longrightarrow> P r"
    and r: "c n = Some r" "kind r = k" "provider (tenant r) = pack_name" "string_of (attrs r ''NetId'') = net"
  obtain q where "c' n = Some q" "alike r q" using stirredD2 [OF assms(1) r(1)] by blast
  then show "P r" using a r(2-4) alike_same [of r q] assms(2) [of q r] by auto
next
  fix n r assume a: "\<forall>n r. c n = Some r \<and> kind r = k \<and> provider (tenant r) = pack_name \<and> string_of (attrs r ''NetId'') = net \<longrightarrow> P r"
    and r: "c' n = Some r" "kind r = k" "provider (tenant r) = pack_name" "string_of (attrs r ''NetId'') = net"
  obtain q where "c n = Some q" "alike q r" using stirredD [OF assms(1) r(1)] by blast
  then show "P r" using a r(2-4) alike_same [of q r] assms(2) [of q r] by auto
qed

lemma deletable_stirred: "stirred c c' \<Longrightarrow> deletable net c' = deletable net c"
  using all_in_stirred [of c c' is_main_table] all_in_stirred [of c c' "\<lambda>r. False"] stirred_None [of c c']
    all_in_stirred [of c c' "\<lambda>sg. string_of (attrs sg ''SecurityGroupName'') = ''default''"]
  by (simp add: deletable_def none_in_all is_main_table_def)

lemma exactly_all: "exactly k rs c \<Longrightarrow> all_in k net P c \<longleftrightarrow> list_all P (of_net net rs)"
  by (auto simp: exactly_def all_in_def of_net_def list_all_iff)

lemma exactly_none_iff: "exactly k rs c \<Longrightarrow> none_in k net c \<longleftrightarrow> of_net net rs = []"
  by (auto simp: exactly_def none_in_def of_net_def filter_empty_conv)

text \<open>What each check of the handler reads, of a store that was only read so far.\<close>

lemma find_of_net: "find (\<lambda>r. string_of (attrs r ''NetId'') = net) rs = None \<longleftrightarrow> of_net net rs = []"
  by (auto simp: find_None_iff of_net_def filter_empty_conv)

lemma deletable_reads:
  assumes "stirred c c'"
  shows "exactly kindSubnet rs c' \<Longrightarrow> none_in kindSubnet net c \<longleftrightarrow> of_net net rs = []"
    "exactly kindInternetService rs c' \<Longrightarrow> none_in kindInternetService net c \<longleftrightarrow> of_net net rs = []"
    "exactly kindRouteTable rs c' \<Longrightarrow> all_in kindRouteTable net is_main_table c \<longleftrightarrow> \<not> list_ex (\<lambda>rtb. \<not> is_main_table rtb) (of_net net rs)"
    "exactly kindSecurityGroup rs c' \<Longrightarrow>
       all_in kindSecurityGroup net (\<lambda>sg. string_of (attrs sg ''SecurityGroupName'') = ''default'') c \<longleftrightarrow>
         \<not> list_ex (\<lambda>sg. string_of (attrs sg ''SecurityGroupName'') \<noteq> ''default'') (of_net net rs)"
proof -
  have none: "none_in k net c \<longleftrightarrow> of_net net rs = []" if "exactly k rs c'" for k
    using exactly_none_iff [OF that, of net] all_in_stirred [OF assms, where P = "\<lambda>r. False"] by (simp add: none_in_all)
  then show "exactly kindSubnet rs c' \<Longrightarrow> none_in kindSubnet net c \<longleftrightarrow> of_net net rs = []"
    "exactly kindInternetService rs c' \<Longrightarrow> none_in kindInternetService net c \<longleftrightarrow> of_net net rs = []" by blast+
  have every: "all_in k net P c \<longleftrightarrow> \<not> list_ex (\<lambda>r. \<not> P r) (of_net net rs)"
    if "exactly k rs c'" "\<And>r s. attrs s = attrs r \<Longrightarrow> P s = P r" for k P
    using all_in_stirred [where P = P, OF assms that(2)] exactly_all [OF that(1), of net P] by (simp add: list_all_iff list_ex_iff)
  show "exactly kindRouteTable rs c' \<Longrightarrow> all_in kindRouteTable net is_main_table c \<longleftrightarrow> \<not> list_ex (\<lambda>rtb. \<not> is_main_table rtb) (of_net net rs)"
    "exactly kindSecurityGroup rs c' \<Longrightarrow>
       all_in kindSecurityGroup net (\<lambda>sg. string_of (attrs sg ''SecurityGroupName'') = ''default'') c \<longleftrightarrow>
         \<not> list_ex (\<lambda>sg. string_of (attrs sg ''SecurityGroupName'') \<noteq> ''default'') (of_net net rs)"
    by (rule every; simp add: is_main_table_def)+
qed

lemma deleting_decides:
  assumes "store_wf (os_store x)"
  shows "wp (delete_net e (Some net)) (\<lambda>y a. an_status a = 200 \<longleftrightarrow> deletable net (cells_of x)) x"
  unfolding delete_net_def decoded_def option.case
proof ((intro wp_born_with wp_rules assms; (simp; fail)?), simp_all, goal_cases)
  case (1 y)
  then show ?case using stirred_None by (auto simp: deletable_def)
next
  case (2 y r res ya rs)
  then show ?case using deletable_reads(1) [OF stirred_trans [OF 2(2,6)] 2(7)] by (simp add: deletable_def)
next
  case (3 y r res ya rs yb rsa)
  have "stirred (cells_of x) (cells_of yb)" using stirred_trans 3(2,6,10) by blast
  from deletable_reads(2) [OF this 3(11)] 3(12) show ?case
    using find_of_net [of net rsa] by (auto simp: deletable_def)
next
  case (4 y r res ya rs yb rsa yc rsb)
  have "stirred (cells_of x) (cells_of yc)" using stirred_trans 4(2,6,10,14) by blast
  from deletable_reads(3) [OF this 4(15)] 4(16) show ?case by (simp add: deletable_def)
next
  case (5 y r res ya rs yb rsa yc rsb yd rsc)
  have "stirred (cells_of x) (cells_of yd)" using stirred_trans 5(2,6,10,14,18) by blast
  from deletable_reads(4) [OF this 5(19)] 5(20) show ?case by (simp add: deletable_def)
next
  case (6 y r res ya rs yb rsa yc rsb yd rsc)
  have "stirred (cells_of x) (cells_of ya)" "stirred (cells_of x) (cells_of yb)" "stirred (cells_of x) (cells_of yc)"
    "stirred (cells_of x) (cells_of yd)" using stirred_trans 6(2,6,10,14,18) by blast+
  from deletable_reads(1) [OF this(1) 6(7)] deletable_reads(2) [OF this(2) 6(11)] deletable_reads(3) [OF this(3) 6(15)]
    deletable_reads(4) [OF this(4) 6(19)] 6(3,8,12,16,20) show ?case
    using find_of_net [of net rsa] stirred_None [OF 6(2), of "key pack_name kindNet net"] by (auto simp: deletable_def)
qed

lemma wp_mono: "wp p Q x \<Longrightarrow> (\<And>y a. Q y a \<Longrightarrow> R y a) \<Longrightarrow> wp p R x"
  by (auto simp: wp_def split: prod.splits)

lemma wp_both: "wp p Q x \<Longrightarrow> wp p R x \<Longrightarrow> wp p (\<lambda>y a. Q y a \<and> R y a) x"
  by (simp add: wp_def split: prod.splits)

lemma deleting_takes:
  assumes "store_wf (os_store x)"
  shows "wp (delete_net e (Some net))
    (\<lambda>y a. if an_status a = 200
       then cells_of y (key pack_name kindNet net) = None \<and> none_in kindSubnet net (cells_of y) \<and>
         none_in kindRouteTable net (cells_of y) \<and> none_in kindSecurityGroup net (cells_of y) \<and>
         spares net (cells_of x) (cells_of y)
       else stirred (cells_of x) (cells_of y)) x"
  unfolding delete_net_def decoded_def option.case
  apply (intro wp_born_with wp_rules assms; (simp; fail)?)
  apply simp_all
       apply ((metis cells_same stirred_trans)+)[5]
  apply (rule gone_for_good, assumption, assumption, erule stirred_trans, assumption+)
  done

text \<open>
  C25. Deleting a Net, when no other request runs. The answer is 200 exactly when the Net
  is there, no Subnet and no internet service says it is in it, and every route table and
  security group in it is one it was born with (the main table, the default group). On any
  other answer the store is what it was. On a 200 the Net is gone, and no Subnet, route
  table or security group says it is in it; everything else, whatever else names the Net
  (network interfaces, machines, peerings) included, is still there as it was. "As it was"
  is up to the chains of pending states that the handler's own reads walk on
  (\<open>alike\<close>): kind, id, tenant, attributes and runtime are the same.
\<close>

lemma deleting_a_net:
  assumes "store_wf (os_store x)"
  shows "wp (delete_net e (Some net))
    (\<lambda>y a. (an_status a = 200 \<longleftrightarrow> deletable net (cells_of x)) \<and>
       (if an_status a = 200
        then cells_of y (key pack_name kindNet net) = None \<and> none_in kindSubnet net (cells_of y) \<and>
          none_in kindRouteTable net (cells_of y) \<and> none_in kindSecurityGroup net (cells_of y) \<and>
          spares net (cells_of x) (cells_of y)
        else stirred (cells_of x) (cells_of y))) x"
  by (rule wp_both [OF deleting_decides [OF assms] deleting_takes [OF assms]])

text \<open>A Net with its main table and default group, another Net, and an interface that names the first.\<close>

definition main0 :: resource where
  "main0 = made ''rtb-1'' kindRouteTable []
     [''NetId'' \<mapsto> AString ''vpc-1'', ''LinkRouteTables'' \<mapsto> AList [AMap [''Main'' \<mapsto> ABool True]]]"

definition default0 :: resource where
  "default0 = made ''sg-1'' kindSecurityGroup []
     [''NetId'' \<mapsto> AString ''vpc-1'', ''SecurityGroupName'' \<mapsto> AString ''default'']"

definition eni0 :: resource where
  "eni0 = made ''eni-1'' kindNic [] [''NetId'' \<mapsto> AString ''vpc-1'']"

definition furnished :: "resource list" where
  "furnished = [net0, net1, main0, default0, eni0]"

lemmas furniture = furnished_def net0_def net1_def main0_def default0_def eni0_def made_def new_resource_def

lemma furnished_cells: "cells_of (holding furnished) n = Some r \<Longrightarrow> r \<in> set furnished"
  unfolding cells_holding by (auto dest!: map_of_SomeD)

lemma furnished_at:
  "cells_of (holding furnished) (key pack_name kindNet ''vpc-1'') = Some net0"
  "cells_of (holding furnished) (key pack_name kindNet ''vpc-2'') = Some net1"
  "cells_of (holding furnished) (key pack_name kindNic ''eni-1'') = Some eni0"
  by (simp_all add: cells_holding furniture key_of_def key_def kinds osc_tenant_def pack_name_def)

lemma furnished_deletable: "deletable ''vpc-1'' (cells_of (holding furnished))"
proof -
  have "P r" if "cells_of (holding furnished) n = Some r" "\<And>r. r \<in> set furnished \<Longrightarrow> P r" for n r P
    using that furnished_cells by blast
  moreover have "kind r \<notin> {kindSubnet, kindInternetService} \<and> (kind r = kindRouteTable \<longrightarrow> is_main_table r) \<and>
      (kind r = kindSecurityGroup \<longrightarrow> string_of (attrs r ''SecurityGroupName'') = ''default'')" if "r \<in> set furnished" for r
    using that by (auto simp: furniture kinds is_main_table_def is_main_link_def)
  ultimately show ?thesis using furnished_at(1) unfolding deletable_def none_in_def all_in_def by (simp; blast)
qed

lemma deleting_a_net_witness:
  "wp (delete_net env0 (Some ''vpc-1''))
    (\<lambda>y a. an_status a = 200 \<and> cells_of y (key pack_name kindNet ''vpc-1'') = None \<and>
       none_in kindSecurityGroup ''vpc-1'' (cells_of y) \<and>
       (\<exists>q. cells_of y (key pack_name kindNet ''vpc-2'') = Some q \<and> alike net1 q) \<and>
       (\<exists>q. cells_of y (key pack_name kindNic ''eni-1'') = Some q \<and> alike eni0 q)) (holding furnished)"
proof (rule wp_mono [OF deleting_a_net [OF wf_holding]])
    fix y a assume "(an_status a = 200 \<longleftrightarrow> deletable ''vpc-1'' (cells_of (holding furnished))) \<and>
       (if an_status a = 200
        then cells_of y (key pack_name kindNet ''vpc-1'') = None \<and> none_in kindSubnet ''vpc-1'' (cells_of y) \<and>
          none_in kindRouteTable ''vpc-1'' (cells_of y) \<and> none_in kindSecurityGroup ''vpc-1'' (cells_of y) \<and>
          spares ''vpc-1'' (cells_of (holding furnished)) (cells_of y)
        else stirred (cells_of (holding furnished)) (cells_of y))"
    then have d: "an_status a = 200" "cells_of y (key pack_name kindNet ''vpc-1'') = None"
      "none_in kindSecurityGroup ''vpc-1'' (cells_of y)" "spares ''vpc-1'' (cells_of (holding furnished)) (cells_of y)"
      using furnished_deletable by simp_all
    have "key pack_name kindNet ''vpc-2'' \<noteq> key pack_name kindNet ''vpc-1''"
      "key pack_name kindNic ''eni-1'' \<noteq> key pack_name kindNet ''vpc-1''"
      by (simp_all add: key_def kinds pack_name_def)
    moreover have "\<not> born_with ''vpc-1'' net1" "\<not> born_with ''vpc-1'' eni0" by (simp_all add: born_with_def furniture kinds)
    ultimately show "an_status a = 200 \<and> cells_of y (key pack_name kindNet ''vpc-1'') = None \<and>
       none_in kindSecurityGroup ''vpc-1'' (cells_of y) \<and>
       (\<exists>q. cells_of y (key pack_name kindNet ''vpc-2'') = Some q \<and> alike net1 q) \<and>
       (\<exists>q. cells_of y (key pack_name kindNic ''eni-1'') = Some q \<and> alike eni0 q)"
      using d furnished_at unfolding spares_def by blast
qed

end
