(* ===== verification/Redact.thy ===== *)
theory Redact
  imports Sshkey Json
begin

text \<open>
  What the recording proxy writes down (\<open>internal/proxy/record.go\<close>, \<open>redact.go\<close>,
  \<open>placeholder.go\<close>): an exchange as it was observed, with every value whose name calls it
  a credential replaced by a placeholder. The keyed digest (an HMAC under a key drawn
  once per process), the JSON decoder and gzip are parameters. Then what a transcript
  tells of the secrets: whether two of them have one digest, and nothing else.
\<close>

section \<open>Names\<close>

definition carriers :: "string list" where
  "carriers = [''auth'', ''token'', ''key'', ''secret'', ''signature'', ''cookie'', ''passw'', ''credential'']"

definition harmless_headers :: "string list" where
  "harmless_headers = [''accept'', ''accept-encoding'', ''accept-language'', ''cache-control'', ''connection'',
     ''content-length'', ''content-type'', ''date'', ''expect'', ''host'', ''if-match'', ''if-none-match'',
     ''user-agent'', ''x-forwarded-for'', ''x-forwarded-proto'', ''x-request-id'', ''x-feint-probe'']"

definition harmless :: "string \<Rightarrow> bool" where
  "harmless name \<longleftrightarrow> to_lower name \<in> set harmless_headers"

definition sensitive :: "string \<Rightarrow> bool" where
  "sensitive name = list_ex (str_contains (to_lower name)) carriers"

section \<open>Placeholders\<close>

definition placeholder :: string where
  "placeholder = ''REDACTED''"

definition placeholder_for :: "(string \<Rightarrow> string) \<Rightarrow> string \<Rightarrow> string" where
  "placeholder_for mac v = (if v = [] then placeholder else placeholder @ ''-'' @ hex_encode (take 4 (mac v)))"

definition lower_hex :: "char \<Rightarrow> bool" where
  "lower_hex r \<longleftrightarrow> \<not> ((r < CHR ''0'' \<or> r > CHR ''9'') \<and> (r < CHR ''a'' \<or> r > CHR ''f''))"

definition is_placeholder :: "json \<Rightarrow> bool" where
  "is_placeholder v =
     (case v of
        JString s \<Rightarrow>
          (if \<not> has_prefix s placeholder then False
           else
             (let rest = drop (length placeholder) s in
              if rest = [] then True
              else if hd rest \<noteq> CHR ''-'' then False
              else if \<not> list_all lower_hex (tl rest) then False
              else length rest > 1))
      | _ \<Rightarrow> False)"

definition text_of :: "json \<Rightarrow> string" where
  "text_of v = (case v of JString s \<Rightarrow> s | JNull \<Rightarrow> [] | _ \<Rightarrow> json_text v)"

section \<open>Bodies\<close>

definition publishable :: "json \<Rightarrow> bool" where
  "publishable v = (case v of JString s \<Rightarrow> key_valid s | _ \<Rightarrow> False)"

definition nested_value :: "json \<Rightarrow> bool" where
  "nested_value v = (case v of JArray xs \<Rightarrow> True | JObject kvs \<Rightarrow> True | _ \<Rightarrow> False)"

definition scalar_item :: "(string \<Rightarrow> string) \<Rightarrow> json \<Rightarrow> json" where
  "scalar_item mac item =
     (if item = JNull then item
      else if publishable item then item
      else JString (placeholder_for mac (text_of item)))"

definition scalar_list :: "(string \<Rightarrow> string) \<Rightarrow> json \<Rightarrow> json list option" where
  "scalar_list mac v =
     (case v of
        JArray items \<Rightarrow> (if list_ex nested_value items then None else Some (map (scalar_item mac) items))
      | _ \<Rightarrow> None)"

definition hide :: "(string \<Rightarrow> string) \<Rightarrow> json \<Rightarrow> json" where
  "hide mac v =
     (case scalar_list mac v of
        Some items \<Rightarrow> JArray items
      | None \<Rightarrow> JString (placeholder_for mac (text_of v)))"

fun redact_value :: "(string \<Rightarrow> string) \<Rightarrow> json \<Rightarrow> json" where
  "redact_value mac (JObject kvs) =
     JObject (map (\<lambda>(k, v). (k, if sensitive k \<and> v \<noteq> JNull \<and> \<not> publishable v then hide mac v else redact_value mac v)) kvs)"
| "redact_value mac (JArray xs) = JArray (map (redact_value mac) xs)"
| "redact_value mac v = v"

section \<open>Queries\<close>

text \<open>\<open>url.QueryUnescape\<close>.\<close>

fun query_unescape :: "string \<Rightarrow> string option" where
  "query_unescape [] = Some []"
| "query_unescape (c # s) =
     (if c = CHR ''%'' then
        (case s of
           a # b # r \<Rightarrow>
             (case (unhex a, unhex b) of
                (Some x, Some y) \<Rightarrow> map_option (\<lambda>t. byte (16 * x + y) # t) (query_unescape r)
              | _ \<Rightarrow> None)
         | _ \<Rightarrow> None)
      else map_option (\<lambda>t. (if c = CHR ''+'' then CHR '' '' else c) # t) (query_unescape s))"

definition hides_pair :: "string \<Rightarrow> bool" where
  "hides_pair p =
     (case cut_on CHR ''='' p of (name, v, has_value) \<Rightarrow> has_value \<and> sensitive (option_or name (query_unescape name)))"

definition redact_pair :: "(string \<Rightarrow> string) \<Rightarrow> string \<Rightarrow> string" where
  "redact_pair mac p =
     (if hides_pair p then (case cut_on CHR ''='' p of (name, v, has_value) \<Rightarrow> name @ ''='' @ placeholder_for mac v)
      else p)"

definition redact_query :: "(string \<Rightarrow> string) \<Rightarrow> string \<Rightarrow> string" where
  "redact_query mac raw =
     (if raw = [] then raw
      else
        (let pairs = split_on CHR ''&'' raw in
         if \<not> list_ex hides_pair pairs then raw else str_join ''&'' (map (redact_pair mac) pairs)))"

section \<open>Exchanges\<close>

text \<open>A recorded body is a document, or says why it is not there.\<close>

datatype recorded_body = Document json | Omission string int string

record message =
  ms_headers :: "(string \<times> string) list"
  ms_body :: recorded_body

record exchange =
  xc_seq :: int
  xc_at :: int
  xc_method :: string
  xc_path :: string
  xc_host :: string
  xc_query :: string
  xc_operation :: string
  xc_provider :: string
  xc_status :: int
  xc_micros :: int
  xc_mounted :: bool
  xc_req :: "message option"
  xc_res :: "message option"

definition redact_message :: "(string \<Rightarrow> string) \<Rightarrow> message \<Rightarrow> message" where
  "redact_message mac m =
     \<lparr>ms_headers = map (\<lambda>(name, v). (name, if \<not> harmless name then placeholder_for mac v else v)) (ms_headers m),
      ms_body = (case ms_body m of Document d \<Rightarrow> Document (redact_value mac d) | Omission r n t \<Rightarrow> Omission r n t)\<rparr>"

definition redact_exchange :: "(string \<Rightarrow> string) \<Rightarrow> exchange \<Rightarrow> exchange" where
  "redact_exchange mac x =
     x\<lparr>xc_query := redact_query mac (xc_query x),
       xc_req := map_option (redact_message mac) (xc_req x),
       xc_res := map_option (redact_message mac) (xc_res x)\<rparr>"

section \<open>Capturing\<close>

record capture_buffer =
  cb_buf :: string
  cb_total :: int
  cb_max :: nat

text \<open>The first \<open>cb_max\<close> bytes of what goes past are kept, all of it is counted.\<close>

definition body_write :: "capture_buffer \<Rightarrow> string \<Rightarrow> capture_buffer \<times> nat" where
  "body_write b p =
     (let room = int (cb_max b) - int (length (cb_buf b)) in
      (b\<lparr>cb_total := cb_total b + int (length p),
         cb_buf := (if room > 0 then cb_buf b @ (if int (length p) > room then take (nat room) p else p) else cb_buf b)\<rparr>,
       if room > 0 \<and> int (length p) > room then nat room else length p))"

definition header_get :: "(string \<times> string list) list \<Rightarrow> string \<Rightarrow> string" where
  "header_get h name = (case map_of h name of Some (v # vs) \<Rightarrow> v | _ \<Rightarrow> [])"

definition headers_of :: "(string \<times> string list) list \<Rightarrow> (string \<times> string) list" where
  "headers_of h = map (\<lambda>(name, values). (name, str_join '', '' values)) h"

definition body_decoded ::
  "(string \<Rightarrow> json option) \<Rightarrow> (string \<Rightarrow> string + string) \<Rightarrow> (string \<times> string list) list \<Rightarrow> capture_buffer \<Rightarrow> recorded_body" where
  "body_decoded parse gunzip header b =
     (let content_type = header_get header ''Content-Type'';
          recover = (\<lambda>data.
            case parse data of
              Some d \<Rightarrow> Document d
            | None \<Rightarrow>
                (if valid_utf8 data then Document (JString data)
                 else Omission ''body is neither JSON nor text'' (cb_total b) content_type))
      in
      if cb_total b = 0 then Document JNull
      else if cb_total b > int (length (cb_buf b))
        then Omission ''body larger than the record cap; raise --max-body to keep it'' (cb_total b) content_type
      else if map lower_char (header_get header ''Content-Encoding'') = ''gzip'' then
        (case gunzip (cb_buf b) of
           Inl err \<Rightarrow> Omission (''gzip body could not be decompressed: '' @ err) (cb_total b) content_type
         | Inr unpacked \<Rightarrow> recover unpacked)
      else recover (cb_buf b))"

record seen =
  sn_at :: int
  sn_micros :: int
  sn_method :: string
  sn_host :: string
  sn_path :: string
  sn_query :: string
  sn_req_header :: "(string \<times> string list) list"
  sn_req_body :: capture_buffer
  sn_status :: int
  sn_res_header :: "(string \<times> string list) list"
  sn_res_body :: capture_buffer
  sn_route :: "(string \<times> string) option"

definition capture ::
  "(string \<Rightarrow> string) \<Rightarrow> (string \<Rightarrow> json option) \<Rightarrow> (string \<Rightarrow> string + string) \<Rightarrow> seen \<Rightarrow> exchange" where
  "capture mac parse gunzip s =
     redact_exchange mac
       \<lparr>xc_seq = 0, xc_at = sn_at s, xc_method = sn_method s, xc_path = sn_path s, xc_host = sn_host s,
        xc_query = sn_query s,
        xc_operation = (case sn_route s of Some (operation, provider) \<Rightarrow> operation | None \<Rightarrow> []),
        xc_provider = (case sn_route s of Some (operation, provider) \<Rightarrow> provider | None \<Rightarrow> []),
        xc_status = sn_status s, xc_micros = sn_micros s, xc_mounted = (sn_route s \<noteq> None),
        xc_req = Some \<lparr>ms_headers = headers_of (sn_req_header s), ms_body = body_decoded parse gunzip (sn_req_header s) (sn_req_body s)\<rparr>,
        xc_res = Some \<lparr>ms_headers = headers_of (sn_res_header s), ms_body = body_decoded parse gunzip (sn_res_header s) (sn_res_body s)\<rparr>\<rparr>"


section \<open>What a transcript tells\<close>

text \<open>
  What a transcript is meant to tell, said apart from the code: which names are names of
  secrets, which headers are vouched for, what is hashed of a value, and when two values
  look alike, which is when the first four bytes of their keyed digests are the same, or
  both are empty.
\<close>

definition names_secret :: "string \<Rightarrow> bool" where
  "names_secret name \<longleftrightarrow>
     (\<exists>w\<in>{''auth'', ''token'', ''key'', ''secret'', ''signature'', ''cookie'', ''passw'', ''credential''}.
        \<exists>before_it after_it. to_lower name = before_it @ w @ after_it)"

definition vouched_header :: "string \<Rightarrow> bool" where
  "vouched_header name \<longleftrightarrow>
     to_lower name \<in> {''accept'', ''accept-encoding'', ''accept-language'', ''cache-control'', ''connection'', ''content-length'',
       ''content-type'', ''date'', ''expect'', ''host'', ''if-match'', ''if-none-match'', ''user-agent'', ''x-forwarded-for'',
       ''x-forwarded-proto'', ''x-request-id'', ''x-feint-probe''}"

definition secret_text :: "json \<Rightarrow> string" where
  "secret_text v = (if v = JNull then [] else case v of JString s \<Rightarrow> s | _ \<Rightarrow> json_text v)"

definition secret_pair :: "string \<Rightarrow> bool" where
  "secret_pair p \<longleftrightarrow>
     (\<exists>name v. p = name @ CHR ''='' # v \<and> CHR ''='' \<notin> set name \<and>
        names_secret (case query_unescape name of Some n \<Rightarrow> n | None \<Rightarrow> name))"

definition alike_digests :: "(string \<Rightarrow> string) \<Rightarrow> string \<Rightarrow> string \<Rightarrow> bool" where
  "alike_digests mac s t \<longleftrightarrow> (if s = [] \<or> t = [] then s = t else take 4 (mac s) = take 4 (mac t))"

lemma str_contains_iff: "str_contains s p \<longleftrightarrow> (\<exists>a b. s = a @ p @ b)"
proof (induction s)
  case (Cons c s)
  have "(\<exists>a b. c # s = a @ p @ b) \<longleftrightarrow> (\<exists>b. c # s = p @ b) \<or> (\<exists>a b. s = a @ p @ b)"
    by (metis append_Cons append_Nil list.exhaust list.inject)
  then show ?case using Cons by (simp add: has_prefix_iff)
qed simp

lemma names_secret_iff [simp]: "names_secret name \<longleftrightarrow> sensitive name"
  by (simp add: names_secret_def sensitive_def carriers_def str_contains_iff)

lemma vouched_iff [simp]: "vouched_header name \<longleftrightarrow> harmless name"
  by (simp add: vouched_header_def harmless_def harmless_headers_def)

lemma secret_text_eq [simp]: "secret_text v = text_of v"
  by (simp add: secret_text_def text_of_def split: json.split)

lemma cut_on_rejoins: "cut_on c p = (a, v, True) \<longleftrightarrow> p = a @ c # v \<and> c \<notin> set a"
proof
  assume "p = a @ c # v \<and> c \<notin> set a"
  then show "cut_on c p = (a, v, True)" by (simp add: cut_on_append)
next
  show "cut_on c p = (a, v, True) \<Longrightarrow> p = a @ c # v \<and> c \<notin> set a"
  proof (induction p arbitrary: a)
    case (Cons x p)
    obtain b w f where "cut_on c p = (b, w, f)" by (metis prod_cases3)
    with Cons show ?case by (cases "x = c") auto
  qed simp
qed

lemma secret_pair_iff [simp]: "secret_pair p \<longleftrightarrow> hides_pair p"
proof -
  obtain a v f where c: "cut_on CHR ''='' p = (a, v, f)" by (metis prod_cases3)
  have "secret_pair p \<longleftrightarrow> (\<exists>name v. cut_on CHR ''='' p = (name, v, True) \<and> sensitive (option_or name (query_unescape name)))"
    unfolding secret_pair_def cut_on_rejoins by (auto simp: option_or_def)
  also have "\<dots> \<longleftrightarrow> hides_pair p" by (auto simp: hides_pair_def c)
  finally show ?thesis .
qed

text \<open>
  A value that stays where its name calls for hiding: null, which says nothing, and a
  public key, which says it is one.
\<close>

definition stays :: "json \<Rightarrow> bool" where
  "stays v \<longleftrightarrow> v = JNull \<or> publishable v"

definition same_leaf :: "(string \<Rightarrow> string \<Rightarrow> bool) \<Rightarrow> json \<Rightarrow> json \<Rightarrow> bool" where
  "same_leaf R v w \<longleftrightarrow> (if stays v \<or> stays w then v = w else R (secret_text v) (secret_text w))"

definition same_secret :: "(string \<Rightarrow> string \<Rightarrow> bool) \<Rightarrow> json \<Rightarrow> json \<Rightarrow> bool" where
  "same_secret R v w \<longleftrightarrow>
     (if stays v \<or> stays w then v = w
      else
        (case (v, w) of
           (JArray xs, JArray ys) \<Rightarrow>
             (if list_ex nested_value xs \<or> list_ex nested_value ys
              then list_ex nested_value xs \<and> list_ex nested_value ys \<and> R (secret_text v) (secret_text w)
              else list_all2 (same_leaf R) xs ys)
         | (JArray xs, _) \<Rightarrow> list_ex nested_value xs \<and> R (secret_text v) (secret_text w)
         | (_, JArray ys) \<Rightarrow> list_ex nested_value ys \<and> R (secret_text v) (secret_text w)
         | _ \<Rightarrow> R (secret_text v) (secret_text w)))"

text \<open>
  Two documents that differ in nothing but their secrets, and in those only as \<open>R\<close>
  allows: under a name that calls for hiding a list of scalars is compared item by item,
  anything else by its text.
\<close>

fun same_but :: "(string \<Rightarrow> string \<Rightarrow> bool) \<Rightarrow> json \<Rightarrow> json \<Rightarrow> bool"
  and same_items :: "(string \<Rightarrow> string \<Rightarrow> bool) \<Rightarrow> json list \<Rightarrow> json list \<Rightarrow> bool"
  and same_fields :: "(string \<Rightarrow> string \<Rightarrow> bool) \<Rightarrow> (string \<times> json) list \<Rightarrow> (string \<times> json) list \<Rightarrow> bool"
where
  "same_but R (JObject kvs) (JObject lws) = same_fields R kvs lws"
| "same_but R (JArray xs) (JArray ys) = same_items R xs ys"
| "same_but R a b = (a = b)"
| "same_items R [] [] = True"
| "same_items R (x # xs) (y # ys) = (same_but R x y \<and> same_items R xs ys)"
| "same_items R xs ys = False"
| "same_fields R [] [] = True"
| "same_fields R ((k, v) # kvs) ((l, w) # lws) =
     (k = l \<and> (if names_secret k then same_secret R v w else same_but R v w) \<and> same_fields R kvs lws)"
| "same_fields R kvs lws = False"

text \<open>A placeholder is one word: neither null nor a public key.\<close>

lemma hex_digit_of:
  assumes "list_all (\<lambda>d. P (digit_char d)) [0..<16]"
  shows "list_all P (hex_encode s)"
proof (induction s)
  case (Cons c s)
  have "ord c div 16 < 16" using nat_of_char_less_256 [of c] by (simp add: less_mult_imp_div_less)
  then have "P (digit_char (ord c div 16))" "P (digit_char (ord c mod 16))" using assms by (simp_all add: list_all_iff)
  with Cons show ?case by (simp add: hex_encode_def hex_byte_def)
qed (simp add: hex_encode_def)

lemma hex_digits_lower: "list_all (\<lambda>d. lower_hex (digit_char d)) [0..<16]"
  by code_simp

lemma hex_digits_plain: "list_all (\<lambda>d. plain (digit_char d)) [0..<16]"
  by code_simp

lemma placeholder_plain: "list_all plain (placeholder_for mac v)"
proof -
  have "list_all plain ''REDACTED-''" by code_simp
  then show ?thesis using hex_digit_of [OF hex_digits_plain] by (auto simp: placeholder_for_def placeholder_def)
qed

lemma placeholder_not_key: "\<not> key_valid (placeholder_for mac v)"
proof -
  let ?s = "placeholder_for mac v"
  have s: "?s \<noteq> []" "spaceless ?s"
    using plain_spaceless [OF placeholder_plain] by (auto simp: placeholder_for_def placeholder_def)
  have "trim_space ?s = ?s" "str_fields ?s = [?s]"
    using trim_joined [of "[?s]"] fields_of_join [of "[?s]"] s by simp_all
  then show ?thesis by (simp add: key_valid_def parse_key_def Let_def)
qed

lemma placeholder_is_one: "length (mac v) \<ge> 1 \<Longrightarrow> is_placeholder (JString (placeholder_for mac v))"
  using hex_digit_of [OF hex_digits_lower, of "take 4 (mac v)"]
  by (cases "mac v") (auto simp: is_placeholder_def placeholder_for_def placeholder_def Let_def hex_encode_def hex_byte_def)

lemma stays_item [simp]: "stays v \<Longrightarrow> scalar_item mac v = v"
  by (auto simp: stays_def scalar_item_def)

lemma hidden_item [simp]: "\<not> stays v \<Longrightarrow> scalar_item mac v = JString (placeholder_for mac (text_of v))"
  by (simp add: stays_def scalar_item_def)

lemma placeholder_goes [simp]: "\<not> stays (JString (placeholder_for mac v))"
  by (simp add: stays_def publishable_def placeholder_not_key)

abbreviation same_digest :: "(string \<Rightarrow> string) \<Rightarrow> string \<Rightarrow> string \<Rightarrow> bool" where
  "same_digest mac s t \<equiv> placeholder_for mac s = placeholder_for mac t"

lemma digit_char_inj: "d < 16 \<Longrightarrow> e < 16 \<Longrightarrow> digit_char d = digit_char e \<longleftrightarrow> d = e"
proof -
  have "distinct ''0123456789abcdef''" by code_simp
  then show "d < 16 \<Longrightarrow> e < 16 \<Longrightarrow> digit_char d = digit_char e \<longleftrightarrow> d = e"
    by (simp add: digit_char_def nth_eq_iff_index_eq del: distinct.simps)
qed

lemma hex_byte_inj: "hex_byte a = hex_byte b \<longleftrightarrow> a = b"
proof
  assume e: "hex_byte a = hex_byte b"
  have "ord c div 16 < 16" for c using nat_of_char_less_256 [of c] by (simp add: less_mult_imp_div_less)
  then have "ord a div 16 = ord b div 16 \<and> ord a mod 16 = ord b mod 16"
    using e by (simp add: hex_byte_def digit_char_inj)
  then have "ord a = ord b" by (metis div_mult_mod_eq)
  then show "a = b" by simp
qed simp

lemma hex_encode_inj: "hex_encode s = hex_encode t \<longleftrightarrow> s = t"
proof (induction s arbitrary: t)
  case Nil
  then show ?case by (cases t) (simp_all add: hex_encode_def hex_byte_def)
next
  case (Cons c s)
  have "hex_encode (x # y) = hex_byte x @ hex_encode y" "length (hex_byte x) = 2" for x y
    by (simp_all add: hex_encode_def hex_byte_def)
  moreover have "hex_encode [] = []" "hex_byte x \<noteq> []" for x by (simp_all add: hex_encode_def hex_byte_def)
  ultimately show ?case using Cons by (cases t) (simp_all add: hex_byte_inj)
qed

lemma same_digest_iff: "same_digest mac s t \<longleftrightarrow> alike_digests mac s t"
  by (auto simp: placeholder_for_def alike_digests_def placeholder_def hex_encode_inj)

lemma item_eq: "scalar_item mac v = scalar_item mac w \<longleftrightarrow> same_leaf (same_digest mac) v w"
proof (cases "stays v \<or> stays w")
  case True
  then show ?thesis using placeholder_goes [of mac "text_of v"] placeholder_goes [of mac "text_of w"]
    by (cases "stays v"; cases "stays w") (auto simp: same_leaf_def)
qed (simp add: same_leaf_def)

lemma items_eq: "map (scalar_item mac) xs = map (scalar_item mac) ys \<longleftrightarrow> list_all2 (same_leaf (same_digest mac)) xs ys"
proof (induction xs arbitrary: ys)
  case (Cons x xs)
  then show ?case by (cases ys) (simp_all add: item_eq)
qed simp

lemma stays_cases: "stays v \<Longrightarrow> v = JNull \<or> (\<exists>s. v = JString s)"
  by (auto simp: stays_def publishable_def split: json.splits)

lemma stays_not_hidden: "stays v \<Longrightarrow> v \<noteq> hide mac w"
  using stays_cases [of v] placeholder_goes [of mac "text_of w"] by (auto simp: hide_def split: option.splits)

lemma hide_eq:
  assumes "\<not> stays v" "\<not> stays w"
  shows "hide mac v = hide mac w \<longleftrightarrow> same_secret (same_digest mac) v w"
  using assms by (cases v; cases w) (auto simp: hide_def scalar_list_def same_secret_def items_eq)

definition field_value :: "(string \<Rightarrow> string) \<Rightarrow> string \<Rightarrow> json \<Rightarrow> json" where
  "field_value mac k v = (if sensitive k \<and> v \<noteq> JNull \<and> \<not> publishable v then hide mac v else redact_value mac v)"

lemma redact_stays: "stays v \<Longrightarrow> redact_value mac v = v"
  using stays_cases by fastforce

lemma field_eq:
  assumes "\<not> sensitive k \<Longrightarrow> redact_value mac v = redact_value mac w \<longleftrightarrow> same_but (same_digest mac) v w"
  shows "field_value mac k v = field_value mac k w \<longleftrightarrow>
    (if sensitive k then same_secret (same_digest mac) v w else same_but (same_digest mac) v w)"
proof (cases "sensitive k")
  case True
  have "field_value mac k u = (if stays u then u else hide mac u)" for u
    using True redact_stays by (auto simp: field_value_def stays_def)
  then show ?thesis using True hide_eq [of v w mac] stays_not_hidden [of v mac w] stays_not_hidden [of w mac v]
    by (auto simp: same_secret_def)
qed (simp add: field_value_def assms)

lemma redact_object: "redact_value mac (JObject kvs) = JObject (map (\<lambda>(k, v). (k, field_value mac k v)) kvs)"
  by (simp add: field_value_def)

lemma redact_scalar:
  "JNull = redact_value mac b \<longleftrightarrow> JNull = b" "JBool t = redact_value mac b \<longleftrightarrow> JBool t = b"
  "JNumber n = redact_value mac b \<longleftrightarrow> JNumber n = b" "JString u = redact_value mac b \<longleftrightarrow> JString u = b"
  "redact_value mac b = JNull \<longleftrightarrow> b = JNull" "redact_value mac b = JBool t \<longleftrightarrow> b = JBool t"
  "redact_value mac b = JNumber n \<longleftrightarrow> b = JNumber n" "redact_value mac b = JString u \<longleftrightarrow> b = JString u"
  by (cases b; simp)+

lemma redact_eq:
  "redact_value mac a = redact_value mac b \<longleftrightarrow> same_but (same_digest mac) a b"
  "map (redact_value mac) xs = map (redact_value mac) ys \<longleftrightarrow> same_items (same_digest mac) xs ys"
  "map (\<lambda>(k, v). (k, field_value mac k v)) kvs = map (\<lambda>(k, v). (k, field_value mac k v)) lws \<longleftrightarrow>
     same_fields (same_digest mac) kvs lws"
  by (induction "same_digest mac" a b and "same_digest mac" xs ys and "same_digest mac" kvs lws
      rule: same_but_same_items_same_fields.induct)
    (simp_all add: redact_object field_eq redact_scalar del: redact_value.simps(1) cong: conj_cong)

text \<open>Queries: every pair keeps its name, and its value where the name is harmless.\<close>

definition same_pair :: "(string \<Rightarrow> string \<Rightarrow> bool) \<Rightarrow> string \<Rightarrow> string \<Rightarrow> bool" where
  "same_pair R p q \<longleftrightarrow>
     (if secret_pair p \<and> secret_pair q
      then fst (cut_on CHR ''='' p) = fst (cut_on CHR ''='' q) \<and>
        R (fst (snd (cut_on CHR ''='' p))) (fst (snd (cut_on CHR ''='' q)))
      else p = q)"

lemma cut_on_name_free: "c \<notin> set (fst (cut_on c p))"
  by (induction p) (auto split: prod.splits)

lemma cut_on_name_sub: "set (fst (cut_on c p)) \<subseteq> set p"
  by (induction p) (auto split: prod.splits)

lemma hides_redacted: "hides_pair p \<Longrightarrow> hides_pair (redact_pair mac p)"
  using cut_on_append [OF cut_on_name_free [of "CHR ''=''" p]]
  by (auto simp: hides_pair_def redact_pair_def split: prod.splits)

lemma redacted_pair_eq: "redact_pair mac p = redact_pair mac q \<longleftrightarrow> same_pair (same_digest mac) p q"
proof -
  have pair: "redact_pair mac u = fst (cut_on CHR ''='' u) @ CHR ''='' # placeholder_for mac (fst (snd (cut_on CHR ''='' u)))"
    if "hides_pair u" for u
    using that by (simp add: redact_pair_def split: prod.split)
  have cut: "a @ CHR ''='' # x = b @ CHR ''='' # y \<longleftrightarrow> a = b \<and> x = y"
    if "CHR ''='' \<notin> set a" "CHR ''='' \<notin> set b" for a b x y :: string
    using cut_on_append [OF that(1), of x] cut_on_append [OF that(2), of y] by (metis prod.inject)
  show ?thesis
  proof (cases "hides_pair p \<and> hides_pair q")
    case True
    then show ?thesis by (simp add: same_pair_def pair cut cut_on_name_free)
  next
    case False
    then show ?thesis
      using hides_redacted [of p mac] hides_redacted [of q mac] by (auto simp: same_pair_def redact_pair_def)
  qed
qed

lemma placeholder_free:
  assumes "list_all (\<lambda>d. digit_char d \<noteq> c) [0..<16]" "c \<notin> set ''REDACTED-''"
  shows "c \<notin> set (placeholder_for mac v)"
  using hex_digit_of [OF assms(1), of "take 4 (mac v)"] assms(2)
  by (auto simp: placeholder_for_def placeholder_def list_all_iff)

lemma split_on_parts: "p \<in> set (split_on c xs) \<Longrightarrow> c \<notin> set p"
  by (induction xs arbitrary: p) (auto split: if_splits list.splits)

lemma redact_pair_free: "CHR ''&'' \<notin> set p \<Longrightarrow> CHR ''&'' \<notin> set (redact_pair mac p)"
proof -
  assume p: "CHR ''&'' \<notin> set p"
  have "CHR ''&'' \<notin> set (placeholder_for mac v)" for v
    by (rule placeholder_free) code_simp+
  moreover have "CHR ''&'' \<notin> set (fst (cut_on CHR ''='' p))" using p cut_on_name_sub [of "CHR ''=''" p] by blast
  ultimately show ?thesis using p by (cases "cut_on CHR ''='' p") (simp add: redact_pair_def)
qed

lemma join_split: "str_join [c] (split_on c xs) = xs"
proof (induction xs)
  case (Cons x xs)
  then show ?case by (cases "split_on c xs"; cases "tl (split_on c xs)") (auto split: list.splits)
qed simp

lemma redact_query_pairs: "redact_query mac raw = str_join ''&'' (map (redact_pair mac) (split_on CHR ''&'' raw))"
proof -
  have "map (redact_pair mac) ps = ps" if "\<not> list_ex hides_pair ps" for ps
    using that by (induction ps) (auto simp: redact_pair_def)
  then show ?thesis by (auto simp: redact_query_def Let_def join_split redact_pair_def hides_pair_def)
qed

lemma redacted_pairs_eq:
  "map (redact_pair mac) ps = map (redact_pair mac) qs \<longleftrightarrow> list_all2 (same_pair (same_digest mac)) ps qs"
proof (induction ps arbitrary: qs)
  case (Cons p ps)
  then show ?case by (cases qs) (simp_all add: redacted_pair_eq)
qed simp

lemma split_redacted: "split_on CHR ''&'' (redact_query mac q) = map (redact_pair mac) (split_on CHR ''&'' q)"
  unfolding redact_query_pairs by (rule split_on_join) (auto dest: split_on_parts redact_pair_free)

lemma redacted_query_eq:
  "redact_query mac q = redact_query mac r \<longleftrightarrow>
     list_all2 (same_pair (same_digest mac)) (split_on CHR ''&'' q) (split_on CHR ''&'' r)"
proof -
  have "redact_query mac q = redact_query mac r \<longleftrightarrow>
      map (redact_pair mac) (split_on CHR ''&'' q) = map (redact_pair mac) (split_on CHR ''&'' r)"
    using split_redacted [of mac q] split_redacted [of mac r] by (metis redact_query_pairs)
  also have "\<dots> \<longleftrightarrow> list_all2 (same_pair (same_digest mac)) (split_on CHR ''&'' q) (split_on CHR ''&'' r)"
    by (rule redacted_pairs_eq)
  finally show ?thesis .
qed

definition same_header :: "(string \<Rightarrow> string \<Rightarrow> bool) \<Rightarrow> string \<times> string \<Rightarrow> string \<times> string \<Rightarrow> bool" where
  "same_header R h g \<longleftrightarrow> fst h = fst g \<and> (if vouched_header (fst h) then snd h = snd g else R (snd h) (snd g))"

definition same_body :: "(string \<Rightarrow> string \<Rightarrow> bool) \<Rightarrow> recorded_body \<Rightarrow> recorded_body \<Rightarrow> bool" where
  "same_body R b c = (case (b, c) of (Document d, Document t) \<Rightarrow> same_but R d t | _ \<Rightarrow> b = c)"

definition same_message :: "(string \<Rightarrow> string \<Rightarrow> bool) \<Rightarrow> message \<Rightarrow> message \<Rightarrow> bool" where
  "same_message R m n \<longleftrightarrow> list_all2 (same_header R) (ms_headers m) (ms_headers n) \<and> same_body R (ms_body m) (ms_body n)"

definition same_exchange :: "(string \<Rightarrow> string \<Rightarrow> bool) \<Rightarrow> exchange \<Rightarrow> exchange \<Rightarrow> bool" where
  "same_exchange R x y \<longleftrightarrow>
     x\<lparr>xc_query := [], xc_req := None, xc_res := None\<rparr> = y\<lparr>xc_query := [], xc_req := None, xc_res := None\<rparr> \<and>
     list_all2 (same_pair R) (split_on CHR ''&'' (xc_query x)) (split_on CHR ''&'' (xc_query y)) \<and>
     rel_option (same_message R) (xc_req x) (xc_req y) \<and> rel_option (same_message R) (xc_res x) (xc_res y)"

lemma redacted_headers_eq:
  "map (\<lambda>(name, v). (name, if \<not> harmless name then placeholder_for mac v else v)) hs =
   map (\<lambda>(name, v). (name, if \<not> harmless name then placeholder_for mac v else v)) gs \<longleftrightarrow>
     list_all2 (same_header (same_digest mac)) hs gs"
proof (induction hs arbitrary: gs)
  case (Cons h hs)
  then show ?case by (cases gs) (auto simp: same_header_def split: prod.splits)
qed simp

lemma redacted_message_eq: "redact_message mac m = redact_message mac n \<longleftrightarrow> same_message (same_digest mac) m n"
  using redact_eq(1) redacted_headers_eq
  by (auto simp: redact_message_def same_message_def same_body_def split: recorded_body.splits)

lemma redacted_option_eq:
  "map_option (redact_message mac) m = map_option (redact_message mac) n \<longleftrightarrow> rel_option (same_message (same_digest mac)) m n"
  by (cases m; cases n) (simp_all add: redacted_message_eq)

text \<open>
  C9. Two exchanges leave the same record exactly when they differ in nothing but secrets,
  that is, the values of headers nobody vouched for and of query parameters and JSON
  members whose names call them secrets, and in those only by values whose keyed digests
  begin with the same four bytes: a transcript tells which secrets look the same and
  nothing else of them, and it loses nothing that is not one, the null, the public key
  and the brackets of a list of scalars included.
\<close>

theorem transcripts_tell_only_digests:
  "redact_exchange mac x = redact_exchange mac y \<longleftrightarrow> same_exchange (alike_digests mac) x y"
proof -
  have "redact_exchange mac x = redact_exchange mac y \<longleftrightarrow>
      x\<lparr>xc_query := [], xc_req := None, xc_res := None\<rparr> = y\<lparr>xc_query := [], xc_req := None, xc_res := None\<rparr> \<and>
      redact_query mac (xc_query x) = redact_query mac (xc_query y) \<and>
      map_option (redact_message mac) (xc_req x) = map_option (redact_message mac) (xc_req y) \<and>
      map_option (redact_message mac) (xc_res x) = map_option (redact_message mac) (xc_res y)"
    by (cases x; cases y) (auto simp: redact_exchange_def)
  then show ?thesis by (simp add: same_exchange_def redacted_query_eq redacted_option_eq same_digest_iff)
qed

section \<open>What a transcript holds\<close>

definition shown :: "json \<Rightarrow> bool" where
  "shown v \<longleftrightarrow> stays v \<or> is_placeholder v \<or>
     (case v of JArray xs \<Rightarrow> list_all (\<lambda>x. stays x \<or> is_placeholder x) xs | _ \<Rightarrow> False)"

text \<open>A document in which every name that calls for hiding holds something that may be shown.\<close>

fun clean_document :: "json \<Rightarrow> bool" where
  "clean_document (JObject kvs) = list_all (\<lambda>(k, v). if sensitive k then shown v else clean_document v) kvs"
| "clean_document (JArray xs) = list_all clean_document xs"
| "clean_document v = True"

definition clean_query :: "string \<Rightarrow> bool" where
  "clean_query q = list_all (\<lambda>p. hides_pair p \<longrightarrow> is_placeholder (JString (fst (snd (cut_on CHR ''='' p))))) (split_on CHR ''&'' q)"

definition clean_message :: "message \<Rightarrow> bool" where
  "clean_message m \<longleftrightarrow>
     list_all (\<lambda>(name, v). harmless name \<or> is_placeholder (JString v)) (ms_headers m) \<and>
     (case ms_body m of Document d \<Rightarrow> clean_document d | Omission r n t \<Rightarrow> True)"

definition clean_exchange :: "exchange \<Rightarrow> bool" where
  "clean_exchange x \<longleftrightarrow> clean_query (xc_query x) \<and>
     (case xc_req x of None \<Rightarrow> True | Some m \<Rightarrow> clean_message m) \<and> (case xc_res x of None \<Rightarrow> True | Some m \<Rightarrow> clean_message m)"

lemma clean_hidden:
  assumes "\<And>v. mac v \<noteq> []"
  shows "shown (hide mac v)"
proof -
  have p: "is_placeholder (JString (placeholder_for mac u))" for u
    using placeholder_is_one [of mac u] assms [of u] by (simp add: Suc_le_eq)
  have "stays (scalar_item mac u) \<or> is_placeholder (scalar_item mac u)" for u
    using p by (cases "stays u") simp_all
  then have "list_all (\<lambda>x. stays x \<or> is_placeholder x) (map (scalar_item mac) xs)" for xs by (simp add: list_all_iff)
  then show ?thesis using p by (auto simp: hide_def scalar_list_def shown_def split: json.splits)
qed

lemma clean_redacted:
  assumes "\<And>v. mac v \<noteq> []"
  shows "clean_document (redact_value mac d)"
proof (induction d)
  case (JObject kvs)
  have "if sensitive k then shown (field_value mac k v) else clean_document (field_value mac k v)" if "(k, v) \<in> set kvs" for k v
    using JObject [OF that, of v] clean_hidden [OF assms] redact_stays [of v mac]
    by (auto simp: field_value_def shown_def stays_def)
  then show ?case by (auto simp: redact_object list_all_iff simp del: redact_value.simps(1))
qed (simp_all add: list_all_iff)

lemma clean_redacted_query:
  assumes "\<And>v. mac v \<noteq> []"
  shows "clean_query (redact_query mac q)"
proof -
  have "is_placeholder (JString (fst (snd (cut_on CHR ''='' (redact_pair mac p)))))" if "hides_pair (redact_pair mac p)" for p
  proof -
    have p: "hides_pair p" using that by (auto simp: redact_pair_def split: if_splits)
    have "mac (fst (snd (cut_on CHR ''='' p))) \<noteq> []" by (rule assms)
    then show ?thesis
      using p cut_on_append [OF cut_on_name_free [of "CHR ''=''" p]] placeholder_is_one [of mac "fst (snd (cut_on CHR ''='' p))"]
      by (cases "cut_on CHR ''='' p") (simp add: redact_pair_def Suc_le_eq)
  qed
  then show ?thesis by (simp add: clean_query_def split_redacted list_all_iff)
qed

lemma clean_redacted_message:
  assumes "\<And>v. mac v \<noteq> []"
  shows "clean_message (redact_message mac m)"
  using placeholder_is_one [of mac] assms clean_redacted [OF assms]
  by (auto simp: clean_message_def redact_message_def list_all_iff Suc_le_eq split: recorded_body.splits if_splits)

text \<open>
  C8. Nothing reaches a transcript under a name that calls it a credential: whatever was
  observed, in the record of it every header nobody vouched for, every such parameter of
  the query and every such member of a JSON body, at any depth, holds a placeholder, a
  null or a public key.
\<close>

theorem no_credential_is_recorded:
  assumes "\<And>v. mac v \<noteq> []"
  shows "clean_exchange (capture mac parse gunzip s)"
  unfolding capture_def clean_exchange_def redact_exchange_def
  using clean_redacted_query [OF assms] clean_redacted_message [OF assms] by simp

text \<open>
  A body that is text and not JSON has no names to go by and is kept as it is, a form
  with a credential in it too.
\<close>

lemma text_bodies_are_kept:
  assumes "cb_total b = int (length (cb_buf b))" "cb_buf b \<noteq> []" "header_get (sn_req_header s) ''Content-Encoding'' = []"
    and "parse (cb_buf b) = None" "valid_utf8 (cb_buf b)" "sn_req_body s = b"
  shows "map_option ms_body (xc_req (capture mac parse gunzip s)) = Some (Document (JString (cb_buf b)))"
  using assms by (simp add: capture_def redact_exchange_def redact_message_def body_decoded_def Let_def)

text \<open>
  Two values of two types with one text get one placeholder: the digest is of the text, and
  a string's text has no quotes.
\<close>

lemma types_are_not_told_apart:
  "redact_value mac (JObject [(''secret'', JNumber ''5'')]) = redact_value mac (JObject [(''secret'', JString ''5'')])"
proof -
  have "sensitive ''secret''" "\<not> key_valid ''5''" by code_simp+
  then show ?thesis by (simp add: publishable_def hide_def scalar_list_def text_of_def)
qed

text \<open>The buffer keeps a prefix of what went past and knows how much there was.\<close>

definition buffer_of :: "nat \<Rightarrow> string \<Rightarrow> capture_buffer" where
  "buffer_of most past = \<lparr>cb_buf = take most past, cb_total = int (length past), cb_max = most\<rparr>"

lemma body_write_buffers: "fst (body_write (buffer_of most past) p) = buffer_of most (past @ p)"
  by (auto simp: body_write_def buffer_of_def Let_def min_def nat_diff_distrib)

lemma body_writes: "foldl (\<lambda>b p. fst (body_write b p)) (buffer_of most past) ps = buffer_of most (past @ concat ps)"
  by (induction ps arbitrary: past) (simp_all add: body_write_buffers)

text \<open>Past the cap the count that is answered is short, with no error beside it.\<close>

lemma body_write_answers_short: "snd (body_write (buffer_of 1 []) ''ab'') < length ''ab''"
  by (simp add: body_write_def buffer_of_def Let_def)

section \<open>Examples\<close>

definition seen0 :: seen where
  "seen0 = \<lparr>sn_at = 0, sn_micros = 1200, sn_method = ''POST'', sn_host = ''api'', sn_path = ''/login'',
     sn_query = ''a=1&X-Token=t0'', sn_req_header = [(''X-Consumer'', [''c'']), (''Accept'', [''*/*''])],
     sn_req_body = buffer_of 64 ''{}'', sn_status = 200, sn_res_header = [], sn_res_body = buffer_of 64 [],
     sn_route = None\<rparr>"

lemma recorded_witness:
  "clean_exchange (capture (\<lambda>v. ''abcd'') (\<lambda>t. Some (JObject [(''secret'', JString ''s'')])) Inl seen0)"
  by (rule no_credential_is_recorded) simp

end
