(* ===== verification/Transcript.thy ===== *)
theory Transcript
  imports Redact
begin

text \<open>
  The writer of the recording proxy (\<open>internal/proxy/writer.go\<close>): a bounded queue the
  request path never waits for and one goroutine that drains it to the file. One step per
  critical section; taking from the queue and encoding are steps of their own.
\<close>

record transcript_writer =
  tw_queue :: "exchange list"
  tw_room :: nat
  tw_hand :: "exchange option"
  tw_seq :: int
  tw_dropped :: int
  tw_written :: int
  tw_closed :: bool
  tw_err :: "string option"
  tw_file :: "exchange list"
  tw_failed :: int

definition default_queue :: nat where
  "default_queue = 1024"

definition new_writer :: "nat \<Rightarrow> transcript_writer" where
  "new_writer queue =
     \<lparr>tw_queue = [], tw_room = (if queue = 0 then default_queue else queue), tw_hand = None, tw_seq = 0,
      tw_dropped = 0, tw_written = 0, tw_closed = False, tw_err = None, tw_file = [], tw_failed = 0\<rparr>"

text \<open>\<open>Record\<close>: the number is consumed whether there is room or not.\<close>

definition record_exchange :: "exchange \<Rightarrow> transcript_writer \<Rightarrow> transcript_writer" where
  "record_exchange x w =
     (let w1 = w\<lparr>tw_seq := tw_seq w + 1\<rparr>; numbered = x\<lparr>xc_seq := tw_seq w1\<rparr> in
      if tw_closed w1 then w1\<lparr>tw_dropped := tw_dropped w1 + 1\<rparr>
      else if length (tw_queue w1) < tw_room w1 then w1\<lparr>tw_queue := tw_queue w1 @ [numbered]\<rparr>
      else w1\<lparr>tw_dropped := tw_dropped w1 + 1\<rparr>)"

text \<open>The goroutine: take one, encode it, count it; the first error is kept.\<close>

definition take_record :: "transcript_writer \<Rightarrow> transcript_writer" where
  "take_record w =
     (case (tw_hand w, tw_queue w) of
        (None, x # xs) \<Rightarrow> w\<lparr>tw_hand := Some x, tw_queue := xs\<rparr>
      | _ \<Rightarrow> w)"

definition encode_record :: "string option \<Rightarrow> transcript_writer \<Rightarrow> transcript_writer" where
  "encode_record err w =
     (case tw_hand w of
        None \<Rightarrow> w
      | Some x \<Rightarrow>
          (let w1 = w\<lparr>tw_hand := None\<rparr> in
           case err of
             Some e \<Rightarrow>
               w1\<lparr>tw_err := (case tw_err w1 of None \<Rightarrow> Some e | Some first \<Rightarrow> Some first), tw_failed := tw_failed w1 + 1\<rparr>
           | None \<Rightarrow> w1\<lparr>tw_written := tw_written w1 + 1, tw_file := tw_file w1 @ [x]\<rparr>))"

definition close_writer :: "transcript_writer \<Rightarrow> transcript_writer" where
  "close_writer w = w\<lparr>tw_closed := True\<rparr>"

text \<open>\<open>Close\<close> returns when the goroutine is through: the queue is closed, drained, and nothing is in hand.\<close>

definition drained :: "transcript_writer \<Rightarrow> bool" where
  "drained w \<longleftrightarrow> tw_closed w \<and> tw_queue w = [] \<and> tw_hand w = None"

definition writer_stats :: "transcript_writer \<Rightarrow> int \<times> int" where
  "writer_stats w = (tw_written w, tw_dropped w)"

inductive writer_step :: "transcript_writer \<Rightarrow> transcript_writer \<Rightarrow> bool" where
  Recorded: "writer_step w (record_exchange x w)"
| Taken: "writer_step w (take_record w)"
| Encoded: "writer_step w (encode_record err w)"
| Closed: "writer_step w (close_writer w)"

inductive writer_reach :: "nat \<Rightarrow> transcript_writer \<Rightarrow> bool" for queue where
  Start: "writer_reach queue (new_writer queue)"
| Step: "writer_reach queue w \<Longrightarrow> writer_step w v \<Longrightarrow> writer_reach queue v"

text \<open>The numbers on their way to the file, in order.\<close>

definition numbers :: "transcript_writer \<Rightarrow> int list" where
  "numbers w = map xc_seq (tw_file w @ (case tw_hand w of None \<Rightarrow> [] | Some x \<Rightarrow> [x]) @ tw_queue w)"

definition counted :: "nat \<Rightarrow> transcript_writer \<Rightarrow> bool" where
  "counted queue w \<longleftrightarrow>
     tw_seq w = tw_written w + tw_dropped w + tw_failed w + int (length (tw_queue w)) + (if tw_hand w = None then 0 else 1) \<and>
     tw_written w = int (length (tw_file w)) \<and> 0 \<le> tw_failed w \<and> (tw_failed w > 0 \<longleftrightarrow> tw_err w \<noteq> None) \<and>
     tw_room w = (if queue = 0 then default_queue else queue) \<and> length (tw_queue w) \<le> tw_room w"

definition in_order :: "transcript_writer \<Rightarrow> bool" where
  "in_order w \<longleftrightarrow> sorted_wrt (<) (numbers w) \<and> (\<forall>n\<in>set (numbers w). n \<le> tw_seq w)"

lemma counted_steps:
  "counted queue (new_writer queue)"
  "counted queue w \<Longrightarrow> counted queue (record_exchange x w)"
  "counted queue w \<Longrightarrow> counted queue (take_record w)"
  "counted queue w \<Longrightarrow> counted queue (encode_record err w)"
  "counted queue w \<Longrightarrow> counted queue (close_writer w)"
  by (auto simp: counted_def new_writer_def record_exchange_def take_record_def encode_record_def close_writer_def Let_def
      split: option.splits list.splits if_splits)

lemma in_order_append:
  "sorted_wrt (<) xs \<Longrightarrow> \<forall>n\<in>set xs. n \<le> m \<Longrightarrow> sorted_wrt (<) (xs @ [m + 1 :: int])"
  by (auto simp: sorted_wrt_append)

lemma in_order_record: "in_order w \<Longrightarrow> in_order (record_exchange x w)"
proof -
  assume w: "in_order w"
  have "numbers (record_exchange x w) = numbers w \<or> numbers (record_exchange x w) = numbers w @ [tw_seq w + 1]"
    by (auto simp: numbers_def record_exchange_def Let_def)
  moreover have "tw_seq (record_exchange x w) = tw_seq w + 1" by (simp add: record_exchange_def Let_def)
  moreover have "\<forall>n\<in>set (numbers w). n \<le> tw_seq w + 1" using w by (fastforce simp: in_order_def)
  ultimately show ?thesis using w in_order_append [of "numbers w" "tw_seq w"] by (auto simp: in_order_def)
qed

lemma in_order_steps:
  "in_order (new_writer queue)"
  "in_order w \<Longrightarrow> in_order (take_record w)"
  "in_order w \<Longrightarrow> in_order (encode_record err w)"
  "in_order w \<Longrightarrow> in_order (close_writer w)"
  by (auto simp: in_order_def numbers_def new_writer_def take_record_def encode_record_def close_writer_def Let_def
      sorted_wrt_append split: option.splits list.splits)

lemma writer_inv_reach: "writer_reach queue w \<Longrightarrow> counted queue w \<and> in_order w"
proof (induction rule: writer_reach.induct)
  case (Step w v)
  from Step.hyps(2) show ?case
    by cases (use Step.IH in \<open>simp_all add: counted_steps in_order_record in_order_steps\<close>)
qed (simp add: counted_steps in_order_steps)

text \<open>
  C10. The transcript accounts for every exchange: whatever the disk does and however
  requests and the writer interleave, the lines of the file bear strictly increasing
  numbers, never more than \<open>queue\<close> exchanges wait, and once the writer is closed and
  drained every number given out is a line of the file, a counted drop or a write that
  failed, of which \<open>Close\<close> reports the first.
\<close>

theorem every_exchange_is_accounted_for:
  assumes "writer_reach queue w"
  shows "sorted_wrt (<) (map xc_seq (tw_file w)) \<and> length (tw_queue w) \<le> (if queue = 0 then default_queue else queue) \<and>
    (drained w \<longrightarrow> tw_seq w = fst (writer_stats w) + snd (writer_stats w) + tw_failed w \<and>
       int (length (tw_file w)) = fst (writer_stats w) \<and> (tw_err w = None \<longleftrightarrow> tw_failed w = 0))"
  using writer_inv_reach [OF assms]
  by (auto simp: counted_def in_order_def drained_def writer_stats_def numbers_def sorted_wrt_append split: if_splits)

lemma accounted_witness:
  "sorted_wrt (<) (map xc_seq (tw_file (encode_record None (take_record (record_exchange
     (redact_exchange (\<lambda>v. v) \<lparr>xc_seq = 0, xc_at = 0, xc_method = ''GET'', xc_path = ''/'', xc_host = [], xc_query = [],
        xc_operation = [], xc_provider = [], xc_status = 200, xc_micros = 1, xc_mounted = False, xc_req = None, xc_res = None\<rparr>)
     (new_writer 1))))))"
  using every_exchange_is_accounted_for [OF writer_reach.Step [OF writer_reach.Step [OF writer_reach.Step
    [OF writer_reach.Start writer_step.Recorded] writer_step.Taken] writer_step.Encoded]]
  by blast

end
