(* ===== verification/Strconv.thy ===== *)
theory Strconv
  imports Json
begin

text \<open>
  What is used of \<open>strconv\<close>: \<open>Atoi\<close>, and \<open>Quote\<close> with the \<open>Unquote\<close> that undoes it on
  every byte string, UTF-8 or not. Which code points above \<open>0xFF\<close> are printable is the
  table of the Unicode version Go was built with, a parameter.
\<close>

abbreviation char_in :: "char \<Rightarrow> char \<Rightarrow> char \<Rightarrow> bool" where
  "char_in lo hi c \<equiv> lo \<le> c \<and> c \<le> hi"

section \<open>Numbers\<close>

text \<open>\<open>strconv.Atoi\<close> on a 64-bit machine.\<close>

definition atoi :: "string \<Rightarrow> int option" where
  "atoi s =
     (let (sign, digits) = (case s of CHR ''-'' # r \<Rightarrow> (- 1, r) | CHR ''+'' # r \<Rightarrow> (1, r) | _ \<Rightarrow> (1, s)) in
      if digits = [] \<or> \<not> list_all is_digit digits then None
      else
        (let v = sign * foldl (\<lambda>n c. 10 * n + int (digit_val c)) 0 digits
         in if v < - (2 ^ 63) \<or> v > 2 ^ 63 - 1 then None else Some v))"

section \<open>Code points as bytes\<close>

text \<open>\<open>utf8.AppendRune\<close> of a valid code point.\<close>

definition encode_rune :: "nat \<Rightarrow> string" where
  "encode_rune r =
     (if r < 0x80 then [byte r]
      else if r < 0x800 then [byte (0xC0 + r div 64), byte (0x80 + r mod 64)]
      else if r < 0x10000 then [byte (0xE0 + r div 64 div 64), byte (0x80 + r div 64 mod 64), byte (0x80 + r mod 64)]
      else [byte (0xF0 + r div 64 div 64 div 64), byte (0x80 + r div 64 div 64 mod 64), byte (0x80 + r div 64 mod 64), byte (0x80 + r mod 64)])"

definition valid_rune :: "nat \<Rightarrow> bool" where
  "valid_rune r \<longleftrightarrow> r < 0xD800 \<or> 0xDFFF < r \<and> r \<le> 0x10FFFF"

definition tail_byte :: "char \<Rightarrow> bool" where
  "tail_byte b \<longleftrightarrow> 0x80 \<le> ord b \<and> ord b \<le> 0xBF"

lemma six_div_mod [simp]:
  assumes "tail_byte b"
  shows "six x (ord b) div 64 = x" "0x80 + six x (ord b) mod 64 = ord b"
proof -
  obtain w where "ord b = 0x80 + w" "w < 64"
    using assms that [of "ord b - 0x80"] by (auto simp: tail_byte_def)
  then show "six x (ord b) div 64 = x" "0x80 + six x (ord b) mod 64 = ord b" by (simp_all add: six_def)
qed

lemma six_bounds: "tail_byte b \<Longrightarrow> x * 64 \<le> six x (ord b)" "tail_byte b \<Longrightarrow> six x (ord b) < (x + 1) * 64"
  by (auto simp: six_def tail_byte_def)

lemma six_less: "tail_byte b \<Longrightarrow> x < n \<Longrightarrow> six x (ord b) < n * 64"
  using six_bounds(2) [of b x] mult_le_mono1 [of "x + 1" n 64] by linarith

lemma six_at_least: "tail_byte b \<Longrightarrow> n \<le> x \<Longrightarrow> n * 64 \<le> six x (ord b)"
  using six_bounds(1) [of b x] mult_le_mono1 [of n x 64] by linarith

lemma six_tail: "tail_byte b \<Longrightarrow> six x (ord b) = x * 64 + (ord b - 0x80)"
  by (simp add: six_def)

text \<open>The three ways a code point of more than one byte is read.\<close>

definition two_bytes :: "string \<Rightarrow> nat \<Rightarrow> bool" where
  "two_bytes p r \<longleftrightarrow>
     (\<exists>a b. p = [a, b] \<and> 0xC2 \<le> ord a \<and> ord a \<le> 0xDF \<and> tail_byte b \<and> r = six (ord a - 0xC0) (ord b))"

definition three_bytes :: "string \<Rightarrow> nat \<Rightarrow> bool" where
  "three_bytes p r \<longleftrightarrow>
     (\<exists>a b c. p = [a, b, c] \<and> 0xE0 \<le> ord a \<and> ord a \<le> 0xEF \<and> tail_byte b \<and> tail_byte c \<and>
        (ord a = 0xE0 \<longrightarrow> 0xA0 \<le> ord b) \<and> (ord a = 0xED \<longrightarrow> ord b \<le> 0x9F) \<and>
        r = six (six (ord a - 0xE0) (ord b)) (ord c))"

definition four_bytes :: "string \<Rightarrow> nat \<Rightarrow> bool" where
  "four_bytes p r \<longleftrightarrow>
     (\<exists>a b c d. p = [a, b, c, d] \<and> 0xF0 \<le> ord a \<and> ord a \<le> 0xF4 \<and> tail_byte b \<and> tail_byte c \<and> tail_byte d \<and>
        (ord a = 0xF0 \<longrightarrow> 0x90 \<le> ord b) \<and> (ord a = 0xF4 \<longrightarrow> ord b \<le> 0x8F) \<and>
        r = six (six (six (ord a - 0xF0) (ord b)) (ord c)) (ord d))"

lemma decode_rune_wide:
  assumes "0x80 \<le> ord a" "decode_rune (a # s) = (r, n)" "\<not> (r = rune_error \<and> n = 1)"
  shows "two_bytes (take n (a # s)) r \<or> three_bytes (take n (a # s)) r \<or> four_bytes (take n (a # s)) r"
proof -
  note d = assms(2) [unfolded decode_rune_def]
  show ?thesis
  proof (cases "ord a \<le> 0xDF")
    case True
    then have "two_bytes (take n (a # s)) r" using assms(1,3) d
      by (cases s) (auto simp: two_bytes_def second_range_def continues_def tail_byte_def Let_def split: if_splits)
    then show ?thesis by simp
  next
    case two: False
    show ?thesis
    proof (cases "ord a \<le> 0xEF")
      case True
      then have "three_bytes (take n (a # s)) r" using assms(3) two d
        by (cases s; cases "tl s") (auto simp: three_bytes_def second_range_def continues_def tail_byte_def Let_def split: if_splits)
      then show ?thesis by simp
    next
      case False
      then have "four_bytes (take n (a # s)) r" using assms(3) two d
        by (cases s; cases "tl s"; cases "tl (tl s)")
          (auto simp: four_bytes_def second_range_def continues_def tail_byte_def Let_def split: if_splits)
      then show ?thesis by simp
    qed
  qed
qed


text \<open>Each is written back as it was, is valid, and is read so whatever follows.\<close>

definition reads_back :: "string \<Rightarrow> nat \<Rightarrow> bool" where
  "reads_back p r \<longleftrightarrow> encode_rune r = p \<and> valid_rune r \<and> p \<noteq> [] \<and> (\<forall>q. decode_rune (p @ q) = (r, length p))"

lemma two_bytes_read: "two_bytes p r \<Longrightarrow> reads_back p r"
proof -
  assume "two_bytes p r"
  then obtain a b where p: "p = [a, b]" "0xC2 \<le> ord a" "ord a \<le> 0xDF" "tail_byte b" and r: "r = six (ord a - 0xC0) (ord b)"
    by (auto simp: two_bytes_def)
  have "2 \<le> ord a - 0xC0" "ord a - 0xC0 < 32" using p by simp_all
  then have "0x80 \<le> r" "r < 0x800" using six_at_least [OF p(4), of 2] six_less [OF p(4), of _ 32] r by fastforce+
  moreover have "r div 64 = ord a - 0xC0" "0x80 + r mod 64 = ord b" using p r by simp_all
  ultimately have "encode_rune r = p" "valid_rune r" using p by (simp_all add: encode_rune_def valid_rune_def)
  moreover have "decode_rune (p @ q) = (r, length p)" for q
    using p r by (simp add: decode_rune_def second_range_def continues_def tail_byte_def)
  ultimately show ?thesis using p by (simp add: reads_back_def)
qed

lemma three_bytes_read: "three_bytes p r \<Longrightarrow> reads_back p r"
proof -
  assume "three_bytes p r"
  then obtain a b c where p: "p = [a, b, c]" "0xE0 \<le> ord a" "ord a \<le> 0xEF" and t: "tail_byte b" "tail_byte c"
    and e: "ord a = 0xE0 \<longrightarrow> 0xA0 \<le> ord b" "ord a = 0xED \<longrightarrow> ord b \<le> 0x9F" and r: "r = six (six (ord a - 0xE0) (ord b)) (ord c)"
    by (auto simp: three_bytes_def)
  define m where "m = six (ord a - 0xE0) (ord b)"
  have m: "(ord a - 0xE0) * 64 \<le> m" "m < (ord a - 0xE0 + 1) * 64" using six_bounds [OF t(1), of "ord a - 0xE0"] by (simp_all add: m_def)
  have lo: "ord a = 0xE0 \<longrightarrow> 0x20 \<le> m" and hi: "ord a = 0xED \<longrightarrow> m < 0x360" "ord a \<ge> 0xEE \<longrightarrow> 0x380 \<le> m"
    using e m(1) t(1) by (auto simp: m_def six_def tail_byte_def)
  have "ord a - 0xE0 < 16" using p by simp
  then have "m < 0x400" using six_less [OF t(1), of _ 16] by (simp add: m_def)
  have "1 \<le> ord a - 0xE0" if "ord a \<noteq> 0xE0" using that p by simp
  then have "0x20 \<le> m" using lo six_at_least [OF t(1), of 1 "ord a - 0xE0"] by (fastforce simp: m_def)
  moreover note \<open>m < 0x400\<close>
  moreover have "m * 64 \<le> r" "r < (m + 1) * 64" using six_bounds [OF t(2), of m] r by (simp_all add: m_def)
  moreover have "m < 0x360 \<or> 0x380 \<le> m" 
  proof (cases "ord a \<le> 0xEC")
    case True
    then have "ord a - 0xE0 < 13" by simp
    then show ?thesis using six_less [OF t(1), of _ 13] by (fastforce simp: m_def)
  qed (use hi in fastforce)
  ultimately have "0x800 \<le> r" "r < 0x10000" "valid_rune r" by (auto simp: valid_rune_def)
  moreover have "r div 64 = m" "m div 64 = ord a - 0xE0" "0x80 + m mod 64 = ord b" "0x80 + r mod 64 = ord c"
    using t r by (simp_all add: m_def)
  ultimately have "encode_rune r = p" "valid_rune r" using p by (simp_all add: encode_rune_def)
  moreover have "decode_rune (p @ q) = (r, length p)" for q
    using p t e r by (simp add: decode_rune_def second_range_def continues_def tail_byte_def)
  ultimately show ?thesis using p by (simp add: reads_back_def)
qed

lemma four_bytes_read: "four_bytes p r \<Longrightarrow> reads_back p r"
proof -
  assume "four_bytes p r"
  then obtain a b c d where p: "p = [a, b, c, d]" "0xF0 \<le> ord a" "ord a \<le> 0xF4" and t: "tail_byte b" "tail_byte c" "tail_byte d"
    and e: "ord a = 0xF0 \<longrightarrow> 0x90 \<le> ord b" "ord a = 0xF4 \<longrightarrow> ord b \<le> 0x8F"
    and r: "r = six (six (six (ord a - 0xF0) (ord b)) (ord c)) (ord d)"
    by (auto simp: four_bytes_def)
  define k where "k = six (ord a - 0xF0) (ord b)"
  define m where "m = six k (ord c)"
  have k: "(ord a - 0xF0) * 64 \<le> k" "k < (ord a - 0xF0 + 1) * 64" using six_bounds [OF t(1), of "ord a - 0xF0"] by (simp_all add: k_def)
  have "ord a = 0xF0 \<longrightarrow> 0x10 \<le> k" "ord a = 0xF4 \<longrightarrow> k < 0x110" using e t(1) by (auto simp: k_def six_def tail_byte_def)
  moreover have "ord a \<noteq> 0xF0 \<Longrightarrow> 0x40 \<le> k" "ord a \<noteq> 0xF4 \<Longrightarrow> k < 0x100"
    using six_at_least [OF t(1), of 1 "ord a - 0xF0"] six_less [OF t(1), of "ord a - 0xF0" 4] p by (simp_all add: k_def)
  ultimately have "0x10 \<le> k" "k < 0x110" by fastforce+
  then have "0x400 \<le> m" "m < 0x4400" using six_at_least [OF t(2), of 16 k] six_less [OF t(2), of k 272] by (simp_all add: m_def)
  then have "0x10000 \<le> r" "r < 0x110000"
    using six_at_least [OF t(3), of 1024 m] six_less [OF t(3), of m 17408] r by (simp_all add: m_def k_def)
  moreover have "r div 64 = m" "m div 64 = k" "k div 64 = ord a - 0xF0" "0x80 + k mod 64 = ord b" "0x80 + m mod 64 = ord c"
      "0x80 + r mod 64 = ord d"
    using t r by (simp_all add: m_def k_def)
  ultimately have "encode_rune r = p" "valid_rune r" using p by (simp_all add: encode_rune_def valid_rune_def)
  moreover have "decode_rune (p @ q) = (r, length p)" for q
    using p t e r by (simp add: decode_rune_def second_range_def continues_def tail_byte_def)
  ultimately show ?thesis using p by (simp add: reads_back_def)
qed

lemma decode_rune_reads:
  assumes "decode_rune (a # s) = (r, n)" "\<not> (r = rune_error \<and> n = 1)"
  shows "reads_back (take n (a # s)) r"
proof (cases "ord a < 0x80")
  case True
  then have "r = ord a" "n = 1" using assms(1) decode_rune_ascii [of a s] by simp_all
  then show ?thesis using True by (simp add: reads_back_def encode_rune_def valid_rune_def decode_rune_ascii)
next
  case False
  then show ?thesis
    using decode_rune_wide [OF _ assms] two_bytes_read three_bytes_read four_bytes_read by (meson not_less)
qed

section \<open>Quote\<close>

definition simple_escapes :: "(nat \<times> char) list" where
  "simple_escapes =
     [(7, CHR ''a''), (8, CHR ''b''), (12, CHR ''f''), (10, CHR ''n''), (13, CHR ''r''), (9, CHR ''t''), (11, CHR ''v'')]"

primrec hex_of :: "nat \<Rightarrow> nat \<Rightarrow> string" where
  "hex_of 0 r = []"
| "hex_of (Suc n) r = hex_of n (r div 16) @ [digit_char (r mod 16)]"

definition is_print :: "(nat \<Rightarrow> bool) \<Rightarrow> nat \<Rightarrow> bool" where
  "is_print print r \<longleftrightarrow> (if r \<le> 0xFF then 0x20 \<le> r \<and> r < 0x7F \<or> 0xA1 \<le> r \<and> r \<noteq> 0xAD else print r)"

definition escape_rune :: "(nat \<Rightarrow> bool) \<Rightarrow> nat \<times> string \<Rightarrow> string" where
  "escape_rune print x =
     (case x of (r, p) \<Rightarrow>
        if r = rune_error \<and> length p = 1 then [CHR 0x5C, CHR ''x''] @ hex_of 2 (ord (hd p))
        else if r = 0x22 \<or> r = 0x5C then [CHR 0x5C, byte r]
        else if is_print print r then encode_rune r
        else
          (case map_of simple_escapes r of
             Some c \<Rightarrow> [CHR 0x5C, c]
           | None \<Rightarrow>
               if r < 0x20 \<or> r = 0x7F then [CHR 0x5C, CHR ''x''] @ hex_of 2 r
               else if \<not> valid_rune r then [CHR 0x5C, CHR ''u''] @ hex_of 4 rune_error
               else if r < 0x10000 then [CHR 0x5C, CHR ''u''] @ hex_of 4 r
               else [CHR 0x5C, CHR ''U''] @ hex_of 8 r))"

definition go_quote :: "(nat \<Rightarrow> bool) \<Rightarrow> string \<Rightarrow> string" where
  "go_quote print s = [CHR 0x22] @ concat (map (escape_rune print) (runes s)) @ [CHR 0x22]"

section \<open>Unquote\<close>

primrec read_hex :: "nat \<Rightarrow> nat \<Rightarrow> string \<Rightarrow> (nat \<times> string) option" where
  "read_hex 0 v s = Some (v, s)"
| "read_hex (Suc n) v s =
     (case s of
        [] \<Rightarrow> None
      | c # t \<Rightarrow> (case unhex c of None \<Rightarrow> None | Some x \<Rightarrow> read_hex n (v * 16 + x) t))"

definition octal :: "char \<Rightarrow> bool" where
  "octal c \<longleftrightarrow> CHR ''0'' \<le> c \<and> c \<le> CHR ''7''"

text \<open>\<open>UnquoteChar\<close> for the quote \<open>"\<close>: the value, whether it is a code point rather than a byte, and what is left.\<close>

definition unquote_escape :: "string \<Rightarrow> (nat \<times> bool \<times> string) option" where
  "unquote_escape s =
     (case s of
        [] \<Rightarrow> None
      | c # t \<Rightarrow>
          (case map_of (map prod.swap simple_escapes) c of
             Some r \<Rightarrow> Some (r, False, t)
           | None \<Rightarrow>
               if c = CHR ''x'' then map_option (\<lambda>(v, u). (v, False, u)) (read_hex 2 0 t)
               else if c = CHR ''u'' \<or> c = CHR ''U'' then
                 (case read_hex (if c = CHR ''u'' then 4 else 8) 0 t of
                    None \<Rightarrow> None
                  | Some (v, u) \<Rightarrow> if \<not> valid_rune v then None else Some (v, True, u))
               else if octal c then
                 (case t of
                    d # e # u \<Rightarrow>
                      (let v = (digit_val c * 8 + digit_val d) * 8 + digit_val e in
                       if \<not> octal d \<or> \<not> octal e \<or> v > 255 then None else Some (v, False, u))
                  | _ \<Rightarrow> None)
               else if c = CHR 0x5C \<or> c = CHR 0x22 then Some (ord c, False, t)
               else None))"

definition unquote_char :: "string \<Rightarrow> (nat \<times> bool \<times> string) option" where
  "unquote_char s =
     (case s of
        [] \<Rightarrow> None
      | c # t \<Rightarrow>
          if c = CHR 0x22 then None
          else if 0x80 \<le> ord c then (case decode_rune s of (r, n) \<Rightarrow> Some (r, True, drop n s))
          else if c \<noteq> CHR 0x5C then Some (ord c, False, t)
          else unquote_escape t)"

lemma read_hex_shorter: "read_hex n v s = Some (w, t) \<Longrightarrow> length t \<le> length s"
  by (induction n arbitrary: v s) (force split: list.splits option.splits)+

lemma unquote_escape_shorter: "unquote_escape s = Some (r, m, t) \<Longrightarrow> length t < length s"
proof (cases s)
  case (Cons c u)
  assume a: "unquote_escape s = Some (r, m, t)"
  show ?thesis
  proof (cases "map_of (map prod.swap simple_escapes) c")
    case None
    have "(\<exists>n v. read_hex n v u = Some (r, t)) \<or> (\<exists>d e. u = d # e # t) \<or> t = u"
      using a None unfolding Cons unquote_escape_def Let_def
      by (simp split: if_split_asm option.split_asm list.split_asm prod.split_asm) blast+
    then show ?thesis using Cons by (auto dest: read_hex_shorter)
  qed (use a Cons in \<open>simp add: unquote_escape_def\<close>)
qed (simp add: unquote_escape_def)

lemma unquote_char_shorter: "unquote_char s = Some (r, m, t) \<Longrightarrow> length t < length s"
  using decode_rune_size [of s]
  by (auto simp: unquote_char_def dest!: unquote_escape_shorter split: list.splits if_splits prod.splits)

function unquote_loop :: "string \<Rightarrow> string option" where
  "unquote_loop s =
     (if s = [] then None
      else if hd s = CHR 0x22 then (if tl s = [] then Some [] else None)
      else
        (case unquote_char s of
           None \<Rightarrow> None
         | Some (r, multibyte, rest) \<Rightarrow>
             if hd s = CHR 0x0A then None
             else map_option ((@) (if r < 0x80 \<or> \<not> multibyte then [byte r] else encode_rune r)) (unquote_loop rest)))"
  by pat_completeness auto
termination
  by (relation "measure length") (auto dest: unquote_char_shorter)

declare unquote_loop.simps [simp del]

text \<open>\<open>strconv.Unquote\<close> of a string that starts with \<open>"\<close>.\<close>

definition go_unquote :: "string \<Rightarrow> string option" where
  "go_unquote s = (case s of [] \<Rightarrow> None | c # t \<Rightarrow> if c = CHR 0x22 then unquote_loop t else None)"

section \<open>The round trip\<close>

lemma read_hex_last:
  "read_hex (Suc n) v s = (case read_hex n v s of None \<Rightarrow> None | Some (w, t) \<Rightarrow> read_hex 1 w t)"
proof (induction n arbitrary: v s)
  case (Suc n)
  show ?case
  proof (cases s)
    case (Cons c t)
    show ?thesis
      by (subst (1 2) Cons, simp only: read_hex.simps) (use Suc.IH in \<open>auto split: option.split\<close>)
  qed simp
qed simp

lemma read_hex_of: "r < 16 ^ n \<Longrightarrow> read_hex n v (hex_of n r @ t) = Some (v * 16 ^ n + r, t)"
proof (induction n arbitrary: r v t)
  case (Suc n)
  have "r div 16 < 16 ^ n" using Suc.prems by (simp add: less_mult_imp_div_less mult.commute)
  note IH = Suc.IH [OF this, of v "digit_char (r mod 16) # t"]
  have "read_hex (Suc n) v (hex_of (Suc n) r @ t) = read_hex 1 (v * 16 ^ n + r div 16) (digit_char (r mod 16) # t)"
    using IH by (simp only: read_hex_last) simp
  then show ?case by (simp add: algebra_simps)
qed simp

lemma unquote_step:
  assumes "unquote_char (c # s) = Some (r, m, t)" "c \<noteq> CHR 0x0A"
  shows "unquote_loop (c # s) = map_option ((@) (if r < 0x80 \<or> \<not> m then [byte r] else encode_rune r)) (unquote_loop t)"
  using assms by (subst unquote_loop.simps) (auto simp: unquote_char_def split: if_splits)

lemma unquote_byte: "unquote_loop (CHR 0x5C # CHR ''x'' # hex_of 2 (ord c) @ t) = map_option ((@) [c]) (unquote_loop t)"
proof -
  have "unquote_char (CHR 0x5C # CHR ''x'' # hex_of 2 (ord c) @ t) = Some (ord c, False, t)"
    using read_hex_of [of "ord c" 2 0 t] nat_of_char_less_256 [of c]
    by (simp add: unquote_char_def unquote_escape_def simple_escapes_def)
  from unquote_step [OF this] show ?thesis by simp
qed

lemma unquote_rune:
  assumes "n = 4 \<and> u = CHR ''u'' \<or> n = 8 \<and> u = CHR ''U''" "reads_back p r" "r < 16 ^ n"
  shows "unquote_loop (CHR 0x5C # u # hex_of n r @ t) = map_option ((@) p) (unquote_loop t)"
proof -
  have "unquote_char (CHR 0x5C # u # hex_of n r @ t) = Some (r, True, t)"
    using read_hex_of [OF assms(3), of 0 t] assms(1,2)
    by (auto simp: unquote_char_def unquote_escape_def simple_escapes_def reads_back_def)
  moreover have "(if r < 0x80 \<or> \<not> True then [byte r] else encode_rune r) = p"
    using assms(2) by (auto simp: reads_back_def encode_rune_def)
  ultimately show ?thesis using unquote_step by fastforce
qed

lemma unquote_plain:
  assumes "reads_back p r" "r \<notin> {0x22, 0x5C, 0x0A}"
  shows "unquote_loop (p @ t) = map_option ((@) p) (unquote_loop t)"
proof -
  obtain a q where p: "p = a # q" using assms(1) by (cases p) (auto simp: reads_back_def)
  have d: "decode_rune (a # q @ t) = (r, length p)" and e: "encode_rune r = p" using assms(1) p by (simp_all add: reads_back_def)
  show ?thesis
  proof (cases "ord a < 0x80")
    case True
    then have "r = ord a" "q = []" using d p decode_rune_ascii [of a "q @ t"] by simp_all
    moreover have "a \<noteq> CHR 0x22" "a \<noteq> CHR 0x5C" "a \<noteq> CHR 0x0A" using assms(2) \<open>r = ord a\<close> by auto
    ultimately show ?thesis using True p unquote_step [of a t "ord a" False t] by (simp add: unquote_char_def)
  next
    case False
    then have "a \<noteq> CHR 0x22" "a \<noteq> CHR 0x0A" by auto
    have "r \<ge> 0x80"
    proof (rule ccontr)
      assume "\<not> r \<ge> 0x80"
      then have "p = [byte r]" using e by (simp add: encode_rune_def)
      with p have "a = byte r" by simp
      with \<open>\<not> r \<ge> 0x80\<close> False show False by (simp add: byte_def)
    qed
    with d e p False \<open>a \<noteq> CHR 0x22\<close> \<open>a \<noteq> CHR 0x0A\<close> show ?thesis
      using unquote_step [of a "q @ t" r True t] by (simp add: unquote_char_def)
  qed
qed

lemma special_bytes [simp]: "byte 0x22 = CHR 0x22" "byte 0x5C = CHR 0x5C"
  by code_simp+

lemma unquote_simple:
  assumes "map_of simple_escapes r = Some c"
  shows "unquote_loop (CHR 0x5C # c # t) = map_option ((@) [byte r]) (unquote_loop t)"
proof -
  have "unquote_char (CHR 0x5C # c # t) = Some (r, False, t)"
    using assms by (auto simp: unquote_char_def unquote_escape_def simple_escapes_def split: if_splits)
  from unquote_step [OF this] show ?thesis by simp
qed

lemma special_escapes:
  "list_all (\<lambda>c. map_of (map prod.swap simple_escapes) c = None \<and> \<not> octal c) [CHR 0x22, CHR 0x5C]"
  by code_simp

lemma unquote_special:
  assumes "r = 0x22 \<or> r = 0x5C"
  shows "unquote_loop (CHR 0x5C # byte r # t) = map_option ((@) [byte r]) (unquote_loop t)"
proof -
  have "unquote_char (CHR 0x5C # byte r # t) = Some (r, False, t)"
    using assms special_escapes by (elim disjE) (simp_all add: unquote_char_def unquote_escape_def)
  from unquote_step [OF this] show ?thesis by simp
qed

lemma unquote_escaped:
  assumes "decode_rune (a # s) = (r, n)"
  shows "unquote_loop (escape_rune print (r, take n (a # s)) @ t) = map_option ((@) (take n (a # s))) (unquote_loop t)"
proof (cases "r = rune_error \<and> n = 1")
  case True
  then show ?thesis using unquote_byte [of a t] by (simp add: escape_rune_def)
next
  case False
  let ?p = "take n (a # s)"
  have rb: "reads_back ?p r" by (rule decode_rune_reads [OF assms False])
  then have e: "encode_rune r = ?p" and v: "valid_rune r" and n: "length ?p = n" using decode_rune_size [of "a # s"] assms by (auto simp: reads_back_def)
  have one: "r < 0x80 \<Longrightarrow> ?p = [byte r]" using e by (simp add: encode_rune_def)
  have bound: "r < 16 ^ 8" using v by (auto simp: valid_rune_def)
  have wrong: "\<not> (r = rune_error \<and> length ?p = 1)" using False n by simp
  show ?thesis
  proof (cases "r = 0x22 \<or> r = 0x5C \<or> map_of simple_escapes r \<noteq> None \<or> r < 0x20 \<or> r = 0x7F")
    case True
    then have low: "r < 0x80" by (auto simp: simple_escapes_def split: if_splits)
    then have p: "?p = [byte r]" and o: "ord (byte r) = r" using one by (simp_all add: byte_def)
    show ?thesis
    proof (cases "r = 0x22 \<or> r = 0x5C")
      case True
      then show ?thesis using wrong p unquote_special [OF True, of t] by (auto simp: escape_rune_def rune_error_def)
    next
      case False
      then have np: "\<not> is_print print r" "r \<noteq> rune_error" using True low by (auto simp: is_print_def rune_error_def simple_escapes_def split: if_splits)
      show ?thesis
      proof (cases "map_of simple_escapes r")
        case None
        then show ?thesis using False True np p o unquote_byte [of "byte r" t] by (simp add: escape_rune_def)
      next
        case (Some c)
        then show ?thesis using False np p unquote_simple [OF Some, of t] by (simp add: escape_rune_def)
      qed
    qed
  next
    case False
    then show ?thesis
      using wrong e v unquote_plain [OF rb, of t] unquote_rune [OF _ rb, of 4 "CHR ''u''" t]
        unquote_rune [OF _ rb _, of 8 "CHR ''U''" t] bound
      by (auto simp: escape_rune_def simple_escapes_def)
  qed
qed

theorem unquote_quote: "go_unquote (go_quote print s) = Some s"
proof -
  have "unquote_loop (concat (map (escape_rune print) (runes s)) @ [CHR 0x22]) = Some s"
  proof (induction s rule: runes.induct)
    case (1 s)
    show ?case
    proof (cases s)
      case Nil
      then show ?thesis by (subst unquote_loop.simps) simp
    next
      case (Cons a t)
      obtain r n where d: "decode_rune s = (r, n)" by fastforce
      have "unquote_loop (concat (map (escape_rune print) (runes (drop n s))) @ [CHR 0x22]) = Some (drop n s)"
        using 1 [OF _ d [symmetric] refl] Cons by simp
      then show ?thesis
        using unquote_escaped [of a t r n print "concat (map (escape_rune print) (runes (drop n s))) @ [CHR 0x22]"] d Cons
        by (subst runes.simps) simp
    qed
  qed
  then show ?thesis by (simp add: go_unquote_def go_quote_def)
qed

end
