(* ===== verification/Yaml.thy ===== *)
theory Yaml
  imports Strconv Sshkey
begin

text \<open>
  The reader of the declaration's YAML subset (\<open>internal/environment/yaml.go\<close>): lines
  with their comments stripped, blocks of fields by indentation, lists of scalars, and a
  refusal naming the line for everything else. The loop over the lines of a block calls
  itself for a nested block and goes on where that ended, so that it ends at all has to be
  shown; here it may also not return, and it is proved that it always does.
\<close>

section \<open>Values, lines and refusals\<close>

text \<open>A mapping holds its fields in the order of the file, each name once.\<close>

datatype node = Scalar nat string | Seq nat "node list" | Mapping nat "(string \<times> node) list"

datatype node_kind = KindScalar | KindSeq | KindMapping

primrec kind_of :: "node \<Rightarrow> node_kind" where
  "kind_of (Scalar n s) = KindScalar"
| "kind_of (Seq n xs) = KindSeq"
| "kind_of (Mapping n kvs) = KindMapping"

primrec node_line :: "node \<Rightarrow> nat" where
  "node_line (Scalar n s) = n"
| "node_line (Seq n xs) = n"
| "node_line (Mapping n kvs) = n"

record yaml_line =
  ln_number :: nat
  ln_indent :: nat
  ln_text :: string

text \<open>Each refusal names the construct, with the line it is on.\<close>

datatype yaml_error =
    AnotherDocument nat
  | TabIndent nat
  | LessIndented nat
  | NotABlock node_kind
  | FurtherIndented nat
  | NotAField nat
  | NamelessField nat
  | DeclaredTwice nat string
  | NotAnItem nat
  | EmptyItem nat
  | ListOfBlocks nat
  | AnchorOrAlias nat
  | BlockScalar nat
  | FlowStyle nat
  | Tagged nat
  | Unreadable nat
  | OpenQuote nat

section \<open>Lines\<close>

text \<open>\<open>stripComment\<close>, from the quote that is open and the byte before.\<close>

fun strip_from :: "char option \<Rightarrow> char option \<Rightarrow> string \<Rightarrow> string" where
  "strip_from q prev [] = []"
| "strip_from q prev (c # s) =
     (if q \<noteq> None then c # strip_from (if q = Some c then None else q) (Some c) s
      else if c = CHR 0x27 \<or> c = CHR 0x22 then c # strip_from (Some c) (Some c) s
      else if c = CHR ''#'' \<and> (prev = None \<or> prev = Some CHR '' '' \<or> prev = Some CHR 0x09) then []
      else c # strip_from None (Some c) s)"

definition strip_comment :: "string \<Rightarrow> string" where
  "strip_comment s = strip_from None None s"

definition trim_right_blanks :: "string \<Rightarrow> string" where
  "trim_right_blanks s = rev (dropWhile (\<lambda>c. c = CHR '' '') (rev s))"

definition scan_line :: "nat \<Rightarrow> string \<Rightarrow> yaml_error + yaml_line option" where
  "scan_line number raw =
     (if has_prefix raw ''---'' \<or> has_prefix raw ''...'' then Inl (AnotherDocument number)
      else
        (let trimmed = trim_right_blanks (strip_comment raw) in
         if trim_space trimmed = [] then Inr None
         else
           (let indent = length (takeWhile (\<lambda>c. c = CHR '' '') trimmed) in
            if CHR 0x09 \<in> set (take indent trimmed) \<or> has_prefix (dropWhile (\<lambda>c. c = CHR '' '') trimmed) [CHR 0x09]
            then Inl (TabIndent number)
            else Inr (Some \<lparr>ln_number = number, ln_indent = indent, ln_text = trim_space trimmed\<rparr>))))"

fun scan_from :: "nat \<Rightarrow> string list \<Rightarrow> yaml_error + yaml_line list" where
  "scan_from number [] = Inr []"
| "scan_from number (raw # raws) =
     (case scan_line number raw of
        Inl e \<Rightarrow> Inl e
      | Inr found \<Rightarrow>
          (case scan_from (number + 1) raws of
             Inl e \<Rightarrow> Inl e
           | Inr ls \<Rightarrow> Inr (case found of None \<Rightarrow> ls | Some l \<Rightarrow> l # ls)))"

definition scan_lines :: "string \<Rightarrow> yaml_error + yaml_line list" where
  "scan_lines src = scan_from 1 (split_on CHR 0x0A src)"

section \<open>Scalars\<close>

text \<open>\<open>strings.ReplaceAll\<close> of a doubled single quote by one.\<close>

fun undouble :: "string \<Rightarrow> string" where
  "undouble (a # b # s) =
     (if a = CHR 0x27 \<and> b = CHR 0x27 then CHR 0x27 # undouble s else a # undouble (b # s))"
| "undouble s = s"

definition unquote_value :: "string \<Rightarrow> nat \<Rightarrow> yaml_error + string" where
  "unquote_value raw number =
     (if length raw \<ge> 2 \<and> hd raw = CHR 0x22 \<and> last raw = CHR 0x22 then
        (case go_unquote raw of None \<Rightarrow> Inl (Unreadable number) | Some out \<Rightarrow> Inr out)
      else if length raw \<ge> 2 \<and> hd raw = CHR 0x27 \<and> last raw = CHR 0x27 then
        Inr (undouble (butlast (tl raw)))
      else if has_prefix raw [CHR 0x22] \<or> has_prefix raw [CHR 0x27] then Inl (OpenQuote number)
      else Inr raw)"

definition scalar_node :: "string \<Rightarrow> nat \<Rightarrow> yaml_error + node" where
  "scalar_node raw number =
     (if has_prefix raw ''&'' \<or> has_prefix raw ''*'' then Inl (AnchorOrAlias number)
      else if has_prefix raw ''|'' \<or> has_prefix raw ''>'' then Inl (BlockScalar number)
      else if has_prefix raw [CHR 0x7B] \<or> has_prefix raw ''['' then Inl (FlowStyle number)
      else if has_prefix raw ''!'' then Inl (Tagged number)
      else (case unquote_value raw number of Inl e \<Rightarrow> Inl e | Inr v \<Rightarrow> Inr (Scalar number v)))"

section \<open>Lists\<close>

definition list_of_blocks :: "string \<Rightarrow> bool" where
  "list_of_blocks item \<longleftrightarrow>
     CHR '':'' \<in> set item \<and> \<not> str_contains item ''://'' \<and>
     (case cut_on CHR '':'' item of (lhs, rest, found) \<Rightarrow> found \<and> (rest = [] \<or> has_prefix rest '' ''))"

text \<open>\<open>parseSeq\<close>, from the items read so far.\<close>

function parse_items ::
  "yaml_line list \<Rightarrow> nat \<Rightarrow> node list \<Rightarrow> nat \<Rightarrow> yaml_error + node list \<times> nat" where
  "parse_items ls indent items pos =
     (if length ls \<le> pos then Inr (items, pos)
      else
        (let cur = ls ! pos; n = ln_number cur; item = trim_space (tl (ln_text cur)) in
         if ln_indent cur < indent then Inr (items, pos)
         else if ln_indent cur > indent \<or> hd (ln_text cur) \<noteq> CHR ''-'' then Inl (NotAnItem n)
         else if item = [] then Inl (EmptyItem n)
         else if list_of_blocks item then Inl (ListOfBlocks n)
         else
           (case scalar_node item n of
              Inl e \<Rightarrow> Inl e
            | Inr v \<Rightarrow> parse_items ls indent (items @ [v]) (pos + 1))))"
  by pat_completeness auto
termination
  by (relation "measure (\<lambda>(ls, indent, items, pos). length ls - pos)") auto

declare parse_items.simps [simp del]

definition parse_seq :: "yaml_line list \<Rightarrow> nat \<Rightarrow> nat \<Rightarrow> yaml_error + node \<times> nat" where
  "parse_seq ls pos indent =
     (case parse_items ls indent [] pos of
        Inl e \<Rightarrow> Inl e
      | Inr (items, p) \<Rightarrow> Inr (Seq (ln_number (ls ! pos)) items, p))"

section \<open>Blocks\<close>

definition as_mapping :: "nat \<Rightarrow> yaml_error + (string \<times> node) list \<times> nat \<Rightarrow> yaml_error + node \<times> nat" where
  "as_mapping n r = (case r of Inl e \<Rightarrow> Inl e | Inr (kvs, p) \<Rightarrow> Inr (Mapping n kvs, p))"

text \<open>The loop of \<open>parseBlock\<close>, from the fields read so far; \<open>None\<close> would be a loop that does not return.\<close>

partial_function (option) block_loop ::
  "yaml_line list \<Rightarrow> nat \<Rightarrow> (string \<times> node) list \<Rightarrow> nat \<Rightarrow> (yaml_error + (string \<times> node) list \<times> nat) option" where
  "block_loop ls indent out pos =
     (if length ls \<le> pos then Some (Inr (out, pos))
      else
        (let cur = ls ! pos; n = ln_number cur in
         if ln_indent cur < indent then Some (Inr (out, pos))
         else if ln_indent cur > indent then Some (Inl (FurtherIndented n))
         else
           (case cut_on CHR '':'' (ln_text cur) of (lhs, rhs, found) \<Rightarrow>
              let name = trim_space lhs; rest = trim_space rhs in
              if \<not> found then Some (Inl (NotAField n))
              else if name = [] then Some (Inl (NamelessField n))
              else if name \<in> fst ` set out then Some (Inl (DeclaredTwice n name))
              else if rest \<noteq> [] then
                (case scalar_node rest n of
                   Inl e \<Rightarrow> Some (Inl e)
                 | Inr v \<Rightarrow> block_loop ls indent (out @ [(name, v)]) (pos + 1))
              else if length ls \<le> pos + 1 \<or> ln_indent (ls ! (pos + 1)) \<le> indent then
                block_loop ls indent (out @ [(name, Scalar n [])]) (pos + 1)
              else
                Option.bind
                  (if hd (ln_text (ls ! (pos + 1))) = CHR ''-''
                   then Some (parse_seq ls (pos + 1) (ln_indent (ls ! (pos + 1))))
                   else Option.bind (block_loop ls (ln_indent (ls ! (pos + 1))) [] (pos + 1))
                     (\<lambda>r. Some (as_mapping (ln_number (ls ! (pos + 1))) r)))
                  (\<lambda>r. case r of
                         Inl e \<Rightarrow> Some (Inl e)
                       | Inr (child, p) \<Rightarrow> block_loop ls indent (out @ [(name, child)]) p))))"

declare block_loop.simps [code]

text \<open>\<open>parseBlock\<close>: a list, or the fields at this indentation with their children.\<close>

definition parse_block :: "yaml_line list \<Rightarrow> nat \<Rightarrow> nat \<Rightarrow> (yaml_error + node \<times> nat) option" where
  "parse_block ls pos indent =
     (if length ls \<le> pos then Some (Inr (Mapping 0 [], pos))
      else if hd (ln_text (ls ! pos)) = CHR ''-'' then Some (parse_seq ls pos indent)
      else Option.bind (block_loop ls indent [] pos) (\<lambda>r. Some (as_mapping (ln_number (ls ! pos)) r)))"

definition parse_yaml :: "string \<Rightarrow> (yaml_error + node) option" where
  "parse_yaml src =
     (case scan_lines src of
        Inl e \<Rightarrow> Some (Inl e)
      | Inr ls \<Rightarrow>
          Option.bind (parse_block ls 0 0)
            (\<lambda>r. Some (case r of
                Inl e \<Rightarrow> Inl e
              | Inr (doc, pos) \<Rightarrow>
                  (if pos < length ls then Inl (LessIndented (ln_number (ls ! pos)))
                   else if kind_of doc \<noteq> KindMapping then Inl (NotABlock (kind_of doc))
                   else Inr doc))))"

section \<open>It returns\<close>

lemma parse_items_forward:
  "parse_items ls indent items pos = Inr (xs, p) \<Longrightarrow> pos \<le> p"
proof (induction "length ls - pos" arbitrary: items pos rule: less_induct)
  case less
  have "Suc pos \<le> p" if "\<not> length ls \<le> pos" "parse_items ls indent zs (Suc pos) = Inr (xs, p)" for zs
    using less(1) [OF _ that(2)] that(1) by simp
  with less(2) show ?case
    by (subst (asm) parse_items.simps) (auto simp: Let_def dest: Suc_leD split: if_splits sum.splits)
qed

lemma parse_seq_forward: "parse_seq ls pos indent = Inr (v, p) \<Longrightarrow> pos \<le> p"
  by (auto simp: parse_seq_def dest: parse_items_forward split: sum.splits)

text \<open>The loop as the code has it: the nested block is a call of \<open>parseBlock\<close>.\<close>

lemma block_loop_code:
  "block_loop ls indent out pos =
     (if length ls \<le> pos then Some (Inr (out, pos))
      else
        (let cur = ls ! pos; n = ln_number cur in
         if ln_indent cur < indent then Some (Inr (out, pos))
         else if ln_indent cur > indent then Some (Inl (FurtherIndented n))
         else
           (case cut_on CHR '':'' (ln_text cur) of (lhs, rhs, found) \<Rightarrow>
              let name = trim_space lhs; rest = trim_space rhs in
              if \<not> found then Some (Inl (NotAField n))
              else if name = [] then Some (Inl (NamelessField n))
              else if name \<in> fst ` set out then Some (Inl (DeclaredTwice n name))
              else if rest \<noteq> [] then
                (case scalar_node rest n of
                   Inl e \<Rightarrow> Some (Inl e)
                 | Inr v \<Rightarrow> block_loop ls indent (out @ [(name, v)]) (pos + 1))
              else if length ls \<le> pos + 1 \<or> ln_indent (ls ! (pos + 1)) \<le> indent then
                block_loop ls indent (out @ [(name, Scalar n [])]) (pos + 1)
              else
                Option.bind (parse_block ls (pos + 1) (ln_indent (ls ! (pos + 1))))
                  (\<lambda>r. case r of
                         Inl e \<Rightarrow> Some (Inl e)
                       | Inr (child, p) \<Rightarrow> block_loop ls indent (out @ [(name, child)]) p))))"
  by (subst block_loop.simps) (auto simp: parse_block_def Let_def split: prod.split)

text \<open>The loop returns, and where it ends is not before where it began.\<close>

lemma block_loop_returns:
  "\<exists>r. block_loop ls indent out pos = Some r \<and> (\<forall>kvs p. r = Inr (kvs, p) \<longrightarrow> pos \<le> p)"
proof (induction "length ls - pos" arbitrary: indent out pos rule: less_induct)
  case less
  show ?case
  proof (cases "length ls \<le> pos")
    case True
    then show ?thesis by (subst block_loop.simps) simp
  next
    case False
    have onward: "\<exists>r. block_loop ls i zs q = Some r \<and> (\<forall>kvs p. r = Inr (kvs, p) \<longrightarrow> q \<le> p)" if "Suc pos \<le> q" for i zs q
    proof -
      have "length ls - q < length ls - pos" using that False by simp
      from less [OF this, of i zs] show ?thesis .
    qed
    have "\<exists>r. parse_block ls (Suc pos) i = Some r \<and> (\<forall>v p. r = Inr (v, p) \<longrightarrow> Suc pos \<le> p)" for i
      using onward [of "Suc pos" i "[]"] parse_seq_forward
      by (auto simp: parse_block_def as_mapping_def split: sum.split)
    then obtain r where r: "parse_block ls (Suc pos) (ln_indent (ls ! Suc pos)) = Some r" "\<forall>v p. r = Inr (v, p) \<longrightarrow> Suc pos \<le> p"
      by blast
    have go: "\<exists>r. block_loop ls indent zs q = Some r \<and> (\<forall>kvs p. r = Inr (kvs, p) \<longrightarrow> pos \<le> p)" if "Suc pos \<le> q" for zs q
      using onward [OF that, of indent zs] that by fastforce
    note here = go [of "Suc pos", OF order.refl]
    obtain lhs rhs found where cut: "cut_on CHR '':'' (ln_text (ls ! pos)) = (lhs, rhs, found)" by (metis prod_cases3)
    have there: "\<exists>r'. (case r of Inl e \<Rightarrow> Some (Inl e) | Inr (child, p) \<Rightarrow> block_loop ls indent (zs child) p) = Some r' \<and>
        (\<forall>kvs p. r' = Inr (kvs, p) \<longrightarrow> pos \<le> p)" for zs
      using r(2) go by (auto split: sum.split prod.split)
    show ?thesis
      using False here there
      by (subst block_loop_code) (auto simp: Let_def cut r(1) split: sum.split)
  qed
qed

lemma scanned_text:
  "scan_from n raws = Inr ls \<Longrightarrow> list_all (\<lambda>l. ln_text l \<noteq> []) ls"
  by (induction n raws arbitrary: ls rule: scan_from.induct)
    (auto simp: scan_line_def Let_def split: sum.splits option.splits if_splits)

lemma parse_yaml_returns: "\<exists>r. parse_yaml src = Some r"
proof -
  have "\<exists>r. parse_block ls 0 0 = Some r" for ls
    using block_loop_returns [of ls 0 "[]" 0] by (auto simp: parse_block_def)
  then have "\<exists>r. Option.bind (parse_block ls 0 0) (\<lambda>r. Some (g r)) = Some r" for ls and g :: "_ \<Rightarrow> 'x"
    by (metis bind.bind_lunit)
  then show ?thesis by (auto simp: parse_yaml_def split: sum.split)
qed

text \<open>
  C14. Reading ends: whatever the text, the reader of a declaration returns, with the
  document or with the first refusal, and the first byte it looks at in a line is there.
\<close>

theorem reading_returns:
  "(\<exists>r. parse_yaml src = Some r) \<and>
   list_all (\<lambda>l. ln_text l \<noteq> []) (case scan_lines src of Inl e \<Rightarrow> [] | Inr ls \<Rightarrow> ls)"
  using parse_yaml_returns [of src] scanned_text by (auto simp: scan_lines_def split: sum.split)

section \<open>What is read is well formed\<close>

text \<open>Names are distinct within a block; a list or block that was opened holds something, and a list only scalars.\<close>

fun sound_node :: "node \<Rightarrow> bool" where
  "sound_node (Scalar n s) = True"
| "sound_node (Seq n xs) = (xs \<noteq> [] \<and> list_all (\<lambda>x. kind_of x = KindScalar) xs)"
| "sound_node (Mapping n kvs) = (kvs \<noteq> [] \<and> distinct (map fst kvs) \<and> list_all (\<lambda>(k, v). sound_node v) kvs)"

definition sound_fields :: "(string \<times> node) list \<Rightarrow> bool" where
  "sound_fields kvs \<longleftrightarrow> distinct (map fst kvs) \<and> (\<forall>(k, v)\<in>set kvs. sound_node v)"

lemma sound_fields_add: "sound_fields out \<Longrightarrow> k \<notin> fst ` set out \<Longrightarrow> sound_node v \<Longrightarrow> sound_fields (out @ [(k, v)])"
  by (auto simp: sound_fields_def)

lemma scalar_node_kind: "scalar_node raw n = Inr v \<Longrightarrow> \<exists>s. v = Scalar n s"
  by (auto simp: scalar_node_def split: if_splits sum.splits)

text \<open>Where the loops stop.\<close>

lemma parse_items_stop: "length ls \<le> pos \<or> ln_indent (ls ! pos) < indent \<Longrightarrow> parse_items ls indent items pos = Inr (items, pos)"
  by (subst parse_items.simps) (auto simp: Let_def)

lemma block_loop_stop: "length ls \<le> pos \<or> ln_indent (ls ! pos) < indent \<Longrightarrow> block_loop ls indent out pos = Some (Inr (out, pos))"
  by (subst block_loop_code) (auto simp: Let_def)

lemma parse_items_sound:
  assumes "parse_items ls indent items pos = Inr (xs, p)" "list_all (\<lambda>x. kind_of x = KindScalar) items"
  shows "list_all (\<lambda>x. kind_of x = KindScalar) xs \<and> length items \<le> length xs \<and>
    (pos < length ls \<and> ln_indent (ls ! pos) = indent \<longrightarrow> length items < length xs)"
  using assms
proof (induction "length ls - pos" arbitrary: items pos rule: less_induct)
  case less
  show ?case
  proof (cases "length ls \<le> pos \<or> ln_indent (ls ! pos) < indent")
    case True
    then have "xs = items" using less(2) parse_items_stop by simp
    then show ?thesis using True less(3) by auto
  next
    case False
    then obtain v where v: "scalar_node (trim_space (tl (ln_text (ls ! pos)))) (ln_number (ls ! pos)) = Inr v"
      "parse_items ls indent (items @ [v]) (pos + 1) = Inr (xs, p)"
      using less(2) by (subst (asm) parse_items.simps) (auto simp: Let_def split: if_splits sum.splits)
    have "kind_of v = KindScalar" using scalar_node_kind [OF v(1)] by auto
    moreover have "length ls - (pos + 1) < length ls - pos" using False by auto
    ultimately show ?thesis using less(1) [OF _ v(2)] less(3) False by auto
  qed
qed

lemma parse_seq_sound:
  "parse_seq ls pos indent = Inr (v, p) \<Longrightarrow> pos < length ls \<Longrightarrow> ln_indent (ls ! pos) = indent \<Longrightarrow> sound_node v"
  using parse_items_sound [of ls indent "[]" pos] by (fastforce simp: parse_seq_def split: sum.splits)

lemma bind_result:
  "Option.bind m (\<lambda>r. case r of Inl e \<Rightarrow> Some (Inl e) | Inr (c, p) \<Rightarrow> g c p) = Some (Inr z) \<longleftrightarrow>
     (\<exists>c p. m = Some (Inr (c, p)) \<and> g c p = Some (Inr z))"
proof (cases m)
  case (Some r)
  then show ?thesis by (cases r) auto
qed simp

lemma block_loop_sound:
  assumes "block_loop ls indent out pos = Some (Inr (kvs, p))" "sound_fields out"
  shows "sound_fields kvs \<and> length out \<le> length kvs \<and> (pos < length ls \<and> ln_indent (ls ! pos) = indent \<longrightarrow> length out < length kvs)"
  using assms
proof (induction "length ls - pos" arbitrary: indent out pos kvs p rule: less_induct)
  case less
  show ?case
  proof (cases "length ls \<le> pos \<or> ln_indent (ls ! pos) < indent")
    case True
    then have "kvs = out" using less(2) block_loop_stop by simp
    then show ?thesis using True less(3) by auto
  next
    case False
    have onward: ?thesis if "block_loop ls indent (out @ [(k, v)]) q = Some (Inr (kvs, p))" "Suc pos \<le> q" "k \<notin> fst ` set out" "sound_node v" for k v q
    proof -
      have "length ls - q < length ls - pos" using False that(2) by auto
      from less(1) [OF this that(1) sound_fields_add [OF less(3) that(3,4)]] show ?thesis by auto
    qed
    have child: "sound_node v \<and> Suc pos \<le> q"
      if c: "parse_block ls (Suc pos) (ln_indent (ls ! Suc pos)) = Some (Inr (v, q))" "\<not> length ls \<le> Suc pos" for v q
    proof (cases "hd (ln_text (ls ! Suc pos)) = CHR ''-''")
      case True
      then show ?thesis using c parse_seq_sound parse_seq_forward by (fastforce simp: parse_block_def)
    next
      case not_list: False
      obtain r where r: "block_loop ls (ln_indent (ls ! Suc pos)) [] (Suc pos) = Some r" using block_loop_returns by blast
      obtain lws where "r = Inr (lws, q)" "v = Mapping (ln_number (ls ! Suc pos)) lws"
        using c not_list r by (cases r) (auto simp: parse_block_def as_mapping_def)
      note l = r [unfolded this(1)] this(2)
      have "length ls - Suc pos < length ls - pos" using c(2) by simp
      from less(1) [OF this l(1)] c(2) have "sound_fields lws" "lws \<noteq> []" by (auto simp: sound_fields_def)
      then show ?thesis using l block_loop_returns [of ls "ln_indent (ls ! Suc pos)" "[]" "Suc pos"]
        by (auto simp: sound_fields_def list_all_iff)
    qed
    obtain lhs rhs found where cut: "cut_on CHR '':'' (ln_text (ls ! pos)) = (lhs, rhs, found)" by (metis prod_cases3)
    define ok where "ok \<longleftrightarrow> sound_fields kvs \<and> length out \<le> length kvs \<and> (pos < length ls \<and> ln_indent (ls ! pos) = indent \<longrightarrow> length out < length kvs)"
    have go: ok if "block_loop ls indent (out @ [(k, v)]) q = Some (Inr (kvs, p))" "Suc pos \<le> q" "k \<notin> fst ` set out" "sound_node v" for k v q
      unfolding ok_def by (rule onward [OF that])
    have scalar: ok if "block_loop ls indent (out @ [(k, Scalar n s)]) (Suc pos) = Some (Inr (kvs, p))" "k \<notin> fst ` set out" for k n s
      by (rule go [OF that(1) _ that(2)]) simp_all
    have i: "ln_indent (ls ! pos) = indent"
      using less(2) False by (subst (asm) block_loop_code) (auto simp: Let_def split: if_splits)
    have ok
      using less(2) False
      by (subst (asm) block_loop_code)
        (auto simp: Let_def cut bind_result i dest!: scalar_node_kind split: if_splits sum.splits intro: scalar dest: child go)
    then show ?thesis by (simp add: ok_def)
  qed
qed

lemma parse_block_sound:
  assumes "parse_block ls 0 i = Some (Inr (Mapping n kvs, p))"
  shows "sound_fields kvs"
proof (cases "length ls = 0 \<or> hd (ln_text (ls ! 0)) = CHR ''-''")
  case True
  then show ?thesis using assms by (auto simp: parse_block_def parse_seq_def sound_fields_def split: sum.splits if_splits)
next
  case False
  obtain r where r: "block_loop ls i [] 0 = Some r" using block_loop_returns by blast
  then obtain q where "r = Inr (kvs, q)" using assms False by (cases r) (auto simp: parse_block_def as_mapping_def)
  then show ?thesis using block_loop_sound [of ls i "[]" 0 kvs q] r by (simp add: sound_fields_def)
qed

lemma parse_yaml_sound:
  assumes "parse_yaml src = Some (Inr doc)"
  shows "\<exists>n kvs. doc = Mapping n kvs \<and> sound_fields kvs"
proof -
  obtain ls where ls: "scan_lines src = Inr ls" using assms by (cases "scan_lines src") (auto simp: parse_yaml_def)
  obtain r where r: "parse_block ls 0 0 = Some r" using assms ls by (cases "parse_block ls 0 0") (auto simp: parse_yaml_def)
  obtain p where "r = Inr (doc, p)" "kind_of doc = KindMapping"
    using assms ls r by (cases r) (auto simp: parse_yaml_def split: if_splits)
  then show ?thesis using r parse_block_sound by (cases doc) auto
qed

section \<open>A written document reads back\<close>

fun unnumbered :: "node \<Rightarrow> node" where
  "unnumbered (Scalar n s) = Scalar 0 s"
| "unnumbered (Seq n xs) = Seq 0 (map unnumbered xs)"
| "unnumbered (Mapping n kvs) = Mapping 0 (map (\<lambda>(k, v). (k, unnumbered v)) kvs)"

primrec scalar_of :: "node \<Rightarrow> string" where
  "scalar_of (Scalar n s) = s"
| "scalar_of (Seq n xs) = []"
| "scalar_of (Mapping n kvs) = []"

text \<open>The lines, with their indentation, of a document whose scalars are written as \<open>q\<close> writes them.\<close>

fun lines_of :: "(string \<Rightarrow> string) \<Rightarrow> nat \<Rightarrow> (string \<times> node) list \<Rightarrow> (nat \<times> string) list" where
  "lines_of q ind [] = []"
| "lines_of q ind ((k, Scalar n s) # kvs) = (ind, k @ '': '' @ q s) # lines_of q ind kvs"
| "lines_of q ind ((k, Seq n xs) # kvs) =
     (ind, k @ '':'') # map (\<lambda>x. (ind + 2, ''- '' @ q (scalar_of x))) xs @ lines_of q ind kvs"
| "lines_of q ind ((k, Mapping n sub) # kvs) = (ind, k @ '':'') # lines_of q (ind + 2) sub @ lines_of q ind kvs"

definition name_char :: "char \<Rightarrow> bool" where
  "name_char c \<longleftrightarrow> char_in CHR ''a'' CHR ''z'' c \<or> char_in CHR ''A'' CHR ''Z'' c \<or> is_digit c \<or> c = CHR ''_'' \<or> c = CHR ''-''"

text \<open>A name that is written bare and begins no list and no document.\<close>

definition good_name :: "string \<Rightarrow> bool" where
  "good_name k \<longleftrightarrow> k \<noteq> [] \<and> list_all name_char k \<and> hd k \<noteq> CHR ''-''"

definition comment_free :: "string \<Rightarrow> bool" where
  "comment_free x \<longleftrightarrow> strip_from None (Some CHR '' '') x = x"

text \<open>A value whose writing stays one scalar of one line and reads back as it was.\<close>

definition good_scalar :: "(string \<Rightarrow> string) \<Rightarrow> string \<Rightarrow> bool" where
  "good_scalar q s \<longleftrightarrow> q s \<noteq> [] \<and> space_len (q s) = 0 \<and> space_rlen (rev (q s)) = 0 \<and> comment_free (q s) \<and>
     CHR 0x0A \<notin> set (q s) \<and> (\<forall>n. scalar_node (q s) n = Inr (Scalar n s))"

lemma name_char_not:
  "list_all (\<lambda>c. \<not> name_char c)
     ([CHR '':'', CHR ''#'', CHR 0x22, CHR 0x27, CHR 0x0A, CHR '' '', CHR 0x09, CHR ''.''] @ map hd (ascii_spaces @ wide_spaces))"
  by code_simp

lemma name_char_facts:
  assumes "name_char c"
  shows "plain c" "c \<notin> set [CHR '':'', CHR ''#'', CHR 0x22, CHR 0x27, CHR 0x0A, CHR '' '', CHR 0x09, CHR ''.'']"
proof -
  have "c \<noteq> d" if "d \<in> set ([CHR '':'', CHR ''#'', CHR 0x22, CHR 0x27, CHR 0x0A, CHR '' '', CHR 0x09, CHR ''.''] @ map hd (ascii_spaces @ wide_spaces))" for d
    using name_char_not that assms unfolding list_all_iff by blast
  then show "plain c" "c \<notin> set [CHR '':'', CHR ''#'', CHR 0x22, CHR 0x27, CHR 0x0A, CHR '' '', CHR 0x09, CHR ''.'']"
    unfolding plain_def list_all_iff by (metis UnCI image_eqI set_append set_map)+
qed

lemma spaceless_first: "spaceless k \<Longrightarrow> k \<noteq> [] \<Longrightarrow> space_len k = 0"
  unfolding spaceless_def by (metis append_Nil)

lemma trimmed: "x \<noteq> [] \<Longrightarrow> space_len x = 0 \<Longrightarrow> space_rlen (rev x) = 0 \<Longrightarrow> trim_space (replicate n CHR '' '' @ x) = x"
proof (induction n)
  case 0
  then show ?case by (simp add: trim_space_def trim_left.simps [of x] trim_rev.simps [of "rev x"])
next
  case (Suc n)
  have "trim_left (CHR '' '' # replicate n CHR '' '' @ x) = trim_left (replicate n CHR '' '' @ x)"
    by (subst trim_left.simps) (simp add: space_len_space)
  with Suc show ?case by (simp add: trim_space_def)
qed

lemma spaceless_end:
  assumes "spaceless k" "k \<noteq> []"
  shows "space_rlen (rev k) = 0"
  unfolding space_rlen_0
proof
  fix sp assume sp: "sp \<in> set (ascii_spaces @ wide_spaces)"
  show "\<not> has_prefix (rev k) (rev sp)"
  proof
    assume "has_prefix (rev k) (rev sp)"
    then obtain u where "rev k = rev sp @ u" by (auto simp: has_prefix_iff)
    then have "k = rev u @ sp" by (metis rev_append rev_rev_ident)
    then have "space_len sp = 0" using assms(1) spaces_shape [OF sp] by (auto simp: spaceless_def)
    then show False using sp has_prefix_append [of sp "[]"] unfolding space_len_0 by auto
  qed
qed

text \<open>Nothing before a space is part of what may be trimmed behind it.\<close>

lemma space_rlen_behind_space:
  assumes "x \<noteq> []" "space_rlen (rev x) = 0"
  shows "space_rlen (rev (y @ CHR '' '' # x)) = 0"
  unfolding space_rlen_0
proof
  fix sp assume sp: "sp \<in> set (ascii_spaces @ wide_spaces)"
  show "\<not> has_prefix (rev (y @ CHR '' '' # x)) (rev sp)"
  proof
    assume "has_prefix (rev (y @ CHR '' '' # x)) (rev sp)"
    then obtain r where r: "rev x @ CHR '' '' # rev y = rev sp @ r" by (auto simp: has_prefix_iff)
    then obtain vs where "rev x @ vs = rev sp \<and> CHR '' '' # rev y = vs @ r \<or> rev x = rev sp @ vs"
      by (auto simp: append_eq_append_conv2)
    then consider us where "rev x = rev sp @ us" | us where "rev x @ CHR '' '' # us = rev sp"
      by (cases vs) auto
    then show False
    proof cases
      case 1
      then have "has_prefix (rev x) (rev sp)" by simp
      then show False using assms(2) sp unfolding space_rlen_0 by blast
    next
      case 2
      have "length (rev sp) > 1" "CHR '' '' \<in> set (rev sp)" using assms(1) unfolding 2 [symmetric] by (simp_all add: Suc_lessI)
      then show False using spaces_shape [OF sp] by auto
    qed
  qed
qed

lemma good_name_facts:
  assumes "good_name k"
  shows "k \<noteq> []" "spaceless k" "trim_space k = k" "space_len k = 0" "space_rlen (rev k) = 0" "hd k \<noteq> CHR ''-''" "CHR '':'' \<notin> set k"
    "CHR 0x0A \<notin> set k" "\<forall>c\<in>set k. c \<noteq> CHR ''#'' \<and> c \<noteq> CHR 0x22 \<and> c \<noteq> CHR 0x27" "hd k \<notin> {CHR '' '', CHR 0x09, CHR ''.''}"
proof -
  have c: "plain c \<and> c \<notin> set [CHR '':'', CHR ''#'', CHR 0x22, CHR 0x27, CHR 0x0A, CHR '' '', CHR 0x09, CHR ''.'']" if "c \<in> set k" for c
    using name_char_facts [of c] assms that unfolding good_name_def list_all_iff by blast
  show n: "k \<noteq> []" and "hd k \<noteq> CHR ''-''" using assms by (simp_all add: good_name_def)
  show s: "spaceless k" using plain_spaceless [of k] c by (simp add: list_all_iff)
  show "space_len k = 0" "space_rlen (rev k) = 0" using spaceless_first [OF s n] spaceless_end [OF s n] by simp_all
  then show "trim_space k = k" using trimmed [of k 0] n by simp
  show "CHR '':'' \<notin> set k" "CHR 0x0A \<notin> set k" "\<forall>c\<in>set k. c \<noteq> CHR ''#'' \<and> c \<noteq> CHR 0x22 \<and> c \<noteq> CHR 0x27"
    "hd k \<notin> {CHR '' '', CHR 0x09, CHR ''.''}"
    using c c [of "hd k"] n by fastforce+
qed

lemma good_scalar_trim: "good_scalar q s \<Longrightarrow> trim_space (CHR '' '' # q s) = q s"
  using trimmed [of "q s" 1] by (simp add: good_scalar_def)

definition good_item :: "(string \<Rightarrow> string) \<Rightarrow> node \<Rightarrow> bool" where
  "good_item q x \<longleftrightarrow> kind_of x = KindScalar \<and> good_scalar q (scalar_of x) \<and> \<not> list_of_blocks (q (scalar_of x))"

fun good_fields :: "(string \<Rightarrow> string) \<Rightarrow> (string \<times> node) list \<Rightarrow> bool" where
  "good_fields q [] = True"
| "good_fields q ((k, Scalar n s) # kvs) = (good_name k \<and> k \<notin> fst ` set kvs \<and> good_scalar q s \<and> good_fields q kvs)"
| "good_fields q ((k, Seq n xs) # kvs) = (good_name k \<and> k \<notin> fst ` set kvs \<and> xs \<noteq> [] \<and> list_all (good_item q) xs \<and> good_fields q kvs)"
| "good_fields q ((k, Mapping n sub) # kvs) =
     (good_name k \<and> k \<notin> fst ` set kvs \<and> sub \<noteq> [] \<and> good_fields q sub \<and> good_fields q kvs)"

text \<open>What is left of the lines from a position on.\<close>

definition reads :: "yaml_line list \<Rightarrow> nat \<Rightarrow> (nat \<times> string) list \<Rightarrow> bool" where
  "reads ls pos xs \<longleftrightarrow> map (\<lambda>l. (ln_indent l, ln_text l)) (drop pos ls) = xs"

lemma reads_simps:
  "reads ls pos [] \<longleftrightarrow> length ls \<le> pos"
  "reads ls pos (x # xs) \<longleftrightarrow> pos < length ls \<and> ln_indent (ls ! pos) = fst x \<and> ln_text (ls ! pos) = snd x \<and> reads ls (pos + 1) xs"
proof -
  show "reads ls pos (x # xs) \<longleftrightarrow> pos < length ls \<and> ln_indent (ls ! pos) = fst x \<and> ln_text (ls ! pos) = snd x \<and> reads ls (pos + 1) xs"
  proof (cases "pos < length ls")
    case True
    then show ?thesis by (auto simp: reads_def Cons_nth_drop_Suc [symmetric] prod_eq_iff)
  qed (auto simp: reads_def)
qed (auto simp: reads_def)

lemma reads_append: "reads ls pos (xs @ ys) \<Longrightarrow> reads ls (pos + length xs) ys"
proof (induction xs arbitrary: pos)
  case (Cons x xs)
  then show ?case using Cons.IH [of "pos + 1"] by (simp add: reads_simps)
qed simp

definition ends_before :: "nat \<Rightarrow> (nat \<times> string) list \<Rightarrow> bool" where
  "ends_before ind rest \<longleftrightarrow> rest = [] \<or> fst (hd rest) < ind"

lemma parse_items_written:
  assumes "list_all (good_item q) xs" "reads ls pos (map (\<lambda>x. (ind, ''- '' @ q (scalar_of x))) xs @ rest)" "ends_before ind rest"
  shows "\<exists>ys. parse_items ls ind items pos = Inr (items @ ys, pos + length xs) \<and> map unnumbered ys = map unnumbered xs"
  using assms
proof (induction xs arbitrary: items pos)
  case Nil
  then show ?case
    by (subst parse_items.simps) (cases rest; auto simp: ends_before_def reads_simps Let_def)
next
  case (Cons x xs)
  let ?v = "Scalar (ln_number (ls ! pos)) (scalar_of x)"
  have x: "good_scalar q (scalar_of x)" "\<not> list_of_blocks (q (scalar_of x))" "unnumbered ?v = unnumbered x"
    using Cons.prems(1) by (cases x; simp add: good_item_def)+
  have l: "pos < length ls" "ln_indent (ls ! pos) = ind" "ln_text (ls ! pos) = ''- '' @ q (scalar_of x)"
    using Cons.prems(2) by (simp_all add: reads_simps)
  obtain ys where ys: "parse_items ls ind (items @ [?v]) (pos + 1) = Inr ((items @ [?v]) @ ys, pos + 1 + length xs)"
    "map unnumbered ys = map unnumbered xs"
    using Cons.IH [of "pos + 1" "items @ [?v]"] Cons.prems by (auto simp: reads_simps)
  show ?case
    using l x ys good_scalar_trim [OF x(1)]
    by (intro exI [of _ "?v # ys"]) (subst parse_items.simps, simp add: Let_def good_scalar_def)
qed

lemma parse_seq_written:
  assumes "xs \<noteq> []" "list_all (good_item q) xs" "reads ls pos (map (\<lambda>x. (ind, ''- '' @ q (scalar_of x))) xs @ rest)" "ends_before ind rest"
  shows "\<exists>v. parse_block ls pos ind = Some (Inr (v, pos + length xs)) \<and> unnumbered v = unnumbered (Seq 0 xs)"
proof -
  obtain x zs where "xs = x # zs" using assms(1) by (cases xs) auto
  then have "pos < length ls" "hd (ln_text (ls ! pos)) = CHR ''-''" using assms(3) by (simp_all add: reads_simps)
  moreover obtain ys where "parse_items ls ind [] pos = Inr (ys, pos + length xs)" "map unnumbered ys = map unnumbered xs"
    using parse_items_written [OF assms(2-4), of "[]"] by auto
  ultimately show ?thesis by (auto simp: parse_block_def parse_seq_def)
qed

lemma lines_of_first:
  "good_fields q kvs \<Longrightarrow> kvs \<noteq> [] \<Longrightarrow> \<exists>t r. lines_of q ind kvs = (ind, t) # r \<and> t \<noteq> [] \<and> hd t \<noteq> CHR ''-''"
  by (cases "(q, ind, kvs)" rule: lines_of.cases) (auto dest: good_name_facts(1,6) simp: hd_append)

lemma ends_before_lines:
  "ends_before ind rest \<Longrightarrow> ends_before (ind + 2) (lines_of q ind kvs @ rest)"
  by (cases "(q, ind, kvs)" rule: lines_of.cases) (auto simp: ends_before_def)

lemma cut_written:
  assumes "good_name k"
  shows "cut_on CHR '':'' (k @ '': '' @ x) = (k, '' '' @ x, True)" "cut_on CHR '':'' (k @ '':'') = (k, [], True)"
  using good_name_facts(7) [OF assms] by (simp_all add: cut_on_append)

lemma trim_nothing [simp]: "trim_space [] = []"
  by (simp add: trim_space_def trim_left.simps trim_rev.simps)

definition same_fields_as :: "(string \<times> node) list \<Rightarrow> (string \<times> node) list \<Rightarrow> bool" where
  "same_fields_as kvs lws \<longleftrightarrow> unnumbered (Mapping 0 kvs) = unnumbered (Mapping 0 lws)"

lemma same_fields_as_simps [simp]:
  "same_fields_as [] lws \<longleftrightarrow> lws = []" "same_fields_as lws [] \<longleftrightarrow> lws = []"
  "same_fields_as ((k, v) # kvs) ((l, w) # lws) \<longleftrightarrow> k = l \<and> unnumbered v = unnumbered w \<and> same_fields_as kvs lws"
  by (auto simp: same_fields_as_def)

text \<open>One field whose value is a nested block or a list.\<close>

lemma block_loop_nested:
  assumes "good_name k" "k \<notin> fst ` set out" "pos + 1 < length ls" "ln_indent (ls ! pos) = ind" "ln_text (ls ! pos) = k @ '':''"
    and "ln_indent (ls ! (pos + 1)) = ind + 2" "parse_block ls (pos + 1) (ind + 2) = Some (Inr (v, p))"
  shows "block_loop ls ind out pos = block_loop ls ind (out @ [(k, v)]) p"
proof -
  have "cut_on CHR '':'' (ln_text (ls ! pos)) = (k, [], True)" "trim_space k = k" "k \<noteq> []"
    using cut_written [OF assms(1)] assms(5) good_name_facts [OF assms(1)] by simp_all
  with assms show ?thesis by (subst block_loop_code) (simp add: Let_def)
qed

lemma block_loop_written:
  assumes "good_fields q kvs" "reads ls pos (lines_of q ind kvs @ rest)" "ends_before ind rest"
    and "\<forall>k\<in>fst ` set kvs. k \<notin> fst ` set out"
  shows "\<exists>found. block_loop ls ind out pos = Some (Inr (out @ found, pos + length (lines_of q ind kvs))) \<and> same_fields_as found kvs"
  using assms
proof (induction q ind kvs arbitrary: out pos rest rule: lines_of.induct)
  case (1 q ind)
  then show ?case
    by (subst block_loop.simps) (cases rest; auto simp: ends_before_def reads_simps Let_def)
next
  case (2 q ind k n s kvs)
  let ?v = "Scalar (ln_number (ls ! pos)) s"
  have l: "pos < length ls" "ln_indent (ls ! pos) = ind" "ln_text (ls ! pos) = k @ '': '' @ q s"
    using "2.prems"(2) by (simp_all add: reads_simps)
  have k: "good_name k" "good_scalar q s" "k \<notin> fst ` set out" using "2.prems" by simp_all
  obtain found where "block_loop ls ind (out @ [(k, ?v)]) (pos + 1) = Some (Inr ((out @ [(k, ?v)]) @ found, pos + 1 + length (lines_of q ind kvs)))"
    "same_fields_as found kvs"
    using "2.IH" [of "pos + 1" rest "out @ [(k, ?v)]"] "2.prems" by (auto simp: reads_simps)
  moreover have "block_loop ls ind out pos = block_loop ls ind (out @ [(k, ?v)]) (pos + 1)"
    using l k cut_written [OF k(1)] good_name_facts(1,3) [OF k(1)] good_scalar_trim [OF k(2)]
    by (subst block_loop_code) (auto simp: Let_def good_scalar_def)
  ultimately show ?case by (intro exI [of _ "(k, ?v) # found"]) simp
next
  case (3 q ind k n xs kvs)
  let ?ls = "map (\<lambda>x. (ind + 2, ''- '' @ q (scalar_of x))) xs"
  have l: "pos < length ls" "ln_indent (ls ! pos) = ind" "ln_text (ls ! pos) = k @ '':''"
    and r: "reads ls (pos + 1) (?ls @ lines_of q ind kvs @ rest)"
    using "3.prems"(2) by (simp_all add: reads_simps)
  have k: "good_name k" "xs \<noteq> []" "list_all (good_item q) xs" "k \<notin> fst ` set out" using "3.prems" by simp_all
  obtain v where v: "parse_block ls (pos + 1) (ind + 2) = Some (Inr (v, pos + 1 + length xs))" "unnumbered v = unnumbered (Seq 0 xs)"
    using parse_seq_written [OF k(2,3) r ends_before_lines [OF "3.prems"(3)]] by auto
  have "pos + 1 < length ls" "ln_indent (ls ! (pos + 1)) = ind + 2" using r k(2) by (cases xs; simp add: reads_simps)+
  from block_loop_nested [OF k(1,4) this(1) l(2,3) this(2) v(1)]
  have step: "block_loop ls ind out pos = block_loop ls ind (out @ [(k, v)]) (pos + 1 + length xs)" .
  have "reads ls (pos + 1 + length xs) (lines_of q ind kvs @ rest)"
    using reads_append [OF r] by simp
  then obtain found where "block_loop ls ind (out @ [(k, v)]) (pos + 1 + length xs) =
      Some (Inr ((out @ [(k, v)]) @ found, pos + 1 + length xs + length (lines_of q ind kvs)))" "same_fields_as found kvs"
    using "3.IH" [of "pos + 1 + length xs" rest "out @ [(k, v)]"] "3.prems" by (auto simp: reads_simps)
  then show ?case using step v(2) by (intro exI [of _ "(k, v) # found"]) simp
next
  case (4 q ind k n sub kvs)
  have l: "pos < length ls" "ln_indent (ls ! pos) = ind" "ln_text (ls ! pos) = k @ '':''"
    and r: "reads ls (pos + 1) (lines_of q (ind + 2) sub @ lines_of q ind kvs @ rest)"
    using "4.prems"(2) by (simp_all add: reads_simps)
  have k: "good_name k" "sub \<noteq> []" "good_fields q sub" "k \<notin> fst ` set out" using "4.prems" by simp_all
  let ?p = "pos + 1 + length (lines_of q (ind + 2) sub)"
  obtain lws where w: "block_loop ls (ind + 2) [] (pos + 1) = Some (Inr (lws, ?p))" "same_fields_as lws sub"
    using "4.IH"(1) [OF k(3) r ends_before_lines [OF "4.prems"(3)], of "[]"] by auto
  obtain t u where t: "lines_of q (ind + 2) sub = (ind + 2, t) # u" "hd t \<noteq> CHR ''-''" using lines_of_first [OF k(3,2)] by blast
  then have "pos + 1 < length ls" "ln_indent (ls ! (pos + 1)) = ind + 2" "hd (ln_text (ls ! (pos + 1))) \<noteq> CHR ''-''"
    using r by (simp_all add: reads_simps)
  moreover define v where "v = Mapping (ln_number (ls ! (pos + 1))) lws"
  ultimately have v: "parse_block ls (pos + 1) (ind + 2) = Some (Inr (v, ?p))" using w(1) by (simp add: parse_block_def as_mapping_def)
  from block_loop_nested [OF k(1,4) \<open>pos + 1 < length ls\<close> l(2,3) \<open>ln_indent (ls ! (pos + 1)) = ind + 2\<close> v]
  have step: "block_loop ls ind out pos = block_loop ls ind (out @ [(k, v)]) ?p" .
  have "reads ls ?p (lines_of q ind kvs @ rest)"
    using reads_append [OF r] by simp
  then obtain found where "block_loop ls ind (out @ [(k, v)]) ?p = Some (Inr ((out @ [(k, v)]) @ found, ?p + length (lines_of q ind kvs)))"
    "same_fields_as found kvs"
    using "4.IH"(2) [of ?p rest "out @ [(k, v)]"] "4.prems" by (auto simp: reads_simps)
  then show ?case using step w(2) by (intro exI [of _ "(k, v) # found"]) (simp add: v_def same_fields_as_def)
qed

section \<open>Writing and scanning\<close>

definition source_line :: "(nat \<times> string) option \<Rightarrow> string" where
  "source_line x = (case x of None \<Rightarrow> [] | Some (ind, t) \<Rightarrow> replicate ind CHR '' '' @ t)"

primrec kept :: "'a option list \<Rightarrow> 'a list" where
  "kept [] = []"
| "kept (x # xs) = (case x of None \<Rightarrow> kept xs | Some y \<Rightarrow> y # kept xs)"

text \<open>A text line that scanning leaves as it is.\<close>

definition good_text :: "string \<Rightarrow> bool" where
  "good_text t \<longleftrightarrow> t \<noteq> [] \<and> space_len t = 0 \<and> space_rlen (rev t) = 0 \<and> hd t \<notin> {CHR '' '', CHR 0x09, CHR ''.''} \<and> CHR 0x0A \<notin> set t \<and>
     (\<forall>p. p = None \<or> p = Some CHR '' '' \<longrightarrow> strip_from None p t = t)"

definition good_line :: "nat \<times> string \<Rightarrow> bool" where
  "good_line x \<longleftrightarrow> good_text (snd x) \<and> (fst x = 0 \<longrightarrow> hd (snd x) \<noteq> CHR ''-'')"

lemma strip_clean:
  "\<forall>c\<in>set s. c \<noteq> CHR ''#'' \<and> c \<noteq> CHR 0x22 \<and> c \<noteq> CHR 0x27 \<Longrightarrow>
     strip_from None p (s @ t) = s @ strip_from None (if s = [] then p else Some (last s)) t"
  by (induction s arbitrary: p) auto

lemma strip_no_hash: "CHR ''#'' \<notin> set s \<Longrightarrow> strip_from q p s = s"
  by (induction q p s rule: strip_from.induct) auto

lemma not_space_last: "x \<noteq> [] \<Longrightarrow> space_rlen (rev x) = 0 \<Longrightarrow> last x \<noteq> CHR '' ''"
proof
  assume a: "x \<noteq> []" "space_rlen (rev x) = 0" "last x = CHR '' ''"
  have "has_prefix (rev x) [CHR '' '']" using a(1,3) by (cases x rule: rev_cases) auto
  then show False using a(2) unfolding space_rlen_0 by (auto simp: ascii_spaces_def)
qed

lemma scan_line_good:
  assumes "good_line (ind, t)"
  shows "scan_line n (replicate ind CHR '' '' @ t) = Inr (Some \<lparr>ln_number = n, ln_indent = ind, ln_text = t\<rparr>)"
proof -
  let ?x = "replicate ind CHR '' '' @ t"
  have t: "t \<noteq> []" "space_len t = 0" "space_rlen (rev t) = 0" "hd t \<noteq> CHR '' ''" "hd t \<noteq> CHR 0x09" "hd t \<noteq> CHR ''.''"
    "ind = 0 \<longrightarrow> hd t \<noteq> CHR ''-''" "strip_from None (if ind = 0 then None else Some CHR '' '') t = t"
    using assms by (auto simp: good_line_def good_text_def)
  obtain a u where a: "t = a # u" using t(1) by (cases t) auto
  have "\<not> has_prefix ?x ''---''" "\<not> has_prefix ?x ''...''" using t(6,7) a by (cases ind; simp)+
  moreover have strip: "strip_comment ?x = ?x" using t(8) strip_clean [of "replicate ind CHR '' ''" None t] by (auto simp: strip_comment_def)
  moreover have "trim_right_blanks ?x = ?x"
  proof -
    obtain v b where "t = v @ [b]" using t(1) by (cases t rule: rev_cases) auto
    then show ?thesis using not_space_last [OF t(1,3)] by (simp add: trim_right_blanks_def)
  qed
  moreover have "trim_space ?x = t" using trimmed [OF t(1-3)] .
  moreover have "takeWhile (\<lambda>c. c = CHR '' '') ?x = replicate ind CHR '' ''" "dropWhile (\<lambda>c. c = CHR '' '') ?x = t"
    using t(4) a by (simp_all add: takeWhile_append dropWhile_append)
  ultimately show ?thesis using t(1,5) a by (simp add: scan_line_def Let_def)
qed

lemma scan_line_blank: "scan_line n [] = Inr None"
  by (simp add: scan_line_def Let_def strip_comment_def trim_right_blanks_def)

lemma scan_from_written:
  "\<forall>x. Some x \<in> set xs \<longrightarrow> good_line x \<Longrightarrow>
     \<exists>ls. scan_from n (map source_line xs) = Inr ls \<and> map (\<lambda>l. (ln_indent l, ln_text l)) ls = kept xs"
proof (induction xs arbitrary: n)
  case (Cons x xs)
  obtain ls where ls: "scan_from (n + 1) (map source_line xs) = Inr ls" "map (\<lambda>l. (ln_indent l, ln_text l)) ls = kept xs"
    using Cons.IH [of "n + 1"] Cons.prems by auto
  show ?case
  proof (cases x)
    case None
    then have "scan_line n (source_line x) = Inr None" by (simp add: source_line_def scan_line_blank)
    then show ?thesis using ls None by simp
  next
    case (Some y)
    obtain ind t where y: "y = (ind, t)" by fastforce
    have "good_line (ind, t)" using Cons.prems Some y by simp
    from scan_line_good [OF this, of n]
    have "scan_line n (source_line x) = Inr (Some \<lparr>ln_number = n, ln_indent = ind, ln_text = t\<rparr>)"
      using Some y by (simp add: source_line_def)
    then show ?thesis using Some y ls by simp
  qed
qed simp

lemma split_on_lines:
  "\<forall>r\<in>set raws. c \<notin> set r \<Longrightarrow> split_on c (concat (map (\<lambda>r. r @ [c]) raws)) = raws @ [[]]"
  by (induction raws) (simp_all add: split_on_append)

lemma plain_mark: "plain CHR '':''" "plain CHR ''-''"
  by code_simp+

lemma good_text_name:
  assumes "good_name k"
  shows "good_text (k @ '':'')"
proof -
  note k = good_name_facts [OF assms]
  have "list_all plain (k @ '':'')" using assms name_char_facts(1) plain_mark by (auto simp: good_name_def list_all_iff)
  then have "spaceless (k @ '':'')" by (rule plain_spaceless)
  then have "space_len (k @ '':'') = 0" "space_rlen (rev (k @ '':'')) = 0" using spaceless_first spaceless_end by blast+
  moreover have "strip_from None p (k @ '':'') = k @ '':''" for p by (rule strip_no_hash) (use k(9) in auto)
  ultimately show ?thesis using k(1,8,10) by (simp add: good_text_def hd_append)
qed

text \<open>A value after a mark and a space.\<close>

lemma good_text_value:
  assumes "good_text m" "list_all plain m" "\<forall>c\<in>set m. c \<noteq> CHR ''#'' \<and> c \<noteq> CHR 0x22 \<and> c \<noteq> CHR 0x27" "good_scalar q s"
  shows "good_text (m @ '' '' @ q s)"
proof -
  have m: "m \<noteq> []" "space_len m = 0" using assms(1) by (simp_all add: good_text_def)
  have x: "q s \<noteq> []" "space_rlen (rev (q s)) = 0" "strip_from None (Some CHR '' '') (q s) = q s" "CHR 0x0A \<notin> set (q s)"
    using assms(4) by (simp_all add: good_scalar_def comment_free_def)
  have "space_len (m @ CHR '' '' # q s) = 0" by (rule space_len_before_space [OF m])
  moreover have "space_rlen (rev (m @ CHR '' '' # q s)) = 0" by (rule space_rlen_behind_space [OF x(1,2)])
  moreover have "strip_from None p (m @ CHR '' '' # q s) = m @ CHR '' '' # q s" for p
    using strip_clean [of "m @ '' ''" p "q s"] assms(3) x(3) by auto
  ultimately show ?thesis using assms(1) m(1) x(4) by (simp add: good_text_def hd_append)
qed

lemma good_text_field: "good_name k \<Longrightarrow> good_scalar q s \<Longrightarrow> good_text (k @ '': '' @ q s)"
  using good_text_value [OF good_text_name, of k q s] good_name_facts(9) [of k] name_char_facts(1) plain_mark
  by (auto simp: good_name_def list_all_iff)

lemma good_text_item: "good_scalar q s \<Longrightarrow> good_text (''- '' @ q s)"
proof -
  assume q: "good_scalar q s"
  have "spaceless ''-''" by (rule plain_spaceless) (simp add: plain_mark)
  then have "good_text ''-''" using spaceless_first [of "''-''"] spaceless_end [of "''-''"] by (simp add: good_text_def)
  from good_text_value [OF this _ _ q] show ?thesis by (simp add: plain_mark)
qed

lemma lines_of_good:
  assumes "good_fields q kvs" "x \<in> set (lines_of q ind kvs)"
  shows "good_text (snd x) \<and> ind \<le> fst x \<and> (fst x = ind \<longrightarrow> hd (snd x) \<noteq> CHR ''-'')"
  using assms
proof (induction q ind kvs rule: lines_of.induct)
  case (2 q ind k n s kvs)
  then show ?case using good_text_field [of k q s] good_name_facts(1,6) [of k] by (auto simp: hd_append)
next
  case (3 q ind k n xs kvs)
  then show ?case
    using good_text_name [of k] good_text_item [of q] good_name_facts(1,6) [of k] by (auto simp: hd_append good_item_def list_all_iff)
next
  case (4 q ind k n sub kvs)
  have k: "good_name k" "good_fields q sub" "good_fields q kvs" using "4.prems"(1) by simp_all
  consider "x = (ind, k @ '':'')" | "x \<in> set (lines_of q (ind + 2) sub)" | "x \<in> set (lines_of q ind kvs)"
    using "4.prems"(2) by auto
  then show ?case
  proof cases
    case 1
    then show ?thesis using good_text_name [OF k(1)] good_name_facts(1,6) [OF k(1)] by (simp add: hd_append)
  next
    case 2
    then show ?thesis using "4.IH"(1) [OF k(2)] by auto
  qed (use "4.IH"(2) k(3) in blast)
qed simp

text \<open>A document that was written field by field, with blank lines in between, is read back.\<close>

lemma kept_in: "Some x \<in> set xs \<longleftrightarrow> x \<in> set (kept xs)"
  by (induction xs) (auto split: option.splits)

lemma written_document_reads_back:
  assumes "good_fields q kvs" "kvs \<noteq> []" "kept xs = lines_of q 0 kvs"
  shows "\<exists>n lws. parse_yaml (concat (map (\<lambda>r. r @ [CHR 0x0A]) (map source_line xs))) = Some (Inr (Mapping n lws)) \<and> same_fields_as lws kvs"
proof -
  have good: "good_line x" if "Some x \<in> set xs" for x
    using lines_of_good [OF assms(1), of x 0] that assms(3) by (auto simp: good_line_def kept_in)
  have "CHR 0x0A \<notin> set (source_line x)" if "x \<in> set xs" for x
    using good that by (cases x) (auto simp: source_line_def good_line_def good_text_def)
  then have split: "split_on CHR 0x0A (concat (map (\<lambda>r. r @ [CHR 0x0A]) (map source_line xs))) = map source_line (xs @ [None])"
    by (subst split_on_lines) (auto simp: source_line_def)
  obtain ls where ls: "scan_from 1 (map source_line (xs @ [None])) = Inr ls" "map (\<lambda>l. (ln_indent l, ln_text l)) ls = kept (xs @ [None])"
    using scan_from_written [of "xs @ [None]" 1] good by auto
  have "kept (xs @ [None]) = kept xs" by (induction xs) (auto split: option.split)
  then have r: "reads ls 0 (lines_of q 0 kvs @ [])" using ls(2) assms(3) by (simp add: reads_def)
  obtain lws where l: "block_loop ls 0 [] 0 = Some (Inr (lws, length (lines_of q 0 kvs)))" "same_fields_as lws kvs"
    using block_loop_written [OF assms(1) r, of "[]"] by (auto simp: ends_before_def)
  obtain t u where t: "lines_of q 0 kvs = (0, t) # u" "hd t \<noteq> CHR ''-''" using lines_of_first [OF assms(1,2)] by blast
  have "0 < length ls" "hd (ln_text (ls ! 0)) \<noteq> CHR ''-''" using r t by (simp_all add: reads_simps)
  moreover have "length ls = length (lines_of q 0 kvs)" using arg_cong [OF r [unfolded reads_def], of length] by simp
  ultimately show ?thesis
    using l split ls(1) by (simp add: parse_yaml_def scan_lines_def parse_block_def as_mapping_def)
qed

end
