(* ===== verification/Environment.thy ===== *)
theory Environment
  imports Yaml
begin

text \<open>
  The declaration \<open>feint.yaml\<close> (\<open>internal/environment/environment.go\<close>, \<open>ready.go\<close>): the
  schema as a table of fields with what each takes, the walk that assigns every key of a
  document or refuses it by name, the rules across fields, and the ready conditions.
\<close>

section \<open>Ready conditions\<close>

datatype condition_kind = HTTPCondition | TCPCondition | ResourceCondition | ServiceCondition

record condition =
  cn_kind :: condition_kind
  cn_raw :: string
  cn_path :: string
  cn_address :: string
  cn_resource :: string
  cn_count :: int
  cn_name :: string
  cn_port :: int

datatype condition_error =
    NotACondition
  | HTTPPath
  | TCPAddress
  | TCPPort string
  | ResourceKind
  | ResourceCount string
  | ServiceName
  | ServicePort string

definition blank_condition :: "condition_kind \<Rightarrow> string \<Rightarrow> condition" where
  "blank_condition k raw =
     \<lparr>cn_kind = k, cn_raw = raw, cn_path = [], cn_address = [], cn_resource = [], cn_count = 0, cn_name = [], cn_port = 0\<rparr>"

definition parse_condition :: "string \<Rightarrow> condition_error + condition" where
  "parse_condition raw =
     (case cut_on CHR '':'' raw of (kind, rest, ok) \<Rightarrow>
        if \<not> ok \<or> rest = [] then Inl NotACondition
        else if kind = ''http'' then
          (if \<not> has_prefix rest ''/'' then Inl HTTPPath
           else Inr ((blank_condition HTTPCondition raw)\<lparr>cn_path := rest\<rparr>))
        else if kind = ''tcp'' then
          (case cut_on CHR '':'' rest of (host, port, split) \<Rightarrow>
             if \<not> split \<or> host = [] \<or> port = [] then Inl TCPAddress
             else if atoi port = None then Inl (TCPPort port)
             else Inr ((blank_condition TCPCondition raw)\<lparr>cn_address := rest\<rparr>))
        else if kind = ''resource'' then
          (case cut_on CHR '':'' rest of (name, wanted, split) \<Rightarrow>
             if name = [] then Inl ResourceKind
             else if split then
               (case atoi wanted of
                  None \<Rightarrow> Inl (ResourceCount wanted)
                | Some n \<Rightarrow>
                    if n < 1 then Inl (ResourceCount wanted)
                    else Inr ((blank_condition ResourceCondition raw)\<lparr>cn_resource := name, cn_count := n\<rparr>))
             else Inr ((blank_condition ResourceCondition raw)\<lparr>cn_resource := name, cn_count := 1\<rparr>))
        else if kind = ''service'' then
          (case cut_on CHR '':'' rest of (name, port, split) \<Rightarrow>
             if \<not> split \<or> name = [] \<or> port = [] then Inl ServiceName
             else
               (case atoi port of
                  None \<Rightarrow> Inl (ServicePort port)
                | Some n \<Rightarrow>
                    if n < 1 \<or> n > 65535 then Inl (ServicePort port)
                    else Inr ((blank_condition ServiceCondition raw)\<lparr>cn_name := name, cn_port := n\<rparr>)))
        else Inl NotACondition)"

definition describe :: "condition \<Rightarrow> string" where
  "describe c =
     (case cn_kind c of
        HTTPCondition \<Rightarrow> ''the emulator answers '' @ cn_path c
      | TCPCondition \<Rightarrow> cn_address c @ '' accepts a connection''
      | ResourceCondition \<Rightarrow>
          (if cn_count c = 1 then ''the emulator holds a '' @ cn_resource c
           else ''the emulator holds '' @ itoa (cn_count c) @ '' '' @ cn_resource c @ '' resources'')
      | ServiceCondition \<Rightarrow> cn_name c @ '' answers on port '' @ itoa (cn_port c))"

section \<open>A declaration\<close>

record env_file =
  ef_path :: string
  ef_version :: int
  ef_provider :: string
  ef_projects :: "string list"
  ef_addr :: string
  ef_state :: string
  ef_contracts :: string
  ef_log_level :: string
  ef_cleanup :: bool
  ef_env :: "(string \<times> string) list"
  ef_mode :: string
  ef_images :: "string list"
  ef_load :: string
  ef_engine :: string
  ef_directory :: string
  ef_vars :: "(string \<times> string) list"
  ef_ready :: "string list"
  ef_declared :: "string set"

definition version_read :: int where
  "version_read = 1"

definition engines :: "string list" where
  "engines = [''terraform'', ''opentofu'']"

definition runtime_modes :: "string list" where
  "runtime_modes = [''off'', ''incus'', ''incus-vm'', ''incus-ovn'', ''auto'']"

definition log_levels :: "string list" where
  "log_levels = [''error'', ''warn'', ''info'', ''debug'']"

definition endpoint_token :: string where
  "endpoint_token = ''$'' @ [CHR 0x7B] @ ''feint.endpoint'' @ [CHR 0x7D]"

definition conditions :: "env_file \<Rightarrow> condition list" where
  "conditions f = concat (map (\<lambda>raw. case parse_condition raw of Inl e \<Rightarrow> [] | Inr c \<Rightarrow> [c]) (ef_ready f))"

definition declared_path :: "env_file \<Rightarrow> string \<Rightarrow> bool" where
  "declared_path f path \<longleftrightarrow> path \<in> ef_declared f"

definition endpoint :: "env_file \<Rightarrow> string" where
  "endpoint f = ''http://'' @ (if has_prefix (ef_addr f) '':'' then ''127.0.0.1'' @ ef_addr f else ef_addr f)"

text \<open>\<open>strings.ReplaceAll\<close> of a word that is not empty.\<close>

function replace_all :: "string \<Rightarrow> string \<Rightarrow> string \<Rightarrow> string" where
  "replace_all old new s =
     (if s = [] \<or> old = [] then s
      else if has_prefix s old then new @ replace_all old new (drop (length old) s)
      else hd s # replace_all old new (tl s))"
  by pat_completeness auto
termination
  by (relation "measure (\<lambda>(old, new, s). length s)") auto

declare replace_all.simps [simp del]

definition engine_vars :: "env_file \<Rightarrow> (string \<times> string) list" where
  "engine_vars f = map (\<lambda>(name, v). (name, replace_all endpoint_token (endpoint f) v)) (ef_vars f)"

section \<open>What a field takes\<close>

datatype field_error =
    TakesValue node_kind
  | EmptyValue
  | TakesNumber node_kind
  | NotANumber string
  | TakesBool node_kind
  | NotABool string
  | TakesOneOf "string list" node_kind
  | NotOneOf "string list" string
  | TakesList node_kind
  | TakesNames node_kind
  | NameTakesValue string node_kind
  | NotAFeintName string
  | NotAnEnvName string
  | NamelessVariable
  | BadVariableStart string
  | BadVariableName string
  | NotAnImage string
  | BadCondition string condition_error

definition scalar_into :: "node \<Rightarrow> field_error + string" where
  "scalar_into n =
     (if kind_of n \<noteq> KindScalar then Inl (TakesValue (kind_of n))
      else if scalar_of n = [] then Inl EmptyValue
      else Inr (scalar_of n))"

definition scalar_int :: "node \<Rightarrow> field_error + int" where
  "scalar_int n =
     (if kind_of n \<noteq> KindScalar then Inl (TakesNumber (kind_of n))
      else (case atoi (scalar_of n) of None \<Rightarrow> Inl (NotANumber (scalar_of n)) | Some v \<Rightarrow> Inr v))"

definition scalar_bool :: "node \<Rightarrow> field_error + bool" where
  "scalar_bool n =
     (if kind_of n \<noteq> KindScalar then Inl (TakesBool (kind_of n))
      else if scalar_of n = ''true'' then Inr True
      else if scalar_of n = ''false'' then Inr False
      else Inl (NotABool (scalar_of n)))"

definition scalar_one_of :: "node \<Rightarrow> string list \<Rightarrow> field_error + string" where
  "scalar_one_of n allowed =
     (if kind_of n \<noteq> KindScalar then Inl (TakesOneOf allowed (kind_of n))
      else if scalar_of n \<notin> set allowed then Inl (NotOneOf allowed (scalar_of n))
      else Inr (scalar_of n))"

definition scalar_values :: "node \<Rightarrow> field_error + string list" where
  "scalar_values n = (case n of Seq l xs \<Rightarrow> Inr (map scalar_of xs) | _ \<Rightarrow> Inl (TakesList (kind_of n)))"

fun names_from :: "(string \<Rightarrow> field_error option) \<Rightarrow> (string \<times> node) list \<Rightarrow> field_error + (string \<times> string) list" where
  "names_from check [] = Inr []"
| "names_from check ((name, child) # kvs) =
     (if kind_of child \<noteq> KindScalar then Inl (NameTakesValue name (kind_of child))
      else
        (case check name of
           Some e \<Rightarrow> Inl e
         | None \<Rightarrow> map_sum id ((#) (name, scalar_of child)) (names_from check kvs)))"

definition scalar_map :: "node \<Rightarrow> (string \<Rightarrow> field_error option) \<Rightarrow> field_error + (string \<times> string) list" where
  "scalar_map n check = (case n of Mapping l kvs \<Rightarrow> names_from check kvs | _ \<Rightarrow> Inl (TakesNames (kind_of n)))"

definition env_char :: "char \<Rightarrow> bool" where
  "env_char c \<longleftrightarrow> char_in CHR ''A'' CHR ''Z'' c \<or> is_digit c \<or> c = CHR ''_''"

definition check_env_name :: "string \<Rightarrow> field_error option" where
  "check_env_name name =
     (if \<not> has_prefix name ''FEINT_'' then Some (NotAFeintName name)
      else if \<not> list_all env_char name then Some (NotAnEnvName name)
      else None)"

definition var_letter :: "char \<Rightarrow> bool" where
  "var_letter c \<longleftrightarrow> char_in CHR ''a'' CHR ''z'' c \<or> char_in CHR ''A'' CHR ''Z'' c \<or> c = CHR ''_''"

definition check_var_name :: "string \<Rightarrow> field_error option" where
  "check_var_name name =
     (if name = [] then Some NamelessVariable
      else if \<not> var_letter (hd name) then Some (BadVariableStart name)
      else if \<not> list_all (\<lambda>c. var_letter c \<or> is_digit c \<or> c = CHR ''-'') name then Some (BadVariableName name)
      else None)"

section \<open>The schema\<close>

definition assign_version :: "env_file \<Rightarrow> node \<Rightarrow> field_error + env_file" where
  "assign_version f n = map_sum id (\<lambda>v. f\<lparr>ef_version := v\<rparr>) (scalar_int n)"

definition assign_provider :: "env_file \<Rightarrow> node \<Rightarrow> field_error + env_file" where
  "assign_provider f n = map_sum id (\<lambda>v. f\<lparr>ef_provider := v\<rparr>) (scalar_into n)"

definition assign_projects :: "env_file \<Rightarrow> node \<Rightarrow> field_error + env_file" where
  "assign_projects f n = map_sum id (\<lambda>v. f\<lparr>ef_projects := v\<rparr>) (scalar_values n)"

definition assign_addr :: "env_file \<Rightarrow> node \<Rightarrow> field_error + env_file" where
  "assign_addr f n = map_sum id (\<lambda>v. f\<lparr>ef_addr := v\<rparr>) (scalar_into n)"

definition assign_state :: "env_file \<Rightarrow> node \<Rightarrow> field_error + env_file" where
  "assign_state f n = map_sum id (\<lambda>v. f\<lparr>ef_state := v\<rparr>) (scalar_into n)"

definition assign_contracts :: "env_file \<Rightarrow> node \<Rightarrow> field_error + env_file" where
  "assign_contracts f n = map_sum id (\<lambda>v. f\<lparr>ef_contracts := v\<rparr>) (scalar_into n)"

definition assign_log_level :: "env_file \<Rightarrow> node \<Rightarrow> field_error + env_file" where
  "assign_log_level f n = map_sum id (\<lambda>v. f\<lparr>ef_log_level := v\<rparr>) (scalar_into n)"

definition assign_cleanup :: "env_file \<Rightarrow> node \<Rightarrow> field_error + env_file" where
  "assign_cleanup f n = map_sum id (\<lambda>v. f\<lparr>ef_cleanup := v\<rparr>) (scalar_bool n)"

definition assign_env :: "env_file \<Rightarrow> node \<Rightarrow> field_error + env_file" where
  "assign_env f n = map_sum id (\<lambda>v. f\<lparr>ef_env := v\<rparr>) (scalar_map n check_env_name)"

definition assign_mode :: "env_file \<Rightarrow> node \<Rightarrow> field_error + env_file" where
  "assign_mode f n = map_sum id (\<lambda>v. f\<lparr>ef_mode := v\<rparr>) (scalar_one_of n runtime_modes)"

definition assign_images :: "env_file \<Rightarrow> node \<Rightarrow> field_error + env_file" where
  "assign_images f n =
     (case scalar_values n of
        Inl e \<Rightarrow> Inl e
      | Inr names \<Rightarrow>
          (case find (\<lambda>name. CHR ''/'' \<notin> set name) names of
             Some name \<Rightarrow> Inl (NotAnImage name)
           | None \<Rightarrow> Inr (f\<lparr>ef_images := names\<rparr>)))"

definition assign_load :: "env_file \<Rightarrow> node \<Rightarrow> field_error + env_file" where
  "assign_load f n = map_sum id (\<lambda>v. f\<lparr>ef_load := v\<rparr>) (scalar_into n)"

definition assign_engine :: "env_file \<Rightarrow> node \<Rightarrow> field_error + env_file" where
  "assign_engine f n = map_sum id (\<lambda>v. f\<lparr>ef_engine := v\<rparr>) (scalar_one_of n engines)"

definition assign_directory :: "env_file \<Rightarrow> node \<Rightarrow> field_error + env_file" where
  "assign_directory f n = map_sum id (\<lambda>v. f\<lparr>ef_directory := v\<rparr>) (scalar_into n)"

definition assign_vars :: "env_file \<Rightarrow> node \<Rightarrow> field_error + env_file" where
  "assign_vars f n = map_sum id (\<lambda>v. f\<lparr>ef_vars := v\<rparr>) (scalar_map n check_var_name)"

fun first_bad_condition :: "string list \<Rightarrow> field_error option" where
  "first_bad_condition [] = None"
| "first_bad_condition (item # items) =
     (case parse_condition item of
        Inl e \<Rightarrow> Some (BadCondition item e)
      | Inr c \<Rightarrow> first_bad_condition items)"

definition assign_ready :: "env_file \<Rightarrow> node \<Rightarrow> field_error + env_file" where
  "assign_ready f n =
     (case scalar_values n of
        Inl e \<Rightarrow> Inl e
      | Inr items \<Rightarrow>
          (case first_bad_condition items of
             Some e \<Rightarrow> Inl e
           | None \<Rightarrow> Inr (f\<lparr>ef_ready := items\<rparr>)))"

record env_field =
  fd_path :: string
  fd_read_by :: "string list"
  fd_assign :: "env_file \<Rightarrow> node \<Rightarrow> field_error + env_file"

text \<open>The table, without the prose of its reference page.\<close>

definition env_fields :: "env_field list" where
  "env_fields =
    [\<lparr>fd_path = ''version'', fd_read_by = [''up'', ''down''], fd_assign = assign_version\<rparr>,
     \<lparr>fd_path = ''cloud.provider'', fd_read_by = [''up'', ''down''], fd_assign = assign_provider\<rparr>,
     \<lparr>fd_path = ''cloud.projects'', fd_read_by = [''up''], fd_assign = assign_projects\<rparr>,
     \<lparr>fd_path = ''emulator.addr'', fd_read_by = [''up'', ''down''], fd_assign = assign_addr\<rparr>,
     \<lparr>fd_path = ''emulator.state'', fd_read_by = [''up''], fd_assign = assign_state\<rparr>,
     \<lparr>fd_path = ''emulator.contracts'', fd_read_by = [''up''], fd_assign = assign_contracts\<rparr>,
     \<lparr>fd_path = ''emulator.log_level'', fd_read_by = [''up''], fd_assign = assign_log_level\<rparr>,
     \<lparr>fd_path = ''emulator.cleanup'', fd_read_by = [''up''], fd_assign = assign_cleanup\<rparr>,
     \<lparr>fd_path = ''emulator.env'', fd_read_by = [''up''], fd_assign = assign_env\<rparr>,
     \<lparr>fd_path = ''runtime.mode'', fd_read_by = [''up''], fd_assign = assign_mode\<rparr>,
     \<lparr>fd_path = ''runtime.images'', fd_read_by = [''up''], fd_assign = assign_images\<rparr>,
     \<lparr>fd_path = ''snapshot.load'', fd_read_by = [''up''], fd_assign = assign_load\<rparr>,
     \<lparr>fd_path = ''iac.engine'', fd_read_by = [''up'', ''down''], fd_assign = assign_engine\<rparr>,
     \<lparr>fd_path = ''iac.directory'', fd_read_by = [''up'', ''down''], fd_assign = assign_directory\<rparr>,
     \<lparr>fd_path = ''iac.vars'', fd_read_by = [''up'', ''down''], fd_assign = assign_vars\<rparr>,
     \<lparr>fd_path = ''ready'', fd_read_by = [''up''], fd_assign = assign_ready\<rparr>]"

definition field_by_path :: "string \<Rightarrow> env_field option" where
  "field_by_path path = find (\<lambda>fd. fd_path fd = path) env_fields"

definition branches :: "string list" where
  "branches = [''cloud'', ''emulator'', ''runtime'', ''snapshot'', ''iac'']"

definition is_branch :: "string \<Rightarrow> bool" where
  "is_branch path \<longleftrightarrow> path \<in> set branches"

definition not_carried :: "string list" where
  "not_carried = [''emulator.coverage'', ''emulator.shapes'', ''emulator.expose_to_network'', ''proxy'']"

text \<open>The parent and the leaf of a path, cut at its last dot.\<close>

definition split_path :: "string \<Rightarrow> string \<times> string" where
  "split_path path =
     (if CHR ''.'' \<notin> set path then ([], path)
      else (rev (tl (dropWhile (\<lambda>c. c \<noteq> CHR ''.'') (rev path))), rev (takeWhile (\<lambda>c. c \<noteq> CHR ''.'') (rev path))))"

definition siblings :: "string \<Rightarrow> string list" where
  "siblings prefix =
     sort (map (snd \<circ> split_path) (filter (\<lambda>p. fst (split_path p) = prefix) (map fd_path env_fields @ branches)))"

section \<open>Reading a declaration\<close>

datatype env_error =
    NotRead yaml_error
  | NotCarried nat string
  | TakesFields nat string node_kind
  | UnknownField nat string "string list"
  | BadField nat string field_error
  | NoVersion
  | OtherVersion int
  | NoEngine
  | BadLogLevel string
  | SnapshotPath string

definition child_path :: "string \<Rightarrow> string \<Rightarrow> string" where
  "child_path prefix name = (if prefix \<noteq> [] then prefix @ ''.'' @ name else name)"

definition set_declared :: "string \<Rightarrow> env_file \<Rightarrow> env_file" where
  "set_declared path f = f\<lparr>ef_declared := insert path (ef_declared f)\<rparr>"

fun walk :: "env_file \<Rightarrow> (string \<times> node) list \<Rightarrow> string \<Rightarrow> env_error + env_file" where
  "walk out [] prefix = Inr out"
| "walk out ((name, child) # kvs) prefix =
     (let path = child_path prefix name in
      if path \<in> set not_carried then Inl (NotCarried (node_line child) path)
      else
        (case field_by_path path of
           None \<Rightarrow>
             (if is_branch path then
                (case child of
                   Mapping l sub \<Rightarrow>
                     (case walk out sub path of Inl e \<Rightarrow> Inl e | Inr out1 \<Rightarrow> walk out1 kvs prefix)
                 | _ \<Rightarrow> Inl (TakesFields (node_line child) path (kind_of child)))
              else Inl (UnknownField (node_line child) path (siblings prefix)))
         | Some fd \<Rightarrow>
             (case fd_assign fd out child of
                Inl e \<Rightarrow> Inl (BadField (node_line child) path e)
              | Inr out1 \<Rightarrow> walk (set_declared path out1) kvs prefix)))"

definition check_file :: "env_file \<Rightarrow> env_error option" where
  "check_file f =
     (if ef_engine f = [] \<and> (''iac.directory'' \<in> ef_declared f \<or> ''iac.vars'' \<in> ef_declared f) then Some NoEngine
      else if ef_log_level f \<notin> set log_levels then Some (BadLogLevel (ef_log_level f))
      else if ef_load f \<noteq> [] \<and> contains_any (ef_load f) [CHR ''/'', CHR 0x5C] then Some (SnapshotPath (ef_load f))
      else None)"

definition new_file :: env_file where
  "new_file =
     \<lparr>ef_path = [], ef_version = 0, ef_provider = [], ef_projects = [], ef_addr = ''127.0.0.1:4599'', ef_state = [],
      ef_contracts = [], ef_log_level = ''info'', ef_cleanup = False, ef_env = [], ef_mode = ''off'', ef_images = [],
      ef_load = [], ef_engine = [], ef_directory = ''.'', ef_vars = [], ef_ready = [], ef_declared = {}\<rparr>"

definition fields_of_node :: "node \<Rightarrow> (string \<times> node) list" where
  "fields_of_node n = (case n of Mapping l kvs \<Rightarrow> kvs | _ \<Rightarrow> [])"

definition accept_document :: "node \<Rightarrow> env_error + env_file" where
  "accept_document doc =
     (case walk new_file (fields_of_node doc) [] of
        Inl e \<Rightarrow> Inl e
      | Inr f \<Rightarrow>
          if ef_version f = 0 then Inl NoVersion
          else if ef_version f \<noteq> version_read then Inl (OtherVersion (ef_version f))
          else (case check_file f of Some e \<Rightarrow> Inl e | None \<Rightarrow> Inr f))"

definition parse_env :: "string \<Rightarrow> (env_error + env_file) option" where
  "parse_env src =
     Option.bind (parse_yaml src)
       (\<lambda>r. Some (case r of Inl e \<Rightarrow> Inl (NotRead e) | Inr doc \<Rightarrow> accept_document doc))"

definition unread :: "env_file \<Rightarrow> string list" where
  "unread f = sort (map fd_path (filter (\<lambda>fd. fd_read_by fd = [] \<and> fd_path fd \<in> ef_declared f) env_fields))"

section \<open>Nothing is accepted and ignored\<close>

text \<open>The paths a document writes, down to the fields of the schema.\<close>

fun document_paths :: "(string \<times> node) list \<Rightarrow> string \<Rightarrow> string set" where
  "document_paths [] prefix = {}"
| "document_paths ((name, child) # kvs) prefix =
     (let path = child_path prefix name in
      (if is_branch path then (case child of Mapping l sub \<Rightarrow> document_paths sub path | _ \<Rightarrow> {}) else {path}) \<union>
      document_paths kvs prefix)"

lemma field_by_path_in: "field_by_path path = Some fd \<Longrightarrow> fd \<in> set env_fields \<and> fd_path fd = path"
  by (auto simp: field_by_path_def find_Some_iff)

lemma branches_are_no_fields: "is_branch path \<Longrightarrow> field_by_path path = None"
proof -
  have "list_all (\<lambda>b. list_all (\<lambda>fd. fd_path fd \<noteq> b) env_fields) branches" by code_simp
  then show "is_branch path \<Longrightarrow> field_by_path path = None"
    by (auto simp: is_branch_def field_by_path_def find_None_iff list_all_iff)
qed

lemma map_sum_Inr: "map_sum id g r = Inr y \<longleftrightarrow> (\<exists>v. r = Inr v \<and> y = g v)"
  by (cases r) auto

lemmas assign_defs = assign_version_def assign_provider_def assign_projects_def assign_addr_def assign_state_def assign_contracts_def
  assign_log_level_def assign_cleanup_def assign_env_def assign_mode_def assign_images_def assign_load_def assign_engine_def
  assign_directory_def assign_vars_def assign_ready_def

lemma every_field_keeps_declared:
  "list_all (\<lambda>fd. \<forall>f n g. fd_assign fd f n = Inr g \<longrightarrow> ef_declared g = ef_declared f) env_fields"
  by (simp add: env_fields_def assign_defs map_sum_Inr split: sum.split option.split) (intro conjI; auto)

lemma assign_keeps_declared: "fd \<in> set env_fields \<Longrightarrow> fd_assign fd f n = Inr g \<Longrightarrow> ef_declared g = ef_declared f"
  using every_field_keeps_declared by (simp add: list_all_iff)

lemma set_declared_simps [simp]: "ef_declared (set_declared path f) = insert path (ef_declared f)"
  by (simp add: set_declared_def)

text \<open>How one key is walked.\<close>

lemma walk_cons:
  assumes "walk f ((name, child) # kvs) prefix = Inr g"
  shows "child_path prefix name \<notin> set not_carried \<and>
    ((\<exists>l sub h. field_by_path (child_path prefix name) = None \<and> is_branch (child_path prefix name) \<and> child = Mapping l sub \<and>
        walk f sub (child_path prefix name) = Inr h \<and> walk h kvs prefix = Inr g) \<or>
     (\<exists>fd h. field_by_path (child_path prefix name) = Some fd \<and> fd_assign fd f child = Inr h \<and>
        walk (set_declared (child_path prefix name) h) kvs prefix = Inr g))"
proof (cases "field_by_path (child_path prefix name)")
  case None
  then show ?thesis using assms
    by (cases child) (auto simp: Let_def split: if_split_asm sum.split_asm)
next
  case (Some fd)
  then show ?thesis using assms by (auto simp: Let_def split: if_split_asm sum.split_asm)
qed

lemma walk_induct [consumes 1, case_names Done Branch Field]:
  assumes "walk f kvs prefix = Inr g"
    and "\<And>f prefix. P f [] prefix f"
    and "\<And>f name l sub kvs prefix h g. field_by_path (child_path prefix name) = None \<Longrightarrow> is_branch (child_path prefix name) \<Longrightarrow>
        walk f sub (child_path prefix name) = Inr h \<Longrightarrow> P f sub (child_path prefix name) h \<Longrightarrow> P h kvs prefix g \<Longrightarrow>
        P f ((name, Mapping l sub) # kvs) prefix g"
    and "\<And>f name child kvs prefix fd h g. field_by_path (child_path prefix name) = Some fd \<Longrightarrow> fd_assign fd f child = Inr h \<Longrightarrow>
        P (set_declared (child_path prefix name) h) kvs prefix g \<Longrightarrow> P f ((name, child) # kvs) prefix g"
  shows "P f kvs prefix g"
  using assms(1)
proof (induction f kvs prefix arbitrary: g rule: walk.induct)
  case (1 f prefix)
  then show ?case using assms(2) by simp
next
  case (2 f name child kvs prefix)
  note w = walk_cons [OF "2.prems"]
  show ?case
  proof (cases "field_by_path (child_path prefix name)")
    case None
    then obtain l sub h where h: "is_branch (child_path prefix name)" "child = Mapping l sub" "walk f sub (child_path prefix name) = Inr h"
      "walk h kvs prefix = Inr g" using w by auto
    have "P f sub (child_path prefix name) h" "P h kvs prefix g"
      using "2.IH"(1) [OF refl _ None h(1,2,3)] "2.IH"(2) [OF refl _ None h(1,2,3,4)] w by blast+
    then show ?thesis using assms(3) [OF None h(1,3)] h(2) by blast
  next
    case (Some fd)
    then obtain h where h: "fd_assign fd f child = Inr h" "walk (set_declared (child_path prefix name) h) kvs prefix = Inr g" using w by auto
    then show ?thesis using assms(4) [OF Some h(1)] "2.IH"(3) [OF refl _ Some h] w by blast
  qed
qed

lemma walk_declares:
  "walk f kvs prefix = Inr g \<Longrightarrow>
     ef_declared g = ef_declared f \<union> document_paths kvs prefix \<and> document_paths kvs prefix \<subseteq> fd_path ` set env_fields"
proof (induction rule: walk_induct)
  case (Branch f name l sub kvs prefix h g)
  then show ?case by (auto simp: Let_def)
next
  case (Field f name child kvs prefix fd h g)
  have fd: "fd \<in> set env_fields" "fd_path fd = child_path prefix name" using field_by_path_in [OF Field(1)] by auto
  have b: "\<not> is_branch (child_path prefix name)" using Field(1) branches_are_no_fields by auto
  have "ef_declared h = ef_declared f" using assign_keeps_declared [OF fd(1) Field(2)] .
  moreover have "child_path prefix name \<in> fd_path ` set env_fields" using fd by (metis image_eqI)
  ultimately show ?case using Field(3) b by (simp add: Let_def)
qed simp

lemma parse_env_steps:
  assumes "parse_env src = Some (Inr f)"
  shows "\<exists>n kvs. parse_yaml src = Some (Inr (Mapping n kvs)) \<and> sound_fields kvs \<and> walk new_file kvs [] = Inr f \<and>
    ef_version f = version_read \<and> check_file f = None"
proof -
  obtain r where r: "parse_yaml src = Some r" using parse_yaml_returns by blast
  then obtain doc where doc: "parse_yaml src = Some (Inr doc)" "accept_document doc = Inr f"
    using assms by (cases r) (auto simp: parse_env_def)
  obtain n kvs where "doc = Mapping n kvs" "sound_fields kvs" using parse_yaml_sound [OF doc(1)] by blast
  with doc show ?thesis
    by (auto simp: accept_document_def fields_of_node_def split: sum.splits option.splits if_splits)
qed

text \<open>
  C12. Nothing of a declaration is accepted and then ignored: the fields an accepted file
  is said to declare are exactly the paths its text writes, each is a field of the
  schema, and every one of them some verb reads.
\<close>

theorem nothing_is_accepted_and_ignored:
  assumes "parse_env src = Some (Inr f)"
  shows "\<exists>n kvs. parse_yaml src = Some (Inr (Mapping n kvs)) \<and> ef_declared f = document_paths kvs [] \<and>
    ef_declared f \<subseteq> fd_path ` set env_fields \<and> unread f = []"
proof -
  obtain n kvs where k: "parse_yaml src = Some (Inr (Mapping n kvs))" "walk new_file kvs [] = Inr f"
    using parse_env_steps [OF assms] by blast
  have "filter (\<lambda>fd. fd_read_by fd = [] \<and> fd_path fd \<in> ef_declared f) env_fields = []" by (simp add: env_fields_def)
  then show ?thesis using k walk_declares [OF k(2)] by (auto simp: new_file_def unread_def)
qed

section \<open>What an accepted file holds\<close>

definition good_vars :: "(string \<Rightarrow> field_error option) \<Rightarrow> (string \<times> string) list \<Rightarrow> bool" where
  "good_vars check kvs \<longleftrightarrow> kvs \<noteq> [] \<and> distinct (map fst kvs) \<and> list_all (\<lambda>(k, v). check k = None) kvs"

text \<open>A field that was declared holds what its assignment lets through, one that was not its default.\<close>

definition valid_file :: "env_file \<Rightarrow> bool" where
  "valid_file f \<longleftrightarrow>
     (if ''version'' \<in> ef_declared f then True else ef_version f = 0) \<and>
     (if ''cloud.provider'' \<in> ef_declared f then ef_provider f \<noteq> [] else ef_provider f = []) \<and>
     (if ''cloud.projects'' \<in> ef_declared f then ef_projects f \<noteq> [] else ef_projects f = []) \<and>
     (if ''emulator.addr'' \<in> ef_declared f then ef_addr f \<noteq> [] else ef_addr f = ef_addr new_file) \<and>
     (if ''emulator.state'' \<in> ef_declared f then ef_state f \<noteq> [] else ef_state f = []) \<and>
     (if ''emulator.contracts'' \<in> ef_declared f then ef_contracts f \<noteq> [] else ef_contracts f = []) \<and>
     (if ''emulator.log_level'' \<in> ef_declared f then ef_log_level f \<noteq> [] else ef_log_level f = ef_log_level new_file) \<and>
     (if ''emulator.cleanup'' \<in> ef_declared f then True else \<not> ef_cleanup f) \<and>
     (if ''emulator.env'' \<in> ef_declared f then good_vars check_env_name (ef_env f) else ef_env f = []) \<and>
     (if ''runtime.mode'' \<in> ef_declared f then ef_mode f \<in> set runtime_modes else ef_mode f = ef_mode new_file) \<and>
     (if ''runtime.images'' \<in> ef_declared f then ef_images f \<noteq> [] \<and> list_all (\<lambda>i. CHR ''/'' \<in> set i) (ef_images f) else ef_images f = []) \<and>
     (if ''snapshot.load'' \<in> ef_declared f then ef_load f \<noteq> [] else ef_load f = []) \<and>
     (if ''iac.engine'' \<in> ef_declared f then ef_engine f \<in> set engines else ef_engine f = []) \<and>
     (if ''iac.directory'' \<in> ef_declared f then ef_directory f \<noteq> [] else ef_directory f = ef_directory new_file) \<and>
     (if ''iac.vars'' \<in> ef_declared f then good_vars check_var_name (ef_vars f) else ef_vars f = []) \<and>
     (if ''ready'' \<in> ef_declared f then ef_ready f \<noteq> [] \<and> first_bad_condition (ef_ready f) = None else ef_ready f = [])"

lemma names_from_good:
  assumes "names_from check kvs = Inr ws"
  shows "map fst ws = map fst kvs \<and> list_all (\<lambda>(k, v). check k = None) ws"
  using assms
proof (induction check kvs arbitrary: ws rule: names_from.induct)
  case (2 check name child kvs)
  then show ?case by (auto simp: map_sum_Inr split: if_split_asm option.split_asm)
qed simp

lemma taken_values:
  "scalar_into n = Inr s \<Longrightarrow> s \<noteq> []"
  "scalar_one_of n allowed = Inr s \<Longrightarrow> s \<in> set allowed"
  "sound_node n \<Longrightarrow> scalar_values n = Inr xs \<Longrightarrow> xs \<noteq> []"
  by (cases n; auto simp: scalar_into_def scalar_one_of_def scalar_values_def split: if_split_asm)+

lemma taken_map: "sound_node n \<Longrightarrow> scalar_map n check = Inr ws \<Longrightarrow> good_vars check ws"
  using names_from_good [of check] by (cases n) (fastforce simp: scalar_map_def good_vars_def)+

lemma new_file_valid: "valid_file new_file"
  by (simp add: valid_file_def new_file_def)

lemma valid_updates:
  "valid_file f \<Longrightarrow> valid_file (set_declared ''version'' (f\<lparr>ef_version := i\<rparr>))"
  "valid_file f \<Longrightarrow> v \<noteq> [] \<Longrightarrow> valid_file (set_declared ''cloud.provider'' (f\<lparr>ef_provider := v\<rparr>))"
  "valid_file f \<Longrightarrow> vs \<noteq> [] \<Longrightarrow> valid_file (set_declared ''cloud.projects'' (f\<lparr>ef_projects := vs\<rparr>))"
  "valid_file f \<Longrightarrow> v \<noteq> [] \<Longrightarrow> valid_file (set_declared ''emulator.addr'' (f\<lparr>ef_addr := v\<rparr>))"
  "valid_file f \<Longrightarrow> v \<noteq> [] \<Longrightarrow> valid_file (set_declared ''emulator.state'' (f\<lparr>ef_state := v\<rparr>))"
  "valid_file f \<Longrightarrow> v \<noteq> [] \<Longrightarrow> valid_file (set_declared ''emulator.contracts'' (f\<lparr>ef_contracts := v\<rparr>))"
  "valid_file f \<Longrightarrow> v \<noteq> [] \<Longrightarrow> valid_file (set_declared ''emulator.log_level'' (f\<lparr>ef_log_level := v\<rparr>))"
  "valid_file f \<Longrightarrow> valid_file (set_declared ''emulator.cleanup'' (f\<lparr>ef_cleanup := b\<rparr>))"
  "valid_file f \<Longrightarrow> good_vars check_env_name ws \<Longrightarrow> valid_file (set_declared ''emulator.env'' (f\<lparr>ef_env := ws\<rparr>))"
  "valid_file f \<Longrightarrow> v \<in> set runtime_modes \<Longrightarrow> valid_file (set_declared ''runtime.mode'' (f\<lparr>ef_mode := v\<rparr>))"
  "valid_file f \<Longrightarrow> vs \<noteq> [] \<and> list_all (\<lambda>i. CHR ''/'' \<in> set i) vs \<Longrightarrow> valid_file (set_declared ''runtime.images'' (f\<lparr>ef_images := vs\<rparr>))"
  "valid_file f \<Longrightarrow> v \<noteq> [] \<Longrightarrow> valid_file (set_declared ''snapshot.load'' (f\<lparr>ef_load := v\<rparr>))"
  "valid_file f \<Longrightarrow> v \<in> set engines \<Longrightarrow> valid_file (set_declared ''iac.engine'' (f\<lparr>ef_engine := v\<rparr>))"
  "valid_file f \<Longrightarrow> v \<noteq> [] \<Longrightarrow> valid_file (set_declared ''iac.directory'' (f\<lparr>ef_directory := v\<rparr>))"
  "valid_file f \<Longrightarrow> good_vars check_var_name ws \<Longrightarrow> valid_file (set_declared ''iac.vars'' (f\<lparr>ef_vars := ws\<rparr>))"
  "valid_file f \<Longrightarrow> vs \<noteq> [] \<and> first_bad_condition vs = None \<Longrightarrow> valid_file (set_declared ''ready'' (f\<lparr>ef_ready := vs\<rparr>))"
  unfolding set_declared_def valid_file_def by simp_all

lemma images_taken: "find (\<lambda>i. CHR ''/'' \<notin> set i) names = None \<longleftrightarrow> list_all (\<lambda>i. CHR ''/'' \<in> set i) names"
  by (auto simp: find_None_iff list_all_iff)

lemma every_field_keeps_valid:
  "list_all (\<lambda>fd. \<forall>f n g. valid_file f \<longrightarrow> sound_node n \<longrightarrow> fd_assign fd f n = Inr g \<longrightarrow> valid_file (set_declared (fd_path fd) g)) env_fields"
  unfolding env_fields_def list.pred_inject env_field.simps
  by (intro conjI allI impI TrueI)
    (auto simp: assign_defs map_sum_Inr images_taken intro: valid_updates dest: taken_values taken_map split: sum.split_asm option.split_asm)

lemma walk_keeps_valid:
  "walk f kvs prefix = Inr g \<Longrightarrow> \<forall>(k, v)\<in>set kvs. sound_node v \<Longrightarrow> valid_file f \<Longrightarrow> valid_file g"
proof (induction rule: walk_induct)
  case (Branch f name l sub kvs prefix h g)
  then show ?case by (auto simp: list_all_iff)
next
  case (Field f name child kvs prefix fd h g)
  have "fd \<in> set env_fields" "fd_path fd = child_path prefix name" using field_by_path_in [OF Field(1)] by auto
  then have "valid_file (set_declared (child_path prefix name) h)"
    using every_field_keeps_valid Field(2,4,5) by (auto simp: list_all_iff)
  then show ?case using Field(3,4) by simp
qed simp

lemma accepted_valid:
  assumes "parse_env src = Some (Inr f)"
  shows "valid_file f \<and> ef_version f = version_read \<and> check_file f = None"
proof -
  obtain kvs where k: "sound_fields kvs" "walk new_file kvs [] = Inr f" "ef_version f = version_read \<and> check_file f = None"
    using parse_env_steps [OF assms] by blast
  then show ?thesis using walk_keeps_valid [OF k(2) _ new_file_valid] by (auto simp: sound_fields_def)
qed

text \<open>What a condition that was read can be asked.\<close>

definition condition_reads :: "condition \<Rightarrow> bool" where
  "condition_reads c =
     (case cn_kind c of
        HTTPCondition \<Rightarrow> has_prefix (cn_path c) ''/''
      | TCPCondition \<Rightarrow> (case cut_on CHR '':'' (cn_address c) of (host, port, split) \<Rightarrow> split \<and> host \<noteq> [] \<and> atoi port \<noteq> None)
      | ResourceCondition \<Rightarrow> cn_resource c \<noteq> [] \<and> 1 \<le> cn_count c
      | ServiceCondition \<Rightarrow> cn_name c \<noteq> [] \<and> 1 \<le> cn_port c \<and> cn_port c \<le> 65535)"

lemma parse_condition_reads: "parse_condition raw = Inr c \<Longrightarrow> condition_reads c \<and> cn_raw c = raw"
  unfolding parse_condition_def condition_reads_def blank_condition_def
  by (simp split: prod.splits if_split_asm option.split_asm) auto?

lemma conditions_all: "first_bad_condition items = None \<Longrightarrow> ef_ready f = items \<Longrightarrow> map cn_raw (conditions f) = items \<and> list_all condition_reads (conditions f)"
  unfolding conditions_def
proof (induction items arbitrary: f)
  case (Cons item items)
  obtain c where c: "parse_condition item = Inr c" "first_bad_condition items = None" using Cons.prems(1) by (auto split: sum.split_asm)
  then show ?case using Cons.IH [of "f\<lparr>ef_ready := items\<rparr>"] Cons.prems(2) parse_condition_reads [OF c(1)] by simp
qed simp

definition env_name_ok :: "string \<Rightarrow> bool" where
  "env_name_ok name \<longleftrightarrow> has_prefix name ''FEINT_'' \<and> list_all env_char name"

definition var_name_ok :: "string \<Rightarrow> bool" where
  "var_name_ok name \<longleftrightarrow> name \<noteq> [] \<and> var_letter (hd name) \<and> list_all (\<lambda>c. var_letter c \<or> is_digit c \<or> c = CHR ''-'') name"

lemma checked_names: "check_env_name k = None \<longleftrightarrow> env_name_ok k" "check_var_name k = None \<longleftrightarrow> var_name_ok k"
  by (simp_all add: check_env_name_def env_name_ok_def check_var_name_def var_name_ok_def)

text \<open>
  C13. What is accepted can be acted on: an accepted declaration is of version one, names
  a log level and a runtime mode that exist, an engine that exists or neither engine nor
  directory nor variables, a snapshot by name and never by path, only \<open>FEINT_\<close> variables
  of the emulator and only engine variables an engine can take, images with a version,
  and every ready condition it lists reads and is waited for.
\<close>

theorem accepted_declarations_can_be_acted_on:
  assumes "parse_env src = Some (Inr f)"
  shows "ef_version f = version_read \<and> ef_log_level f \<in> set log_levels \<and> ef_mode f \<in> set runtime_modes \<and>
    (ef_engine f \<in> set engines \<or> ef_engine f = [] \<and> \<not> declared_path f ''iac.directory'' \<and> ef_vars f = []) \<and>
    CHR ''/'' \<notin> set (ef_load f) \<and> CHR 0x5C \<notin> set (ef_load f) \<and> ef_addr f \<noteq> [] \<and> ef_directory f \<noteq> [] \<and>
    (\<forall>(name, v)\<in>set (ef_env f). env_name_ok name) \<and> (\<forall>(name, v)\<in>set (ef_vars f). var_name_ok name) \<and>
    (\<forall>image\<in>set (ef_images f). CHR ''/'' \<in> set image) \<and>
    map cn_raw (conditions f) = ef_ready f \<and> list_all condition_reads (conditions f)"
proof -
  have v: "valid_file f" and ver: "ef_version f = version_read" and ck: "check_file f = None" using accepted_valid [OF assms] by simp_all
  note u = v [unfolded valid_file_def]
  have log: "ef_log_level f \<in> set log_levels" and load: "CHR ''/'' \<notin> set (ef_load f)" "CHR 0x5C \<notin> set (ef_load f)"
    using ck by (auto simp: check_file_def contains_any_def list_ex_iff split: if_split_asm)
  have eng: "ef_engine f = [] \<Longrightarrow> ''iac.directory'' \<notin> ef_declared f \<and> ''iac.vars'' \<notin> ef_declared f"
    using ck by (auto simp: check_file_def split: if_split_asm)
  have mode: "ef_mode f \<in> set runtime_modes" using u by (cases "''runtime.mode'' \<in> ef_declared f") (auto simp: new_file_def runtime_modes_def)
  have engine: "ef_engine f \<in> set engines \<or> ef_engine f = []" using u by (cases "''iac.engine'' \<in> ef_declared f") simp_all
  have vars: "''iac.vars'' \<notin> ef_declared f \<Longrightarrow> ef_vars f = []" using u by simp
  have addr: "ef_addr f \<noteq> []" using u by (cases "''emulator.addr'' \<in> ef_declared f") (auto simp: new_file_def)
  have dir: "ef_directory f \<noteq> []" using u by (cases "''iac.directory'' \<in> ef_declared f") (auto simp: new_file_def)
  have e: "list_all (\<lambda>(k, v). check_env_name k = None) (ef_env f)"
    using u by (cases "''emulator.env'' \<in> ef_declared f") (simp_all add: good_vars_def)
  have w: "list_all (\<lambda>(k, v). check_var_name k = None) (ef_vars f)"
    using u by (cases "''iac.vars'' \<in> ef_declared f") (simp_all add: good_vars_def)
  have im: "list_all (\<lambda>i. CHR ''/'' \<in> set i) (ef_images f)"
    using u by (cases "''runtime.images'' \<in> ef_declared f") simp_all
  have rd: "first_bad_condition (ef_ready f) = None" using u by (cases "''ready'' \<in> ef_declared f") simp_all
  have "\<forall>(name, v)\<in>set (ef_env f). env_name_ok name"
    using e by (auto simp: list_all_iff checked_names)
  moreover have "\<forall>(name, v)\<in>set (ef_vars f). var_name_ok name"
    using w by (auto simp: list_all_iff checked_names)
  moreover have "\<forall>image\<in>set (ef_images f). CHR ''/'' \<in> set image" using im by (simp add: list_all_iff)
  ultimately show ?thesis
    using ver log mode engine eng vars load addr dir conditions_all [OF rd refl] by (auto simp: declared_path_def)
qed

section \<open>Examples, and what is read otherwise than it says\<close>

definition text_of_lines :: "string list \<Rightarrow> string" where
  "text_of_lines xs = concat (map (\<lambda>x. x @ [CHR 0x0A]) xs)"

definition source0 :: string where
  "source0 = text_of_lines [''version: 1'', ''emulator:'', ''  env:'', ''    FEINT_B: x # y'', ''    FEINT_A: z'', ''ready:'', ''  - http:/up'']"

definition file0 :: env_file where
  "file0 = new_file\<lparr>ef_version := 1, ef_env := [(''FEINT_B'', ''x''), (''FEINT_A'', ''z'')], ef_ready := [''http:/up''],
     ef_declared := {''version'', ''emulator.env'', ''ready''}\<rparr>"

lemma file0_read: "parse_env source0 = Some (Inr file0)"
  by code_simp

lemma ignored_witness: "ef_declared file0 \<subseteq> fd_path ` set env_fields \<and> unread file0 = []"
  using nothing_is_accepted_and_ignored [OF file0_read] by blast

lemma acted_on_witness: "map cn_raw (conditions file0) = ef_ready file0"
  using accepted_declarations_can_be_acted_on [OF file0_read] by blast

text \<open>A dotted key at the top names a field a second time, and the last of the two wins.\<close>

lemma a_dotted_key_wins_in_silence:
  "map_option (map_sum id ef_addr) (parse_env (text_of_lines [''version: 1'', ''emulator:'', ''  addr: a:1'', ''emulator.addr: b:2''])) = Some (Inr ''b:2'')"
  by code_simp

text \<open>An apostrophe inside a bare value hides the comment behind it from the stripper.\<close>

lemma an_apostrophe_keeps_the_comment:
  "map_option (map_sum id ef_state) (parse_env (text_of_lines [''version: 1'', ''emulator:'', ''  state: it'' @ [CHR 0x27] @ ''s # a comment''])) =
   Some (Inr (''it'' @ [CHR 0x27] @ ''s # a comment''))"
  by code_simp

text \<open>A port of a \<open>tcp\<close> condition is any number.\<close>

lemma any_number_is_a_tcp_port: "map_sum id cn_address (parse_condition ''tcp:h:-5'') = Inr ''h:-5''"
  by code_simp

end
