(* ===== verification/RenderEnv.thy ===== *)
theory RenderEnv
  imports Environment "HOL-Library.Code_Target_Nat"
begin

text \<open>
  Writing a declaration back out (\<open>internal/environment/render.go\<close>), and when what was
  written reads back as the same declaration. Which code points above \<open>0xFF\<close> are
  printable is the parameter of \<open>strconv.Quote\<close>.
\<close>

section \<open>Rendering\<close>

abbreviation nl :: char where
  "nl \<equiv> CHR 0x0A"

definition quote_value :: "(nat \<Rightarrow> bool) \<Rightarrow> string \<Rightarrow> string" where
  "quote_value print v =
     (if v = [] then [CHR 0x22, CHR 0x22]
      else if contains_any v [CHR ''#'', CHR '':'', CHR 0x22, CHR 0x27] \<or> trim_space v \<noteq> v then go_quote print v
      else v)"

definition render_scalar :: "(nat \<Rightarrow> bool) \<Rightarrow> env_file \<Rightarrow> string \<Rightarrow> string \<Rightarrow> string \<Rightarrow> string" where
  "render_scalar print f path name v =
     (if path \<notin> ef_declared f then [] else ''  '' @ name @ '': '' @ quote_value print v @ [nl])"

definition render_bool :: "env_file \<Rightarrow> string \<Rightarrow> string \<Rightarrow> bool \<Rightarrow> string" where
  "render_bool f path name b =
     (if path \<in> ef_declared f then ''  '' @ name @ '': '' @ (if b then ''true'' else ''false'') @ [nl] else [])"

definition render_map :: "(nat \<Rightarrow> bool) \<Rightarrow> bool \<Rightarrow> string \<Rightarrow> (string \<times> string) list \<Rightarrow> string" where
  "render_map print declared name values =
     (if \<not> declared then []
      else ''  '' @ name @ '':'' @ [nl] @
        concat (map (\<lambda>(k, v). ''    '' @ k @ '': '' @ quote_value print v @ [nl]) (sort_key fst values)))"

definition render_list :: "(nat \<Rightarrow> bool) \<Rightarrow> bool \<Rightarrow> string \<Rightarrow> string list \<Rightarrow> string" where
  "render_list print declared name values =
     (if \<not> declared then []
      else ''  '' @ name @ '':'' @ [nl] @ concat (map (\<lambda>v. ''    - '' @ quote_value print v @ [nl]) values))"

definition render_block :: "string \<Rightarrow> string \<Rightarrow> string" where
  "render_block name inner = (if inner = [] then [] else [nl] @ name @ '':'' @ [nl] @ inner)"

definition render_env :: "(nat \<Rightarrow> bool) \<Rightarrow> env_file \<Rightarrow> string" where
  "render_env print f =
     ''version: '' @ itoa (ef_version f) @ [nl] @
     render_block ''cloud''
       (render_scalar print f ''cloud.provider'' ''provider'' (ef_provider f) @
        render_list print (''cloud.projects'' \<in> ef_declared f) ''projects'' (ef_projects f)) @
     render_block ''emulator''
       (render_scalar print f ''emulator.addr'' ''addr'' (ef_addr f) @
        render_scalar print f ''emulator.state'' ''state'' (ef_state f) @
        render_scalar print f ''emulator.contracts'' ''contracts'' (ef_contracts f) @
        render_scalar print f ''emulator.log_level'' ''log_level'' (ef_log_level f) @
        render_bool f ''emulator.cleanup'' ''cleanup'' (ef_cleanup f) @
        render_map print (''emulator.env'' \<in> ef_declared f) ''env'' (ef_env f)) @
     render_block ''runtime''
       (render_scalar print f ''runtime.mode'' ''mode'' (ef_mode f) @
        render_list print (''runtime.images'' \<in> ef_declared f) ''images'' (ef_images f)) @
     render_block ''snapshot'' (render_scalar print f ''snapshot.load'' ''load'' (ef_load f)) @
     render_block ''iac''
       (render_scalar print f ''iac.engine'' ''engine'' (ef_engine f) @
        render_scalar print f ''iac.directory'' ''directory'' (ef_directory f) @
        render_map print (''iac.vars'' \<in> ef_declared f) ''vars'' (ef_vars f)) @
     (if ''ready'' \<in> ef_declared f
      then [nl] @ ''ready:'' @ [nl] @ concat (map (\<lambda>item. ''  - '' @ quote_value print item @ [nl]) (ef_ready f))
      else [])"

section \<open>Values that survive\<close>

text \<open>
  A value written bare must not begin like a construct the reader refuses and must be one
  line; one that is quoted must not hold both a quote and a hash, since the comment
  stripper knows no escapes.
\<close>

definition survives :: "string \<Rightarrow> bool" where
  "survives v \<longleftrightarrow>
     (if v = [] then True
      else if contains_any v [CHR ''#'', CHR '':'', CHR 0x22, CHR 0x27] \<or> trim_space v \<noteq> v
      then \<not> (CHR 0x22 \<in> set v \<and> CHR ''#'' \<in> set v)
      else nl \<notin> set v \<and> hd v \<notin> set [CHR ''&'', CHR ''*'', CHR ''|'', CHR ''>'', CHR 0x7B, CHR ''['', CHR ''!''])"

lemma decode_rune_high:
  assumes "0x80 \<le> ord a" "decode_rune (a # s) = (r, n)" "c \<in> set (take n (a # s))"
  shows "0x80 \<le> ord c"
proof (cases "r = rune_error \<and> n = 1")
  case False
  then show ?thesis
    using decode_rune_wide [OF assms(1,2)] assms(3)
    by (auto simp: two_bytes_def three_bytes_def four_bytes_def tail_byte_def)
qed (use assms in simp)

definition escape_chars :: string where
  "escape_chars = [CHR 0x5C] @ ''xuU0123456789abcdefnrtv''"

lemma hex_of_chars: "set (hex_of n r) \<subseteq> set escape_chars"
proof -
  have "list_all (\<lambda>d. digit_char d \<in> set escape_chars) [0..<16]" by code_simp
  then have d: "digit_char (m mod 16) \<in> set escape_chars" for m by (simp add: list_all_iff)
  show ?thesis by (induction n arbitrary: r) (use d in auto)
qed

lemma escape_rune_chars:
  assumes "decode_rune (a # s) = (r, n)" "c \<in> set (escape_rune print (r, take n (a # s)))"
  shows "0x80 \<le> ord c \<or> c \<in> set escape_chars \<or> (c \<in> set (take n (a # s)) \<and> 0x20 \<le> ord c)"
proof -
  have esc: "c \<in> set escape_chars" if "c \<in> set (hex_of m q)" for m q using that hex_of_chars by blast
  have lead: "{CHR 0x5C, CHR ''x'', CHR ''u'', CHR ''U''} \<subseteq> set escape_chars" by (simp add: escape_chars_def)
  have simple: "map_of simple_escapes q = Some d \<Longrightarrow> d \<in> set escape_chars" for q d
    by (auto simp: simple_escapes_def escape_chars_def split: if_split_asm)
  show ?thesis
  proof (cases "r = rune_error \<and> n = 1")
    case True
    then show ?thesis using assms(2) esc lead by (auto simp: escape_rune_def)
  next
    case False
    have rb: "reads_back (take n (a # s)) r" by (rule decode_rune_reads [OF assms(1) False])
    then have e: "encode_rune r = take n (a # s)" and n: "length (take n (a # s)) = n"
      using decode_rune_size [of "a # s"] assms(1) by (auto simp: reads_back_def)
    have "c \<in> set escape_chars \<or> c \<in> set (encode_rune r) \<and> (is_print print r \<or> r = 0x22 \<or> r = 0x5C)"
      using assms(2) esc lead False n simple
      by (auto simp: escape_rune_def encode_rune_def split: if_split_asm option.split_asm)
    moreover have "0x80 \<le> ord c \<or> 0x20 \<le> ord c" if "c \<in> set (encode_rune r)" "is_print print r \<or> r = 0x22 \<or> r = 0x5C"
    proof (cases "ord a < 0x80")
      case True
      then have "r = ord a" using decode_rune_ascii [of a s] assms(1) by simp
      then have "c = a" using that(1) True by (auto simp: encode_rune_def)
      then show ?thesis using that(2) \<open>r = ord a\<close> True by (auto simp: is_print_def)
    next
      case False
      then show ?thesis using decode_rune_high [OF _ assms(1), of c] that(1) e by simp
    qed
    ultimately show ?thesis using e by auto
  qed
qed

lemma quoted_chars:
  assumes "c \<in> set (concat (map (escape_rune print) (runes v)))"
  shows "0x80 \<le> ord c \<or> c \<in> set escape_chars \<or> (c \<in> set v \<and> 0x20 \<le> ord c)"
  using assms
proof (induction v rule: runes.induct)
  case (1 v)
  show ?case
  proof (cases v)
    case (Cons a s)
    obtain r n where d: "decode_rune v = (r, n)" by fastforce
    have v: "v \<noteq> []" using Cons by simp
    then have "c \<in> set (escape_rune print (r, take n v)) \<or> c \<in> set (concat (map (escape_rune print) (runes (drop n v))))"
      using 1(2) d by (subst (asm) runes.simps) simp
    then show ?thesis
      using escape_rune_chars [of a s r n c print] d Cons 1(1) [OF v d [symmetric] refl]
        in_set_takeD [of c n v] in_set_dropD [of c n v] by metis
  qed (use 1 in simp)
qed

lemma strip_quoted: "CHR 0x22 \<notin> set x \<Longrightarrow> strip_from (Some CHR 0x22) p (x @ [CHR 0x22]) = x @ [CHR 0x22]"
  by (induction x arbitrary: p) auto

lemma quote_end: "space_rlen (CHR 0x22 # x) = 0" "plain CHR 0x22"
proof -
  have "list_all (\<lambda>sp. hd (rev sp) \<noteq> CHR 0x22 \<and> sp \<noteq> []) (ascii_spaces @ wide_spaces)" by code_simp
  then have e: "hd (rev sp) \<noteq> CHR 0x22 \<and> sp \<noteq> []" if "sp \<in> set (ascii_spaces @ wide_spaces)" for sp
    using that unfolding list_all_iff by blast
  have "\<not> has_prefix (CHR 0x22 # x) (rev sp)" if i: "sp \<in> set (ascii_spaces @ wide_spaces)" for sp
  proof -
    obtain b u where "rev sp = b # u" using e [OF i] by (cases "rev sp") auto
    then show ?thesis using e [OF i] by auto
  qed
  then show "space_rlen (CHR 0x22 # x) = 0" unfolding space_rlen_0 by blast
  show "plain CHR 0x22" by code_simp
qed

lemma plain_first: "plain c \<Longrightarrow> space_len (c # x) = 0"
  unfolding space_len_0 plain_def list_all_iff using spaces_shape by (metis has_prefix.simps(3) list.exhaust_sel)

lemma quoted_survives:
  assumes "\<not> (CHR 0x22 \<in> set v \<and> CHR ''#'' \<in> set v)"
  shows "good_scalar (\<lambda>v. go_quote print v) v"
proof -
  let ?i = "concat (map (escape_rune print) (runes v))"
  have chars: "CHR 0x22 \<in> set ?i \<Longrightarrow> CHR 0x22 \<in> set v" "CHR ''#'' \<in> set ?i \<Longrightarrow> CHR ''#'' \<in> set v" "nl \<notin> set ?i"
    using quoted_chars [of "CHR 0x22" print v] quoted_chars [of "CHR ''#''" print v] quoted_chars [of nl print v]
    by (auto simp: escape_chars_def)
  have q: "go_quote print v = CHR 0x22 # ?i @ [CHR 0x22]" by (simp add: go_quote_def)
  have "comment_free (go_quote print v)"
  proof (cases "CHR ''#'' \<in> set v")
    case True
    then have "CHR 0x22 \<notin> set ?i" using assms chars(1) by blast
    then show ?thesis by (simp add: comment_free_def q strip_quoted)
  next
    case False
    then have "CHR ''#'' \<notin> set (go_quote print v)" using chars(2) q by auto
    then show ?thesis by (simp add: comment_free_def strip_no_hash)
  qed
  moreover have "scalar_node (go_quote print v) n = Inr (Scalar n v)" for n
    using unquote_quote [of print v] by (simp add: scalar_node_def unquote_value_def q)
  ultimately show ?thesis using plain_first [OF quote_end(2)] quote_end(1) chars(3) by (simp add: good_scalar_def q)
qed

lemma trim_shorter: "length (trim_left s) \<le> length s" "length (trim_rev s) \<le> length s"
proof -
  show "length (trim_left s) \<le> length s"
    by (induction s rule: trim_left.induct) (subst trim_left.simps, auto intro: order_trans)
  show "length (trim_rev s) \<le> length s"
    by (induction s rule: trim_rev.induct) (subst trim_rev.simps, auto intro: order_trans)
qed

lemma trim_fixed:
  assumes "trim_space v = v" "v \<noteq> []"
  shows "space_len v = 0 \<and> space_rlen (rev v) = 0"
proof -
  have "length v \<le> length (trim_left v)" using arg_cong [OF assms(1), of length] trim_shorter(2) [of "rev (trim_left v)"] by (simp add: trim_space_def)
  have l: "space_len v = 0"
  proof (rule ccontr)
    assume "space_len v \<noteq> 0"
    then have "trim_left v = trim_left (drop (space_len v) v)" using assms(2) by (subst trim_left.simps) simp
    then have "length (trim_left v) < length v" using trim_shorter(1) [of "drop (space_len v) v"] \<open>space_len v \<noteq> 0\<close> assms(2) by (simp add: le_less_trans)
    with \<open>length v \<le> length (trim_left v)\<close> show False by simp
  qed
  then have "trim_rev (rev v) = rev v" using assms by (simp add: trim_space_def trim_left.simps [of v]) (metis rev_rev_ident)
  have "space_rlen (rev v) = 0"
  proof (rule ccontr)
    assume r: "space_rlen (rev v) \<noteq> 0"
    then have "trim_rev (rev v) = trim_rev (drop (space_rlen (rev v)) (rev v))" using assms(2) by (subst trim_rev.simps) simp
    then have "length (trim_rev (rev v)) < length v" using trim_shorter(2) [of "drop (space_rlen (rev v)) (rev v)"] r assms(2) by (simp add: le_less_trans)
    with \<open>trim_rev (rev v) = rev v\<close> show False by simp
  qed
  with l show ?thesis by simp
qed

lemma survivors_are_good:
  assumes "survives v"
  shows "good_scalar (quote_value print) v"
proof -
  let ?quoted = "contains_any v [CHR ''#'', CHR '':'', CHR 0x22, CHR 0x27] \<or> trim_space v \<noteq> v"
  consider "quote_value print v = go_quote print v" "\<not> (CHR 0x22 \<in> set v \<and> CHR ''#'' \<in> set v)"
    | "v \<noteq> []" "\<not> ?quoted" "quote_value print v = v"
    using assms by (cases "v = []") (auto simp: quote_value_def survives_def go_quote_def split: if_split_asm)
  then show ?thesis
  proof cases
    case 1
    then show ?thesis using quoted_survives [of v print] by (simp add: good_scalar_def)
  next
    case 2
    have q: "CHR ''#'' \<notin> set v" "CHR 0x22 \<notin> set v" "CHR 0x27 \<notin> set v" and t: "trim_space v = v"
      using 2(2) by (auto simp: contains_any_def list_ex_iff)
    have h: "nl \<notin> set v" "hd v \<notin> set [CHR ''&'', CHR ''*'', CHR ''|'', CHR ''>'', CHR 0x7B, CHR ''['', CHR ''!'']"
      using assms 2(1,2) by (simp_all add: survives_def)
    obtain a u where v: "v = a # u" using 2(1) by (cases v) auto
    have "scalar_node v n = Inr (Scalar n v)" for n
      using h(2) q(2,3) v by (auto simp: scalar_node_def unquote_value_def)
    then show ?thesis
      using 2(1,3) trim_fixed [OF t 2(1)] q(1) h(1) by (simp add: good_scalar_def comment_free_def strip_no_hash)
  qed
qed

section \<open>The document that is written\<close>

definition scalar_entry :: "env_file \<Rightarrow> string \<Rightarrow> string \<Rightarrow> string \<Rightarrow> (string \<times> node) list" where
  "scalar_entry f path name v = (if path \<in> ef_declared f then [(name, Scalar 0 v)] else [])"

definition list_entry :: "env_file \<Rightarrow> string \<Rightarrow> string \<Rightarrow> string list \<Rightarrow> (string \<times> node) list" where
  "list_entry f path name vs = (if path \<in> ef_declared f then [(name, Seq 0 (map (Scalar 0) vs))] else [])"

definition map_entry :: "env_file \<Rightarrow> string \<Rightarrow> string \<Rightarrow> (string \<times> string) list \<Rightarrow> (string \<times> node) list" where
  "map_entry f path name ws =
     (if path \<in> ef_declared f then [(name, Mapping 0 (map (\<lambda>(k, v). (k, Scalar 0 v)) (sort_key fst ws)))] else [])"

definition block_entry :: "string \<Rightarrow> (string \<times> node) list \<Rightarrow> (string \<times> node) list" where
  "block_entry name sub = (if sub = [] then [] else [(name, Mapping 0 sub)])"

definition cloud_entries :: "env_file \<Rightarrow> (string \<times> node) list" where
  "cloud_entries f = scalar_entry f ''cloud.provider'' ''provider'' (ef_provider f) @ list_entry f ''cloud.projects'' ''projects'' (ef_projects f)"

definition emulator_entries :: "env_file \<Rightarrow> (string \<times> node) list" where
  "emulator_entries f =
     scalar_entry f ''emulator.addr'' ''addr'' (ef_addr f) @
     scalar_entry f ''emulator.state'' ''state'' (ef_state f) @
     scalar_entry f ''emulator.contracts'' ''contracts'' (ef_contracts f) @
     scalar_entry f ''emulator.log_level'' ''log_level'' (ef_log_level f) @
     scalar_entry f ''emulator.cleanup'' ''cleanup'' (if ef_cleanup f then ''true'' else ''false'') @
     map_entry f ''emulator.env'' ''env'' (ef_env f)"

definition runtime_entries :: "env_file \<Rightarrow> (string \<times> node) list" where
  "runtime_entries f = scalar_entry f ''runtime.mode'' ''mode'' (ef_mode f) @ list_entry f ''runtime.images'' ''images'' (ef_images f)"

definition snapshot_entries :: "env_file \<Rightarrow> (string \<times> node) list" where
  "snapshot_entries f = scalar_entry f ''snapshot.load'' ''load'' (ef_load f)"

definition iac_entries :: "env_file \<Rightarrow> (string \<times> node) list" where
  "iac_entries f =
     scalar_entry f ''iac.engine'' ''engine'' (ef_engine f) @
     scalar_entry f ''iac.directory'' ''directory'' (ef_directory f) @
     map_entry f ''iac.vars'' ''vars'' (ef_vars f)"

definition entries :: "env_file \<Rightarrow> (string \<times> node) list" where
  "entries f =
     [(''version'', Scalar 0 (itoa (ef_version f)))] @
     block_entry ''cloud'' (cloud_entries f) @ block_entry ''emulator'' (emulator_entries f) @
     block_entry ''runtime'' (runtime_entries f) @ block_entry ''snapshot'' (snapshot_entries f) @
     block_entry ''iac'' (iac_entries f) @ list_entry f ''ready'' ''ready'' (ef_ready f)"

text \<open>Its lines as text.\<close>

definition text_lines :: "(nat \<times> string) option list \<Rightarrow> string" where
  "text_lines xs = concat (map (\<lambda>r. r @ [nl]) (map source_line xs))"

lemma text_lines_simps [simp]:
  "text_lines [] = []"
  "text_lines (None # xs) = nl # text_lines xs"
  "text_lines (Some (ind, t) # xs) = replicate ind CHR '' '' @ t @ nl # text_lines xs"
  "text_lines (xs @ ys) = text_lines xs @ text_lines ys"
  by (simp_all add: text_lines_def source_line_def)

lemma lines_of_append [simp]: "lines_of q ind (kvs @ lws) = lines_of q ind kvs @ lines_of q ind lws"
  by (induction q ind kvs rule: lines_of.induct) simp_all

definition entry_text :: "(nat \<Rightarrow> bool) \<Rightarrow> nat \<Rightarrow> (string \<times> node) list \<Rightarrow> string" where
  "entry_text print ind kvs = text_lines (map Some (lines_of (quote_value print) ind kvs))"

lemma entry_text_append [simp]: "entry_text print ind (kvs @ lws) = entry_text print ind kvs @ entry_text print ind lws"
  by (simp add: entry_text_def)

lemma entry_text_empty: "entry_text print ind kvs = [] \<longleftrightarrow> kvs = []"
  by (cases "(quote_value print, ind, kvs)" rule: lines_of.cases) (auto simp: entry_text_def)

lemma two_blanks: "replicate 2 CHR '' '' = ''  ''" "replicate 4 CHR '' '' = ''    ''"
  by code_simp+

lemma words_bare: "quote_value print ''true'' = ''true''" "quote_value print ''false'' = ''false''" "quote_value print (itoa 1) = itoa 1"
  by code_simp+

lemma text_list: "text_lines (map Some (map (\<lambda>x. (ind, ''- '' @ q (scalar_of x))) (map (Scalar 0) vs))) =
    concat (map (\<lambda>v. replicate ind CHR '' '' @ ''- '' @ q v @ [nl]) vs)"
  by (induction vs) simp_all

lemma text_map: "text_lines (map Some (lines_of q ind (map (\<lambda>(k, v). (k, Scalar 0 v)) ws))) =
    concat (map (\<lambda>(k, v). replicate ind CHR '' '' @ k @ '': '' @ q v @ [nl]) ws)"
  by (induction ws) auto

lemma entry_texts:
  "entry_text print 2 (scalar_entry f path name v) = render_scalar print f path name v"
  "entry_text print 2 (list_entry f path name vs) = render_list print (path \<in> ef_declared f) name vs"
  "entry_text print 2 (map_entry f path name ws) = render_map print (path \<in> ef_declared f) name ws"
  using text_list [of 4 "quote_value print" vs] text_map [of "quote_value print" 4 "sort_key fst ws"]
  by (simp_all add: entry_text_def scalar_entry_def render_scalar_def list_entry_def render_list_def map_entry_def render_map_def
      two_blanks comp_def)

text \<open>A block after its blank line.\<close>

definition block_lines :: "(nat \<Rightarrow> bool) \<Rightarrow> (string \<times> node) list \<Rightarrow> (nat \<times> string) option list" where
  "block_lines print kvs = (if kvs = [] then [] else None # map Some (lines_of (quote_value print) 0 kvs))"

definition written_lines :: "(nat \<Rightarrow> bool) \<Rightarrow> env_file \<Rightarrow> (nat \<times> string) option list" where
  "written_lines print f =
     map Some (lines_of (quote_value print) 0 [(''version'', Scalar 0 (itoa (ef_version f)))]) @
     block_lines print (block_entry ''cloud'' (cloud_entries f)) @ block_lines print (block_entry ''emulator'' (emulator_entries f)) @
     block_lines print (block_entry ''runtime'' (runtime_entries f)) @ block_lines print (block_entry ''snapshot'' (snapshot_entries f)) @
     block_lines print (block_entry ''iac'' (iac_entries f)) @ block_lines print (list_entry f ''ready'' ''ready'' (ef_ready f))"

lemma kept_simps [simp]: "kept (xs @ ys) = kept xs @ kept ys" "kept (map Some zs) = zs"
  by (induction xs) (auto split: option.split, induction zs, auto)

lemma kept_block [simp]: "kept (block_lines print kvs) = lines_of (quote_value print) 0 kvs"
  by (simp add: block_lines_def)

lemma written_lines_kept: "kept (written_lines print f) = lines_of (quote_value print) 0 (entries f)"
  by (simp add: written_lines_def entries_def)

lemma block_text: "text_lines (block_lines print (block_entry name sub)) = render_block name (entry_text print 2 sub)"
  by (auto simp: block_lines_def block_entry_def render_block_def entry_text_empty simp del: add_2_eq_Suc add_2_eq_Suc') (simp add: entry_text_def)

lemma ready_text:
  "text_lines (block_lines print (list_entry f ''ready'' ''ready'' (ef_ready f))) =
     (if ''ready'' \<in> ef_declared f
      then [nl] @ ''ready:'' @ [nl] @ concat (map (\<lambda>item. ''  - '' @ quote_value print item @ [nl]) (ef_ready f))
      else [])"
  using text_list [of 2 "quote_value print" "ef_ready f"] by (simp add: block_lines_def list_entry_def two_blanks comp_def del: add_2_eq_Suc add_2_eq_Suc')

lemma render_env_text:
  assumes "ef_version f = 1"
  shows "render_env print f = text_lines (written_lines print f)"
proof -
  have b: "render_bool f ''emulator.cleanup'' ''cleanup'' (ef_cleanup f) =
      entry_text print 2 (scalar_entry f ''emulator.cleanup'' ''cleanup'' (if ef_cleanup f then ''true'' else ''false''))"
    by (simp add: entry_texts render_bool_def render_scalar_def words_bare)
  show ?thesis
    unfolding render_env_def written_lines_def text_lines_simps(4) block_text ready_text cloud_entries_def emulator_entries_def
      runtime_entries_def snapshot_entries_def iac_entries_def entry_text_append b
    by (simp add: entry_texts assms words_bare)
qed

section \<open>Its names and values\<close>

lemma good_fields_append:
  "good_fields q (kvs @ lws) \<longleftrightarrow> good_fields q kvs \<and> good_fields q lws \<and> fst ` set kvs \<inter> fst ` set lws = {}"
  by (induction q kvs rule: good_fields.induct) auto

lemma good_names: "list_all good_name [''version'', ''cloud'', ''emulator'', ''runtime'', ''snapshot'', ''iac'', ''ready'', ''provider'',
    ''projects'', ''addr'', ''state'', ''contracts'', ''log_level'', ''cleanup'', ''env'', ''mode'', ''images'', ''load'', ''engine'', ''directory'', ''vars'']"
  by code_simp

lemma checked_names_good:
  "env_name_ok k \<Longrightarrow> good_name k" "var_name_ok k \<Longrightarrow> good_name k"
proof -
  assume e: "env_name_ok k"
  then obtain r where k: "k = ''FEINT_'' @ r" by (auto simp: env_name_ok_def has_prefix_iff)
  have "list_all name_char k" using e by (auto simp: env_name_ok_def list_all_iff env_char_def name_char_def)
  then show "good_name k" by (simp add: good_name_def k)
next
  assume v: "var_name_ok k"
  have "\<not> var_letter CHR ''-''" by code_simp
  moreover have "list_all name_char k" using v by (auto simp: var_name_ok_def list_all_iff var_letter_def name_char_def)
  ultimately show "good_name k" using v by (auto simp: var_name_ok_def good_name_def)
qed

lemma good_scalars:
  "good_fields q (map (\<lambda>(k, v). (k, Scalar 0 v)) ws) \<longleftrightarrow> distinct (map fst ws) \<and> list_all (\<lambda>(k, v). good_name k \<and> good_scalar q v) ws"
proof (induction ws)
  case (Cons w ws)
  have "fst (case x of (k, v) \<Rightarrow> (k, Scalar 0 v)) = fst x" for x :: "string \<times> string" by (cases x) simp
  with Cons show ?case by (cases w) (simp add: image_image, blast)
qed simp

definition survives_item :: "(nat \<Rightarrow> bool) \<Rightarrow> string \<Rightarrow> bool" where
  "survives_item print v \<longleftrightarrow> survives v \<and> \<not> list_of_blocks (quote_value print v)"

definition survives_file :: "(nat \<Rightarrow> bool) \<Rightarrow> env_file \<Rightarrow> bool" where
  "survives_file print f \<longleftrightarrow>
     list_all survives [ef_provider f, ef_addr f, ef_state f, ef_contracts f, ef_load f, ef_directory f] \<and>
     list_all (\<lambda>(k, v). survives v) (ef_env f @ ef_vars f) \<and>
     list_all (survives_item print) (ef_projects f @ ef_images f @ ef_ready f)"

lemma words_survive: "list_all survives (engines @ runtime_modes @ log_levels @ [''true'', ''false'', itoa 1])"
  by code_simp

lemma good_scalar_entry: "path \<in> ef_declared f \<longrightarrow> survives v \<Longrightarrow> good_name name \<Longrightarrow> good_fields (quote_value print) (scalar_entry f path name v)"
  using survivors_are_good by (auto simp: scalar_entry_def)

lemma good_list_entry:
  assumes "path \<in> ef_declared f \<longrightarrow> vs \<noteq> [] \<and> list_all (survives_item print) vs" "good_name name"
  shows "good_fields (quote_value print) (list_entry f path name vs)"
  using assms survivors_are_good by (auto simp: list_entry_def good_item_def survives_item_def list_all_iff)

lemma good_map_entry:
  assumes "path \<in> ef_declared f \<longrightarrow> good_vars check ws" "list_all (\<lambda>(k, v). survives v) ws" "good_name name"
    and "\<And>k. check k = None \<Longrightarrow> good_name k"
  shows "good_fields (quote_value print) (map_entry f path name ws)"
proof (cases "path \<in> ef_declared f")
  case True
  then have w: "ws \<noteq> []" "distinct (map fst ws)" "list_all (\<lambda>(k, v). check k = None) ws" using assms(1) by (simp_all add: good_vars_def)
  have "distinct (map fst (sort_key fst ws))" using w(2) by (metis distinct_map distinct_sort set_sort)
  moreover have "list_all (\<lambda>(k, v). good_name k \<and> good_scalar (quote_value print) v) (sort_key fst ws)"
    using w(3) assms(2,4) survivors_are_good by (fastforce simp: list_all_iff)
  moreover have "sort_key fst ws \<noteq> []" using w(1) by (metis length_0_conv length_sort)
  ultimately show ?thesis using True assms(3) by (simp add: map_entry_def good_scalars)
qed (simp add: map_entry_def)

section \<open>Its walk\<close>

lemma paths_are_carried: "list_all (\<lambda>p. p \<notin> set not_carried) (map fd_path env_fields @ branches)"
  by code_simp

lemma walk_field:
  assumes "field_by_path (child_path prefix name) = Some fd"
  shows "walk g ((name, child) # kvs) prefix =
    (case fd_assign fd g child of
       Inl e \<Rightarrow> Inl (BadField (node_line child) (child_path prefix name) e)
     | Inr h \<Rightarrow> walk (set_declared (child_path prefix name) h) kvs prefix)"
proof -
  have "child_path prefix name \<in> fd_path ` set env_fields" using field_by_path_in [OF assms] by (metis image_eqI)
  then have "child_path prefix name \<notin> set not_carried" using paths_are_carried by (auto simp: list_all_iff)
  then show ?thesis using assms by (simp add: Let_def)
qed

lemma walk_branch:
  assumes "is_branch (child_path prefix name)"
  shows "walk g ((name, Mapping l sub) # kvs) prefix =
    (case walk g sub (child_path prefix name) of Inl e \<Rightarrow> Inl e | Inr h \<Rightarrow> walk h kvs prefix)"
proof -
  have "child_path prefix name \<notin> set not_carried" using paths_are_carried assms by (auto simp: list_all_iff is_branch_def)
  then show ?thesis using assms branches_are_no_fields [OF assms] by (simp add: Let_def)
qed

lemma walk_append: "walk g (xs @ ys) prefix = (case walk g xs prefix of Inl e \<Rightarrow> Inl e | Inr h \<Rightarrow> walk h ys prefix)"
proof (induction xs arbitrary: g)
  case (Cons x xs)
  obtain name child where x: "x = (name, child)" by fastforce
  show ?case
    by (cases child) (simp_all add: x Cons.IH Let_def split: option.split sum.split)
qed simp

lemma walk_block_entry:
  assumes "is_branch name" "name \<noteq> []"
  shows "walk g (block_entry name sub) [] = walk g sub name"
  using assms by (simp add: block_entry_def child_path_def walk_branch split: sum.split del: walk.simps(2))

lemma fields_found:
  "field_by_path ''version'' = Some \<lparr>fd_path = ''version'', fd_read_by = [''up'', ''down''], fd_assign = assign_version\<rparr>"
  "field_by_path ''cloud.provider'' = Some \<lparr>fd_path = ''cloud.provider'', fd_read_by = [''up'', ''down''], fd_assign = assign_provider\<rparr>"
  "field_by_path ''cloud.projects'' = Some \<lparr>fd_path = ''cloud.projects'', fd_read_by = [''up''], fd_assign = assign_projects\<rparr>"
  "field_by_path ''emulator.addr'' = Some \<lparr>fd_path = ''emulator.addr'', fd_read_by = [''up'', ''down''], fd_assign = assign_addr\<rparr>"
  "field_by_path ''emulator.state'' = Some \<lparr>fd_path = ''emulator.state'', fd_read_by = [''up''], fd_assign = assign_state\<rparr>"
  "field_by_path ''emulator.contracts'' = Some \<lparr>fd_path = ''emulator.contracts'', fd_read_by = [''up''], fd_assign = assign_contracts\<rparr>"
  "field_by_path ''emulator.log_level'' = Some \<lparr>fd_path = ''emulator.log_level'', fd_read_by = [''up''], fd_assign = assign_log_level\<rparr>"
  "field_by_path ''emulator.cleanup'' = Some \<lparr>fd_path = ''emulator.cleanup'', fd_read_by = [''up''], fd_assign = assign_cleanup\<rparr>"
  "field_by_path ''emulator.env'' = Some \<lparr>fd_path = ''emulator.env'', fd_read_by = [''up''], fd_assign = assign_env\<rparr>"
  "field_by_path ''runtime.mode'' = Some \<lparr>fd_path = ''runtime.mode'', fd_read_by = [''up''], fd_assign = assign_mode\<rparr>"
  "field_by_path ''runtime.images'' = Some \<lparr>fd_path = ''runtime.images'', fd_read_by = [''up''], fd_assign = assign_images\<rparr>"
  "field_by_path ''snapshot.load'' = Some \<lparr>fd_path = ''snapshot.load'', fd_read_by = [''up''], fd_assign = assign_load\<rparr>"
  "field_by_path ''iac.engine'' = Some \<lparr>fd_path = ''iac.engine'', fd_read_by = [''up'', ''down''], fd_assign = assign_engine\<rparr>"
  "field_by_path ''iac.directory'' = Some \<lparr>fd_path = ''iac.directory'', fd_read_by = [''up'', ''down''], fd_assign = assign_directory\<rparr>"
  "field_by_path ''iac.vars'' = Some \<lparr>fd_path = ''iac.vars'', fd_read_by = [''up'', ''down''], fd_assign = assign_vars\<rparr>"
  "field_by_path ''ready'' = Some \<lparr>fd_path = ''ready'', fd_read_by = [''up''], fd_assign = assign_ready\<rparr>"
  by (simp_all add: field_by_path_def env_fields_def)

lemma scalar_of_leaf [simp]: "map (scalar_of \<circ> Scalar 0) vs = vs"
  by (simp add: comp_def)

lemma names_from_scalars:
  "list_all (\<lambda>(k, v). check k = None) ws \<Longrightarrow> names_from check (map (\<lambda>(k, v). (k, Scalar 0 v)) ws) = Inr ws"
  by (induction ws) auto

lemma sorted_vars: "good_vars check ws \<Longrightarrow> names_from check (map (\<lambda>(k, v). (k, Scalar 0 v)) (sort_key fst ws)) = Inr (sort_key fst ws)"
  by (rule names_from_scalars) (simp add: good_vars_def list_all_iff)

lemma walk_entry:
  assumes "field_by_path path = Some fd" "child_path prefix name = path"
    and "path \<in> ef_declared f \<Longrightarrow> fd_assign fd g child = Inr h" "path \<notin> ef_declared f \<Longrightarrow> h = g" "ef_declared h = ef_declared g"
  shows "walk g (if path \<in> ef_declared f then [(name, child)] else []) prefix =
    Inr (h\<lparr>ef_declared := ef_declared g \<union> ({path} \<inter> ef_declared f)\<rparr>)"
proof (cases "path \<in> ef_declared f")
  case True
  then show ?thesis using assms walk_field [of prefix name fd g child "[]"] by (simp add: set_declared_def)
next
  case False
  then show ?thesis using assms(4) by simp
qed

text \<open>What each entry assigns when the file it was written from is valid: the field, declared if it was.\<close>

lemma entries_assign:
  assumes "valid_file f"
  shows
    "ef_provider g = ef_provider new_file \<Longrightarrow> walk g (scalar_entry f ''cloud.provider'' ''provider'' (ef_provider f)) ''cloud'' = Inr (g\<lparr>ef_provider := ef_provider f, ef_declared := ef_declared g \<union> ({''cloud.provider''} \<inter> ef_declared f)\<rparr>)"
    "ef_projects g = ef_projects new_file \<Longrightarrow> walk g (list_entry f ''cloud.projects'' ''projects'' (ef_projects f)) ''cloud'' = Inr (g\<lparr>ef_projects := ef_projects f, ef_declared := ef_declared g \<union> ({''cloud.projects''} \<inter> ef_declared f)\<rparr>)"
    "ef_addr g = ef_addr new_file \<Longrightarrow> walk g (scalar_entry f ''emulator.addr'' ''addr'' (ef_addr f)) ''emulator'' = Inr (g\<lparr>ef_addr := ef_addr f, ef_declared := ef_declared g \<union> ({''emulator.addr''} \<inter> ef_declared f)\<rparr>)"
    "ef_state g = ef_state new_file \<Longrightarrow> walk g (scalar_entry f ''emulator.state'' ''state'' (ef_state f)) ''emulator'' = Inr (g\<lparr>ef_state := ef_state f, ef_declared := ef_declared g \<union> ({''emulator.state''} \<inter> ef_declared f)\<rparr>)"
    "ef_contracts g = ef_contracts new_file \<Longrightarrow> walk g (scalar_entry f ''emulator.contracts'' ''contracts'' (ef_contracts f)) ''emulator'' = Inr (g\<lparr>ef_contracts := ef_contracts f, ef_declared := ef_declared g \<union> ({''emulator.contracts''} \<inter> ef_declared f)\<rparr>)"
    "ef_log_level g = ef_log_level new_file \<Longrightarrow> walk g (scalar_entry f ''emulator.log_level'' ''log_level'' (ef_log_level f)) ''emulator'' = Inr (g\<lparr>ef_log_level := ef_log_level f, ef_declared := ef_declared g \<union> ({''emulator.log_level''} \<inter> ef_declared f)\<rparr>)"
    "ef_cleanup g = ef_cleanup new_file \<Longrightarrow> walk g (scalar_entry f ''emulator.cleanup'' ''cleanup'' (if ef_cleanup f then ''true'' else ''false'')) ''emulator'' = Inr (g\<lparr>ef_cleanup := ef_cleanup f, ef_declared := ef_declared g \<union> ({''emulator.cleanup''} \<inter> ef_declared f)\<rparr>)"
    "ef_env g = ef_env new_file \<Longrightarrow> walk g (map_entry f ''emulator.env'' ''env'' (ef_env f)) ''emulator'' = Inr (g\<lparr>ef_env := sort_key fst (ef_env f), ef_declared := ef_declared g \<union> ({''emulator.env''} \<inter> ef_declared f)\<rparr>)"
    "ef_mode g = ef_mode new_file \<Longrightarrow> walk g (scalar_entry f ''runtime.mode'' ''mode'' (ef_mode f)) ''runtime'' = Inr (g\<lparr>ef_mode := ef_mode f, ef_declared := ef_declared g \<union> ({''runtime.mode''} \<inter> ef_declared f)\<rparr>)"
    "ef_images g = ef_images new_file \<Longrightarrow> walk g (list_entry f ''runtime.images'' ''images'' (ef_images f)) ''runtime'' = Inr (g\<lparr>ef_images := ef_images f, ef_declared := ef_declared g \<union> ({''runtime.images''} \<inter> ef_declared f)\<rparr>)"
    "ef_load g = ef_load new_file \<Longrightarrow> walk g (scalar_entry f ''snapshot.load'' ''load'' (ef_load f)) ''snapshot'' = Inr (g\<lparr>ef_load := ef_load f, ef_declared := ef_declared g \<union> ({''snapshot.load''} \<inter> ef_declared f)\<rparr>)"
    "ef_engine g = ef_engine new_file \<Longrightarrow> walk g (scalar_entry f ''iac.engine'' ''engine'' (ef_engine f)) ''iac'' = Inr (g\<lparr>ef_engine := ef_engine f, ef_declared := ef_declared g \<union> ({''iac.engine''} \<inter> ef_declared f)\<rparr>)"
    "ef_directory g = ef_directory new_file \<Longrightarrow> walk g (scalar_entry f ''iac.directory'' ''directory'' (ef_directory f)) ''iac'' = Inr (g\<lparr>ef_directory := ef_directory f, ef_declared := ef_declared g \<union> ({''iac.directory''} \<inter> ef_declared f)\<rparr>)"
    "ef_vars g = ef_vars new_file \<Longrightarrow> walk g (map_entry f ''iac.vars'' ''vars'' (ef_vars f)) ''iac'' = Inr (g\<lparr>ef_vars := sort_key fst (ef_vars f), ef_declared := ef_declared g \<union> ({''iac.vars''} \<inter> ef_declared f)\<rparr>)"
    "ef_ready g = ef_ready new_file \<Longrightarrow> walk g (list_entry f ''ready'' ''ready'' (ef_ready f)) [] = Inr (g\<lparr>ef_ready := ef_ready f, ef_declared := ef_declared g \<union> ({''ready''} \<inter> ef_declared f)\<rparr>)"
proof -
  note u = assms [unfolded valid_file_def]
  show "walk g (scalar_entry f ''cloud.provider'' ''provider'' (ef_provider f)) ''cloud'' = Inr (g\<lparr>ef_provider := ef_provider f, ef_declared := ef_declared g \<union> ({''cloud.provider''} \<inter> ef_declared f)\<rparr>)" if "ef_provider g = ef_provider new_file"
    unfolding scalar_entry_def
    by (rule walk_entry [OF fields_found(2)])
      (use u that in \<open>auto simp: child_path_def assign_provider_def scalar_into_def scalar_one_of_def scalar_bool_def new_file_def\<close>)
  show "walk g (list_entry f ''cloud.projects'' ''projects'' (ef_projects f)) ''cloud'' = Inr (g\<lparr>ef_projects := ef_projects f, ef_declared := ef_declared g \<union> ({''cloud.projects''} \<inter> ef_declared f)\<rparr>)" if "ef_projects g = ef_projects new_file"
    unfolding list_entry_def
    by (rule walk_entry [OF fields_found(3)])
      (use u that in \<open>auto simp: child_path_def assign_projects_def scalar_values_def images_taken [THEN iffD2] new_file_def\<close>)
  show "walk g (scalar_entry f ''emulator.addr'' ''addr'' (ef_addr f)) ''emulator'' = Inr (g\<lparr>ef_addr := ef_addr f, ef_declared := ef_declared g \<union> ({''emulator.addr''} \<inter> ef_declared f)\<rparr>)" if "ef_addr g = ef_addr new_file"
    unfolding scalar_entry_def
    by (rule walk_entry [OF fields_found(4)])
      (use u that in \<open>auto simp: child_path_def assign_addr_def scalar_into_def scalar_one_of_def scalar_bool_def new_file_def\<close>)
  show "walk g (scalar_entry f ''emulator.state'' ''state'' (ef_state f)) ''emulator'' = Inr (g\<lparr>ef_state := ef_state f, ef_declared := ef_declared g \<union> ({''emulator.state''} \<inter> ef_declared f)\<rparr>)" if "ef_state g = ef_state new_file"
    unfolding scalar_entry_def
    by (rule walk_entry [OF fields_found(5)])
      (use u that in \<open>auto simp: child_path_def assign_state_def scalar_into_def scalar_one_of_def scalar_bool_def new_file_def\<close>)
  show "walk g (scalar_entry f ''emulator.contracts'' ''contracts'' (ef_contracts f)) ''emulator'' = Inr (g\<lparr>ef_contracts := ef_contracts f, ef_declared := ef_declared g \<union> ({''emulator.contracts''} \<inter> ef_declared f)\<rparr>)" if "ef_contracts g = ef_contracts new_file"
    unfolding scalar_entry_def
    by (rule walk_entry [OF fields_found(6)])
      (use u that in \<open>auto simp: child_path_def assign_contracts_def scalar_into_def scalar_one_of_def scalar_bool_def new_file_def\<close>)
  show "walk g (scalar_entry f ''emulator.log_level'' ''log_level'' (ef_log_level f)) ''emulator'' = Inr (g\<lparr>ef_log_level := ef_log_level f, ef_declared := ef_declared g \<union> ({''emulator.log_level''} \<inter> ef_declared f)\<rparr>)" if "ef_log_level g = ef_log_level new_file"
    unfolding scalar_entry_def
    by (rule walk_entry [OF fields_found(7)])
      (use u that in \<open>auto simp: child_path_def assign_log_level_def scalar_into_def scalar_one_of_def scalar_bool_def new_file_def\<close>)
  show "walk g (scalar_entry f ''emulator.cleanup'' ''cleanup'' (if ef_cleanup f then ''true'' else ''false'')) ''emulator'' = Inr (g\<lparr>ef_cleanup := ef_cleanup f, ef_declared := ef_declared g \<union> ({''emulator.cleanup''} \<inter> ef_declared f)\<rparr>)" if "ef_cleanup g = ef_cleanup new_file"
    unfolding scalar_entry_def
    by (rule walk_entry [OF fields_found(8)])
      (use u that in \<open>auto simp: child_path_def assign_cleanup_def scalar_into_def scalar_one_of_def scalar_bool_def new_file_def\<close>)
  show "walk g (map_entry f ''emulator.env'' ''env'' (ef_env f)) ''emulator'' = Inr (g\<lparr>ef_env := sort_key fst (ef_env f), ef_declared := ef_declared g \<union> ({''emulator.env''} \<inter> ef_declared f)\<rparr>)" if "ef_env g = ef_env new_file"
    unfolding map_entry_def
    by (rule walk_entry [OF fields_found(9)])
      (use u that in \<open>auto simp: child_path_def assign_env_def scalar_map_def sorted_vars new_file_def\<close>)
  show "walk g (scalar_entry f ''runtime.mode'' ''mode'' (ef_mode f)) ''runtime'' = Inr (g\<lparr>ef_mode := ef_mode f, ef_declared := ef_declared g \<union> ({''runtime.mode''} \<inter> ef_declared f)\<rparr>)" if "ef_mode g = ef_mode new_file"
    unfolding scalar_entry_def
    by (rule walk_entry [OF fields_found(10)])
      (use u that in \<open>auto simp: child_path_def assign_mode_def scalar_into_def scalar_one_of_def scalar_bool_def new_file_def\<close>)
  show "walk g (list_entry f ''runtime.images'' ''images'' (ef_images f)) ''runtime'' = Inr (g\<lparr>ef_images := ef_images f, ef_declared := ef_declared g \<union> ({''runtime.images''} \<inter> ef_declared f)\<rparr>)" if "ef_images g = ef_images new_file"
    unfolding list_entry_def
    by (rule walk_entry [OF fields_found(11)])
      (use u that in \<open>auto simp: child_path_def assign_images_def scalar_values_def images_taken [THEN iffD2] new_file_def\<close>)
  show "walk g (scalar_entry f ''snapshot.load'' ''load'' (ef_load f)) ''snapshot'' = Inr (g\<lparr>ef_load := ef_load f, ef_declared := ef_declared g \<union> ({''snapshot.load''} \<inter> ef_declared f)\<rparr>)" if "ef_load g = ef_load new_file"
    unfolding scalar_entry_def
    by (rule walk_entry [OF fields_found(12)])
      (use u that in \<open>auto simp: child_path_def assign_load_def scalar_into_def scalar_one_of_def scalar_bool_def new_file_def\<close>)
  show "walk g (scalar_entry f ''iac.engine'' ''engine'' (ef_engine f)) ''iac'' = Inr (g\<lparr>ef_engine := ef_engine f, ef_declared := ef_declared g \<union> ({''iac.engine''} \<inter> ef_declared f)\<rparr>)" if "ef_engine g = ef_engine new_file"
    unfolding scalar_entry_def
    by (rule walk_entry [OF fields_found(13)])
      (use u that in \<open>auto simp: child_path_def assign_engine_def scalar_into_def scalar_one_of_def scalar_bool_def new_file_def\<close>)
  show "walk g (scalar_entry f ''iac.directory'' ''directory'' (ef_directory f)) ''iac'' = Inr (g\<lparr>ef_directory := ef_directory f, ef_declared := ef_declared g \<union> ({''iac.directory''} \<inter> ef_declared f)\<rparr>)" if "ef_directory g = ef_directory new_file"
    unfolding scalar_entry_def
    by (rule walk_entry [OF fields_found(14)])
      (use u that in \<open>auto simp: child_path_def assign_directory_def scalar_into_def scalar_one_of_def scalar_bool_def new_file_def\<close>)
  show "walk g (map_entry f ''iac.vars'' ''vars'' (ef_vars f)) ''iac'' = Inr (g\<lparr>ef_vars := sort_key fst (ef_vars f), ef_declared := ef_declared g \<union> ({''iac.vars''} \<inter> ef_declared f)\<rparr>)" if "ef_vars g = ef_vars new_file"
    unfolding map_entry_def
    by (rule walk_entry [OF fields_found(15)])
      (use u that in \<open>auto simp: child_path_def assign_vars_def scalar_map_def sorted_vars new_file_def\<close>)
  show "walk g (list_entry f ''ready'' ''ready'' (ef_ready f)) [] = Inr (g\<lparr>ef_ready := ef_ready f, ef_declared := ef_declared g \<union> ({''ready''} \<inter> ef_declared f)\<rparr>)" if "ef_ready g = ef_ready new_file"
    unfolding list_entry_def
    by (rule walk_entry [OF fields_found(16)])
      (use u that in \<open>auto simp: child_path_def assign_ready_def scalar_values_def images_taken [THEN iffD2] new_file_def\<close>)
qed

definition normal_file :: "env_file \<Rightarrow> env_file" where
  "normal_file f = f\<lparr>ef_path := [], ef_env := sort_key fst (ef_env f), ef_vars := sort_key fst (ef_vars f)\<rparr>"

lemma version_walk: "walk new_file [(''version'', Scalar 0 (itoa 1))] [] = Inr (new_file\<lparr>ef_version := 1, ef_declared := {''version''}\<rparr>)"
proof -
  have "atoi (itoa 1) = Some 1" by code_simp
  then show ?thesis
    using walk_field [of "[]" "''version''" _ new_file "Scalar 0 (itoa 1)" "[]"] fields_found(1)
    by (simp add: child_path_def assign_version_def scalar_int_def set_declared_def new_file_def)
qed

lemma branches_are: "is_branch ''cloud''" "is_branch ''emulator''" "is_branch ''runtime''" "is_branch ''snapshot''" "is_branch ''iac''"
  by (simp_all add: is_branch_def branches_def)

lemma walk_entries:
  assumes "valid_file f" "ef_version f = 1" "ef_declared f \<subseteq> fd_path ` set env_fields"
  shows "walk new_file (entries f) [] = Inr (normal_file f)"
proof -
  note e = entries_assign [OF assms(1)]
  have v: "''version'' \<in> ef_declared f" using assms(1,2) unfolding valid_file_def by (cases "''version'' \<in> ef_declared f") simp_all
  have d: "insert ''version'' ({''cloud.provider''} \<inter> ef_declared f \<union>
      {''cloud.projects''} \<inter> ef_declared f \<union>
      {''emulator.addr''} \<inter> ef_declared f \<union>
      {''emulator.state''} \<inter> ef_declared f \<union>
      {''emulator.contracts''} \<inter> ef_declared f \<union>
      {''emulator.log_level''} \<inter> ef_declared f \<union>
      {''emulator.cleanup''} \<inter> ef_declared f \<union>
      {''emulator.env''} \<inter> ef_declared f \<union>
      {''runtime.mode''} \<inter> ef_declared f \<union>
      {''runtime.images''} \<inter> ef_declared f \<union>
      {''snapshot.load''} \<inter> ef_declared f \<union>
      {''iac.engine''} \<inter> ef_declared f \<union>
      {''iac.directory''} \<inter> ef_declared f \<union>
      {''iac.vars''} \<inter> ef_declared f \<union>
      {''ready''} \<inter> ef_declared f) = ef_declared f"
  proof -
    have p: "fd_path ` set env_fields = insert ''version'' ({''cloud.provider''} \<union>
      {''cloud.projects''} \<union>
      {''emulator.addr''} \<union>
      {''emulator.state''} \<union>
      {''emulator.contracts''} \<union>
      {''emulator.log_level''} \<union>
      {''emulator.cleanup''} \<union>
      {''emulator.env''} \<union>
      {''runtime.mode''} \<union>
      {''runtime.images''} \<union>
      {''snapshot.load''} \<union>
      {''iac.engine''} \<union>
      {''iac.directory''} \<union>
      {''iac.vars''} \<union>
      {''ready''})"
      by (simp add: env_fields_def del: Un_insert_right)
    show ?thesis
      using Int_absorb1 [OF assms(3)] unfolding p Int_insert_left_if1 [OF v] Int_Un_distrib2 .
  qed
  show ?thesis
    unfolding entries_def cloud_entries_def emulator_entries_def runtime_entries_def snapshot_entries_def iac_entries_def assms(2)
    by (simp add: walk_append version_walk walk_block_entry branches_are e d del: walk.simps(2) append.simps split del: if_split)
      (rule env_file.equality; simp add: normal_file_def new_file_def assms(2))
qed

text \<open>Line numbers are for refusals only.\<close>

lemma unnumbered_parts [simp]: "kind_of (unnumbered n) = kind_of n" "scalar_of (unnumbered n) = scalar_of n"
  by (cases n; simp)+

lemma names_from_unnumbered: "names_from check (map (\<lambda>(k, v). (k, unnumbered v)) kvs) = names_from check kvs"
  by (induction check kvs rule: names_from.induct) (auto split: option.split)

lemma taken_unnumbered [simp]:
  "scalar_into (unnumbered n) = scalar_into n" "scalar_int (unnumbered n) = scalar_int n" "scalar_bool (unnumbered n) = scalar_bool n"
  "scalar_one_of (unnumbered n) allowed = scalar_one_of n allowed" "scalar_values (unnumbered n) = scalar_values n"
  "scalar_map (unnumbered n) check = scalar_map n check"
proof -
  show "scalar_into (unnumbered n) = scalar_into n" "scalar_int (unnumbered n) = scalar_int n" "scalar_bool (unnumbered n) = scalar_bool n"
    "scalar_one_of (unnumbered n) allowed = scalar_one_of n allowed"
    by (simp_all only: scalar_into_def scalar_int_def scalar_bool_def scalar_one_of_def unnumbered_parts)
  show "scalar_values (unnumbered n) = scalar_values n" "scalar_map (unnumbered n) check = scalar_map n check"
    by (cases n; simp add: scalar_values_def scalar_map_def names_from_unnumbered comp_def)+
qed

lemma every_assign_unnumbered: "list_all (\<lambda>fd. \<forall>f n. fd_assign fd f (unnumbered n) = fd_assign fd f n) env_fields"
  by (simp add: env_fields_def assign_defs)

lemma assign_same: "fd \<in> set env_fields \<Longrightarrow> unnumbered n = unnumbered m \<Longrightarrow> fd_assign fd f n = fd_assign fd f m"
  using every_assign_unnumbered unfolding list_all_iff by metis

lemma same_fields_as_Cons: "same_fields_as lws ((k, v) # kvs) \<Longrightarrow> \<exists>w rest. lws = (k, w) # rest \<and> unnumbered w = unnumbered v \<and> same_fields_as rest kvs"
  by (cases lws) auto

lemma unnumbered_Mapping: "unnumbered w = unnumbered (Mapping l sub) \<Longrightarrow> \<exists>n kvs. w = Mapping n kvs \<and> same_fields_as kvs sub"
  by (cases w) (auto simp: same_fields_as_def)

lemma walk_same: "walk f kvs prefix = Inr g \<Longrightarrow> same_fields_as lws kvs \<Longrightarrow> walk f lws prefix = Inr g"
proof (induction arbitrary: lws rule: walk_induct)
  case (Branch f name l sub kvs prefix h g)
  obtain w rest where w: "lws = (name, w) # rest" "unnumbered w = unnumbered (Mapping l sub)" "same_fields_as rest kvs"
    using same_fields_as_Cons [OF Branch.prems] by blast
  obtain n sub' where "w = Mapping n sub'" "same_fields_as sub' sub" using unnumbered_Mapping [OF w(2)] by blast
  then show ?case using w Branch.IH Branch.hyps(2) by (simp add: walk_branch del: walk.simps(2))
next
  case (Field f name child kvs prefix fd h g)
  obtain w rest where w: "lws = (name, w) # rest" "unnumbered w = unnumbered child" "same_fields_as rest kvs"
    using same_fields_as_Cons [OF Field.prems] by blast
  have "fd_assign fd f w = Inr h" using assign_same [OF _ w(2)] field_by_path_in [OF Field.hyps(1)] Field.hyps(2) by simp
  then show ?case using w Field.IH Field.hyps(1) by (simp add: walk_field del: walk.simps(2))
qed simp

section \<open>The round trip\<close>

lemma entry_names:
  "fst ` set (scalar_entry f path name v) = (if path \<in> ef_declared f then {name} else {})"
  "fst ` set (list_entry f path name vs) = (if path \<in> ef_declared f then {name} else {})"
  "fst ` set (map_entry f path name ws) = (if path \<in> ef_declared f then {name} else {})"
  "fst ` set (block_entry name sub) = (if sub = [] then {} else {name})"
  by (simp_all add: scalar_entry_def list_entry_def map_entry_def block_entry_def)

lemma apart:
  "x \<noteq> y \<Longrightarrow> (if A then {x} else {}) \<inter> (if B then {y} else {}) = {}"
  "x \<noteq> y \<Longrightarrow> (if A then {} else {x}) \<inter> (if B then {y} else {}) = {}"
  "x \<noteq> y \<Longrightarrow> (if A then {} else {x}) \<inter> (if B then {} else {y}) = {}"
  "x \<noteq> y \<Longrightarrow> {x} \<inter> (if B then {} else {y}) = {}"
  "x \<noteq> y \<Longrightarrow> {x} \<inter> (if B then {y} else {}) = {}"
  by simp_all

lemmas entry_names_apart = good_fields_append set_append image_Un Int_Un_distrib Un_empty entry_names apart

lemma good_block_entry: "good_name name \<Longrightarrow> good_fields q sub \<Longrightarrow> good_fields q (block_entry name sub)"
  by (simp add: block_entry_def)

lemma good_entries:
  assumes "valid_file f" "ef_version f = 1" "ef_log_level f \<in> set log_levels" "survives_file print f"
  shows "good_fields (quote_value print) (entries f)"
proof -
  note u = assms(1) [unfolded valid_file_def]
  note n = good_names [unfolded list.pred_inject]
  have w: "survives v" if "v \<in> set (engines @ runtime_modes @ log_levels @ [''true'', ''false'', itoa 1])" for v
    using words_survive that unfolding list_all_iff by blast
  have s: "survives (ef_provider f)" "survives (ef_addr f)" "survives (ef_state f)" "survives (ef_contracts f)" "survives (ef_load f)" "survives (ef_directory f)"
    "list_all (\<lambda>(k, v). survives v) (ef_env f)" "list_all (\<lambda>(k, v). survives v) (ef_vars f)"
    "list_all (survives_item print) (ef_projects f)" "list_all (survives_item print) (ef_images f)" "list_all (survives_item print) (ef_ready f)"
    using assms(4) by (simp_all add: survives_file_def)
  have m: "''runtime.mode'' \<in> ef_declared f \<longrightarrow> survives (ef_mode f)" "''iac.engine'' \<in> ef_declared f \<longrightarrow> survives (ef_engine f)"
    "survives (ef_log_level f)" "survives (if ef_cleanup f then ''true'' else ''false'')" "survives (itoa 1)"
    using u assms(3) by (auto intro: w)
  have e: "''emulator.env'' \<in> ef_declared f \<longrightarrow> good_vars check_env_name (ef_env f)" "''iac.vars'' \<in> ef_declared f \<longrightarrow> good_vars check_var_name (ef_vars f)"
    and l: "''cloud.projects'' \<in> ef_declared f \<longrightarrow> ef_projects f \<noteq> []" "''runtime.images'' \<in> ef_declared f \<longrightarrow> ef_images f \<noteq> []"
      "''ready'' \<in> ef_declared f \<longrightarrow> ef_ready f \<noteq> []"
    using u by simp_all
  have env: "check_env_name k = None \<Longrightarrow> good_name k" and var: "check_var_name k = None \<Longrightarrow> good_name k" for k
    using checked_names checked_names_good by auto
  have "good_fields (quote_value print) (cloud_entries f)"
    using good_scalar_entry [of "''cloud.provider''" f "ef_provider f" "''provider''" print] good_list_entry [of "''cloud.projects''" f "ef_projects f" print "''projects''"] s n l
    by (simp add: cloud_entries_def entry_names_apart split del: if_split)
  moreover have "good_fields (quote_value print) (runtime_entries f)"
    using good_scalar_entry [of "''runtime.mode''" f "ef_mode f" "''mode''" print] good_list_entry [of "''runtime.images''" f "ef_images f" print "''images''"] s n l m
    by (simp add: runtime_entries_def entry_names_apart split del: if_split)
  moreover have "good_fields (quote_value print) (snapshot_entries f)"
    using good_scalar_entry [of "''snapshot.load''" f "ef_load f" "''load''" print] s n by (simp add: snapshot_entries_def)
  moreover have "good_fields (quote_value print) (iac_entries f)"
    using good_scalar_entry [of "''iac.engine''" f "ef_engine f" "''engine''" print] good_scalar_entry [of "''iac.directory''" f "ef_directory f" "''directory''" print]
      good_map_entry [of "''iac.vars''" f check_var_name "ef_vars f" "''vars''" print] s n e m var
    by (simp add: iac_entries_def entry_names_apart split del: if_split)
  moreover have "good_fields (quote_value print) (emulator_entries f)"
    using good_scalar_entry [of "''emulator.addr''" f "ef_addr f" "''addr''" print] good_scalar_entry [of "''emulator.state''" f "ef_state f" "''state''" print]
      good_scalar_entry [of "''emulator.contracts''" f "ef_contracts f" "''contracts''" print] good_scalar_entry [of "''emulator.log_level''" f "ef_log_level f" "''log_level''" print]
      good_scalar_entry [of "''emulator.cleanup''" f "if ef_cleanup f then ''true'' else ''false''" "''cleanup''" print]
      good_map_entry [of "''emulator.env''" f check_env_name "ef_env f" "''env''" print] s n e m env
    by (simp add: emulator_entries_def entry_names_apart split del: if_split)
  moreover have "good_fields (quote_value print) (list_entry f ''ready'' ''ready'' (ef_ready f))"
    using good_list_entry [of "''ready''" f "ef_ready f" print "''ready''"] s n l by simp
  moreover have "good_fields (quote_value print) [(''version'', Scalar 0 (itoa 1))]"
    using n m survivors_are_good by simp
  ultimately show ?thesis
    using n by (simp add: entries_def assms(2) entry_names_apart good_block_entry del: good_fields.simps append.simps split del: if_split)
qed

lemma accepted_declares: "parse_env src = Some (Inr f) \<Longrightarrow> ef_declared f \<subseteq> fd_path ` set env_fields"
  using parse_env_steps [of src f] walk_declares [of new_file] by (fastforce simp: new_file_def)

text \<open>
  C11. A declaration survives being written out: when an accepted file holds only values
  that survive their writing, \<open>Parse\<close> of what \<open>Render\<close> writes is accepted and is the same
  declaration, every field, default and mark of what was declared, with the variables in
  the order of their names.
\<close>

theorem a_declaration_survives_rendering:
  assumes "parse_env src = Some (Inr f)" "survives_file print f"
  shows "parse_env (render_env print f) = Some (Inr (normal_file f))"
proof -
  have v: "valid_file f" "ef_version f = 1" "check_file f = None" using accepted_valid [OF assms(1)] by (simp_all add: version_read_def)
  have log: "ef_log_level f \<in> set log_levels" using v(3) by (auto simp: check_file_def split: if_split_asm)
  have ne: "entries f \<noteq> []" by (simp add: entries_def)
  obtain n lws where read: "parse_yaml (render_env print f) = Some (Inr (Mapping n lws))" "same_fields_as lws (entries f)"
    using written_document_reads_back [OF good_entries [OF v(1,2) log assms(2)] ne written_lines_kept] render_env_text [OF v(2)]
    by (auto simp: text_lines_def)
  have "walk new_file lws [] = Inr (normal_file f)"
    using walk_same [OF walk_entries [OF v(1,2) accepted_declares [OF assms(1)]] read(2)] .
  moreover have "check_file (normal_file f) = check_file f" by (simp add: check_file_def normal_file_def)
  moreover have "ef_version (normal_file f) = 1" using v(2) by (simp add: normal_file_def)
  ultimately show ?thesis
    using read(1) v(3) by (simp add: parse_env_def accept_document_def fields_of_node_def version_read_def)
qed

section \<open>Examples\<close>

lemma file0_survives: "survives_file (\<lambda>r. True) file0"
  by code_simp

lemma survives_witness: "parse_env (render_env (\<lambda>r. True) file0) = Some (Inr (normal_file file0))"
  by (rule a_declaration_survives_rendering [OF file0_read file0_survives])

section \<open>What does not survive\<close>

text \<open>A quoted value that begins like an anchor is written bare, and refused.\<close>

lemma a_starred_value_is_not_read_back:
  "map_option (map_sum id (\<lambda>f. parse_env (render_env (\<lambda>r. True) f)))
     (parse_env (text_of_lines [''version: 1'', ''cloud:'', ''  provider: '' @ [CHR 0x22] @ ''*a'' @ [CHR 0x22]])) =
   Some (Inr (Some (Inl (NotRead (AnchorOrAlias 4)))))"
  by code_simp

text \<open>A quote and a hash in one value: its writing is cut at the hash.\<close>

lemma a_hash_behind_a_quote_is_cut:
  "parse_env (render_env (\<lambda>r. True) (file0\<lparr>ef_ready := [''http:/a'' @ [CHR 0x22] @ '' #b'']\<rparr>)) = Some (Inl (NotRead (Unreadable 9)))"
  by code_simp

end
