(* ===== verification/Spec2Isabelle.thy ===== *)
theory Spec2Isabelle
  imports StoreSpec Ipam Network Coalesce Serialise Sshkey Firewall Faults Evidence Claims Expect Images Cloudinit Driver Binding GroupSync Reconcile CallBook OscInvariants OscReads OscSeq Transcript RenderEnv
begin

text \<open>
  A verification library for feint, a local emulator of cloud APIs written in Go.

  The program. Packs, one per cloud, answer HTTP requests of that cloud's clients. They
  keep what a client created in one store of neutral resources, take addresses from
  allocators, and back servers with machines through a driver; the emulator core mounts
  their routes, injects the faults a test asks for and keeps the evidence of what was
  exercised. Around them are tools that record a real cloud, compare shapes and replay.

  What models what (files under \<open>src/internal/\<close>).

  \<^item> Ground. Prelude (lists, maps, and what is used of \<open>strings\<close>, \<open>strconv\<close>, \<open>slices\<close>),
    Encoding (\<open>base64\<close>, \<open>hex\<close>, \<open>md5\<close>), Netip and NetipText (\<open>net/netip\<close>: addresses and
    prefixes as values and as text).
  \<^item> State. Resource (\<open>core/resource/resource.go\<close>), Store (\<open>core/store/store.go\<close>, every
    method a function on the state of the map and its counter), StoreSpec (its tally over
    any history of the methods, \<open>Update\<close> and \<open>Restore\<close> included, and what merging and
    restoring promise).
  \<^item> Addresses. Network (\<open>core/network/network.go\<close>), Ipam (\<open>ipam.go\<close>, 32-bit arithmetic at
    its width).
  \<^item> Concurrency. Coalesce and Serialise (\<open>core/serialise\<close>, step relations with one step
    per critical section), Requests (handlers as trees of atomic steps under one named
    lock, and the rule that carries an invariant to every interleaving of them).
  \<^item> Machines. Driver (the driver contract, the recorder), World (the state the machine
    layer threads), Placement (\<open>core/machine/placement.go\<close>), Binding (\<open>binding.go\<close> and
    the actions over it), Firewall (rule sets and their translation, compared by the
    packets a rule hits before and after), GroupSync
    (\<open>groupsync.go\<close>, \<open>isolate.go\<close>), Claims and Expect (\<open>claims.go\<close>, \<open>shape.go\<close>,
    \<open>plan.go\<close>: what a plan claims and when it contradicts itself), Reconcile (\<open>plan.go\<close>:
    boots, replays, repairs), CallBook (any driver behind a book of its calls and readings,
    and what a boot and a check write in it), Images (\<open>images.go\<close>), Cloudinit (\<open>core/cloudinit\<close>),
    Sshkey (\<open>core/sshkey\<close>).
  \<^item> Emulator core. Faults (\<open>core/emulator/faults.go\<close>), Evidence (\<open>assert.go\<close>: the
    axes as properties of interleaved requests).
  \<^item> The Outscale pack (\<open>providers/outscale\<close>). Outscale (state, answers, filters, pages,
    tags, the allocator of a Subnet), OscNets, OscRoutes, OscPeerings (the handlers),
    OscPlane (thirty of the routes, the abstract machine of atomic guarded steps),
    OscServe (every handler refines that machine however requests interleave, and every
    request can be answered), OscInvariants (invariants of the machine carried back to
    the handlers, and schedules that break what no invariant protects), OscReads (what
    every read promises), OscSeq (a calculus of postconditions for undisturbed requests).

  \<^item> The recording proxy (\<open>proxy/record.go\<close>, \<open>redact.go\<close>, \<open>placeholder.go\<close>, \<open>writer.go\<close>).
    Json (UTF-8 and the text of a JSON document), Redact (what is written down of an
    exchange, and what that tells of the secrets in it), Transcript (the writer's queue
    and goroutine as steps).

  \<^item> Environment files (\<open>environment/\<close>). Strconv (\<open>Atoi\<close>, \<open>Quote\<close> and \<open>Unquote\<close>, which
    undo each other), Yaml (\<open>yaml.go\<close>: the reader of a declaration, that it returns on
    every text and that what it reads is well formed), Environment (\<open>environment.go\<close>,
    \<open>ready.go\<close>: the schema, the walk that assigns or refuses every key, what an accepted
    declaration guarantees), RenderEnv (\<open>render.go\<close>, and when what it writes is read back).

  How the model stands to the code. A Go struct is a record, an enumeration a datatype,
  a map an association list or a partial map, an error a value of a sum; a mutex is a
  step that waits; a method that mutates returns the new state. Machine integers are
  words where they may wrap, and Go's \<open>int\<close> is an integer where nothing comes near its
  bounds. Strings are lists of bytes. Clocks, sources of identifiers and SHA-256 are
  parameters. A driver, the runtime behind it included, is a record of functions over a
  host state; what is proved of the machine layer holds for every driver, or for the
  recorder where the statement says so.

  Interfaces. \<open>shared_plane\<close> (Requests) is the rely and guarantee of handlers over one
  state, interpreted in OscPlane on the pack's store; \<open>machine_invariant\<close> (OscServe) is
  what an invariant of the pack's machine has to keep, interpreted in OscInvariants
  four times; \<open>recording\<close> (Reconcile) and \<open>auditing\<close> (CallBook) are reconcilers bound to
  the recorder and to any driver behind a book.

  Bounds. No fuel is used: loops are structural or have a measure. The loop over the
  lines of a block is a partial function that may not return, and reading is proved to
  return (Yaml). Schedules are lists of any length of turns of any number of requests; a
  turn that cannot be taken leaves everything as it is.

  Not modelled, and why. The Incus driver, the proxy's TLS, the command line, the HTTP
  plumbing and where a declaration lies on the disk are input and output against
  services and the host; pages of HTML and declaration tables have no behaviour of
  their own. The human text of errors and log lines is left out throughout. Of the
  Outscale pack the machines, volumes, images, load balancers, network interfaces and
  public addresses, and all of the Scaleway and Exoscale packs, are not modelled; the
  Nets read of them what the store holds. The isolation pass is run by each request in
  the model of the pack, where the code coalesces passes (Coalesce.thy shows that a call
  returns after a pass that saw it).
\<close>

end
